(* ===== verification/Prelude.thy ===== *)
theory Prelude
  imports Main "HOL-Library.Word"
begin

unbundle bit_operations_syntax

text \<open>
  Shared vocabulary of the development: the C integer types of the library as words, the status
  codes of \<^verbatim>\<open>include/dvbs2x_types.h\<close>, conversions between bytes and the library's
  one-bit-per-byte arrays, and three interfaces that several components implement:
  \<^item> \<open>keystream\<close>: a loop that draws one key value per element and applies it
    (the BB scrambler and the PL scramblers);
  \<^item> \<open>linear_register\<close>: a register that is linear over XOR (the CRCs);
  \<^item> \<open>elem_fifo\<close> and \<open>batch_fifo\<close>: bounded first-in first-out buffers
    (the streaming ring buffer, the receiver's block queue).
\<close>

section \<open>Machine integers and status codes\<close>

type_synonym u8 = "8 word"
type_synonym u16 = "16 word"
type_synonym u32 = "32 word"
type_synonym u64 = "64 word"

text \<open>Rewrite rules that evaluate the bit loops of the code, and the facts every component's
  length arguments share.\<close>

named_theorems bit_evals
named_theorems lens

datatype dvbs2x_error =
    ERR_NOMEM | ERR_PARAM | ERR_NOSYNC | ERR_FEC | ERR_CRC | ERR_SHORT | ERR_CANCELLED

text \<open>The C value of a status; success is \<^verbatim>\<open>DVBS2X_OK\<close>, which is 0.\<close>

fun err_code :: "dvbs2x_error \<Rightarrow> int" where
  "err_code ERR_NOMEM = -1"
| "err_code ERR_PARAM = -2"
| "err_code ERR_NOSYNC = -3"
| "err_code ERR_FEC = -4"
| "err_code ERR_CRC = -5"
| "err_code ERR_SHORT = -6"
| "err_code ERR_CANCELLED = -7"

lemma err_code_negative: "err_code e < 0"
  by (cases e) simp_all

lemma err_code_inj: "err_code e = err_code e' \<longleftrightarrow> e = e'"
  by (cases e; cases e') simp_all

text \<open>
  Values of type \<^verbatim>\<open>unsigned int\<close> that only serve as sizes and indices are natural numbers;
  \<open>usub\<close> is their C subtraction, which wraps when it goes below zero.
\<close>

definition usub :: "nat \<Rightarrow> nat \<Rightarrow> nat" where
  "usub a b = (if b \<le> a then a - b else a + 2 ^ 32 - b)"

lemma usub_ge [simp]: "b \<le> a \<Longrightarrow> usub a b = a - b"
  by (simp add: usub_def)

lemma xor_eq_self_iff: "(a :: 'a::len word) XOR x = a \<longleftrightarrow> x = 0"
proof
  assume "a XOR x = a"
  then have "a XOR (a XOR x) = a XOR a" by simp
  then show "x = 0" by (simp add: xor.assoc [symmetric])
qed simp

lemma xor_right_cancel: "(a :: 'a::len word) XOR c = b XOR c \<longleftrightarrow> a = b"
proof
  assume "a XOR c = b XOR c"
  then have "(a XOR c) XOR c = (b XOR c) XOR c" by simp
  then show "a = b" by (simp add: xor.assoc)
qed simp

lemma unat_of_nat_small: "n < 2 ^ LENGTH('a::len) \<Longrightarrow> unat (of_nat n :: 'a word) = n"
  by (simp add: unat_of_nat)

text \<open>Big-endian 16-bit fields: \<^verbatim>\<open>((uint16_t)hi << 8) | lo\<close>, and the two bytes of a value.\<close>

definition be16 :: "u8 \<Rightarrow> u8 \<Rightarrow> u16" where
  "be16 hi lo = push_bit 8 (ucast hi) OR ucast lo"

definition hi8 :: "'a::len word \<Rightarrow> u8" where
  "hi8 w = ucast (drop_bit 8 w AND 0xFF)"

definition lo8 :: "'a::len word \<Rightarrow> u8" where
  "lo8 w = ucast (w AND 0xFF)"

lemma bit_mask_0xFF: "bit (0xFF :: 'a::len word) n \<longleftrightarrow> n < LENGTH('a) \<and> n < 8"
proof -
  have "bit (mask 8 :: 'a word) n \<longleftrightarrow> n < LENGTH('a) \<and> n < 8"
    by (simp only: bit_mask_iff possible_bit_word)
  then show ?thesis by (simp add: mask_eq_exp_minus_1)
qed

lemma bit_hi8: "bit (hi8 (w :: 'a::len word)) n \<longleftrightarrow> n < 8 \<and> bit w (n + 8)"
  unfolding hi8_def bit_ucast_iff bit_and_iff bit_mask_0xFF bit_drop_bit_eq
  by (auto simp: ac_simps dest: bit_imp_le_length)

lemma bit_lo8: "bit (lo8 (w :: 'a::len word)) n \<longleftrightarrow> n < 8 \<and> bit w n"
  unfolding lo8_def bit_ucast_iff bit_and_iff bit_mask_0xFF
  by (auto dest: bit_imp_le_length)

lemma be16_hi_lo: "be16 (hi8 w) (lo8 w) = ucast w"
  by (rule bit_eqI)
     (auto simp: be16_def bit_or_iff bit_push_bit_iff bit_ucast_iff bit_hi8 bit_lo8)

lemma unat_be16_of_nat:
  assumes "n < 2 ^ 16"
  shows "unat (be16 (hi8 (of_nat n :: u32)) (lo8 (of_nat n :: u32))) = n"
proof -
  have "unat (of_nat n :: u32) = n" using assms by (simp add: unat_of_nat_small)
  then show ?thesis
    using assms by (simp add: be16_hi_lo unsigned_ucast_eq take_bit_nat_eq_self)
qed

section \<open>Lists\<close>

lemma nth_map_upt0: "i < n \<Longrightarrow> map f [0..<n] ! i = f i"
  by simp

lemma foldl_snoc: "foldl f a (xs @ [x]) = f (foldl f a xs) x"
  by simp

lemma list_eq_chunks:
  "length xs = n \<Longrightarrow> length ys = n \<Longrightarrow> (\<And>i. i < n \<Longrightarrow> xs ! i = ys ! i) \<Longrightarrow> xs = ys"
  by (auto intro: nth_equalityI)

lemma take_take_drop_append: "take n xs @ take m (drop n xs) = take (n + m) xs"
  by (simp add: take_add)

text \<open>The bits of a number written as hexadecimal digits, high bit first.\<close>

definition nibbles :: "nat list \<Rightarrow> bool list" where
  "nibbles ds = concat (map (\<lambda>d. [8 \<le> d, 4 \<le> d mod 8, 2 \<le> d mod 4, odd d]) ds)"

text \<open>\<open>overwrite off ys xs\<close> is what \<^verbatim>\<open>memcpy(xs + off, ys, length ys)\<close> leaves in the
  array \<open>xs\<close>, for a copy that fits.\<close>

definition overwrite :: "nat \<Rightarrow> 'a list \<Rightarrow> 'a list \<Rightarrow> 'a list" where
  "overwrite off ys xs = take off xs @ ys @ drop (off + length ys) xs"

lemma length_overwrite [simp, lens]:
  "off + length ys \<le> length xs \<Longrightarrow> length (overwrite off ys xs) = length xs"
  by (simp add: overwrite_def)

lemma overwrite_Nil [simp]: "overwrite off [] xs = xs"
  by (simp add: overwrite_def)

lemma nth_overwrite:
  "off + length ys \<le> length xs \<Longrightarrow> i < length xs \<Longrightarrow>
   overwrite off ys xs ! i = (if off \<le> i \<and> i < off + length ys then ys ! (i - off) else xs ! i)"
  by (auto simp: overwrite_def nth_append min_def not_le not_less)

lemma overwrite_one: "off < length xs \<Longrightarrow> overwrite off [y] xs = xs[off := y]"
  by (simp add: overwrite_def upd_conv_take_nth_drop)

lemma overwrite_snoc:
  "off + length ys < length xs \<Longrightarrow>
   overwrite off (ys @ [y]) xs = (overwrite off ys xs)[off + length ys := y]"
  by (intro nth_equalityI) (auto simp: nth_overwrite nth_list_update nth_append)

lemma overwrite_overwrite_append:
  "off + length ys + length zs \<le> length xs \<Longrightarrow>
   overwrite (off + length ys) zs (overwrite off ys xs) = overwrite off (ys @ zs) xs"
  by (intro nth_equalityI) (auto simp: nth_overwrite nth_append)

lemma take_overwrite:
  "off + length ys \<le> length xs \<Longrightarrow> take (off + length ys) (overwrite off ys xs) = take off xs @ ys"
  by (simp add: overwrite_def)

section \<open>Bytes and one-bit-per-byte arrays\<close>

text \<open>
  The library stores one bit in each \<^verbatim>\<open>uint8_t\<close> of a bit array. \<open>byte_bits\<close> is the inner
  loop \<^verbatim>\<open>(x >> (7 - b)) & 1\<close>, most significant bit first; \<open>bits_byte\<close> is the loop that puts a
  byte together with \<^verbatim>\<open>|= bit << (7 - b)\<close>.
\<close>

definition byte_bits :: "u8 \<Rightarrow> u8 list" where
  "byte_bits x = map (\<lambda>b. drop_bit (7 - b) x AND 1) [0..<8]"

definition bits_byte :: "u8 list \<Rightarrow> u8" where
  "bits_byte bs = foldl (\<lambda>acc b. acc OR push_bit (7 - b) (bs ! b)) 0 [0..<8]"

definition bytes_bits :: "u8 list \<Rightarrow> u8 list" where
  "bytes_bits xs = concat (map byte_bits xs)"

definition bits_bytes :: "nat \<Rightarrow> u8 list \<Rightarrow> u8 list" where
  "bits_bytes n bs = map (\<lambda>i. bits_byte (take 8 (drop (i * 8) bs))) [0..<n]"

lemma length_byte_bits [simp, lens]: "length (byte_bits x) = 8"
  by (simp add: byte_bits_def)

lemma length_bytes_bits [simp, lens]: "length (bytes_bits xs) = 8 * length xs"
  by (induction xs) (simp_all add: bytes_bits_def)

lemma length_bits_bytes [simp, lens]: "length (bits_bytes n bs) = n"
  by (simp add: bits_bytes_def)

lemma upt_0_8: "[0..<8] = [0, 1, 2, 3, 4, 5, 6, 7::nat]"
  by (simp add: upt_rec)

lemma bit_u8_less: "bit (x::u8) n \<Longrightarrow> n < 8"
  using bit_imp_le_length by fastforce

lemma less_8_cases: "(n::nat) < 8 \<Longrightarrow> n = 0 \<or> n = 1 \<or> n = 2 \<or> n = 3 \<or> n = 4 \<or> n = 5 \<or> n = 6 \<or> n = 7"
  by arith

lemma and_1_bit: "(x::u8) AND 1 = of_bool (bit x 0)"
  by (simp add: and_one_eq mod_2_eq_odd bit_0)

lemma byte_bits_eq: "byte_bits x = map (\<lambda>b. of_bool (bit x (7 - b))) [0..<8]"
  by (simp add: byte_bits_def and_1_bit bit_drop_bit_eq)

lemma nth_byte_bits: "b < 8 \<Longrightarrow> byte_bits x ! b = of_bool (bit x (7 - b))"
  by (simp add: byte_bits_eq)

lemma bit_foldl_or:
  "bit (foldl (\<lambda>acc b. acc OR f b) a bs) n \<longleftrightarrow> bit (a::u8) n \<or> (\<exists>b\<in>set bs. bit (f b) n)"
  by (induction bs arbitrary: a) (auto simp: bit_or_iff)

lemma bit_bits_byte:
  assumes "\<And>b. b < 8 \<Longrightarrow> bs ! b = of_bool (P b)"
  shows "bit (bits_byte bs) n \<longleftrightarrow> n < 8 \<and> P (7 - n)"
proof -
  have "bit (bits_byte bs) n \<longleftrightarrow> (\<exists>b<8. bit (push_bit (7 - b) (bs ! b)) n)"
    by (auto simp: bits_byte_def bit_foldl_or)
  also have "\<dots> \<longleftrightarrow> (\<exists>b<8. b + n = 7 \<and> P b)"
    using assms by (force simp: bit_push_bit_iff bit_of_bool_iff)
  also have "\<dots> \<longleftrightarrow> n < 8 \<and> P (7 - n)"
  proof -
    have "b + n = 7 \<longleftrightarrow> n < 8 \<and> b = 7 - n" for b by arith
    then show ?thesis by auto
  qed
  finally show ?thesis .
qed

lemma bits_byte_bits [simp]: "bits_byte (byte_bits x) = x"
  by (rule bit_eqI) (auto simp: bit_bits_byte [where P = "\<lambda>b. bit x (7 - b)"] nth_byte_bits
      dest: bit_u8_less)

lemma byte_bits_in_01: "b \<in> set (byte_bits x) \<Longrightarrow> b = 0 \<or> b = 1"
  by (auto simp: byte_bits_eq)

lemma bytes_bits_Nil [simp]: "bytes_bits [] = []"
  and bytes_bits_Cons: "bytes_bits (x # xs) = byte_bits x @ bytes_bits xs"
  and bytes_bits_append: "bytes_bits (xs @ ys) = bytes_bits xs @ bytes_bits ys"
  by (simp_all add: bytes_bits_def)

lemma take_drop_bytes_bits:
  "i < length xs \<Longrightarrow> take 8 (drop (i * 8) (bytes_bits xs @ rest)) = byte_bits (xs ! i)"
proof (induction xs arbitrary: i)
  case Nil
  then show ?case by simp
next
  case (Cons x xs)
  then show ?case
    by (cases i) (simp_all add: bytes_bits_Cons)
qed

lemma bits_bytes_bits: "n = length xs \<Longrightarrow> bits_bytes n (bytes_bits xs @ rest) = xs"
  by (intro nth_equalityI) (simp_all add: bits_bytes_def take_drop_bytes_bits del: drop_append take_append)

lemma nth_bytes_bits:
  "i < 8 * length xs \<Longrightarrow> bytes_bits xs ! i = drop_bit (7 - i mod 8) (xs ! (i div 8)) AND 1"
proof (induction xs arbitrary: i)
  case Nil
  then show ?case by simp
next
  case (Cons x xs)
  show ?case
  proof (cases "i < 8")
    case True
    then show ?thesis by (simp add: bytes_bits_Cons nth_append byte_bits_def)
  next
    case False
    then obtain j where j: "i = 8 + j" by (metis le_add_diff_inverse not_less)
    have "(8 + j) div 8 = Suc (j div 8)" by simp
    moreover from Cons.prems j have "j < 8 * length xs" by simp
    ultimately show ?thesis
      using Cons.IH [of j] by (simp add: bytes_bits_Cons nth_append j del: div_add_self1)
  qed
qed

section \<open>Key-stream loops\<close>

text \<open>
  The scrambling loops of the library all have one shape: for each element in turn, advance a
  generator, take the value it yields, and rewrite the element with it.  \<open>stream_mapi nxt f n s xs\<close>
  is that loop from index \<open>n\<close> and generator state \<open>s\<close>; it returns the rewritten elements and the
  state the generator is left in.
\<close>

fun stream_mapi ::
  "('s \<Rightarrow> 'k \<times> 's) \<Rightarrow> ('k \<Rightarrow> nat \<Rightarrow> 'a \<Rightarrow> 'b) \<Rightarrow> nat \<Rightarrow> 's \<Rightarrow> 'a list \<Rightarrow> 'b list \<times> 's" where
  "stream_mapi nxt f n s [] = ([], s)"
| "stream_mapi nxt f n s (x # xs) =
     (let (k, s') = nxt s; (ys, s'') = stream_mapi nxt f (Suc n) s' xs in (f k n x # ys, s''))"

lemma length_stream_mapi [simp, lens]: "length (fst (stream_mapi nxt f n s xs)) = length xs"
  by (induction xs arbitrary: n s) (simp_all add: split_beta)

lemma snd_stream_mapi: "snd (stream_mapi nxt f n s xs) = ((\<lambda>s. snd (nxt s)) ^^ length xs) s"
  by (induction xs arbitrary: n s) (simp_all add: split_beta funpow_Suc_right del: funpow.simps(2))

lemma nth_stream_mapi:
  "i < length xs \<Longrightarrow>
   fst (stream_mapi nxt f n s xs) ! i = f (fst (nxt (((\<lambda>s. snd (nxt s)) ^^ i) s))) (n + i) (xs ! i)"
proof (induction xs arbitrary: n s i)
  case Nil
  then show ?case by simp
next
  case (Cons x xs)
  then show ?case by (cases i) (simp_all add: split_beta funpow_Suc_right del: funpow.simps(2))
qed

lemma stream_mapi_append:
  "fst (stream_mapi nxt f n s (xs @ ys)) =
   fst (stream_mapi nxt f n s xs) @
   fst (stream_mapi nxt f (n + length xs) (snd (stream_mapi nxt f n s xs)) ys)"
  by (induction xs arbitrary: n s) (simp_all add: split_beta)

lemma stream_mapi_cong:
  "(\<And>k i x. f k i x = g k i x) \<Longrightarrow> stream_mapi nxt f n s xs = stream_mapi nxt g n s xs"
  by (induction xs arbitrary: n s) (simp_all add: split_beta)

text \<open>The interface: \<open>dec\<close> undoes \<open>enc\<close> under the same key value at the same index.\<close>

locale keystream =
  fixes nxt :: "'s \<Rightarrow> 'k \<times> 's"
    and enc dec :: "'k \<Rightarrow> nat \<Rightarrow> 'a \<Rightarrow> 'a"
  assumes dec_enc: "dec k n (enc k n x) = x"
begin

lemma dec_run_enc_run:
  "fst (stream_mapi nxt dec n s (fst (stream_mapi nxt enc n s xs))) = xs"
  by (induction xs arbitrary: n s) (simp_all add: split_beta dec_enc)

lemma dec_state_enc_state:
  "snd (stream_mapi nxt dec n s (fst (stream_mapi nxt enc n s xs))) =
   snd (stream_mapi nxt enc n s xs)"
  by (simp add: snd_stream_mapi)

lemma enc_run_inj:
  "fst (stream_mapi nxt enc n s xs) = fst (stream_mapi nxt enc n s ys) \<Longrightarrow> xs = ys"
  by (metis dec_run_enc_run)

end

section \<open>Registers that are linear over XOR\<close>

text \<open>
  A CRC register: a step takes in one byte, is linear over XOR, and loses nothing of the register
  or of the byte.  The clients' lemmas: the run over a message is linear, and corrupting one byte
  always changes the final register.
\<close>

locale linear_register =
  fixes step :: "'r::len word \<Rightarrow> u8 \<Rightarrow> 'r word"
  assumes step_xor: "step (a XOR b) (x XOR y) = step a x XOR step b y"
    and step_reg_zero: "step a 0 = 0 \<Longrightarrow> a = 0"
    and step_byte_zero: "step 0 x = 0 \<Longrightarrow> x = 0"
begin

lemma step_zero: "step 0 0 = 0"
  using step_xor [of 0 0 0 0] by simp

lemma step_reg_inj: "step a x = step b x \<longleftrightarrow> a = b"
proof
  assume "step a x = step b x"
  then have "step (a XOR b) 0 = 0"
    using step_xor [of a b x x] by simp
  then show "a = b" by (metis step_reg_zero xor_self_eq xor.assoc xor.left_neutral)
qed simp

lemma step_byte_inj: "step a x = step a y \<longleftrightarrow> x = y"
proof
  assume "step a x = step a y"
  then have "step 0 (x XOR y) = 0"
    using step_xor [of a a x y] by simp
  then show "x = y" by (metis step_byte_zero xor_self_eq xor.assoc xor.left_neutral)
qed simp

lemma run_reg_inj: "foldl step a xs = foldl step b xs \<longleftrightarrow> a = b"
  by (induction xs arbitrary: a b) (simp_all add: step_reg_inj)

lemma run_one_byte: "foldl step a (p @ x # s) = foldl step a (p @ y # s) \<longleftrightarrow> x = y"
  by (simp add: run_reg_inj step_byte_inj)

lemma run_corrupted:
  assumes "i < length xs" and "v \<noteq> xs ! i"
  shows "foldl step a (xs[i := v]) \<noteq> foldl step a xs"
proof -
  have "xs = take i xs @ xs ! i # drop (Suc i) xs"
    using assms(1) by (rule id_take_nth_drop)
  moreover have "xs[i := v] = take i xs @ v # drop (Suc i) xs"
    using assms(1) by (rule upd_conv_take_nth_drop)
  ultimately show ?thesis
    using assms(2) run_one_byte by metis
qed

lemma run_xor:
  "length xs = length ys \<Longrightarrow>
   foldl step (a XOR b) (map2 (XOR) xs ys) = foldl step a xs XOR foldl step b ys"
  by (induction xs ys arbitrary: a b rule: list_induct2) (simp_all add: step_xor)

end

section \<open>Bounded first-in first-out buffers\<close>

datatype 'a fifo_op = Put 'a | Get

text \<open>
  A run of interleaved producer and consumer calls: the elements the buffer accepted, the elements
  it delivered, and the buffer afterwards.
\<close>

fun fifo_run ::
  "('a \<Rightarrow> 'q \<Rightarrow> bool \<times> 'q) \<Rightarrow> ('q \<Rightarrow> 'a option \<times> 'q) \<Rightarrow> 'a fifo_op list \<Rightarrow> 'q \<Rightarrow>
   'a list \<times> 'a list \<times> 'q" where
  "fifo_run put get [] q = ([], [], q)"
| "fifo_run put get (Put x # ops) q =
     (let (ok, q') = put x q; (acc, del, q'') = fifo_run put get ops q'
      in (if ok then x # acc else acc, del, q''))"
| "fifo_run put get (Get # ops) q =
     (let (r, q') = get q; (acc, del, q'') = fifo_run put get ops q'
      in (acc, case r of None \<Rightarrow> del | Some x \<Rightarrow> x # del, q''))"

locale elem_fifo =
  fixes invar :: "'q \<Rightarrow> bool"
    and contents :: "'q \<Rightarrow> 'a list"
    and capacity :: "'q \<Rightarrow> nat"
    and put :: "'a \<Rightarrow> 'q \<Rightarrow> bool \<times> 'q"
    and get :: "'q \<Rightarrow> 'a option \<times> 'q"
  assumes invar_bound: "invar q \<Longrightarrow> length (contents q) \<le> capacity q"
    and put_ok: "invar q \<Longrightarrow> fst (put x q) \<longleftrightarrow> length (contents q) < capacity q"
    and put_contents: "invar q \<Longrightarrow>
      contents (snd (put x q)) = (if fst (put x q) then contents q @ [x] else contents q)"
    and put_invar: "invar q \<Longrightarrow>
      invar (snd (put x q)) \<and> capacity (snd (put x q)) = capacity q"
    and get_result: "invar q \<Longrightarrow>
      fst (get q) = (case contents q of [] \<Rightarrow> None | x # _ \<Rightarrow> Some x)"
    and get_contents: "invar q \<Longrightarrow> contents (snd (get q)) = tl (contents q)"
    and get_invar: "invar q \<Longrightarrow>
      invar (snd (get q)) \<and> capacity (snd (get q)) = capacity q"
begin

lemma fifo_order:
  assumes "invar q" and "fifo_run put get ops q = (acc, del, q')"
  shows "contents q @ acc = del @ contents q' \<and> invar q' \<and> capacity q' = capacity q"
  using assms
proof (induction ops arbitrary: q acc del q')
  case Nil
  then show ?case by simp
next
  case (Cons op ops)
  show ?case
  proof (cases op)
    case (Put x)
    obtain ok q1 where p: "put x q = (ok, q1)" by force
    obtain acc1 del1 q2 where r: "fifo_run put get ops q1 = (acc1, del1, q2)"
      by (metis prod.collapse)
    have i1: "invar q1" "capacity q1 = capacity q"
      using put_invar [OF Cons.prems(1), of x] p by simp_all
    have "contents q1 = (if ok then contents q @ [x] else contents q)"
      using put_contents [OF Cons.prems(1), of x] p by simp
    with Cons.IH [OF i1(1) r] i1 Cons.prems(2) show ?thesis
      by (auto simp: Put p r split: if_splits)
  next
    case Get
    obtain res q1 where p: "get q = (res, q1)" by force
    obtain acc1 del1 q2 where r: "fifo_run put get ops q1 = (acc1, del1, q2)"
      by (metis prod.collapse)
    have i1: "invar q1" "capacity q1 = capacity q"
      using get_invar [OF Cons.prems(1)] p by simp_all
    have "contents q1 = tl (contents q)" "res = (case contents q of [] \<Rightarrow> None | x # _ \<Rightarrow> Some x)"
      using get_contents [OF Cons.prems(1)] get_result [OF Cons.prems(1)] p by simp_all
    with Cons.IH [OF i1(1) r] i1 Cons.prems(2) show ?thesis
      by (auto simp: Get p r split: list.splits)
  qed
qed

end

text \<open>The same buffer with operations on several elements at once.\<close>

locale batch_fifo = elem_fifo +
  fixes put_batch :: "'b list \<Rightarrow> 'a \<Rightarrow> nat \<times> 'a"
    and get_batch :: "nat \<Rightarrow> 'a \<Rightarrow> 'b list \<times> 'a"
  assumes put_batch_count: "invar q \<Longrightarrow>
      fst (put_batch xs q) = min (length xs) (capacity q - length (contents q))"
    and put_batch_contents: "invar q \<Longrightarrow>
      contents (snd (put_batch xs q)) = contents q @ take (fst (put_batch xs q)) xs"
    and put_batch_invar: "invar q \<Longrightarrow>
      invar (snd (put_batch xs q)) \<and> capacity (snd (put_batch xs q)) = capacity q"
    and get_batch_result: "invar q \<Longrightarrow> fst (get_batch n q) = take n (contents q)"
    and get_batch_contents: "invar q \<Longrightarrow> contents (snd (get_batch n q)) = drop n (contents q)"
    and get_batch_invar: "invar q \<Longrightarrow>
      invar (snd (get_batch n q)) \<and> capacity (snd (get_batch n q)) = capacity q"
begin

lemma batch_transfer:
  assumes "invar q" and "contents q = []" and "length xs \<le> capacity q" and "length xs \<le> n"
  shows "fst (get_batch n (snd (put_batch xs q))) = xs"
proof -
  have "invar (snd (put_batch xs q))" using put_batch_invar [OF assms(1)] ..
  then show ?thesis
    using assms by (simp add: get_batch_result put_batch_contents put_batch_count)
qed

end

end
