(* ===== verification/Dvb_Types.thy ===== *)
theory Dvb_Types
  imports Prelude Complex_Main
begin

text \<open>
  The common types of \<^verbatim>\<open>include/dvbs2x_types.h\<close>: the MODCOD parameter record, the enumerations
  it uses, IQ samples, the BB header and the frame-size constants.  An \<^verbatim>\<open>unsigned int\<close> field of
  the parameter record is a \<open>nat\<close>: the table's values are constants far below \<open>2 ^ 32\<close>, and
  \<open>modcod_wf\<close> (theory \<open>Modcod\<close>) shows that no subtraction over them goes below zero.
  A \<^verbatim>\<open>double\<close> is a \<open>real\<close>; where the code only copies, negates or compares samples
  nothing is lost by that, elsewhere the model is the algorithm in exact arithmetic.
\<close>

section \<open>Constants\<close>

definition DVBS2X_LDPC_NORMAL :: nat where "DVBS2X_LDPC_NORMAL = 64800"
definition DVBS2X_LDPC_MEDIUM :: nat where "DVBS2X_LDPC_MEDIUM = 32400"
definition DVBS2X_LDPC_SHORT :: nat where "DVBS2X_LDPC_SHORT = 16200"
definition DVBS2X_SOF_LEN :: nat where "DVBS2X_SOF_LEN = 26"
definition DVBS2X_PLSC_LEN :: nat where "DVBS2X_PLSC_LEN = 64"
definition DVBS2X_PLHEADER_LEN :: nat where "DVBS2X_PLHEADER_LEN = 90"
definition DVBS2X_VLSNR_WH_LEN :: nat where "DVBS2X_VLSNR_WH_LEN = 896"
definition DVBS2X_VLSNR_HDR_LEN :: nat where "DVBS2X_VLSNR_HDR_LEN = 900"
definition DVBS2X_VLSNR_FRAME_LONG :: nat where "DVBS2X_VLSNR_FRAME_LONG = 33282"
definition DVBS2X_VLSNR_FRAME_SHORT :: nat where "DVBS2X_VLSNR_FRAME_SHORT = 16686"
definition DVBS2X_PLS_VLSNR_SET1 :: nat where "DVBS2X_PLS_VLSNR_SET1 = 129"
definition DVBS2X_PLS_VLSNR_SET2 :: nat where "DVBS2X_PLS_VLSNR_SET2 = 131"
definition DVBS2X_LDPC_MAX_ITER :: nat where "DVBS2X_LDPC_MAX_ITER = 200"
definition DVBS2X_LDPC_PARALLEL :: nat where "DVBS2X_LDPC_PARALLEL = 360"
definition DVBS2X_BB_HEADER_LEN :: nat where "DVBS2X_BB_HEADER_LEN = 10"
definition DVBS2X_VLSNR_NUM_MODCODS :: nat where "DVBS2X_VLSNR_NUM_MODCODS = 9"

lemmas const_defs =
  DVBS2X_LDPC_NORMAL_def DVBS2X_LDPC_MEDIUM_def DVBS2X_LDPC_SHORT_def DVBS2X_SOF_LEN_def
  DVBS2X_PLSC_LEN_def DVBS2X_PLHEADER_LEN_def DVBS2X_VLSNR_WH_LEN_def DVBS2X_VLSNR_HDR_LEN_def
  DVBS2X_VLSNR_FRAME_LONG_def DVBS2X_VLSNR_FRAME_SHORT_def DVBS2X_PLS_VLSNR_SET1_def
  DVBS2X_PLS_VLSNR_SET2_def DVBS2X_LDPC_MAX_ITER_def DVBS2X_LDPC_PARALLEL_def
  DVBS2X_BB_HEADER_LEN_def DVBS2X_VLSNR_NUM_MODCODS_def

section \<open>Types\<close>

text \<open>An IQ sample.\<close>

record dvbs2x_complex =
  re_i :: real
  im_q :: real

datatype dvbs2x_mod = DVBS2X_MOD_BPSK | DVBS2X_MOD_QPSK

datatype dvbs2x_frame_type = DVBS2X_FRAME_NORMAL | DVBS2X_FRAME_MEDIUM | DVBS2X_FRAME_SHORT

datatype dvbs2x_vlsnr_set = DVBS2X_VLSNR_SET1 | DVBS2X_VLSNR_SET2

record dvbs2x_modcod =
  mc_index :: nat
  mc_modulation :: dvbs2x_mod
  mc_frame_type :: dvbs2x_frame_type
  mc_fec_len :: nat
  mc_code_rate_num :: nat
  mc_code_rate_den :: nat
  mc_has_spread :: bool
  mc_set :: dvbs2x_vlsnr_set
  mc_pls_code :: nat
  mc_k_bch :: nat
  mc_n_bch :: nat
  mc_bch_t :: nat
  mc_k_ldpc :: nat
  mc_q_ldpc :: nat
  mc_xs :: nat
  mc_xp :: nat
  mc_p_period :: nat
  mc_nbch_eff :: nat

definition dvbs2x_tx_coded_bits :: "dvbs2x_modcod \<Rightarrow> nat" where
  "dvbs2x_tx_coded_bits mc = mc_fec_len mc - mc_xs mc - mc_xp mc"

record dvbs2x_bb_header =
  h_matype1 :: u8
  h_matype2 :: u8
  h_upl :: u16
  h_dfl :: u16
  h_sync :: u8
  h_syncd :: u16
  h_crc8 :: u8

text \<open>The symbols of the data field before pilots are added, per MODCOD: QPSK carries two coded
  bits in a symbol, and spreading doubles the symbols.\<close>

definition data_symbols :: "dvbs2x_modcod \<Rightarrow> nat" where
  "data_symbols mc =
     (let n = dvbs2x_tx_coded_bits mc;
          n = (if mc_modulation mc = DVBS2X_MOD_QPSK then n div 2 else n)
      in if mc_has_spread mc then n * 2 else n)"

end
