(* ===== verification/Modcod.thy ===== *)
theory Modcod
  imports Dvb_Types
begin

text \<open>
  \<^verbatim>\<open>src/modcod.c\<close>: the table of the nine VL-SNR MODCODs and its lookups by index and by name.
  \<open>modcod_wf\<close> collects what the rest of the transmit and receive chains rely on; \<open>table_wf\<close>
  shows it of every entry, and \<open>modcod_cases\<close> lets a later proof go through the entries.
\<close>

section \<open>The parameter table\<close>

definition modcod_1 :: dvbs2x_modcod where
  "modcod_1 = \<lparr>
     mc_index = 1, mc_modulation = DVBS2X_MOD_QPSK, mc_frame_type = DVBS2X_FRAME_NORMAL,
     mc_fec_len = 64800, mc_code_rate_num = 2, mc_code_rate_den = 9,
     mc_has_spread = False, mc_set = DVBS2X_VLSNR_SET1, mc_pls_code = DVBS2X_PLS_VLSNR_SET1,
     mc_k_bch = 14208, mc_n_bch = 14400, mc_bch_t = 12,
     mc_k_ldpc = 14400, mc_q_ldpc = 140, mc_xs = 0,
     mc_xp = 3240, mc_p_period = 15, mc_nbch_eff = 14400\<rparr>"

definition modcod_2 :: dvbs2x_modcod where
  "modcod_2 = \<lparr>
     mc_index = 2, mc_modulation = DVBS2X_MOD_BPSK, mc_frame_type = DVBS2X_FRAME_MEDIUM,
     mc_fec_len = 32400, mc_code_rate_num = 1, mc_code_rate_den = 5,
     mc_has_spread = False, mc_set = DVBS2X_VLSNR_SET1, mc_pls_code = DVBS2X_PLS_VLSNR_SET1,
     mc_k_bch = 5660, mc_n_bch = 5840, mc_bch_t = 12,
     mc_k_ldpc = 6480, mc_q_ldpc = 72, mc_xs = 640,
     mc_xp = 980, mc_p_period = 25, mc_nbch_eff = 5840\<rparr>"

definition modcod_3 :: dvbs2x_modcod where
  "modcod_3 = \<lparr>
     mc_index = 3, mc_modulation = DVBS2X_MOD_BPSK, mc_frame_type = DVBS2X_FRAME_MEDIUM,
     mc_fec_len = 32400, mc_code_rate_num = 11, mc_code_rate_den = 45,
     mc_has_spread = False, mc_set = DVBS2X_VLSNR_SET1, mc_pls_code = DVBS2X_PLS_VLSNR_SET1,
     mc_k_bch = 7740, mc_n_bch = 7920, mc_bch_t = 12,
     mc_k_ldpc = 7920, mc_q_ldpc = 68, mc_xs = 0,
     mc_xp = 1620, mc_p_period = 15, mc_nbch_eff = 7920\<rparr>"

definition modcod_4 :: dvbs2x_modcod where
  "modcod_4 = \<lparr>
     mc_index = 4, mc_modulation = DVBS2X_MOD_BPSK, mc_frame_type = DVBS2X_FRAME_MEDIUM,
     mc_fec_len = 32400, mc_code_rate_num = 1, mc_code_rate_den = 3,
     mc_has_spread = False, mc_set = DVBS2X_VLSNR_SET1, mc_pls_code = DVBS2X_PLS_VLSNR_SET1,
     mc_k_bch = 10620, mc_n_bch = 10800, mc_bch_t = 12,
     mc_k_ldpc = 10800, mc_q_ldpc = 60, mc_xs = 0,
     mc_xp = 1620, mc_p_period = 13, mc_nbch_eff = 10800\<rparr>"

definition modcod_5 :: dvbs2x_modcod where
  "modcod_5 = \<lparr>
     mc_index = 5, mc_modulation = DVBS2X_MOD_BPSK, mc_frame_type = DVBS2X_FRAME_SHORT,
     mc_fec_len = 16200, mc_code_rate_num = 1, mc_code_rate_den = 5,
     mc_has_spread = True, mc_set = DVBS2X_VLSNR_SET1, mc_pls_code = DVBS2X_PLS_VLSNR_SET1,
     mc_k_bch = 2512, mc_n_bch = 2680, mc_bch_t = 12,
     mc_k_ldpc = 3240, mc_q_ldpc = 36, mc_xs = 560,
     mc_xp = 250, mc_p_period = 30, mc_nbch_eff = 2680\<rparr>"

definition modcod_6 :: dvbs2x_modcod where
  "modcod_6 = \<lparr>
     mc_index = 6, mc_modulation = DVBS2X_MOD_BPSK, mc_frame_type = DVBS2X_FRAME_SHORT,
     mc_fec_len = 16200, mc_code_rate_num = 11, mc_code_rate_den = 45,
     mc_has_spread = True, mc_set = DVBS2X_VLSNR_SET1, mc_pls_code = DVBS2X_PLS_VLSNR_SET1,
     mc_k_bch = 3792, mc_n_bch = 3960, mc_bch_t = 12,
     mc_k_ldpc = 3960, mc_q_ldpc = 34, mc_xs = 0,
     mc_xp = 810, mc_p_period = 15, mc_nbch_eff = 3960\<rparr>"

definition modcod_7 :: dvbs2x_modcod where
  "modcod_7 = \<lparr>
     mc_index = 7, mc_modulation = DVBS2X_MOD_BPSK, mc_frame_type = DVBS2X_FRAME_SHORT,
     mc_fec_len = 16200, mc_code_rate_num = 1, mc_code_rate_den = 5,
     mc_has_spread = False, mc_set = DVBS2X_VLSNR_SET2, mc_pls_code = DVBS2X_PLS_VLSNR_SET2,
     mc_k_bch = 3072, mc_n_bch = 3240, mc_bch_t = 12,
     mc_k_ldpc = 3240, mc_q_ldpc = 36, mc_xs = 0,
     mc_xp = 1224, mc_p_period = 10, mc_nbch_eff = 3240\<rparr>"

definition modcod_8 :: dvbs2x_modcod where
  "modcod_8 = \<lparr>
     mc_index = 8, mc_modulation = DVBS2X_MOD_BPSK, mc_frame_type = DVBS2X_FRAME_SHORT,
     mc_fec_len = 16200, mc_code_rate_num = 4, mc_code_rate_den = 15,
     mc_has_spread = False, mc_set = DVBS2X_VLSNR_SET2, mc_pls_code = DVBS2X_PLS_VLSNR_SET2,
     mc_k_bch = 4152, mc_n_bch = 4320, mc_bch_t = 12,
     mc_k_ldpc = 4320, mc_q_ldpc = 33, mc_xs = 0,
     mc_xp = 1224, mc_p_period = 8, mc_nbch_eff = 4320\<rparr>"

definition modcod_9 :: dvbs2x_modcod where
  "modcod_9 = \<lparr>
     mc_index = 9, mc_modulation = DVBS2X_MOD_BPSK, mc_frame_type = DVBS2X_FRAME_SHORT,
     mc_fec_len = 16200, mc_code_rate_num = 1, mc_code_rate_den = 3,
     mc_has_spread = False, mc_set = DVBS2X_VLSNR_SET2, mc_pls_code = DVBS2X_PLS_VLSNR_SET2,
     mc_k_bch = 5232, mc_n_bch = 5400, mc_bch_t = 12,
     mc_k_ldpc = 5400, mc_q_ldpc = 30, mc_xs = 0,
     mc_xp = 1224, mc_p_period = 8, mc_nbch_eff = 5400\<rparr>"

definition vlsnr_modcod_table :: "dvbs2x_modcod list" where
  "vlsnr_modcod_table =
     [modcod_1, modcod_2, modcod_3, modcod_4, modcod_5, modcod_6, modcod_7, modcod_8, modcod_9]"

lemmas modcod_defs =
  modcod_1_def modcod_2_def modcod_3_def modcod_4_def modcod_5_def modcod_6_def modcod_7_def
  modcod_8_def modcod_9_def

definition vlsnr_modcod_names :: "string list" where
  "vlsnr_modcod_names =
     [''QPSK 2/9 normal set1'',
      ''BPSK 1/5 medium set1'',
      ''BPSK 11/45 medium set1'',
      ''BPSK 1/3 medium set1'',
      ''BPSK-S 1/5 short set1 SF2'',
      ''BPSK-S 11/45 short set1 SF2'',
      ''BPSK 1/5 short set2'',
      ''BPSK 4/15 short set2'',
      ''BPSK 1/3 short set2'']"

definition legacy_names :: "(string \<times> nat) list" where
  "legacy_names =
     [(''QPSK 2/9'', 1), (''BPSK 11/45'', 3), (''BPSK-S 1/5'', 5), (''BPSK-S 11/45'', 6),
      (''BPSK 4/15'', 8)]"

section \<open>Lookups\<close>

text \<open>A null pointer, returned or passed, is \<open>None\<close>.  Both search loops stop at the first entry
  whose name compares equal, which is what \<open>map_of\<close> returns.\<close>

definition dvbs2x_vlsnr_get_modcod :: "nat \<Rightarrow> dvbs2x_modcod option" where
  "dvbs2x_vlsnr_get_modcod index =
     (if index < 1 \<or> DVBS2X_VLSNR_NUM_MODCODS < index then None
      else Some (vlsnr_modcod_table ! (index - 1)))"

definition dvbs2x_vlsnr_get_modcod_name :: "nat \<Rightarrow> string option" where
  "dvbs2x_vlsnr_get_modcod_name index =
     (if index < 1 \<or> DVBS2X_VLSNR_NUM_MODCODS < index then None
      else Some (vlsnr_modcod_names ! (index - 1)))"

definition dvbs2x_vlsnr_get_modcod_by_name :: "string option \<Rightarrow> dvbs2x_modcod option" where
  "dvbs2x_vlsnr_get_modcod_by_name name =
     (case name of
        None \<Rightarrow> None
      | Some s \<Rightarrow>
          (case map_of (zip vlsnr_modcod_names vlsnr_modcod_table) s of
             Some mc \<Rightarrow> Some mc
           | None \<Rightarrow>
               (case map_of legacy_names s of
                  Some i \<Rightarrow> dvbs2x_vlsnr_get_modcod i
                | None \<Rightarrow> None)))"

section \<open>Well-formed parameters\<close>

text \<open>The parity bits of the BCH code over \<open>GF(2^16)\<close>, \<open>GF(2^15)\<close> and \<open>GF(2^14)\<close>.\<close>

fun bch_parity :: "dvbs2x_frame_type \<Rightarrow> nat" where
  "bch_parity DVBS2X_FRAME_NORMAL = 192"
| "bch_parity DVBS2X_FRAME_MEDIUM = 180"
| "bch_parity DVBS2X_FRAME_SHORT = 168"

fun frame_fec_len :: "dvbs2x_frame_type \<Rightarrow> nat" where
  "frame_fec_len DVBS2X_FRAME_NORMAL = DVBS2X_LDPC_NORMAL"
| "frame_fec_len DVBS2X_FRAME_MEDIUM = DVBS2X_LDPC_MEDIUM"
| "frame_fec_len DVBS2X_FRAME_SHORT = DVBS2X_LDPC_SHORT"

definition modcod_wf :: "dvbs2x_modcod \<Rightarrow> bool" where
  "modcod_wf mc \<longleftrightarrow>
     mc_fec_len mc = frame_fec_len (mc_frame_type mc) \<and>
     mc_n_bch mc = mc_k_bch mc + bch_parity (mc_frame_type mc) \<and>
     mc_k_ldpc mc = mc_xs mc + mc_n_bch mc \<and>
     mc_nbch_eff mc = mc_n_bch mc \<and>
     mc_fec_len mc = mc_k_ldpc mc + DVBS2X_LDPC_PARALLEL * mc_q_ldpc mc \<and>
     mc_k_ldpc mc mod DVBS2X_LDPC_PARALLEL = 0 \<and>
     mc_k_ldpc mc * mc_code_rate_den mc = mc_fec_len mc * mc_code_rate_num mc \<and>
     0 < mc_p_period mc \<and> 0 < mc_xp mc \<and>
     (mc_xp mc - 1) * mc_p_period mc < mc_fec_len mc - mc_k_ldpc mc \<and>
     1504 + 8 * DVBS2X_BB_HEADER_LEN \<le> mc_k_bch mc \<and> mc_k_bch mc < 2 ^ 16 \<and>
     mc_fec_len mc < 2 ^ 32 \<and>
     mc_bch_t mc = 12 \<and>
     mc_pls_code mc =
       (if mc_set mc = DVBS2X_VLSNR_SET1 then DVBS2X_PLS_VLSNR_SET1 else DVBS2X_PLS_VLSNR_SET2)"

lemma length_modcod_table [simp]: "length vlsnr_modcod_table = 9"
  by (simp add: vlsnr_modcod_table_def)

lemma length_modcod_names [simp]: "length vlsnr_modcod_names = 9"
  by (simp add: vlsnr_modcod_names_def)

lemma modcod_wf_entries:
  "modcod_wf modcod_1" "modcod_wf modcod_2" "modcod_wf modcod_3" "modcod_wf modcod_4"
  "modcod_wf modcod_5" "modcod_wf modcod_6" "modcod_wf modcod_7" "modcod_wf modcod_8"
  "modcod_wf modcod_9"
  by (simp_all add: modcod_wf_def modcod_defs const_defs)

lemma table_wf: "list_all modcod_wf vlsnr_modcod_table"
  by (simp add: vlsnr_modcod_table_def modcod_wf_entries)

lemma less_9_cases:
  "(i::nat) < 9 \<Longrightarrow> i = 0 \<or> i = 1 \<or> i = 2 \<or> i = 3 \<or> i = 4 \<or> i = 5 \<or> i = 6 \<or> i = 7 \<or> i = 8"
  by arith

lemma get_modcod_set:
  "dvbs2x_vlsnr_get_modcod i = Some mc \<Longrightarrow> mc \<in> set vlsnr_modcod_table"
  by (auto simp: dvbs2x_vlsnr_get_modcod_def const_defs split: if_splits)

lemma modcod_cases:
  assumes "mc \<in> set vlsnr_modcod_table"
  shows "mc = modcod_1 \<or> mc = modcod_2 \<or> mc = modcod_3 \<or> mc = modcod_4 \<or> mc = modcod_5 \<or>
    mc = modcod_6 \<or> mc = modcod_7 \<or> mc = modcod_8 \<or> mc = modcod_9"
  using assms by (auto simp: vlsnr_modcod_table_def)

lemma table_modcod_wf: "mc \<in> set vlsnr_modcod_table \<Longrightarrow> modcod_wf mc"
  using table_wf by (simp add: list_all_iff)

lemma table_index: "i < 9 \<Longrightarrow> mc_index (vlsnr_modcod_table ! i) = i + 1"
  by (drule less_9_cases) (auto simp: vlsnr_modcod_table_def modcod_defs)

lemma get_modcod_ok:
  "dvbs2x_vlsnr_get_modcod i = Some mc \<Longrightarrow> mc_index mc = i \<and> modcod_wf mc"
  using table_modcod_wf [OF get_modcod_set]
  by (auto simp: dvbs2x_vlsnr_get_modcod_def const_defs table_index split: if_splits)

lemma distinct_names: "distinct vlsnr_modcod_names"
  by (simp add: vlsnr_modcod_names_def)

lemma lookup_canonical:
  "i < 9 \<Longrightarrow> map_of (zip vlsnr_modcod_names vlsnr_modcod_table) (vlsnr_modcod_names ! i) =
     Some (vlsnr_modcod_table ! i)"
  by (rule map_of_zip_nth) (simp_all add: distinct_names)

section \<open>Properties\<close>

text \<open>A lookup by index succeeds exactly on 1 to 9, and the parameters it returns are
  those of that index and are consistent: the code lengths add up (BCH parity, shortening,
  \<open>360 q\<close> LDPC parity bits at the stated rate), every punctured position lies in the parity part,
  and the data field holds at least one transport stream packet.\<close>

theorem get_modcod_spec:
  "(dvbs2x_vlsnr_get_modcod i \<noteq> None) = (1 \<le> i \<and> i \<le> 9) \<and>
   pred_option (\<lambda>mc. mc_index mc = i \<and> modcod_wf mc) (dvbs2x_vlsnr_get_modcod i)"
  using get_modcod_ok [of i]
  by (cases "dvbs2x_vlsnr_get_modcod i")
     (auto simp: dvbs2x_vlsnr_get_modcod_def const_defs split: if_splits)

text \<open>Looking an entry's name up gives the entry back, and an out-of-range index gives
  neither a name nor an entry.\<close>

theorem modcod_name_roundtrip:
  "dvbs2x_vlsnr_get_modcod_by_name (dvbs2x_vlsnr_get_modcod_name i) = dvbs2x_vlsnr_get_modcod i"
  by (auto simp: dvbs2x_vlsnr_get_modcod_by_name_def dvbs2x_vlsnr_get_modcod_name_def
      dvbs2x_vlsnr_get_modcod_def const_defs lookup_canonical)

end
