(* ===== verification/BbFrame.thy ===== *)
theory BbFrame
  imports Modcod
begin

text \<open>
  \<^verbatim>\<open>src/bb_frame.c\<close>, generic continuous streams: the CRC-8 of the BB header, the BB scrambler,
  and assembling and parsing a BB frame.  A bit array is a list with one byte per bit; an output
  array is passed in with its old contents and returned updated.  A null pointer is \<open>None\<close>.
  The CRC is shown to be a \<open>linear_register\<close>, the scrambler a \<open>keystream\<close>.
\<close>

section \<open>Context\<close>

record bb_frame_ctx =
  ctx_k_bch :: nat
  ctx_stream_type :: nat
  ctx_upl :: u16
  ctx_dfl :: u16
  ctx_ro :: u8

definition BB_HEADER_BITS :: nat where "BB_HEADER_BITS = 80"
definition DVBS2X_STREAM_TS :: nat where "DVBS2X_STREAM_TS = 0"
definition DVBS2X_STREAM_GS :: nat where "DVBS2X_STREAM_GS = 1"
definition DVBS2X_TS_PACKET_SIZE :: nat where "DVBS2X_TS_PACKET_SIZE = 188"
definition DVBS2X_TS_PACKET_BITS :: nat where "DVBS2X_TS_PACKET_BITS = 188 * 8"
definition DVBS2X_RO_0_35 :: u8 where "DVBS2X_RO_0_35 = 0"
definition DVBS2X_RO_0_25 :: u8 where "DVBS2X_RO_0_25 = 1"
definition DVBS2X_RO_0_20 :: u8 where "DVBS2X_RO_0_20 = 2"

lemmas bb_const_defs =
  BB_HEADER_BITS_def DVBS2X_STREAM_TS_def DVBS2X_STREAM_GS_def DVBS2X_TS_PACKET_SIZE_def
  DVBS2X_TS_PACKET_BITS_def DVBS2X_RO_0_35_def DVBS2X_RO_0_25_def DVBS2X_RO_0_20_def
  DVBS2X_BB_HEADER_LEN_def DVBS2X_LDPC_NORMAL_def

definition dvbs2x_ro_from_rolloff :: "real \<Rightarrow> u8" where
  "dvbs2x_ro_from_rolloff rolloff =
     (if rolloff \<le> 0.225 then DVBS2X_RO_0_20
      else if rolloff \<le> 0.30 then DVBS2X_RO_0_25
      else DVBS2X_RO_0_35)"

definition dvbs2x_bb_frame_init :: "dvbs2x_modcod \<Rightarrow> nat \<Rightarrow> bb_frame_ctx" where
  "dvbs2x_bb_frame_init modcod stream_type =
     \<lparr>ctx_k_bch = mc_k_bch modcod, ctx_stream_type = stream_type, ctx_upl = 0,
      ctx_dfl = of_nat (usub (mc_k_bch modcod) BB_HEADER_BITS), ctx_ro = DVBS2X_RO_0_35\<rparr>"

section \<open>CRC-8\<close>

definition crc8_shift :: "u8 \<Rightarrow> u8" where
  "crc8_shift crc = (if crc AND 0x80 \<noteq> 0 then push_bit 1 crc XOR 0xD5 else push_bit 1 crc)"

definition crc8_byte :: "u8 \<Rightarrow> u8 \<Rightarrow> u8" where
  "crc8_byte crc x = (crc8_shift ^^ 8) (crc XOR x)"

definition dvbs2x_bb_crc8 :: "u8 list \<Rightarrow> nat \<Rightarrow> u8" where
  "dvbs2x_bb_crc8 data len = foldl crc8_byte 0 (take len data)"

lemma and_0x80: "(c :: u8) AND 0x80 \<noteq> 0 \<longleftrightarrow> bit c 7"
proof -
  have "(0x80 :: u8) = push_bit 7 1" by (simp add: push_bit_eq_mult)
  then show ?thesis
    by (simp only: and_exp_eq_0_iff_not_bit push_bit_of_1 not_not)
qed

lemma crc8_shift_alt:
  "crc8_shift c = push_bit 1 c XOR (if bit c 7 then 0xD5 else 0)"
  by (simp only: crc8_shift_def and_0x80) simp

lemma crc8_shift_xor: "crc8_shift (a XOR b) = crc8_shift a XOR crc8_shift b"
  by (simp only: crc8_shift_alt push_bit_xor bit_xor_iff) (auto simp: ac_simps)

lemma crc8_shift_0_iff: "crc8_shift a = 0 \<longleftrightarrow> a = 0"
proof
  assume z: "crc8_shift a = 0"
  have "bit (0xD5 :: u8) 0" by simp
  then have "\<not> bit a 7"
    using arg_cong [OF z, of "\<lambda>w. bit w 0"]
    by (simp add: crc8_shift_alt bit_0 even_xor_iff split: if_splits)
  then have p: "push_bit 1 a = 0" using z by (simp only: crc8_shift_alt) simp
  show "a = 0"
  proof (rule bit_word_eqI)
    fix n assume "n < LENGTH(8)"
    then have n: "n < 8" by simp
    show "bit a n = bit 0 n"
    proof (cases "n = 7")
      case True
      then show ?thesis using \<open>\<not> bit a 7\<close> by simp
    next
      case False
      then have "bit (push_bit 1 a) (Suc n) = bit a n"
        using n False by (simp only: bit_push_bit_iff) simp
      then show ?thesis unfolding p by simp
    qed
  qed
qed (simp add: crc8_shift_alt)

lemma crc8_shifts_xor: "(crc8_shift ^^ n) (a XOR b) = (crc8_shift ^^ n) a XOR (crc8_shift ^^ n) b"
  by (induction n) (simp_all add: crc8_shift_xor)

lemma crc8_shifts_0_iff: "(crc8_shift ^^ n) a = 0 \<longleftrightarrow> a = 0"
  by (induction n) (simp_all add: crc8_shift_0_iff)

interpretation crc8: linear_register crc8_byte
  by unfold_locales
    (simp_all add: crc8_byte_def crc8_shifts_0_iff crc8_shifts_xor [symmetric] ac_simps)

lemma crc8_corrupted:
  "i < len \<Longrightarrow> len \<le> length data \<Longrightarrow> v \<noteq> data ! i \<Longrightarrow>
   dvbs2x_bb_crc8 (data[i := v]) len \<noteq> dvbs2x_bb_crc8 data len"
  using crc8.run_corrupted [of i "take len data" v 0]
  by (simp add: dvbs2x_bb_crc8_def take_update_swap)

section \<open>The BB scrambler\<close>

definition BB_PRBS_INIT :: u16 where "BB_PRBS_INIT = 0x4A80"

definition bb_prbs_next :: "u16 \<Rightarrow> u8 \<times> u16" where
  "bb_prbs_next sr =
     (let b = (sr XOR drop_bit 1 sr) AND 1;
          sr = drop_bit 1 sr
      in (ucast b, if b \<noteq> 0 then sr OR 0x4000 else sr))"

definition bb_scramble :: "u8 list \<Rightarrow> nat \<Rightarrow> u8 list" where
  "bb_scramble frame len =
     fst (stream_mapi bb_prbs_next (\<lambda>b _ x. x XOR b) 0 BB_PRBS_INIT (take len frame)) @
     drop len frame"

interpretation bb_prbs: keystream bb_prbs_next "\<lambda>b _ x. x XOR b" "\<lambda>b _ x. x XOR b"
  by unfold_locales (simp add: xor.assoc)

lemma length_bb_scramble [simp, lens]: "length (bb_scramble frame len) = length frame"
  by (simp add: bb_scramble_def)

lemma bb_scramble_involution: "bb_scramble (bb_scramble frame len) len = frame"
proof -
  have "take len (bb_scramble frame len) =
      fst (stream_mapi bb_prbs_next (\<lambda>b _ x. x XOR b) 0 BB_PRBS_INIT (take len frame))"
    by (cases "len \<le> length frame") (simp_all add: bb_scramble_def)
  moreover have "drop len (bb_scramble frame len) = drop len frame"
    by (cases "len \<le> length frame") (simp_all add: bb_scramble_def)
  ultimately show ?thesis
    by (subst bb_scramble_def) (simp add: bb_prbs.dec_run_enc_run)
qed

lemma take_bb_scramble:
  "take len (bb_scramble frame len) = bb_scramble (take len frame) len"
  by (cases "len \<le> length frame") (simp_all add: bb_scramble_def)

section \<open>The BB header\<close>

definition bb_header_bytes :: "u8 \<Rightarrow> nat \<Rightarrow> u16 \<Rightarrow> u8 \<Rightarrow> u16 \<Rightarrow> u8 list" where
  "bb_header_bytes matype1 dfl upl sync syncd =
     (let h = [matype1, 0, hi8 upl, lo8 upl, hi8 (of_nat dfl :: u32), lo8 (of_nat dfl :: u32),
               sync, hi8 syncd, lo8 syncd]
      in h @ [dvbs2x_bb_crc8 h 9])"

definition bb_header_write ::
  "bb_frame_ctx \<Rightarrow> nat \<Rightarrow> u16 \<Rightarrow> u8 \<Rightarrow> u16 \<Rightarrow> u8 \<Rightarrow> u8 list \<Rightarrow> u8 list" where
  "bb_header_write ctx dfl upl sync syncd matype1 bbframe =
     overwrite 0 (bytes_bits (bb_header_bytes (matype1 OR (ctx_ro ctx AND 0x03)) dfl upl sync syncd))
       bbframe"

text \<open>The descrambled frame and the header, or the error; \<open>h_crc8\<close> and the other fields are read
  from bytes whose checksum agrees.\<close>

definition bb_header_of_bytes :: "u8 list \<Rightarrow> dvbs2x_bb_header" where
  "bb_header_of_bytes bytes =
     \<lparr>h_matype1 = bytes ! 0, h_matype2 = bytes ! 1,
      h_upl = be16 (bytes ! 2) (bytes ! 3), h_dfl = be16 (bytes ! 4) (bytes ! 5),
      h_sync = bytes ! 6, h_syncd = be16 (bytes ! 7) (bytes ! 8), h_crc8 = bytes ! 9\<rparr>"

definition bb_header_read ::
  "bb_frame_ctx \<Rightarrow> u8 list \<Rightarrow> dvbs2x_error + (u8 list \<times> dvbs2x_bb_header)" where
  "bb_header_read ctx bbframe =
     (if DVBS2X_LDPC_NORMAL < ctx_k_bch ctx then Inl ERR_PARAM
      else
        let descrambled = bb_scramble (take (ctx_k_bch ctx) bbframe) (ctx_k_bch ctx);
            bytes = bits_bytes DVBS2X_BB_HEADER_LEN descrambled
        in if dvbs2x_bb_crc8 bytes 9 \<noteq> bytes ! 9 then Inl ERR_CRC
           else Inr (descrambled, bb_header_of_bytes bytes))"

section \<open>Building and parsing a frame\<close>

definition dvbs2x_bb_frame_build ::
  "bb_frame_ctx option \<Rightarrow> u8 list option \<Rightarrow> nat \<Rightarrow> u8 list option \<Rightarrow> dvbs2x_error + u8 list" where
  "dvbs2x_bb_frame_build ctx_p user_data_p user_len bbframe_p =
     (case (ctx_p, user_data_p, bbframe_p) of
        (Some ctx, Some user_data, Some bbframe) \<Rightarrow>
          if ctx_stream_type ctx \<noteq> DVBS2X_STREAM_GS \<or> unat (ctx_dfl ctx) < user_len
          then Inl ERR_PARAM
          else
            let matype1 = 0x70 OR (ctx_ro ctx AND 0x03);
                header = bb_header_bytes matype1 user_len (ctx_upl ctx) 0 0;
                f = overwrite 0 (bytes_bits header) bbframe;
                f = overwrite BB_HEADER_BITS (take user_len user_data) f;
                f = overwrite (BB_HEADER_BITS + user_len)
                      (replicate (unat (ctx_dfl ctx) - user_len) 0) f
            in Inr (bb_scramble f (ctx_k_bch ctx))
      | _ \<Rightarrow> Inl ERR_PARAM)"

text \<open>
  The parser's results: the status (\<open>None\<close> is success), the user data buffer, and the length it
  stores through \<^verbatim>\<open>user_len\<close>; \<open>user_len_ok\<close> is whether that pointer is not null, and with a null
  pointer nothing is stored.  On a checksum mismatch the code returns the literal \<open>-1\<close>, which is
  the value of \<open>ERR_NOMEM\<close>.
\<close>

record parse_result =
  pr_status :: "dvbs2x_error option"
  pr_user_data :: "u8 list"
  pr_user_len :: "nat option"

definition dvbs2x_bb_frame_parse_ex ::
  "bb_frame_ctx option \<Rightarrow> u8 list option \<Rightarrow> u8 list option \<Rightarrow> nat \<Rightarrow> bool \<Rightarrow> parse_result" where
  "dvbs2x_bb_frame_parse_ex ctx_p bbframe_p user_data_p user_capacity user_len_ok =
     (let old = (case user_data_p of None \<Rightarrow> [] | Some u \<Rightarrow> u);
          fail = (\<lambda>e n. \<lparr>pr_status = Some e, pr_user_data = old, pr_user_len = n\<rparr>)
      in if \<not> user_len_ok then fail ERR_PARAM None
         else case (ctx_p, bbframe_p, user_data_p) of
           (Some ctx, Some bbframe, Some user_data) \<Rightarrow>
             if DVBS2X_LDPC_NORMAL < ctx_k_bch ctx then fail ERR_PARAM (Some 0)
             else
               let descrambled = bb_scramble (take (ctx_k_bch ctx) bbframe) (ctx_k_bch ctx);
                   header_bytes = bits_bytes DVBS2X_BB_HEADER_LEN descrambled
               in if dvbs2x_bb_crc8 header_bytes 9 \<noteq> header_bytes ! 9
                  then fail ERR_NOMEM (Some 0)
                  else if header_bytes ! 0 AND 0xC0 \<noteq> 0x40 \<or> header_bytes ! 2 \<noteq> 0 \<or>
                     header_bytes ! 3 \<noteq> 0
                  then fail ERR_PARAM (Some 0)
                  else
                    let dfl = be16 (header_bytes ! 4) (header_bytes ! 5);
                        room = usub (ctx_k_bch ctx) BB_HEADER_BITS;
                        dfl = (if room < unat dfl then of_nat room else dfl)
                    in if user_capacity < unat dfl
                       then fail ERR_SHORT (Some (unat dfl))
                       else \<lparr>pr_status = None,
                             pr_user_data =
                               overwrite 0 (take (unat dfl) (drop BB_HEADER_BITS descrambled))
                                 user_data,
                             pr_user_len = Some (unat dfl)\<rparr>
         | _ \<Rightarrow> fail ERR_PARAM (Some 0))"

definition UINT_MAX :: nat where "UINT_MAX = 2 ^ 32 - 1"

definition dvbs2x_bb_frame_parse ::
  "bb_frame_ctx option \<Rightarrow> u8 list option \<Rightarrow> u8 list option \<Rightarrow> bool \<Rightarrow> parse_result" where
  "dvbs2x_bb_frame_parse ctx_p bbframe_p user_data_p user_len_ok =
     dvbs2x_bb_frame_parse_ex ctx_p bbframe_p user_data_p UINT_MAX user_len_ok"

section \<open>Lemmas\<close>

lemma length_bb_header_bytes [simp, lens]: "length (bb_header_bytes m d u s y) = 10"
  by (simp add: bb_header_bytes_def Let_def)

lemma header_crc_ok:
  "dvbs2x_bb_crc8 (bb_header_bytes m d u s y) 9 = bb_header_bytes m d u s y ! 9"
  by (simp add: bb_header_bytes_def Let_def dvbs2x_bb_crc8_def nth_append)

text \<open>A header with one corrupted byte, the checksum included, fails the check.\<close>

lemma header_crc_corrupted:
  assumes "length h = 10" and "dvbs2x_bb_crc8 h 9 = h ! 9" and "i < 10" and "v \<noteq> h ! i"
  shows "dvbs2x_bb_crc8 (h[i := v]) 9 \<noteq> h[i := v] ! 9"
proof (cases "i = 9")
  case True
  then have "dvbs2x_bb_crc8 (h[i := v]) 9 = dvbs2x_bb_crc8 h 9"
    by (simp add: dvbs2x_bb_crc8_def)
  then show ?thesis using assms True by simp
next
  case False
  then show ?thesis using assms crc8_corrupted [of i 9 h v] by simp
qed

lemma bb_header_of_header_bytes:
  "d < 2 ^ 16 \<Longrightarrow>
   bb_header_of_bytes (bb_header_bytes m d u s y) =
     \<lparr>h_matype1 = m, h_matype2 = 0, h_upl = u, h_dfl = of_nat d, h_sync = s, h_syncd = y,
      h_crc8 = bb_header_bytes m d u s y ! 9\<rparr>"
  by (simp add: bb_header_of_bytes_def bb_header_bytes_def Let_def be16_hi_lo
      unsigned_of_nat take_bit_nat_eq_self)

text \<open>Descrambling a scrambled frame of exactly \<open>k_bch\<close> bits.\<close>

lemma descramble_exact:
  "length f = n \<Longrightarrow> bb_scramble (take n (bb_scramble f n)) n = f"
  by (simp add: bb_scramble_involution)

text \<open>\<open>corrupt_byte i x f\<close> flips, in the bit array \<open>f\<close>, the bits of byte \<open>i\<close> that are set in
  \<open>x\<close>: any error pattern confined to that byte.\<close>

definition corrupt_byte :: "nat \<Rightarrow> u8 \<Rightarrow> u8 list \<Rightarrow> u8 list" where
  "corrupt_byte i x f =
     map (\<lambda>j. f ! j XOR (if j div 8 = i then byte_bits x ! (j mod 8) else 0)) [0..<length f]"

lemma length_corrupt_byte [simp, lens]: "length (corrupt_byte i x f) = length f"
  by (simp add: corrupt_byte_def)

lemma bb_scramble_nth:
  "length f = n \<Longrightarrow> j < n \<Longrightarrow>
   bb_scramble f n ! j = f ! j XOR fst (bb_prbs_next (((\<lambda>s. snd (bb_prbs_next s)) ^^ j) BB_PRBS_INIT))"
  by (simp add: bb_scramble_def nth_stream_mapi)

lemma bb_scramble_corrupt:
  assumes "length f = n"
  shows "bb_scramble (corrupt_byte i x f) n = corrupt_byte i x (bb_scramble f n)"
proof (rule nth_equalityI)
  fix j assume "j < length (bb_scramble (corrupt_byte i x f) n)"
  then have "j < n" using assms by simp
  then show "bb_scramble (corrupt_byte i x f) n ! j = corrupt_byte i x (bb_scramble f n) ! j"
    using assms by (simp add: bb_scramble_nth corrupt_byte_def ac_simps)
qed (use assms in simp)

lemma corrupt_bytes_bits:
  assumes "i < length h"
  shows "corrupt_byte i x (bytes_bits h @ rest) = bytes_bits (h[i := h ! i XOR x]) @ rest"
proof (rule nth_equalityI)
  fix j assume j: "j < length (corrupt_byte i x (bytes_bits h @ rest))"
  show "corrupt_byte i x (bytes_bits h @ rest) ! j = (bytes_bits (h[i := h ! i XOR x]) @ rest) ! j"
  proof (cases "j < 8 * length h")
    case True
    then show ?thesis
      by (simp add: corrupt_byte_def nth_append nth_bytes_bits nth_list_update byte_bits_def
          drop_bit_xor bit.conj_xor_distrib2)
  next
    case False
    then have "j div 8 \<noteq> i" using assms by linarith
    then show ?thesis
      using j False by (simp add: corrupt_byte_def nth_append)
  qed
qed simp

lemma modcod_wf_k_bch:
  assumes "modcod_wf mc"
  shows "80 \<le> mc_k_bch mc" "mc_k_bch mc \<le> 64800" "1584 \<le> mc_k_bch mc"
proof -
  have "mc_fec_len mc \<le> 64800"
    using assms by (cases "mc_frame_type mc") (simp_all add: modcod_wf_def const_defs)
  then show "mc_k_bch mc \<le> 64800" using assms by (simp add: modcod_wf_def)
  show "1584 \<le> mc_k_bch mc" using assms by (simp add: modcod_wf_def const_defs)
  then show "80 \<le> mc_k_bch mc" by simp
qed

lemma init_fields [simp]:
  "ctx_k_bch (dvbs2x_bb_frame_init mc t) = mc_k_bch mc"
  "ctx_stream_type (dvbs2x_bb_frame_init mc t) = t"
  "ctx_upl (dvbs2x_bb_frame_init mc t) = 0"
  by (simp_all add: dvbs2x_bb_frame_init_def)

lemma init_dfl:
  "modcod_wf mc \<Longrightarrow> unat (ctx_dfl (dvbs2x_bb_frame_init mc t)) = mc_k_bch mc - 80"
proof -
  assume "modcod_wf mc"
  then have "unat (of_nat (mc_k_bch mc - 80) :: u16) = mc_k_bch mc - 80" "80 \<le> mc_k_bch mc"
    using modcod_wf_k_bch [of mc] by (simp_all add: unat_of_nat_small del: of_nat_diff)
  then show ?thesis
    by (simp add: dvbs2x_bb_frame_init_def bb_const_defs del: of_nat_diff)
qed

lemma build_ok:
  assumes wf: "modcod_wf mc" and n: "n \<le> mc_k_bch mc - 80" "n \<le> length data"
    and bb: "length bb = mc_k_bch mc"
  shows "dvbs2x_bb_frame_build (Some (dvbs2x_bb_frame_init mc DVBS2X_STREAM_GS\<lparr>ctx_ro := ro\<rparr>))
           (Some data) n (Some bb) =
         Inr (bb_scramble
           (bytes_bits (bb_header_bytes (0x70 OR (ro AND 3)) n 0 0 0) @ take n data @
            replicate (mc_k_bch mc - 80 - n) 0) (mc_k_bch mc))"
  using n bb modcod_wf_k_bch [OF wf] init_dfl [OF wf]
  by (simp add: dvbs2x_bb_frame_build_def overwrite_def bb_const_defs min_def)

text \<open>Every byte of a frame's header is read back by the parser, and its CRC decides.\<close>

lemma parse_header_bytes:
  assumes "length h = 10" and "10 * 8 + length rest = k"
  shows "bits_bytes DVBS2X_BB_HEADER_LEN
           (bb_scramble (take k (bb_scramble (bytes_bits h @ rest) k)) k) = h"
  using assms by (simp add: bb_scramble_involution bits_bytes_bits const_defs)

lemma parse_good:
  assumes "80 \<le> ctx_k_bch ctx" "ctx_k_bch ctx \<le> 64800"
    and "bb_scramble (take (ctx_k_bch ctx) f) (ctx_k_bch ctx) = g"
    and "bits_bytes DVBS2X_BB_HEADER_LEN g = h"
    and "dvbs2x_bb_crc8 h 9 = h ! 9" "h ! 0 AND 0xC0 = 0x40" "h ! 2 = 0" "h ! 3 = 0"
    and "unat (be16 (h ! 4) (h ! 5)) = n" "n \<le> ctx_k_bch ctx - 80" "n \<le> cap"
  shows "dvbs2x_bb_frame_parse_ex (Some ctx) (Some f) (Some out) cap True =
    \<lparr>pr_status = None, pr_user_data = overwrite 0 (take n (drop 80 g)) out, pr_user_len = Some n\<rparr>"
  using assms
  by (simp add: dvbs2x_bb_frame_parse_ex_def Let_def BB_HEADER_BITS_def DVBS2X_LDPC_NORMAL_def)

lemma parse_bad_crc:
  assumes "ctx_k_bch ctx \<le> 64800"
    and "bb_scramble (take (ctx_k_bch ctx) f) (ctx_k_bch ctx) = g"
    and "bits_bytes DVBS2X_BB_HEADER_LEN g = h" and "dvbs2x_bb_crc8 h 9 \<noteq> h ! 9"
  shows "dvbs2x_bb_frame_parse_ex (Some ctx) (Some f) (Some out) cap True =
    \<lparr>pr_status = Some ERR_NOMEM, pr_user_data = out, pr_user_len = Some 0\<rparr>"
  using assms by (simp add: dvbs2x_bb_frame_parse_ex_def Let_def DVBS2X_LDPC_NORMAL_def)

lemma parse_built:
  assumes "dvbs2x_vlsnr_get_modcod i = Some mc"
    and "n \<le> mc_k_bch mc - 80" and "n \<le> length data" and "length bb = mc_k_bch mc"
    and "n \<le> cap"
    and "dvbs2x_bb_frame_build (Some (dvbs2x_bb_frame_init mc DVBS2X_STREAM_GS\<lparr>ctx_ro := ro\<rparr>))
           (Some data) n (Some bb) = Inr frame"
  shows "dvbs2x_bb_frame_parse_ex (Some (dvbs2x_bb_frame_init mc DVBS2X_STREAM_GS)) (Some frame)
           (Some out) cap True =
         \<lparr>pr_status = None, pr_user_data = overwrite 0 (take n data) out, pr_user_len = Some n\<rparr>"
proof -
  have wf: "modcod_wf mc" using get_modcod_ok [OF assms(1)] by simp
  let ?k = "mc_k_bch mc"
  let ?h = "bb_header_bytes (0x70 OR (ro AND 3)) n 0 0 0"
  let ?rest = "take n data @ replicate (?k - 80 - n) 0"
  note k = modcod_wf_k_bch [OF wf]
  have f: "frame = bb_scramble (bytes_bits ?h @ ?rest) ?k"
    using assms build_ok [OF wf] by simp
  have len: "length (bytes_bits ?h @ ?rest) = ?k" using assms(2,3) k by simp
  have d: "bb_scramble (take ?k frame) ?k = bytes_bits ?h @ ?rest"
    unfolding f by (rule descramble_exact [OF len])
  have hb: "bits_bytes DVBS2X_BB_HEADER_LEN (bytes_bits ?h @ ?rest) = ?h"
    by (simp add: bits_bytes_bits const_defs)
  have m: "(0x70 OR (ro AND 3)) AND 0xC0 = (0x40 :: u8)"
    by (simp add: bit.conj_disj_distrib2 and.assoc)
  have n16: "n < 2 ^ 16" using assms(2) k by simp
  have h: "?h ! 0 AND 0xC0 = 0x40" "?h ! 2 = 0" "?h ! 3 = 0" "unat (be16 (?h ! 4) (?h ! 5)) = n"
    using m unat_be16_of_nat [OF n16]
    by (simp_all add: bb_header_bytes_def Let_def hi8_def lo8_def)
  have "take n (drop 80 (bytes_bits ?h @ ?rest)) = take n data"
    using assms(3) by simp
  then show ?thesis
    using parse_good [where f = frame and ctx = "dvbs2x_bb_frame_init mc DVBS2X_STREAM_GS",
      unfolded init_fields, OF k(1,2) d hb header_crc_ok h assms(2,5)]
    by simp
qed

text \<open>Only the frame's bits are read.\<close>

lemma parse_longer:
  "dvbs2x_bb_frame_parse_ex (Some ctx) (Some (take (ctx_k_bch ctx) bb)) out cap ok =
   dvbs2x_bb_frame_parse_ex (Some ctx) (Some bb) out cap ok"
  unfolding dvbs2x_bb_frame_parse_ex_def Let_def by (cases ok; cases out) simp_all

section \<open>Properties\<close>

text \<open>The BB scrambler undoes itself.\<close>

lemma bb_scramble_self_inverse: "bb_scramble (bb_scramble frame len) len = frame"
  by (rule bb_scramble_involution)

text \<open>C20: parsing a frame that was built for a MODCOD of the table, with any roll-off code and
  any user bits that fit its data field, succeeds and returns those bits and their number; the
  rest of the caller's buffer is left alone.\<close>

theorem bb_frame_roundtrip:
  assumes "dvbs2x_vlsnr_get_modcod i = Some mc"
    and "n \<le> mc_k_bch mc - 80" and "n \<le> length data" and "length bb = mc_k_bch mc"
    and "n \<le> cap"
    and "dvbs2x_bb_frame_build (Some (dvbs2x_bb_frame_init mc DVBS2X_STREAM_GS\<lparr>ctx_ro := ro\<rparr>))
           (Some data) n (Some bb) = Inr frame"
  shows "dvbs2x_bb_frame_parse_ex (Some (dvbs2x_bb_frame_init mc DVBS2X_STREAM_GS)) (Some frame)
           (Some out) cap True =
         \<lparr>pr_status = None, pr_user_data = overwrite 0 (take n data) out, pr_user_len = Some n\<rparr>"
  using assms by (rule parse_built)

theorem bb_frame_roundtrip_witness:
  "dvbs2x_bb_frame_parse_ex (Some (dvbs2x_bb_frame_init modcod_5 DVBS2X_STREAM_GS))
     (Some (projr (dvbs2x_bb_frame_build
        (Some (dvbs2x_bb_frame_init modcod_5 DVBS2X_STREAM_GS\<lparr>ctx_ro := 2\<rparr>))
        (Some [1, 0, 1]) 3 (Some (replicate 2512 0)))))
     (Some [0, 0, 0, 7]) 4 True =
   \<lparr>pr_status = None, pr_user_data = [1, 0, 1, 7], pr_user_len = Some 3\<rparr>"
proof -
  have mc: "dvbs2x_vlsnr_get_modcod 5 = Some modcod_5"
    by (simp add: dvbs2x_vlsnr_get_modcod_def vlsnr_modcod_table_def const_defs)
  have k: "mc_k_bch modcod_5 = 2512" by (simp add: modcod_5_def)
  let ?b = "dvbs2x_bb_frame_build
        (Some (dvbs2x_bb_frame_init modcod_5 DVBS2X_STREAM_GS\<lparr>ctx_ro := 2\<rparr>))
        (Some [1, 0, 1]) 3 (Some (replicate 2512 0))"
  have "?b = Inr (projr ?b)"
    using build_ok [OF modcod_wf_entries(5), of 3 "[1, 0, 1]" "replicate 2512 0" 2]
    by (simp add: k)
  from bb_frame_roundtrip [OF mc _ _ _ _ this, of 4 "[0, 0, 0, 7]"]
  show ?thesis by (simp add: k overwrite_def)
qed

text \<open>C21: whatever bits of one byte of the header are corrupted in a built frame, the parser
  reports it (with the value -1 of the out-of-memory status) and stores no data.\<close>

theorem parse_rejects_corrupted_header:
  assumes "dvbs2x_vlsnr_get_modcod j = Some mc"
    and "n \<le> mc_k_bch mc - 80" and "n \<le> length data" and "length bb = mc_k_bch mc"
    and "dvbs2x_bb_frame_build (Some (dvbs2x_bb_frame_init mc DVBS2X_STREAM_GS\<lparr>ctx_ro := ro\<rparr>))
           (Some data) n (Some bb) = Inr frame"
    and "i < 10" and "x \<noteq> 0"
  shows "dvbs2x_bb_frame_parse_ex (Some (dvbs2x_bb_frame_init mc DVBS2X_STREAM_GS))
           (Some (corrupt_byte i x frame)) (Some out) cap True =
         \<lparr>pr_status = Some ERR_NOMEM, pr_user_data = out, pr_user_len = Some 0\<rparr>"
proof -
  have wf: "modcod_wf mc" using get_modcod_ok [OF assms(1)] by simp
  let ?k = "mc_k_bch mc"
  let ?h = "bb_header_bytes (0x70 OR (ro AND 3)) n 0 0 0"
  let ?h' = "?h[i := ?h ! i XOR x]"
  let ?rest = "take n data @ replicate (?k - 80 - n) 0"
  note k = modcod_wf_k_bch [OF wf]
  have f: "frame = bb_scramble (bytes_bits ?h @ ?rest) ?k"
    using assms build_ok [OF wf] by simp
  have len: "length (bytes_bits ?h @ ?rest) = ?k" using assms(2,3) k by simp
  have "corrupt_byte i x (bytes_bits ?h @ ?rest) = bytes_bits ?h' @ ?rest"
    by (rule corrupt_bytes_bits) (simp add: assms(6))
  then have "corrupt_byte i x frame = bb_scramble (bytes_bits ?h' @ ?rest) ?k"
    unfolding f bb_scramble_corrupt [OF len, symmetric] by (simp only:)
  moreover have "length (bytes_bits ?h' @ ?rest) = ?k" using len by simp
  ultimately have d: "bb_scramble (take ?k (corrupt_byte i x frame)) ?k = bytes_bits ?h' @ ?rest"
    by (simp only: descramble_exact)
  have hb: "bits_bytes DVBS2X_BB_HEADER_LEN (bytes_bits ?h' @ ?rest) = ?h'"
    by (simp add: bits_bytes_bits const_defs)
  have "?h ! i XOR x \<noteq> ?h ! i"
    using assms(7) by (simp add: xor_eq_self_iff)
  then have "dvbs2x_bb_crc8 ?h' 9 \<noteq> ?h' ! 9"
    using header_crc_corrupted [OF _ header_crc_ok assms(6)] by simp
  then show ?thesis
    using parse_bad_crc [where ctx = "dvbs2x_bb_frame_init mc DVBS2X_STREAM_GS",
      unfolded init_fields, OF k(2) d hb] by simp
qed

theorem parse_rejects_corrupted_header_witness:
  "dvbs2x_bb_frame_parse_ex (Some (dvbs2x_bb_frame_init modcod_5 DVBS2X_STREAM_GS))
     (Some (corrupt_byte 4 0x81 (projr (dvbs2x_bb_frame_build
        (Some (dvbs2x_bb_frame_init modcod_5 DVBS2X_STREAM_GS\<lparr>ctx_ro := 2\<rparr>))
        (Some [1, 0, 1]) 3 (Some (replicate 2512 0))))))
     (Some [0, 0, 0, 7]) 4 True =
   \<lparr>pr_status = Some ERR_NOMEM, pr_user_data = [0, 0, 0, 7], pr_user_len = Some 0\<rparr>"
proof -
  have mc: "dvbs2x_vlsnr_get_modcod 5 = Some modcod_5"
    by (simp add: dvbs2x_vlsnr_get_modcod_def vlsnr_modcod_table_def const_defs)
  have k: "mc_k_bch modcod_5 = 2512" by (simp add: modcod_5_def)
  let ?b = "dvbs2x_bb_frame_build
        (Some (dvbs2x_bb_frame_init modcod_5 DVBS2X_STREAM_GS\<lparr>ctx_ro := 2\<rparr>))
        (Some [1, 0, 1]) 3 (Some (replicate 2512 0))"
  have "?b = Inr (projr ?b)"
    using build_ok [OF modcod_wf_entries(5), of 3 "[1, 0, 1]" "replicate 2512 0" 2]
    by (simp add: k)
  from parse_rejects_corrupted_header [OF mc _ _ _ this, of 4 "0x81" "[0, 0, 0, 7]" 4]
  show ?thesis by (simp add: k)
qed

text \<open>C22: whatever the frame holds, the length the parser stores is at most the data field of
  the MODCOD; on success it is within the caller's capacity and only that many entries of the
  buffer are written; on an error the buffer is untouched.\<close>

theorem bb_parse_bounds:
  assumes "80 \<le> ctx_k_bch ctx" and "ctx_k_bch ctx \<le> length f" and "cap \<le> length out"
  shows "\<exists>n. pr_user_len (dvbs2x_bb_frame_parse_ex (Some ctx) (Some f) (Some out) cap True) = Some n \<and>
    n \<le> ctx_k_bch ctx - 80 \<and>
    (if pr_status (dvbs2x_bb_frame_parse_ex (Some ctx) (Some f) (Some out) cap True) = None
     then n \<le> cap \<and> (\<exists>ys. length ys = n \<and>
       pr_user_data (dvbs2x_bb_frame_parse_ex (Some ctx) (Some f) (Some out) cap True) =
         ys @ drop n out)
     else pr_user_data (dvbs2x_bb_frame_parse_ex (Some ctx) (Some f) (Some out) cap True) = out)"
proof (cases "64800 < ctx_k_bch ctx")
  case True
  then show ?thesis by (simp add: dvbs2x_bb_frame_parse_ex_def bb_const_defs)
next
  case False
  let ?k = "ctx_k_bch ctx"
  define g where "g = bb_scramble (take ?k f) ?k"
  define h where "h = bits_bytes DVBS2X_BB_HEADER_LEN g"
  define d where "d = (if ?k - 80 < unat (be16 (h ! 4) (h ! 5)) then of_nat (?k - 80)
    else be16 (h ! 4) (h ! 5))"
  have "unat (of_nat (?k - 80) :: u16) = ?k - 80"
    using False by (simp add: unat_of_nat_small del: of_nat_diff)
  then have d: "unat d \<le> ?k - 80" by (simp add: d_def del: of_nat_diff)
  have lg: "length g = ?k" using assms(2) by (simp add: g_def)
  have "dvbs2x_bb_frame_parse_ex (Some ctx) (Some f) (Some out) cap True =
    (if dvbs2x_bb_crc8 h 9 \<noteq> h ! 9
     then \<lparr>pr_status = Some ERR_NOMEM, pr_user_data = out, pr_user_len = Some 0\<rparr>
     else if h ! 0 AND 0xC0 \<noteq> 0x40 \<or> h ! 2 \<noteq> 0 \<or> h ! 3 \<noteq> 0
     then \<lparr>pr_status = Some ERR_PARAM, pr_user_data = out, pr_user_len = Some 0\<rparr>
     else if cap < unat d
     then \<lparr>pr_status = Some ERR_SHORT, pr_user_data = out, pr_user_len = Some (unat d)\<rparr>
     else \<lparr>pr_status = None,
           pr_user_data = overwrite 0 (take (unat d) (drop 80 g)) out,
           pr_user_len = Some (unat d)\<rparr>)"
    using False assms(1)
    by (simp only: dvbs2x_bb_frame_parse_ex_def Let_def g_def h_def d_def option.case prod.case
        not_True_eq_False if_False BB_HEADER_BITS_def DVBS2X_LDPC_NORMAL_def usub_ge)
  then show ?thesis
    using d lg assms by (auto simp: overwrite_def)
qed

theorem bb_parse_bounds_witness:
  "\<exists>n. pr_user_len (dvbs2x_bb_frame_parse_ex
      (Some (dvbs2x_bb_frame_init modcod_5 DVBS2X_STREAM_GS)) (Some (replicate 2512 1))
      (Some (replicate 9 0)) 9 True) = Some n \<and> n \<le> 2432"
  using bb_parse_bounds [of "dvbs2x_bb_frame_init modcod_5 DVBS2X_STREAM_GS"
      "replicate 2512 1" 9 "replicate 9 0"]
  by (auto simp: modcod_5_def)

end
