(* ===== verification/TsAdapt.thy ===== *)
theory TsAdapt
  imports BbFrame
begin

text \<open>
  \<^verbatim>\<open>src/bb_frame.c\<close>, transport streams: the mode adapter that cuts 188-byte packets into the data
  fields of BB frames, and the receiver that puts them together again.  In the adapted stream the
  sync byte of a packet is replaced by the CRC-8 of the packet before it, so that the receiver can
  release a packet only when the next one is complete; \<open>syncd\<close> in a frame's header is the
  distance from the start of its data field to the first packet that starts in it.

  The end-to-end property rests on a bit-level view: the transmitter's buffer is the part of the
  stream not yet framed, the receiver's packet buffer the part not yet released.
\<close>

section \<open>Transmitter\<close>

record ts_tx =
  tx_bb :: bb_frame_ctx
  tx_data_bits :: "u8 list option"
  tx_data_len :: nat
  tx_syncd :: u16
  tx_previous_crc :: u8

definition ts_tx_zero :: ts_tx where
  "ts_tx_zero =
     \<lparr>tx_bb = \<lparr>ctx_k_bch = 0, ctx_stream_type = 0, ctx_upl = 0, ctx_dfl = 0, ctx_ro = 0\<rparr>,
      tx_data_bits = None, tx_data_len = 0, tx_syncd = 0, tx_previous_crc = 0\<rparr>"

text \<open>\<open>alloc n\<close> is what \<^verbatim>\<open>malloc(n)\<close> returns: a block of \<open>n\<close> bytes of any contents, or null.\<close>

definition dvbs2x_ts_tx_init ::
  "(nat \<Rightarrow> u8 list option) \<Rightarrow> ts_tx option \<Rightarrow> dvbs2x_modcod option \<Rightarrow> u8 \<Rightarrow>
   dvbs2x_error option \<times> ts_tx option" where
  "dvbs2x_ts_tx_init alloc tx_p modcod_p ro =
     (case (tx_p, modcod_p) of
        (Some _, Some modcod) \<Rightarrow>
          if DVBS2X_RO_0_20 < ro then (Some ERR_PARAM, tx_p)
          else
            let bb = dvbs2x_bb_frame_init modcod DVBS2X_STREAM_TS;
                bb = bb\<lparr>ctx_upl := of_nat DVBS2X_TS_PACKET_BITS, ctx_ro := ro\<rparr>;
                block = alloc (unat (ctx_dfl bb));
                tx = ts_tx_zero\<lparr>tx_bb := bb, tx_data_bits := block\<rparr>
            in (if block = None then Some ERR_NOMEM else None, Some tx)
      | _ \<Rightarrow> (Some ERR_PARAM, tx_p))"

definition dvbs2x_ts_tx_destroy :: "ts_tx option \<Rightarrow> ts_tx option" where
  "dvbs2x_ts_tx_destroy tx_p =
     map_option (\<lambda>tx. tx\<lparr>tx_data_bits := None, tx_data_len := 0\<rparr>) tx_p"

text \<open>One round of the loop of \<^verbatim>\<open>dvbs2x_ts_tx_push\<close>: store a bit, and write out a frame when the
  data field is full.  The state is the transmitter, the output frame and its length.\<close>

definition ts_tx_bit ::
  "u8 list \<Rightarrow> nat \<Rightarrow> ts_tx \<times> u8 list \<times> nat \<Rightarrow> ts_tx \<times> u8 list \<times> nat" where
  "ts_tx_bit packet i = (\<lambda>(tx, bbframe, frame_len).
     let byte = (if i < 8 then tx_previous_crc tx else packet ! (i div 8));
         b = drop_bit (7 - i mod 8) byte AND 1;
         tx = tx\<lparr>tx_data_bits := map_option (\<lambda>d. d[tx_data_len tx := b]) (tx_data_bits tx),
                 tx_data_len := tx_data_len tx + 1\<rparr>;
         dfl = unat (ctx_dfl (tx_bb tx))
     in if tx_data_len tx \<noteq> dfl then (tx, bbframe, frame_len)
        else
          let bbframe = bb_header_write (tx_bb tx) dfl (of_nat DVBS2X_TS_PACKET_BITS) 0x47
                (tx_syncd tx) 0xF0 bbframe;
              bbframe = overwrite BB_HEADER_BITS (take dfl (the (tx_data_bits tx))) bbframe;
              bbframe = bb_scramble bbframe (ctx_k_bch (tx_bb tx));
              tx = tx\<lparr>tx_data_len := 0,
                tx_syncd := (if i + 1 = DVBS2X_TS_PACKET_BITS then 0
                             else of_nat (DVBS2X_TS_PACKET_BITS - i - 1))\<rparr>
          in (tx, bbframe, ctx_k_bch (tx_bb tx)))"

text \<open>The results of a push: status, transmitter, output buffer and the length stored through
  \<^verbatim>\<open>frame_len\<close> (\<open>None\<close> when that pointer is null).\<close>

record ts_tx_result =
  txr_status :: "dvbs2x_error option"
  txr_tx :: "ts_tx option"
  txr_bbframe :: "u8 list option"
  txr_frame_len :: "nat option"

definition dvbs2x_ts_tx_push ::
  "ts_tx option \<Rightarrow> u8 list option \<Rightarrow> u8 list option \<Rightarrow> nat \<Rightarrow> bool \<Rightarrow> ts_tx_result" where
  "dvbs2x_ts_tx_push tx_p packet_p bbframe_p frame_capacity frame_len_ok =
     (let fail = (\<lambda>e n. \<lparr>txr_status = Some e, txr_tx = tx_p, txr_bbframe = bbframe_p,
                        txr_frame_len = n\<rparr>)
      in if \<not> frame_len_ok then fail ERR_PARAM None
         else case (tx_p, packet_p, bbframe_p) of
           (Some tx, Some packet, Some bbframe) \<Rightarrow>
             if tx_data_bits tx = None \<or> packet ! 0 \<noteq> 0x47 then fail ERR_PARAM (Some 0)
             else if frame_capacity < ctx_k_bch (tx_bb tx)
             then fail ERR_SHORT (Some (ctx_k_bch (tx_bb tx)))
             else
               let (tx, bbframe, frame_len) =
                     foldl (\<lambda>s i. ts_tx_bit packet i s) (tx, bbframe, 0)
                       [0..<DVBS2X_TS_PACKET_BITS];
                   tx = tx\<lparr>tx_previous_crc :=
                     dvbs2x_bb_crc8 (drop 1 packet) (DVBS2X_TS_PACKET_SIZE - 1)\<rparr>
               in \<lparr>txr_status = None, txr_tx = Some tx, txr_bbframe = Some bbframe,
                   txr_frame_len = Some frame_len\<rparr>
         | _ \<Rightarrow> fail ERR_PARAM (Some 0))"

section \<open>Receiver\<close>

record ts_rx =
  rx_bb :: bb_frame_ctx
  rx_packet :: "u8 list"
  rx_previous :: "u8 list"
  rx_packet_bits :: nat
  rx_have_previous :: bool

definition ts_rx_zero :: ts_rx where
  "ts_rx_zero =
     \<lparr>rx_bb = \<lparr>ctx_k_bch = 0, ctx_stream_type = 0, ctx_upl = 0, ctx_dfl = 0, ctx_ro = 0\<rparr>,
      rx_packet = replicate DVBS2X_TS_PACKET_SIZE 0,
      rx_previous = replicate DVBS2X_TS_PACKET_SIZE 0,
      rx_packet_bits = 0, rx_have_previous = False\<rparr>"

definition dvbs2x_ts_rx_init ::
  "ts_rx option \<Rightarrow> dvbs2x_modcod option \<Rightarrow> dvbs2x_error option \<times> ts_rx option" where
  "dvbs2x_ts_rx_init rx_p modcod_p =
     (case (rx_p, modcod_p) of
        (Some _, Some modcod) \<Rightarrow>
          (None, Some (ts_rx_zero\<lparr>rx_bb :=
             (dvbs2x_bb_frame_init modcod DVBS2X_STREAM_TS)
               \<lparr>ctx_upl := of_nat DVBS2X_TS_PACKET_BITS\<rparr>\<rparr>))
      | _ \<Rightarrow> (Some ERR_PARAM, rx_p))"

definition dvbs2x_ts_rx_reset :: "ts_rx option \<Rightarrow> ts_rx option" where
  "dvbs2x_ts_rx_reset rx_p =
     map_option (\<lambda>rx. rx\<lparr>rx_packet_bits := 0, rx_have_previous := False\<rparr>) rx_p"

definition TS_MAX_PACKETS_PER_FRAME :: nat where
  "TS_MAX_PACKETS_PER_FRAME = DVBS2X_LDPC_NORMAL div DVBS2X_TS_PACKET_BITS + 1"

text \<open>The local variables of \<^verbatim>\<open>dvbs2x_ts_rx_push\<close>.  The local array \<^verbatim>\<open>output\<close> starts with
  unspecified contents, of which nothing is read; it starts as zeros here.\<close>

record ts_rx_work =
  w_packet :: "u8 list"
  w_previous :: "u8 list"
  w_packet_bits :: nat
  w_have_previous :: bool
  w_output :: "u8 list"
  w_produced :: nat

text \<open>One round of the loop: take in a bit; when a packet is complete, check and release the one
  before it.\<close>

definition ts_rx_bit :: "u8 \<Rightarrow> ts_rx_work \<Rightarrow> dvbs2x_error + ts_rx_work" where
  "ts_rx_bit x w =
     (let byte = w_packet_bits w div 8;
          b = w_packet_bits w mod 8;
          packet = (if b = 0 then (w_packet w)[byte := 0] else w_packet w);
          packet = packet[byte := packet ! byte OR push_bit (7 - b) x];
          w = w\<lparr>w_packet := packet, w_packet_bits := w_packet_bits w + 1\<rparr>
      in if w_packet_bits w \<noteq> DVBS2X_TS_PACKET_BITS then Inr w
         else
           let marker = w_packet w ! 0;
               packet = (w_packet w)[0 := 0x47];
               w = w\<lparr>w_packet := packet\<rparr>
           in if w_have_previous w \<and>
                 dvbs2x_bb_crc8 (drop 1 (w_previous w)) (DVBS2X_TS_PACKET_SIZE - 1) \<noteq> marker
              then Inl ERR_CRC
              else
                let w = (if w_have_previous w
                         then w\<lparr>w_output :=
                                  overwrite (w_produced w * DVBS2X_TS_PACKET_SIZE) (w_previous w)
                                    (w_output w),
                                w_produced := w_produced w + 1\<rparr>
                         else w)
                in Inr (w\<lparr>w_previous := packet, w_have_previous := True, w_packet_bits := 0\<rparr>))"

fun ts_rx_bits :: "u8 list \<Rightarrow> ts_rx_work \<Rightarrow> dvbs2x_error + ts_rx_work" where
  "ts_rx_bits [] w = Inr w"
| "ts_rx_bits (x # xs) w = (case ts_rx_bit x w of Inl e \<Rightarrow> Inl e | Inr w' \<Rightarrow> ts_rx_bits xs w')"

record ts_rx_result =
  rxr_status :: "dvbs2x_error option"
  rxr_rx :: "ts_rx option"
  rxr_packets :: "u8 list option"
  rxr_count :: "nat option"

definition ts_rx_header_ok :: "ts_rx \<Rightarrow> dvbs2x_bb_header \<Rightarrow> bool" where
  "ts_rx_header_ok rx header \<longleftrightarrow>
     \<not> (h_matype1 header AND 0xC0 \<noteq> 0xC0 \<or> h_matype2 header \<noteq> 0 \<or>
        unat (h_upl header) \<noteq> DVBS2X_TS_PACKET_BITS \<or> h_sync header \<noteq> 0x47 \<or>
        ctx_dfl (rx_bb rx) < h_dfl header)"

text \<open>Where in the data field reading starts, or no synchronisation.\<close>

definition ts_rx_start :: "ts_rx \<Rightarrow> dvbs2x_bb_header \<Rightarrow> dvbs2x_error + nat" where
  "ts_rx_start rx header =
     (if rx_packet_bits rx = 0 \<and> \<not> rx_have_previous rx then
        (if h_dfl header < h_syncd header then Inl ERR_NOSYNC else Inr (unat (h_syncd header)))
      else if unat (h_syncd header) \<noteq>
          (if rx_packet_bits rx \<noteq> 0 then usub DVBS2X_TS_PACKET_BITS (rx_packet_bits rx) else 0)
      then Inl ERR_NOSYNC
      else Inr 0)"

definition dvbs2x_ts_rx_push ::
  "ts_rx option \<Rightarrow> u8 list option \<Rightarrow> u8 list option \<Rightarrow> nat \<Rightarrow> bool \<Rightarrow> ts_rx_result" where
  "dvbs2x_ts_rx_push rx_p bbframe_p packets_p packet_capacity count_ok =
     (let fail = (\<lambda>e n. \<lparr>rxr_status = Some e, rxr_rx = rx_p, rxr_packets = packets_p,
                        rxr_count = n\<rparr>)
      in if \<not> count_ok then fail ERR_PARAM None
         else case (rx_p, bbframe_p, packets_p) of
           (Some rx, Some bbframe, Some packets) \<Rightarrow>
             (case bb_header_read (rx_bb rx) bbframe of
                Inl e \<Rightarrow> fail e (Some 0)
              | Inr (descrambled, header) \<Rightarrow>
                  if \<not> ts_rx_header_ok rx header then fail ERR_PARAM (Some 0)
                  else case ts_rx_start rx header of
                    Inl e \<Rightarrow> fail e (Some 0)
                  | Inr start \<Rightarrow>
                      let dfl = unat (h_dfl header);
                          complete = usub (rx_packet_bits rx + dfl) start div DVBS2X_TS_PACKET_BITS;
                          needed = (if \<not> rx_have_previous rx \<and> complete \<noteq> 0 then complete - 1
                                    else complete)
                      in if packet_capacity < needed then fail ERR_SHORT (Some needed)
                         else
                           case ts_rx_bits
                             (take (dfl - start) (drop (BB_HEADER_BITS + start) descrambled))
                             \<lparr>w_packet = rx_packet rx, w_previous = rx_previous rx,
                              w_packet_bits = rx_packet_bits rx,
                              w_have_previous = rx_have_previous rx,
                              w_output =
                                replicate (TS_MAX_PACKETS_PER_FRAME * DVBS2X_TS_PACKET_SIZE) 0,
                              w_produced = 0\<rparr> of
                             Inl e \<Rightarrow> fail e (Some 0)
                           | Inr w \<Rightarrow>
                               \<lparr>rxr_status = None,
                                rxr_rx = Some (rx\<lparr>rx_packet := w_packet w,
                                  rx_previous := w_previous w,
                                  rx_packet_bits := w_packet_bits w,
                                  rx_have_previous := w_have_previous w\<rparr>),
                                rxr_packets = Some
                                  (overwrite 0
                                    (take (w_produced w * DVBS2X_TS_PACKET_SIZE) (w_output w))
                                    packets),
                                rxr_count = Some (w_produced w)\<rparr>)
         | _ \<Rightarrow> fail ERR_PARAM (Some 0))"

definition dvbs2x_ts_rx_finalize_unchecked ::
  "ts_rx option \<Rightarrow> u8 list option \<Rightarrow> nat \<Rightarrow> bool \<Rightarrow> ts_rx_result" where
  "dvbs2x_ts_rx_finalize_unchecked rx_p packet_p packet_capacity count_ok =
     (let fail = (\<lambda>e n. \<lparr>rxr_status = Some e, rxr_rx = rx_p, rxr_packets = packet_p,
                        rxr_count = n\<rparr>)
      in if \<not> count_ok then fail ERR_PARAM None
         else case (rx_p, packet_p) of
           (Some rx, Some packet) \<Rightarrow>
             if rx_have_previous rx \<and> packet_capacity = 0 then fail ERR_SHORT (Some 1)
             else
               \<lparr>rxr_status = None, rxr_rx = dvbs2x_ts_rx_reset (Some rx),
                rxr_packets = Some (if rx_have_previous rx
                  then overwrite 0 (take DVBS2X_TS_PACKET_SIZE (rx_previous rx)) packet
                  else packet),
                rxr_count = Some (if rx_have_previous rx then 1 else 0)\<rparr>
         | _ \<Rightarrow> fail ERR_PARAM (Some 0))"

section \<open>The adapted stream\<close>

text \<open>The bits of one packet in the stream, with the CRC of the packet before in place of the sync
  byte, and the stream of a list of packets.\<close>

definition ts_crc :: "u8 list \<Rightarrow> u8" where
  "ts_crc p = dvbs2x_bb_crc8 (drop 1 p) (DVBS2X_TS_PACKET_SIZE - 1)"

definition up_bits :: "u8 \<Rightarrow> u8 list \<Rightarrow> u8 list" where
  "up_bits c p = bytes_bits (c # tl p)"

fun ts_stream :: "u8 \<Rightarrow> u8 list list \<Rightarrow> u8 list" where
  "ts_stream c [] = []"
| "ts_stream c (p # ps) = up_bits c p @ ts_stream (ts_crc p) ps"

definition ts_packet :: "u8 list \<Rightarrow> bool" where
  "ts_packet p \<longleftrightarrow> length p = 188 \<and> p ! 0 = 0x47"

lemma length_up_bits [simp, lens]: "ts_packet p \<Longrightarrow> length (up_bits c p) = 1504"
  by (simp add: up_bits_def ts_packet_def)

lemma up_bits_nth:
  assumes "ts_packet p" "i < 1504"
  shows "up_bits c p ! i = drop_bit (7 - i mod 8) (if i < 8 then c else p ! (i div 8)) AND 1"
proof -
  have "(c # tl p) ! (i div 8) = (if i < 8 then c else p ! (i div 8))"
    using assms by (cases "i div 8") (auto simp: ts_packet_def nth_tl)
  then show ?thesis
    using assms by (simp add: up_bits_def nth_bytes_bits ts_packet_def)
qed

lemma up_bits_01: "b \<in> set (up_bits c p) \<Longrightarrow> b = 0 \<or> b = 1"
  by (auto simp: up_bits_def bytes_bits_def dest: byte_bits_in_01)

lemma ts_stream_01: "b \<in> set (ts_stream c ps) \<Longrightarrow> b = 0 \<or> b = 1"
  by (induction ps arbitrary: c) (auto dest: up_bits_01)

lemma length_ts_stream: "list_all ts_packet ps \<Longrightarrow> length (ts_stream c ps) = 1504 * length ps"
  by (induction ps arbitrary: c) simp_all

definition last_crc :: "u8 \<Rightarrow> u8 list list \<Rightarrow> u8" where
  "last_crc c ps = (if ps = [] then c else ts_crc (last ps))"

lemma last_crc_simps [simp]:
  "last_crc c [] = c" "last_crc c (p # ps) = last_crc (ts_crc p) ps"
  "last_crc c (ps @ [p]) = ts_crc p"
  by (simp_all add: last_crc_def)

lemma ts_stream_append: "ts_stream c (ps @ qs) = ts_stream c ps @ ts_stream (last_crc c ps) qs"
  by (induction ps arbitrary: c) simp_all

section \<open>The transmitter against the stream\<close>

definition tx_dfl :: "ts_tx \<Rightarrow> nat" where
  "tx_dfl tx = unat (ctx_dfl (tx_bb tx))"

text \<open>The invariant of an initialised transmitter, and the bits it has not framed yet.\<close>

definition ts_tx_inv :: "ts_tx \<Rightarrow> bool" where
  "ts_tx_inv tx \<longleftrightarrow>
     (case tx_data_bits tx of None \<Rightarrow> False | Some d \<Rightarrow> length d = tx_dfl tx) \<and>
     tx_data_len tx < tx_dfl tx \<and> 1504 \<le> tx_dfl tx \<and>
     ctx_k_bch (tx_bb tx) = tx_dfl tx + 80 \<and> ctx_k_bch (tx_bb tx) \<le> 64800"

definition tx_pending :: "ts_tx \<Rightarrow> u8 list" where
  "tx_pending tx = take (tx_data_len tx) (the (tx_data_bits tx))"

definition ts_frame :: "bb_frame_ctx \<Rightarrow> u16 \<Rightarrow> u8 list \<Rightarrow> u8 list" where
  "ts_frame bb syncd payload =
     bb_scramble
       (bytes_bits (bb_header_bytes (0xF0 OR (ctx_ro bb AND 3)) (unat (ctx_dfl bb)) 1504 0x47 syncd)
        @ payload) (ctx_k_bch bb)"

lemma length_tx_pending: "ts_tx_inv tx \<Longrightarrow> length (tx_pending tx) = tx_data_len tx"
  by (auto simp: ts_tx_inv_def tx_pending_def split: option.splits)

text \<open>The rounds of the push loop that do not fill the data field.\<close>

lemma ts_tx_fill:
  assumes "ts_packet p" and "tx_data_bits tx = Some d" and "length d = tx_dfl tx"
    and "a \<le> b" and "b \<le> 1504" and "tx_data_len tx + (b - a) < tx_dfl tx"
  shows "foldl (\<lambda>s i. ts_tx_bit p i s) (tx, bb, n) [a..<b] =
    (tx\<lparr>tx_data_bits := Some (overwrite (tx_data_len tx)
          (take (b - a) (drop a (up_bits (tx_previous_crc tx) p))) d),
        tx_data_len := tx_data_len tx + (b - a)\<rparr>, bb, n)"
  using assms(4,5,6)
proof (induction b rule: dec_induct)
  case base
  then show ?case using assms(2) by simp
next
  case (step b)
  let ?u = "up_bits (tx_previous_crc tx) p"
  have u: "take (Suc b - a) (drop a ?u) = take (b - a) (drop a ?u) @ [?u ! b]"
    using step.hyps step.prems assms(1)
    by (simp add: Suc_diff_le take_Suc_conv_app_nth)
  have "overwrite (tx_data_len tx) (take (Suc b - a) (drop a ?u)) d =
      (overwrite (tx_data_len tx) (take (b - a) (drop a ?u)) d)[tx_data_len tx + (b - a) := ?u ! b]"
    unfolding u using step.hyps step.prems assms
    by (subst overwrite_snoc) auto
  then show ?case
    using step assms(1,3)
    by (simp add: ts_tx_bit_def up_bits_nth tx_dfl_def Suc_diff_le)
qed

text \<open>The round that fills it.\<close>

lemma ts_tx_emit:
  assumes p: "ts_packet p" and i: "i < 1504" and d: "tx_data_bits tx = Some d" "length d = tx_dfl tx"
    and full: "tx_data_len tx + 1 = tx_dfl tx" and k: "ctx_k_bch (tx_bb tx) = tx_dfl tx + 80"
    and bb: "length bb = ctx_k_bch (tx_bb tx)"
  shows "ts_tx_bit p i (tx, bb, n) =
    (tx\<lparr>tx_data_bits := Some (d[tx_data_len tx := up_bits (tx_previous_crc tx) p ! i]),
        tx_data_len := 0, tx_syncd := of_nat (1504 - (i + 1))\<rparr>,
     ts_frame (tx_bb tx) (tx_syncd tx)
       (take (tx_data_len tx) d @ [up_bits (tx_previous_crc tx) p ! i]),
     ctx_k_bch (tx_bb tx))"
proof -
  let ?x = "up_bits (tx_previous_crc tx) p ! i"
  have t: "d[tx_data_len tx := ?x] = take (tx_data_len tx) d @ [?x]"
    using full d(2) by (simp add: upd_conv_take_nth_drop)
  have len: "length (take (tx_data_len tx) d @ [?x]) = tx_dfl tx"
    using full d(2) by simp
  have x: "drop_bit (7 - i mod 8) (if i < 8 then tx_previous_crc tx else p ! (i div 8)) AND 1 = ?x"
    using up_bits_nth [OF p i, of "tx_previous_crc tx"] by (rule sym)
  have h: "overwrite BB_HEADER_BITS (take (tx_dfl tx) (d[tx_data_len tx := ?x]))
      (bb_header_write (tx_bb tx) (tx_dfl tx) 1504 0x47 (tx_syncd tx) 0xF0 bb) =
    bytes_bits (bb_header_bytes (0xF0 OR (ctx_ro (tx_bb tx) AND 3)) (tx_dfl tx) 1504 0x47
      (tx_syncd tx)) @ take (tx_data_len tx) d @ [?x]"
    using bb k len full unfolding t
    by (simp add: bb_header_write_def overwrite_def BB_HEADER_BITS_def)
  have s: "(if i + 1 = 1504 then 0 else of_nat (1504 - i - 1)) = (of_nat (1504 - (i + 1)) :: u16)"
    by simp
  show ?thesis
    unfolding ts_tx_bit_def Let_def prod.case x DVBS2X_TS_PACKET_BITS_def
    using full h s d by (simp add: tx_dfl_def ts_frame_def del: of_nat_diff)
qed

lemma tx_loop_split:
  assumes "c \<le> 1504" "0 < c"
  shows "[0..<1504] = [0..<c - 1] @ (c - 1) # [c..<1504]"
proof -
  have "[0..<1504] = [0..<c - 1] @ [c - 1..<1504]"
    using upt_add_eq_append [of 0 "c - 1" "1504 - (c - 1)"] assms by simp
  also have "[c - 1..<1504] = (c - 1) # [c..<1504]"
    using assms by (subst upt_conv_Cons) auto
  finally show ?thesis .
qed

lemma ts_tx_loop:
  assumes inv: "ts_tx_inv tx" and p: "ts_packet p"
    and bb: "length bb = ctx_k_bch (tx_bb tx)"
    and all: "all = tx_pending tx @ up_bits (tx_previous_crc tx) p"
  shows "\<exists>tx' bb' n'. foldl (\<lambda>s i. ts_tx_bit p i s) (tx, bb, 0) [0..<1504] = (tx', bb', n') \<and>
    ts_tx_inv tx' \<and> tx_bb tx' = tx_bb tx \<and>
    (if length all < tx_dfl tx
     then n' = 0 \<and> tx_pending tx' = all \<and> tx_syncd tx' = tx_syncd tx
     else n' = ctx_k_bch (tx_bb tx) \<and>
       bb' = ts_frame (tx_bb tx) (tx_syncd tx) (take (tx_dfl tx) all) \<and>
       tx_pending tx' = drop (tx_dfl tx) all \<and>
       tx_syncd tx' = of_nat (length (drop (tx_dfl tx) all)))"
proof -
  let ?D = "tx_dfl tx" and ?L = "tx_data_len tx" and ?u = "up_bits (tx_previous_crc tx) p"
  obtain d where d: "tx_data_bits tx = Some d" "length d = ?D"
    using inv by (auto simp: ts_tx_inv_def split: option.splits)
  have L: "?L < ?D" "1504 \<le> ?D" "ctx_k_bch (tx_bb tx) = ?D + 80" "?D + 80 \<le> 64800"
    using inv by (auto simp: ts_tx_inv_def)
  have pend: "tx_pending tx = take ?L d" by (simp add: tx_pending_def d)
  have lall: "length all = ?L + 1504" using p L d by (simp add: all pend)
  show ?thesis
  proof (cases "length all < ?D")
    case True
    with lall have "?L + (1504 - 0) < ?D" by simp
    from ts_tx_fill [OF p d _ _ this, of bb 0] True lall show ?thesis
      using d L p
      by (simp add: ts_tx_inv_def tx_pending_def tx_dfl_def all overwrite_def)
  next
    case False
    define c where "c = ?D - ?L"
    have c: "0 < c" "c \<le> 1504" "?L + c = ?D" using False lall L by (auto simp: c_def)
    define d1 where "d1 = overwrite ?L (take (c - 1) ?u) d"
    define tx1 where "tx1 = tx\<lparr>tx_data_bits := Some d1, tx_data_len := ?L + (c - 1)\<rparr>"
    have f1: "foldl (\<lambda>s i. ts_tx_bit p i s) (tx, bb, 0) [0..<c - 1] = (tx1, bb, 0)"
      using ts_tx_fill [OF p d, of 0 "c - 1" bb 0] c by (simp add: tx1_def d1_def)
    have ld1: "length d1 = ?D" using c d p by (simp add: d1_def)
    have t1: "tx_data_bits tx1 = Some d1" "tx_dfl tx1 = ?D" "tx_bb tx1 = tx_bb tx"
      "tx_syncd tx1 = tx_syncd tx" "tx_previous_crc tx1 = tx_previous_crc tx"
      "tx_data_len tx1 = ?L + (c - 1)"
      by (simp_all add: tx1_def tx_dfl_def)
    have pay: "take (?L + (c - 1)) d1 @ [?u ! (c - 1)] = take ?D all"
    proof -
      have "take (?L + (c - 1)) d1 = take ?L d @ take (c - 1) ?u"
        using take_overwrite [of ?L "take (c - 1) ?u" d] c d p by (simp add: d1_def)
      moreover have "take (c - 1) ?u @ [?u ! (c - 1)] = take c ?u"
        using c p by (simp add: take_Suc_conv_app_nth [symmetric])
      moreover have "take ?D all = take ?L d @ take c ?u"
        using L(1) d by (simp add: all pend c_def min_absorb2)
      ultimately show ?thesis by simp
    qed
    define tx2 where "tx2 = tx1\<lparr>tx_data_bits := Some (d1[?L + (c - 1) := ?u ! (c - 1)]),
        tx_data_len := 0, tx_syncd := of_nat (1504 - c)\<rparr>"
    have f2: "ts_tx_bit p (c - 1) (tx1, bb, 0) =
        (tx2, ts_frame (tx_bb tx) (tx_syncd tx) (take ?D all), ctx_k_bch (tx_bb tx))"
      using ts_tx_emit [OF p _ t1(1), of "c - 1" bb 0, unfolded t1 pay] c L bb ld1
      by (simp add: tx2_def del: of_nat_diff)
    have t2: "tx_dfl tx2 = ?D" "tx_previous_crc tx2 = tx_previous_crc tx" "tx_data_len tx2 = 0"
      by (simp_all add: tx2_def t1 tx_dfl_def tx1_def)
    let ?f = "ts_frame (tx_bb tx) (tx_syncd tx) (take ?D all)" and ?k = "ctx_k_bch (tx_bb tx)"
    define d3 where "d3 = overwrite 0 (drop c ?u) (d1[?L + (c - 1) := ?u ! (c - 1)])"
    define tx3 where "tx3 = tx2\<lparr>tx_data_bits := Some d3, tx_data_len := 1504 - c\<rparr>"
    have f3: "foldl (\<lambda>s i. ts_tx_bit p i s) (tx2, ?f, ?k) [c..<1504] = (tx3, ?f, ?k)"
      using ts_tx_fill [OF p, of tx2 "d1[?L + (c - 1) := ?u ! (c - 1)]" c 1504 ?f ?k] c L ld1 p
      by (simp add: t2 tx3_def d3_def) (simp add: tx2_def)
    have f: "foldl (\<lambda>s i. ts_tx_bit p i s) (tx, bb, 0) [0..<1504] = (tx3, ?f, ?k)"
      by (simp only: tx_loop_split [OF c(2,1)] foldl_append foldl_Cons f1 f2 f3)
    have rest: "drop ?D all = drop c ?u" using L(1) d by (simp add: all pend c_def min_absorb2)
    have lu: "length (drop c ?u) = 1504 - c" using p by simp
    have ld3: "length d3 = ?D" using ld1 c L lu by (simp add: d3_def)
    have t3: "tx_bb tx3 = tx_bb tx" "tx_data_bits tx3 = Some d3" "tx_data_len tx3 = 1504 - c"
      "tx_syncd tx3 = of_nat (1504 - c)" "tx_dfl tx3 = ?D"
      by (simp_all add: tx3_def tx2_def tx1_def tx_dfl_def)
    have "tx_pending tx3 = drop c ?u"
      using lu by (simp add: tx_pending_def t3 d3_def overwrite_def)
    moreover have "ts_tx_inv tx3"
      using c L ld3 by (simp add: ts_tx_inv_def t3)
    ultimately show ?thesis
      using False f t3(1,4) rest lu by simp
  qed
qed

section \<open>The receiver against the stream\<close>

text \<open>The bits of the packet being received, and the packet that waits for its CRC.\<close>

definition w_pending :: "ts_rx_work \<Rightarrow> u8 list" where
  "w_pending w = take (w_packet_bits w) (bytes_bits (w_packet w))"

definition w_held :: "ts_rx_work \<Rightarrow> u8 list list" where
  "w_held w = (if w_have_previous w then [w_previous w] else [])"

text \<open>The bits of the current byte that have not been received are zero.\<close>

definition partial_byte_ok :: "u8 list \<Rightarrow> nat \<Rightarrow> bool" where
  "partial_byte_ok packet n \<longleftrightarrow>
     (n mod 8 \<noteq> 0 \<longrightarrow> (\<forall>m < 8 - n mod 8. \<not> bit (packet ! (n div 8)) m))"

definition ts_rx_winv :: "ts_rx_work \<Rightarrow> bool" where
  "ts_rx_winv w \<longleftrightarrow>
     length (w_packet w) = 188 \<and> w_packet_bits w < 1504 \<and>
     partial_byte_ok (w_packet w) (w_packet_bits w) \<and> list_all ts_packet (w_held w)"

lemma bytes_bits_inj: "bytes_bits xs = bytes_bits ys \<Longrightarrow> xs = ys"
proof -
  assume eq: "bytes_bits xs = bytes_bits ys"
  then have "8 * length xs = 8 * length ys" by (metis length_bytes_bits)
  then have "length xs = length ys" by simp
  then show "xs = ys"
    using bits_bytes_bits [of "length xs" xs "[]"] bits_bytes_bits [of "length xs" ys "[]"] eq
    by simp
qed

lemma u8_and_1_cases: "(x :: u8) AND 1 = y AND 1 \<longleftrightarrow> bit x 0 = bit y 0"
  by (simp add: and_1_bit of_bool_def split: if_splits)

text \<open>Storing bit \<open>n\<close> of the packet.\<close>

lemma store_bit:
  assumes n: "n < 1504" and len: "length packet = 188" and ok: "partial_byte_ok packet n"
    and x: "x = 0 \<or> x = 1"
    and p0: "p0 = (if n mod 8 = 0 then packet[n div 8 := 0] else packet)"
    and p1: "p1 = p0[n div 8 := p0 ! (n div 8) OR push_bit (7 - n mod 8) x]"
  shows "take (Suc n) (bytes_bits p1) = take n (bytes_bits packet) @ [x]"
    and "partial_byte_ok p1 (Suc n)" and "length p1 = 188"
proof -
  let ?b = "n div 8"
  have b: "?b < 188" using n by linarith
  show l1: "length p1 = 188" using len by (simp add: p0 p1)
  have zero: "\<not> bit (p0 ! ?b) m" if "m < 8 - n mod 8" for m
    using ok that b len by (simp add: p0 partial_byte_ok_def)
  have new: "bit (p1 ! ?b) m \<longleftrightarrow> bit (p0 ! ?b) m \<or> m = 7 - n mod 8 \<and> x = 1" if "m < 8" for m
    using x that b len by (auto simp: p1 p0 bit_or_iff bit_push_bit_iff bit_1_iff)
  have other: "p1 ! j = packet ! j" if "j \<noteq> ?b" for j
    using that by (simp add: p1 p0)
  show "take (Suc n) (bytes_bits p1) = take n (bytes_bits packet) @ [x]"
  proof (rule nth_equalityI)
    fix j assume "j < length (take (Suc n) (bytes_bits p1))"
    then have j: "j < Suc n" by simp
    then have j8: "j < 8 * 188" using n by simp
    show "take (Suc n) (bytes_bits p1) ! j = (take n (bytes_bits packet) @ [x]) ! j"
    proof (cases "j = n")
      case True
      have "drop_bit (7 - n mod 8) (p1 ! ?b) AND 1 = x"
        using new [of "7 - n mod 8"] zero [of "7 - n mod 8"] x
        by (auto simp: and_1_bit bit_drop_bit_eq)
      then show ?thesis using True n len l1 by (simp add: nth_append nth_bytes_bits)
    next
      case False
      have "drop_bit (7 - j mod 8) (p1 ! (j div 8)) AND 1 =
          drop_bit (7 - j mod 8) (packet ! (j div 8)) AND 1"
      proof (cases "j div 8 = ?b")
        case same: True
        then have "j mod 8 < n mod 8"
          using j False by (metis less_SucE mod_less_divisor div_mult_mod_eq nat_add_left_cancel_less)
        then show ?thesis
          using new [of "7 - j mod 8"] same
          by (auto simp: p0 u8_and_1_cases bit_drop_bit_eq)
      qed (simp add: other)
      then show ?thesis using False j j8 n len l1 by (simp add: nth_append nth_bytes_bits)
    qed
  qed (use n len l1 in simp)
  show "partial_byte_ok p1 (Suc n)"
  proof (cases "Suc n mod 8 = 0")
    case False
    then have "Suc n div 8 = ?b" "Suc n mod 8 = Suc (n mod 8)"
      by (simp_all add: div_Suc mod_Suc split: if_splits)
    then show ?thesis using new zero by (auto simp: partial_byte_ok_def)
  qed (simp add: partial_byte_ok_def)
qed

text \<open>One received bit, when the stream still to come is that of the packets \<open>q\<close>.\<close>

lemma ts_rx_bit_stream:
  assumes w: "ts_rx_winv w" and q: "list_all ts_packet q"
    and s: "w_pending w @ x # rest = ts_stream c q"
    and c: "w_held w \<noteq> [] \<Longrightarrow> c = ts_crc (last (w_held w))"
  obtains w' rel cmp q' where "ts_rx_bit x w = Inr w'" and "ts_rx_winv w'" and "q = cmp @ q'"
    and "w_pending w' @ rest = ts_stream (last_crc c cmp) q'"
    and "w_held w @ cmp = rel @ w_held w'"
    and "w_held w' \<noteq> [] \<Longrightarrow> last_crc c cmp = ts_crc (last (w_held w'))"
    and "w_held w' = [] \<Longrightarrow> rel = []"
    and "w_output w' = overwrite (w_produced w * 188) (concat rel) (w_output w)"
    and "w_produced w' = w_produced w + length rel"
    and "w_packet_bits w' + 1504 * length cmp = w_packet_bits w + 1"
proof -
  let ?n = "w_packet_bits w"
  have n: "?n < 1504" and len: "length (w_packet w) = 188"
    and ok: "partial_byte_ok (w_packet w) ?n" and held: "list_all ts_packet (w_held w)"
    using w by (simp_all add: ts_rx_winv_def)
  have "x \<in> set (ts_stream c q)" using s by (metis in_set_conv_decomp)
  then have x: "x = 0 \<or> x = 1" by (rule ts_stream_01)
  define p0 where "p0 = (if ?n mod 8 = 0 then (w_packet w)[?n div 8 := 0] else w_packet w)"
  define p1 where "p1 = p0[?n div 8 := p0 ! (?n div 8) OR push_bit (7 - ?n mod 8) x]"
  note st = store_bit [OF n len ok x p0_def p1_def]
  have s1: "take (Suc ?n) (bytes_bits p1) @ rest = ts_stream c q"
    using s by (simp add: st(1) w_pending_def)
  show ?thesis
  proof (cases "Suc ?n = 1504")
    case False
    let ?w = "w\<lparr>w_packet := p1, w_packet_bits := Suc ?n\<rparr>"
    have "ts_rx_bit x w = Inr ?w"
      using False by (simp add: ts_rx_bit_def Let_def DVBS2X_TS_PACKET_BITS_def p1_def p0_def)
    moreover have "ts_rx_winv ?w"
      using False n st held by (auto simp: ts_rx_winv_def w_held_def)
    ultimately show ?thesis
      using that [of ?w "[]" q "[]"] s1 c
      by (simp add: w_pending_def w_held_def)
  next
    case True
    have l: "length (take (Suc ?n) (bytes_bits p1)) = 1504" using True st(3) by simp
    have "q \<noteq> []"
    proof
      assume "q = []"
      then have "take (Suc ?n) (bytes_bits p1) = []" using s1 by simp
      then have "length (take (Suc ?n) (bytes_bits p1)) = 0" by (simp only: list.size)
      with l show False by linarith
    qed
    then obtain p q' where pq: "q = p # q'" by (cases q) auto
    have p: "ts_packet p" using q pq by simp
    have "bytes_bits p1 @ rest = up_bits c p @ ts_stream (ts_crc p) q'"
      using s1 True st(3) by (simp add: pq)
    then have e: "bytes_bits p1 = up_bits c p" "rest = ts_stream (ts_crc p) q'"
      using st(3) p by simp_all
    from e(1) have p1: "p1 = c # tl p" unfolding up_bits_def by (rule bytes_bits_inj)
    have "0x47 # tl p = p" using p by (cases p) (simp_all add: ts_packet_def)
    then have m: "p1 ! 0 = c" "p1[0 := 0x47] = p" using p1 by simp_all
    let ?w = "(if w_have_previous w
        then w\<lparr>w_packet := p, w_output := overwrite (w_produced w * 188) (w_previous w) (w_output w),
               w_produced := Suc (w_produced w)\<rparr>
        else w\<lparr>w_packet := p\<rparr>)\<lparr>w_previous := p, w_have_previous := True, w_packet_bits := 0\<rparr>"
    have crc: "w_have_previous w \<Longrightarrow>
        dvbs2x_bb_crc8 (drop 1 (w_previous w)) (DVBS2X_TS_PACKET_SIZE - 1) = c"
      using c by (simp add: w_held_def ts_crc_def)
    have "ts_rx_bit x w = Inr ?w"
      using True crc m unfolding ts_rx_bit_def Let_def p0_def [symmetric] p1_def [symmetric]
      by (simp add: DVBS2X_TS_PACKET_BITS_def DVBS2X_TS_PACKET_SIZE_def p0_def [symmetric]
          p1_def [symmetric])
    moreover have "ts_rx_winv ?w"
      using p by (simp add: ts_rx_winv_def w_held_def partial_byte_ok_def ts_packet_def)
    ultimately show ?thesis
      using that [of ?w "[p]" q' "w_held w"] pq e(2) True
      by (simp add: w_pending_def w_held_def)
  qed
qed

text \<open>A run of bits.\<close>

lemma length_w_held: "length (w_held w) \<le> 1"
  by (simp add: w_held_def)

lemma released_le:
  "held @ cmp = rel @ held' \<Longrightarrow> length held \<le> 1 \<Longrightarrow> (held' = [] \<Longrightarrow> rel = []) \<Longrightarrow>
   length rel \<le> length cmp"
  by (drule arg_cong [where f = length], cases held') auto

lemma released_packets:
  assumes "ts_rx_winv w" "list_all ts_packet q" "q = cmp @ q'" and eq: "w_held w @ cmp = rel @ held'"
  shows "list_all ts_packet rel"
proof -
  have "list_all ts_packet (w_held w @ cmp)" using assms(1-3) by (simp add: ts_rx_winv_def)
  then show ?thesis unfolding eq by simp
qed

lemma length_concat_packets: "list_all ts_packet ps \<Longrightarrow> length (concat ps) = 188 * length ps"
  by (induction ps) (auto simp: ts_packet_def)

lemma ts_rx_bits_stream:
  assumes "ts_rx_winv w" and "list_all ts_packet q"
    and "w_pending w @ xs @ rest = ts_stream c q"
    and "w_held w \<noteq> [] \<Longrightarrow> c = ts_crc (last (w_held w))"
    and "w_produced w + (w_packet_bits w + length xs) div 1504 \<le> 44"
    and "length (w_output w) = 44 * 188"
  shows "\<exists>w' rel cmp q'. ts_rx_bits xs w = Inr w' \<and> ts_rx_winv w' \<and> q = cmp @ q' \<and>
    w_pending w' @ rest = ts_stream (last_crc c cmp) q' \<and>
    w_held w @ cmp = rel @ w_held w' \<and>
    (w_held w' \<noteq> [] \<longrightarrow> last_crc c cmp = ts_crc (last (w_held w'))) \<and>
    (w_held w' = [] \<longrightarrow> rel = []) \<and>
    w_output w' = overwrite (w_produced w * 188) (concat rel) (w_output w) \<and>
    w_produced w' = w_produced w + length rel \<and>
    w_packet_bits w' + 1504 * length cmp = w_packet_bits w + length xs"
  using assms
proof (induction xs arbitrary: w q c)
  case Nil
  then show ?case
    by (intro exI [of _ w] exI [of _ "[]"] exI [of _ q]) simp
next
  case (Cons x xs)
  from Cons.prems(3) have s: "w_pending w @ x # (xs @ rest) = ts_stream c q" by simp
  obtain w1 rel1 cmp1 q1 where r1: "ts_rx_bit x w = Inr w1" "ts_rx_winv w1" "q = cmp1 @ q1"
    "w_pending w1 @ xs @ rest = ts_stream (last_crc c cmp1) q1"
    "w_held w @ cmp1 = rel1 @ w_held w1"
    "w_held w1 \<noteq> [] \<Longrightarrow> last_crc c cmp1 = ts_crc (last (w_held w1))"
    "w_held w1 = [] \<Longrightarrow> rel1 = []"
    "w_output w1 = overwrite (w_produced w * 188) (concat rel1) (w_output w)"
    "w_produced w1 = w_produced w + length rel1"
    "w_packet_bits w1 + 1504 * length cmp1 = w_packet_bits w + 1"
    by (rule ts_rx_bit_stream [OF Cons.prems(1,2) s Cons.prems(4)]) (assumption, rule that)
  note rel1 = released_packets [OF Cons.prems(1,2) r1(3,5)] released_le [OF r1(5) length_w_held r1(7)]
  have div: "(w_packet_bits w1 + length xs) div 1504 + length cmp1 =
      (w_packet_bits w + length (x # xs)) div 1504"
  proof -
    have "w_packet_bits w + length (x # xs) = (w_packet_bits w1 + length xs) + length cmp1 * 1504"
      using r1(10) by simp
    then show ?thesis by simp
  qed
  have prod: "w_produced w1 + (w_packet_bits w1 + length xs) div 1504 \<le> 44"
    using Cons.prems(5) div rel1(2) r1(9) by simp
  have lrel1: "length (concat rel1) = 188 * length rel1"
    by (rule length_concat_packets [OF rel1(1)])
  have fit: "w_produced w * 188 + length (concat rel1) \<le> length (w_output w)"
    using prod r1(9) Cons.prems(6) lrel1 by simp
  have lo: "length (w_output w1) = 44 * 188" using fit r1(8) Cons.prems(6) by simp
  have q1: "list_all ts_packet q1" using Cons.prems(2) r1(3) by simp
  from Cons.IH [OF r1(2) q1 r1(4) r1(6) prod lo]
  obtain w2 rel2 cmp2 q2 where r2: "ts_rx_bits xs w1 = Inr w2" "ts_rx_winv w2" "q1 = cmp2 @ q2"
    "w_pending w2 @ rest = ts_stream (last_crc (last_crc c cmp1) cmp2) q2"
    "w_held w1 @ cmp2 = rel2 @ w_held w2"
    "w_held w2 \<noteq> [] \<longrightarrow> last_crc (last_crc c cmp1) cmp2 = ts_crc (last (w_held w2))"
    "w_held w2 = [] \<longrightarrow> rel2 = []"
    "w_output w2 = overwrite (w_produced w1 * 188) (concat rel2) (w_output w1)"
    "w_produced w2 = w_produced w1 + length rel2"
    "w_packet_bits w2 + 1504 * length cmp2 = w_packet_bits w1 + length xs"
    by blast
  have lc: "last_crc (last_crc c cmp1) cmp2 = last_crc c (cmp1 @ cmp2)"
    by (simp add: last_crc_def)
  note rel2 = released_packets [OF r1(2) q1 r2(3,5)]
  have "length rel2 \<le> length cmp2"
    using released_le [OF r2(5) length_w_held] r2(7) by blast
  moreover have "length cmp2 \<le> (w_packet_bits w1 + length xs) div 1504"
    using r2(10) by (simp add: div_less_iff_less_mult less_eq_div_iff_mult_less_eq)
  ultimately have "w_produced w1 * 188 + length (concat rel2) \<le> 44 * 188"
    using prod length_concat_packets [OF rel2] by simp
  moreover have p1: "w_produced w1 * 188 = w_produced w * 188 + length (concat rel1)"
    using r1(9) lrel1 by simp
  ultimately have "w_output w2 = overwrite (w_produced w * 188) (concat (rel1 @ rel2)) (w_output w)"
    using Cons.prems(6) unfolding r2(8) r1(8) p1 by (simp add: overwrite_overwrite_append)
  moreover have "w_held w2 = [] \<longrightarrow> rel1 @ rel2 = []"
    using r2(5,7) r1(7) by auto
  moreover have "ts_rx_bits (x # xs) w = Inr w2" by (simp add: r1(1) r2(1))
  moreover have "q = (cmp1 @ cmp2) @ q2" by (simp add: r1(3) r2(3))
  moreover have "w_held w @ (cmp1 @ cmp2) = (rel1 @ rel2) @ w_held w2"
    using r1(5) r2(5) by (metis append_assoc)
  moreover have "w_produced w2 = w_produced w + length (rel1 @ rel2)"
    by (simp add: r1(9) r2(9))
  moreover have "w_packet_bits w2 + 1504 * length (cmp1 @ cmp2) = w_packet_bits w + length (x # xs)"
    using r1(10) r2(10) by simp
  ultimately show ?case
    using r2(2,4,6) unfolding lc by blast
qed

section \<open>Frames sent and received in order\<close>

text \<open>A sender that pushes packets and keeps the frames, and a receiver that takes frames in order
  and keeps the packets, each with buffers of the full size.\<close>

fun ts_send :: "ts_tx \<Rightarrow> u8 list list \<Rightarrow> u8 list list \<times> ts_tx" where
  "ts_send tx [] = ([], tx)"
| "ts_send tx (p # ps) =
     (let k = ctx_k_bch (tx_bb tx);
          r = dvbs2x_ts_tx_push (Some tx) (Some p) (Some (replicate k 0)) k True;
          (fs, tx') = ts_send (the (txr_tx r)) ps
      in (if txr_frame_len r = Some 0 then fs else the (txr_bbframe r) # fs, tx'))"

fun ts_receive :: "ts_rx \<Rightarrow> u8 list list \<Rightarrow> dvbs2x_error option \<times> u8 list \<times> ts_rx" where
  "ts_receive rx [] = (None, [], rx)"
| "ts_receive rx (f # fs) =
     (let r = dvbs2x_ts_rx_push (Some rx) (Some f) (Some (replicate (44 * 188) 0)) 44 True
      in case rxr_status r of
           Some e \<Rightarrow> (Some e, [], rx)
         | None \<Rightarrow>
             let (e, out, rx') = ts_receive (the (rxr_rx r)) fs
             in (e, take (the (rxr_count r) * 188) (the (rxr_packets r)) @ out, rx'))"

definition rx_work :: "ts_rx \<Rightarrow> ts_rx_work" where
  "rx_work rx =
     \<lparr>w_packet = rx_packet rx, w_previous = rx_previous rx, w_packet_bits = rx_packet_bits rx,
      w_have_previous = rx_have_previous rx,
      w_output = replicate (TS_MAX_PACKETS_PER_FRAME * DVBS2X_TS_PACKET_SIZE) 0, w_produced = 0\<rparr>"

lemma rx_work_fields [simp]:
  "w_packet_bits (rx_work rx) = rx_packet_bits rx" "w_produced (rx_work rx) = 0"
  "w_output (rx_work rx) = replicate (44 * 188) 0"
  "w_have_previous (rx_work rx) = rx_have_previous rx"
  by (simp_all add: rx_work_def TS_MAX_PACKETS_PER_FRAME_def bb_const_defs)

lemma header_read_frame:
  assumes "ctx_k_bch bb' = ctx_k_bch bb" and "length payload = unat (ctx_dfl bb)"
    and "unat (ctx_dfl bb) + 80 = ctx_k_bch bb" and "ctx_k_bch bb \<le> 64800"
  shows "\<exists>g h. bb_header_read bb' (ts_frame bb y payload) = Inr (g, h) \<and> drop 80 g = payload \<and>
    h_matype1 h = 0xF0 OR (ctx_ro bb AND 3) \<and> h_matype2 h = 0 \<and> h_upl h = 1504 \<and>
    h_dfl h = ctx_dfl bb \<and> h_sync h = 0x47 \<and> h_syncd h = y"
proof -
  let ?h = "bb_header_bytes (0xF0 OR (ctx_ro bb AND 3)) (unat (ctx_dfl bb)) 1504 0x47 y"
  let ?g = "bytes_bits ?h @ payload"
  have "length ?g = ctx_k_bch bb" using assms by simp
  then have d: "bb_scramble (take (ctx_k_bch bb) (ts_frame bb y payload)) (ctx_k_bch bb) = ?g"
    unfolding ts_frame_def by (rule descramble_exact)
  have hb: "bits_bytes DVBS2X_BB_HEADER_LEN ?g = ?h"
    by (simp add: bits_bytes_bits const_defs)
  have "unat (ctx_dfl bb) < 2 ^ 16" using assms(3,4) by simp
  note hh = bb_header_of_header_bytes [OF this, of "0xF0 OR (ctx_ro bb AND 3)" 1504 "0x47" y]
  have "bb_header_read bb' (ts_frame bb y payload) = Inr (?g, bb_header_of_bytes ?h)"
    using assms(1,4) by (simp add: bb_header_read_def Let_def d hb header_crc_ok DVBS2X_LDPC_NORMAL_def)
  then show ?thesis unfolding hh by simp
qed

lemma ts_header_matype: "(0xF0 OR (ro AND 3)) AND 0xC0 = (0xC0 :: u8)"
  by (simp add: bit.conj_disj_distrib2 and.assoc)

text \<open>A push into the transmitter, in terms of the stream.\<close>

lemma ts_tx_push_stream:
  assumes inv: "ts_tx_inv tx" and p: "ts_packet p"
    and bb: "length bb = ctx_k_bch (tx_bb tx)" and cap: "ctx_k_bch (tx_bb tx) \<le> cap"
    and all: "all = tx_pending tx @ up_bits (tx_previous_crc tx) p"
    and r: "r = dvbs2x_ts_tx_push (Some tx) (Some p) (Some bb) cap True"
  shows "\<exists>tx'. txr_status r = None \<and> txr_tx r = Some tx' \<and> ts_tx_inv tx' \<and>
    tx_bb tx' = tx_bb tx \<and> tx_previous_crc tx' = ts_crc p \<and>
    (if length all < tx_dfl tx
     then txr_frame_len r = Some 0 \<and> tx_pending tx' = all \<and> tx_syncd tx' = tx_syncd tx
     else txr_frame_len r = Some (ctx_k_bch (tx_bb tx)) \<and>
       txr_bbframe r = Some (ts_frame (tx_bb tx) (tx_syncd tx) (take (tx_dfl tx) all)) \<and>
       tx_pending tx' = drop (tx_dfl tx) all \<and>
       tx_syncd tx' = of_nat (length (drop (tx_dfl tx) all)))"
proof -
  from ts_tx_loop [OF inv p bb all]
  obtain tx1 bb1 n where l: "foldl (\<lambda>s i. ts_tx_bit p i s) (tx, bb, 0) [0..<1504] = (tx1, bb1, n)"
    and i1: "ts_tx_inv tx1" "tx_bb tx1 = tx_bb tx"
    and e: "if length all < tx_dfl tx
     then n = 0 \<and> tx_pending tx1 = all \<and> tx_syncd tx1 = tx_syncd tx
     else n = ctx_k_bch (tx_bb tx) \<and>
       bb1 = ts_frame (tx_bb tx) (tx_syncd tx) (take (tx_dfl tx) all) \<and>
       tx_pending tx1 = drop (tx_dfl tx) all \<and>
       tx_syncd tx1 = of_nat (length (drop (tx_dfl tx) all))"
    by blast
  let ?tx = "tx1\<lparr>tx_previous_crc := ts_crc p\<rparr>"
  have "tx_data_bits tx \<noteq> None" using inv by (auto simp: ts_tx_inv_def split: option.splits)
  then have "r = \<lparr>txr_status = None, txr_tx = Some ?tx, txr_bbframe = Some bb1,
      txr_frame_len = Some n\<rparr>"
    using p cap l
    by (simp add: r dvbs2x_ts_tx_push_def ts_packet_def DVBS2X_TS_PACKET_BITS_def ts_crc_def)
  moreover have "ts_tx_inv ?tx" "tx_pending ?tx = tx_pending tx1"
    using i1 by (auto simp: ts_tx_inv_def tx_pending_def tx_dfl_def split: option.splits)
  ultimately show ?thesis using e i1(2) by (auto split: if_splits)
qed

text \<open>Transmitter and receiver in step: the receiver has had every frame, and what it is missing
  of the packets \<open>q\<close> is still in the transmitter.\<close>

definition ts_rel :: "ts_tx \<Rightarrow> ts_rx \<Rightarrow> u8 list list \<Rightarrow> u8 \<Rightarrow> bool" where
  "ts_rel tx rx q c \<longleftrightarrow>
     ts_tx_inv tx \<and> ts_rx_winv (rx_work rx) \<and> ctx_k_bch (rx_bb rx) = ctx_k_bch (tx_bb tx) \<and>
     ctx_dfl (rx_bb rx) = ctx_dfl (tx_bb tx) \<and> list_all ts_packet q \<and>
     w_pending (rx_work rx) @ tx_pending tx = ts_stream c q \<and>
     (w_held (rx_work rx) \<noteq> [] \<longrightarrow> c = ts_crc (last (w_held (rx_work rx)))) \<and>
     (w_held (rx_work rx) = [] \<longrightarrow> rx_packet_bits rx = 0) \<and>
     tx_previous_crc tx = last_crc c q \<and>
     unat (tx_syncd tx) = (if rx_packet_bits rx \<noteq> 0 then 1504 - rx_packet_bits rx else 0)"

text \<open>The transmitter's frame, pushed into the receiver.\<close>

lemma ts_rx_push_stream:
  assumes rel: "ts_rel tx rx q c" and p: "ts_packet p"
    and all: "all = tx_pending tx @ up_bits (tx_previous_crc tx) p"
    and full: "tx_dfl tx \<le> length all"
    and r: "r = dvbs2x_ts_rx_push (Some rx)
      (Some (ts_frame (tx_bb tx) (tx_syncd tx) (take (tx_dfl tx) all)))
      (Some (replicate (44 * 188) 0)) 44 True"
  shows "\<exists>rx' out cmp q'. rxr_status r = None \<and> rxr_rx r = Some rx' \<and> rx_bb rx' = rx_bb rx \<and>
    rxr_count r = Some (length out) \<and> take (length out * 188) (the (rxr_packets r)) = concat out \<and>
    q @ [p] = cmp @ q' \<and> ts_rx_winv (rx_work rx') \<and>
    w_pending (rx_work rx') @ drop (tx_dfl tx) all = ts_stream (last_crc c cmp) q' \<and>
    w_held (rx_work rx) @ cmp = out @ w_held (rx_work rx') \<and>
    last_crc c cmp = ts_crc (last (w_held (rx_work rx'))) \<and> w_held (rx_work rx') \<noteq> [] \<and>
    rx_packet_bits rx' + 1504 * length cmp = rx_packet_bits rx + tx_dfl tx"
proof -
  let ?D = "tx_dfl tx" and ?pl = "take (tx_dfl tx) all"
  have inv: "1504 \<le> ?D" "ctx_k_bch (tx_bb tx) = ?D + 80" "?D + 80 \<le> 64800"
    using rel by (auto simp: ts_rel_def ts_tx_inv_def)
  have w: "ts_rx_winv (rx_work rx)" using rel by (simp add: ts_rel_def)
  have qp: "list_all ts_packet (q @ [p])" using rel p by (simp add: ts_rel_def)
  have lpl: "length ?pl = ?D" using full by simp
  have kk: "ctx_k_bch (rx_bb rx) = ctx_k_bch (tx_bb tx)" using rel by (simp add: ts_rel_def)
  have "length ?pl = unat (ctx_dfl (tx_bb tx))" "unat (ctx_dfl (tx_bb tx)) + 80 = ctx_k_bch (tx_bb tx)"
    "ctx_k_bch (tx_bb tx) \<le> 64800"
    using lpl inv by (simp_all add: tx_dfl_def)
  from header_read_frame [OF kk this, of "tx_syncd tx"]
  obtain g h where hr: "bb_header_read (rx_bb rx) (ts_frame (tx_bb tx) (tx_syncd tx) ?pl) = Inr (g, h)"
    "drop 80 g = ?pl" "h_matype1 h = 0xF0 OR (ctx_ro (tx_bb tx) AND 3)" "h_matype2 h = 0"
    "h_upl h = 1504" "h_dfl h = ctx_dfl (tx_bb tx)" "h_sync h = 0x47" "h_syncd h = tx_syncd tx"
    by blast
  have hok: "ts_rx_header_ok rx h"
    using rel hr ts_header_matype [of "ctx_ro (tx_bb tx)"]
    by (simp add: ts_rx_header_ok_def ts_rel_def DVBS2X_TS_PACKET_BITS_def)
  have bits: "rx_packet_bits rx < 1504" using w by (simp add: ts_rx_winv_def)
  have start: "ts_rx_start rx h = Inr 0"
    using rel bits hr(6,8)
    by (auto simp: ts_rx_start_def ts_rel_def DVBS2X_TS_PACKET_BITS_def unat_eq_zero
        split: if_splits dest: word_less_nat_alt [THEN iffD1])
  have "w_pending (rx_work rx) @ all = ts_stream c (q @ [p])"
    using rel by (simp add: ts_rel_def all ts_stream_append flip: append_assoc)
  then have "w_pending (rx_work rx) @ ?pl @ drop ?D all = ts_stream c (q @ [p])"
    by (simp only: append_take_drop_id)
  moreover have cap: "w_produced (rx_work rx) + (w_packet_bits (rx_work rx) + length ?pl) div 1504 \<le> 44"
    using bits lpl inv(3) by simp
  ultimately obtain w' out cmp q' where run: "ts_rx_bits ?pl (rx_work rx) = Inr w'"
    and w': "ts_rx_winv w'" "q @ [p] = cmp @ q'"
    "w_pending w' @ drop ?D all = ts_stream (last_crc c cmp) q'"
    "w_held (rx_work rx) @ cmp = out @ w_held w'"
    "w_held w' \<noteq> [] \<longrightarrow> last_crc c cmp = ts_crc (last (w_held w'))" "w_held w' = [] \<longrightarrow> out = []"
    "w_output w' = overwrite 0 (concat out) (replicate (44 * 188) 0)" "w_produced w' = length out"
    "w_packet_bits w' + 1504 * length cmp = rx_packet_bits rx + ?D"
    using ts_rx_bits_stream [OF w qp, of ?pl "drop ?D all" c] rel lpl
    by (auto simp: ts_rel_def)
  have bits': "w_packet_bits w' < 1504" using w'(1) by (simp add: ts_rx_winv_def)
  have ne: "w_held w' \<noteq> []"
  proof
    assume "w_held w' = []"
    then have "cmp = []" using w'(4,6) by simp
    then show False using w'(9) bits' inv(1) by simp
  qed
  let ?rx = "rx\<lparr>rx_packet := w_packet w', rx_previous := w_previous w',
      rx_packet_bits := w_packet_bits w', rx_have_previous := w_have_previous w'\<rparr>"
  have same: "w_held (rx_work ?rx) = w_held w'" "w_pending (rx_work ?rx) = w_pending w'"
    "ts_rx_winv (rx_work ?rx) = ts_rx_winv w'"
    by (simp_all add: rx_work_def w_held_def w_pending_def ts_rx_winv_def)
  have lo: "length (concat out) = length out * 188"  "length out \<le> 44"
  proof -
    show "length (concat out) = length out * 188"
      using length_concat_packets [OF released_packets [OF w qp w'(2,4)]] by simp
    show "length out \<le> 44"
      using released_le [OF w'(4) length_w_held] w'(6,9) bits inv(3) by simp
  qed
  have "r = \<lparr>rxr_status = None, rxr_rx = Some ?rx,
      rxr_packets = Some (overwrite 0 (take (length out * 188) (w_output w')) (replicate (44 * 188) 0)),
      rxr_count = Some (length out)\<rparr>"
  proof -
    have "(rx_packet_bits rx + ?D) div 1504 \<le> 44" using bits inv(3) by simp
    then have need: "\<not> 44 < (if \<not> rx_have_previous rx \<and> (rx_packet_bits rx + ?D) div 1504 \<noteq> 0
        then (rx_packet_bits rx + ?D) div 1504 - 1 else (rx_packet_bits rx + ?D) div 1504)"
      by auto
    have d: "take ?D (drop 80 g) = ?pl" using hr(2) by simp
    show ?thesis
      unfolding r dvbs2x_ts_rx_push_def
      using hr(1) hok start need run w'(8)
      by (simp add: Let_def hr(6) d tx_dfl_def [symmetric] BB_HEADER_BITS_def
          DVBS2X_TS_PACKET_BITS_def DVBS2X_TS_PACKET_SIZE_def rx_work_def)
  qed
  moreover have "take (length out * 188)
      (overwrite 0 (take (length out * 188) (w_output w')) (replicate (44 * 188) 0)) = concat out"
    using lo by (simp add: w'(7) overwrite_def)
  ultimately show ?thesis
    using w' ne same by (intro exI [of _ ?rx] exI [of _ out] exI [of _ cmp] exI [of _ q']) simp
qed

lemma two_parts_1504: "(a :: nat) < 1504 \<Longrightarrow> b < 1504 \<Longrightarrow> a + b = 1504 * n \<Longrightarrow>
    b = (if a \<noteq> 0 then 1504 - a else 0)"
  by (cases "n = 0"; cases "n = 1") auto

lemma length_w_pending: "ts_rx_winv w \<Longrightarrow> length (w_pending w) = w_packet_bits w"
  by (simp add: w_pending_def ts_rx_winv_def)

text \<open>Without a frame the two stay in step \<dots>\<close>

lemma ts_rel_no_frame:
  assumes rel: "ts_rel tx rx q c" and p: "ts_packet p"
    and all: "all = tx_pending tx @ up_bits (tx_previous_crc tx) p"
    and tx': "ts_tx_inv tx'" "tx_bb tx' = tx_bb tx" "tx_previous_crc tx' = ts_crc p"
      "tx_pending tx' = all" "tx_syncd tx' = tx_syncd tx"
  shows "ts_rel tx' rx (q @ [p]) c"
proof -
  have "w_pending (rx_work rx) @ all = ts_stream c (q @ [p])"
    using rel by (simp add: ts_rel_def all ts_stream_append flip: append_assoc)
  then show ?thesis using rel p tx' by (simp add: ts_rel_def)
qed

text \<open>\<dots> and so they do after one.\<close>

lemma ts_rel_frame:
  assumes rel: "ts_rel tx rx q c" and p: "ts_packet p"
    and all: "all = tx_pending tx @ up_bits (tx_previous_crc tx) p"
    and full: "tx_dfl tx \<le> length all"
    and tx': "ts_tx_inv tx'" "tx_bb tx' = tx_bb tx" "tx_previous_crc tx' = ts_crc p"
      "tx_pending tx' = drop (tx_dfl tx) all"
      "tx_syncd tx' = of_nat (length (drop (tx_dfl tx) all))"
    and rx': "rx_bb rx' = rx_bb rx" "q @ [p] = cmp @ q'" "ts_rx_winv (rx_work rx')"
      "w_pending (rx_work rx') @ drop (tx_dfl tx) all = ts_stream (last_crc c cmp) q'"
      "last_crc c cmp = ts_crc (last (w_held (rx_work rx')))" "w_held (rx_work rx') \<noteq> []"
  shows "ts_rel tx' rx' q' (last_crc c cmp)"
proof -
  have q': "list_all ts_packet q'"
  proof -
    have "list_all ts_packet (q @ [p])" using rel p by (simp add: ts_rel_def)
    then show ?thesis unfolding rx'(2) by simp
  qed
  have crc: "ts_crc p = last_crc (last_crc c cmp) q'"
    using arg_cong [OF rx'(2), of "last_crc c"] by (simp add: last_crc_def split: if_splits)
  let ?y = "length (drop (tx_dfl tx) all)"
  have "tx_data_len tx < tx_dfl tx" using rel by (simp add: ts_rel_def ts_tx_inv_def)
  then have y: "?y < 1504"
    using rel p length_tx_pending [of tx] full by (simp add: all ts_rel_def)
  have bits: "rx_packet_bits rx' < 1504" using rx'(3) by (simp add: ts_rx_winv_def)
  have "rx_packet_bits rx' + ?y = 1504 * length q'"
    using arg_cong [OF rx'(4), of length] length_w_pending [OF rx'(3)] length_ts_stream [OF q']
    by simp
  from two_parts_1504 [OF bits y this]
  have "unat (tx_syncd tx') = (if rx_packet_bits rx' \<noteq> 0 then 1504 - rx_packet_bits rx' else 0)"
    using y unfolding tx'(5) by (subst unat_of_nat_small) auto
  then show ?thesis using rel p tx' rx' q' crc by (simp add: ts_rel_def)
qed

lemma ts_end_to_end_step:
  assumes "ts_rel tx rx q c" and "list_all ts_packet ps"
  shows "\<exists>rx' out q' c'. ts_receive rx (fst (ts_send tx ps)) = (None, concat out, rx') \<and>
    ts_rel (snd (ts_send tx ps)) rx' q' c' \<and>
    w_held (rx_work rx) @ q @ ps = out @ w_held (rx_work rx') @ q' \<and>
    (w_held (rx_work rx') = [] \<longrightarrow> out = [] \<and> w_held (rx_work rx) = []) \<and>
    length (fst (ts_send tx ps)) * tx_dfl tx + tx_data_len (snd (ts_send tx ps)) =
      tx_data_len tx + 1504 * length ps \<and>
    tx_bb (snd (ts_send tx ps)) = tx_bb tx"
  using assms
proof (induction ps arbitrary: tx rx q c)
  case Nil
  then show ?case
    by (intro exI [of _ rx] exI [of _ "[]"] exI [of _ q] exI [of _ c]) simp
next
  case (Cons p ps)
  have p: "ts_packet p" and ps: "list_all ts_packet ps" using Cons.prems by simp_all
  define k where "k = ctx_k_bch (tx_bb tx)"
  define all where "all = tx_pending tx @ up_bits (tx_previous_crc tx) p"
  define r where "r = dvbs2x_ts_tx_push (Some tx) (Some p) (Some (replicate k 0)) k True"
  have inv: "ts_tx_inv tx" using Cons.prems by (simp add: ts_rel_def)
  have lall: "length all = tx_data_len tx + 1504"
    using p length_tx_pending [OF inv] by (simp add: all_def)
  have k0: "k \<noteq> 0" using inv by (simp add: ts_tx_inv_def k_def)
  from ts_tx_push_stream [OF inv p _ _ all_def r_def]
  obtain tx1 where tx1: "txr_tx r = Some tx1" "ts_tx_inv tx1" "tx_bb tx1 = tx_bb tx"
    "tx_previous_crc tx1 = ts_crc p"
    and e: "if length all < tx_dfl tx
     then txr_frame_len r = Some 0 \<and> tx_pending tx1 = all \<and> tx_syncd tx1 = tx_syncd tx
     else txr_frame_len r = Some k \<and>
       txr_bbframe r = Some (ts_frame (tx_bb tx) (tx_syncd tx) (take (tx_dfl tx) all)) \<and>
       tx_pending tx1 = drop (tx_dfl tx) all \<and>
       tx_syncd tx1 = of_nat (length (drop (tx_dfl tx) all))"
    by (auto simp: k_def)
  have dfl1: "tx_dfl tx1 = tx_dfl tx" by (simp add: tx_dfl_def tx1(3))
  show ?case
  proof (cases "length all < tx_dfl tx")
    case True
    with e have e1: "txr_frame_len r = Some 0" "tx_pending tx1 = all" "tx_syncd tx1 = tx_syncd tx"
      by simp_all
    have send: "ts_send tx (p # ps) = ts_send tx1 ps"
      using e1(1) tx1(1) by (simp add: Let_def split_beta flip: k_def r_def)
    have rel1: "ts_rel tx1 rx (q @ [p]) c"
      by (rule ts_rel_no_frame [OF Cons.prems(1) p all_def tx1(2,3,4) e1(2,3)])
    have "tx_data_len tx1 = tx_data_len tx + 1504"
      using length_tx_pending [OF tx1(2)] e1(2) lall by simp
    then show ?thesis
      using Cons.IH [OF rel1 ps] unfolding send dfl1 tx1(3) by (simp add: add.assoc)
  next
    case False
    with e have e1: "txr_frame_len r = Some k"
      "txr_bbframe r = Some (ts_frame (tx_bb tx) (tx_syncd tx) (take (tx_dfl tx) all))"
      "tx_pending tx1 = drop (tx_dfl tx) all"
      "tx_syncd tx1 = of_nat (length (drop (tx_dfl tx) all))"
      by simp_all
    let ?f = "ts_frame (tx_bb tx) (tx_syncd tx) (take (tx_dfl tx) all)"
    have send: "ts_send tx (p # ps) = (?f # fst (ts_send tx1 ps), snd (ts_send tx1 ps))"
      using e1(1,2) tx1(1) k0 by (simp add: Let_def split_beta flip: k_def r_def)
    define rr where "rr = dvbs2x_ts_rx_push (Some rx) (Some ?f) (Some (replicate (44 * 188) 0)) 44 True"
    have full: "tx_dfl tx \<le> length all" using False by simp
    from ts_rx_push_stream [OF Cons.prems(1) p all_def full rr_def]
    obtain rx1 out1 cmp1 q1 where rx1: "rxr_status rr = None" "rxr_rx rr = Some rx1"
      "rx_bb rx1 = rx_bb rx" "rxr_count rr = Some (length out1)"
      "take (length out1 * 188) (the (rxr_packets rr)) = concat out1" "q @ [p] = cmp1 @ q1"
      "ts_rx_winv (rx_work rx1)"
      "w_pending (rx_work rx1) @ drop (tx_dfl tx) all = ts_stream (last_crc c cmp1) q1"
      "w_held (rx_work rx) @ cmp1 = out1 @ w_held (rx_work rx1)"
      "last_crc c cmp1 = ts_crc (last (w_held (rx_work rx1)))" "w_held (rx_work rx1) \<noteq> []"
      by blast
    have rel1: "ts_rel tx1 rx1 q1 (last_crc c cmp1)"
      by (rule ts_rel_frame [OF Cons.prems(1) p all_def full tx1(2,3,4) e1(3,4) rx1(3,6,7,8,10,11)])
    from Cons.IH [OF rel1 ps]
    obtain rx2 out2 q2 c2 where r2: "ts_receive rx1 (fst (ts_send tx1 ps)) = (None, concat out2, rx2)"
      "ts_rel (snd (ts_send tx1 ps)) rx2 q2 c2"
      "w_held (rx_work rx1) @ q1 @ ps = out2 @ w_held (rx_work rx2) @ q2"
      "w_held (rx_work rx2) = [] \<longrightarrow> out2 = [] \<and> w_held (rx_work rx1) = []"
      "length (fst (ts_send tx1 ps)) * tx_dfl tx + tx_data_len (snd (ts_send tx1 ps)) =
        tx_data_len tx1 + 1504 * length ps"
      "tx_bb (snd (ts_send tx1 ps)) = tx_bb tx"
      unfolding dfl1 tx1(3) by blast
    have rcv: "ts_receive rx (fst (ts_send tx (p # ps))) = (None, concat (out1 @ out2), rx2)"
      using rx1(1,2,4,5) r2(1) by (simp only: send fst_conv ts_receive.simps flip: rr_def) simp
    have "w_held (rx_work rx) @ q @ (p # ps) = w_held (rx_work rx) @ (q @ [p]) @ ps" by simp
    also have "\<dots> = (w_held (rx_work rx) @ cmp1) @ q1 @ ps" unfolding rx1(6) by simp
    also have "\<dots> = (out1 @ out2) @ w_held (rx_work rx2) @ q2"
      unfolding rx1(9) using r2(3) by simp
    finally have split: "w_held (rx_work rx) @ q @ (p # ps) =
      (out1 @ out2) @ w_held (rx_work rx2) @ q2" .
    have held: "w_held (rx_work rx2) = [] \<longrightarrow> out1 @ out2 = [] \<and> w_held (rx_work rx) = []"
      using r2(4) rx1(11) by simp
    have "tx_data_len tx1 + tx_dfl tx = tx_data_len tx + 1504"
      using length_tx_pending [OF tx1(2)] e1(3) lall full by simp
    then have count: "length (fst (ts_send tx (p # ps))) * tx_dfl tx +
        tx_data_len (snd (ts_send tx (p # ps))) = tx_data_len tx + 1504 * length (p # ps)"
      using r2(5) unfolding send by simp
    show ?thesis
      using rcv split held count r2(2,6) unfolding send snd_conv by blast
  qed
qed

section \<open>Any frame at all\<close>

text \<open>The invariant of an initialised receiver.\<close>

definition ts_rx_wf :: "ts_rx \<Rightarrow> bool" where
  "ts_rx_wf rx \<longleftrightarrow>
     length (rx_packet rx) = 188 \<and> length (rx_previous rx) = 188 \<and> rx_packet_bits rx < 1504 \<and>
     unat (ctx_dfl (rx_bb rx)) + 80 \<le> ctx_k_bch (rx_bb rx)"

definition w_complete :: "ts_rx_work \<Rightarrow> nat \<Rightarrow> nat" where
  "w_complete w n = (w_packet_bits w + n) div 1504"

text \<open>What a run of arbitrary bits does to the counters, when it does not fail.\<close>

lemma ts_rx_bit_count:
  assumes "ts_rx_bit x w = Inr w'" and "w_packet_bits w < 1504"
    and "length (w_packet w) = 188" and "length (w_previous w) = 188"
  shows "length (w_packet w') = 188 \<and> length (w_previous w') = 188 \<and>
    (if w_packet_bits w = 1503
     then w_packet_bits w' = 0 \<and> w_have_previous w' \<and>
       w_produced w' = w_produced w + (if w_have_previous w then 1 else 0)
     else w_packet_bits w' = Suc (w_packet_bits w) \<and> w_produced w' = w_produced w \<and>
       w_have_previous w' = w_have_previous w)"
  using assms by (auto simp: ts_rx_bit_def Let_def DVBS2X_TS_PACKET_BITS_def split: if_splits)

lemma ts_rx_bits_count:
  assumes "ts_rx_bits xs w = Inr w'" and "w_packet_bits w < 1504"
    and "length (w_packet w) = 188" and "length (w_previous w) = 188"
  shows "length (w_packet w') = 188 \<and> length (w_previous w') = 188 \<and> w_packet_bits w' < 1504 \<and>
    w_produced w' = w_produced w +
      (if w_have_previous w then w_complete w (length xs) else w_complete w (length xs) - 1)"
  using assms
proof (induction xs arbitrary: w)
  case Nil
  then show ?case by (simp add: w_complete_def)
next
  case (Cons x xs)
  obtain w1 where w1: "ts_rx_bit x w = Inr w1" "ts_rx_bits xs w1 = Inr w'"
    using Cons.prems(1) by (auto split: sum.splits)
  note c = ts_rx_bit_count [OF w1(1) Cons.prems(2-4)]
  have "w_packet_bits w1 < 1504" using c Cons.prems(2) by (auto split: if_splits)
  note ih = Cons.IH [OF w1(2) this]
  show ?case
  proof (cases "w_packet_bits w = 1503")
    case True
    then have "w_complete w (length (x # xs)) = Suc (w_complete w1 (length xs))"
      using c by (simp add: w_complete_def)
    then show ?thesis using ih c True by (auto split: if_splits)
  next
    case False
    then have "w_complete w (length (x # xs)) = w_complete w1 (length xs)"
      using c by (simp add: w_complete_def)
    then show ?thesis using ih c False by (auto split: if_splits)
  qed
qed

lemma length_bb_header_read:
  "bb_header_read ctx f = Inr (g, h) \<Longrightarrow> ctx_k_bch ctx \<le> 64800 \<and> length g \<le> ctx_k_bch ctx"
  by (auto simp: bb_header_read_def Let_def DVBS2X_LDPC_NORMAL_def split: if_splits)

lemma ts_rx_start_le: "ts_rx_start rx h = Inr s \<Longrightarrow> s \<le> unat (h_dfl h)"
  by (auto simp: ts_rx_start_def word_less_nat_alt split: if_splits)

section \<open>Properties\<close>

text \<open>A transmitter and a receiver that have just been initialised for the same MODCOD.\<close>

lemma ts_rel_init:
  assumes "dvbs2x_vlsnr_get_modcod i = Some mc" and "\<And>m d. alloc m = Some d \<Longrightarrow> length d = m"
    and "dvbs2x_ts_tx_init alloc (Some tx0) (Some mc) ro = (None, Some tx)"
    and "dvbs2x_ts_rx_init (Some rx0) (Some mc) = (None, Some rx)"
  shows "ts_rel tx rx [] 0" "w_held (rx_work rx) = []" "tx_dfl tx = mc_k_bch mc - 80" "tx_data_len tx = 0"
proof -
  have wf: "modcod_wf mc" using get_modcod_ok [OF assms(1)] by simp
  note k = modcod_wf_k_bch [OF wf] init_dfl [OF wf, of DVBS2X_STREAM_TS]
  have tx: "ctx_k_bch (tx_bb tx) = mc_k_bch mc" "tx_dfl tx = mc_k_bch mc - 80" "tx_data_len tx = 0"
    "tx_syncd tx = 0" "tx_previous_crc tx = 0"
    "\<exists>d. tx_data_bits tx = Some d \<and> length d = mc_k_bch mc - 80"
    using assms(2,3) k
    by (auto simp: dvbs2x_ts_tx_init_def Let_def ts_tx_zero_def tx_dfl_def split: if_splits)
  have rx: "rx = ts_rx_zero\<lparr>rx_bb := (dvbs2x_bb_frame_init mc DVBS2X_STREAM_TS)
      \<lparr>ctx_upl := of_nat DVBS2X_TS_PACKET_BITS\<rparr>\<rparr>"
    using assms(4) by (simp add: dvbs2x_ts_rx_init_def)
  have inv: "ts_tx_inv tx" using tx k by (auto simp: ts_tx_inv_def)
  have "ctx_dfl (tx_bb tx) = ctx_dfl (dvbs2x_bb_frame_init mc DVBS2X_STREAM_TS)"
    using tx(2) k(4) by (simp only: tx_dfl_def word_unat_eq_iff)
  then show "ts_rel tx rx [] 0"
    using inv tx k
    by (simp add: ts_rel_def rx ts_rx_zero_def ts_rx_winv_def rx_work_def w_pending_def w_held_def
        tx_pending_def partial_byte_ok_def bb_const_defs)
  show "w_held (rx_work rx) = []" by (simp add: rx rx_work_def w_held_def ts_rx_zero_def)
  show "tx_dfl tx = mc_k_bch mc - 80" "tx_data_len tx = 0" by (rule tx(2), rule tx(3))
qed

text \<open>The packets that were released and the one that is held back are the first ones sent.\<close>

lemma ts_split:
  assumes "ps = out @ w_held (rx_work rx) @ q" "w_held (rx_work rx) = [] \<longrightarrow> out = []"
    and "n = length out + length (w_held (rx_work rx))" "list_all ts_packet (w_held (rx_work rx))" "length buf = 188"
  shows "out = take (n - 1) ps"
    "rxr_packets (dvbs2x_ts_rx_finalize_unchecked (Some rx) (Some buf) 1 True) =
       Some (if n = 0 then buf else ps ! (n - 1))"
proof (atomize(full), cases "rx_have_previous rx")
  case True
  then have "w_held (rx_work rx) = [rx_previous rx]" by (simp add: w_held_def rx_work_def)
  then show "out = take (n - 1) ps \<and>
    rxr_packets (dvbs2x_ts_rx_finalize_unchecked (Some rx) (Some buf) 1 True) =
       Some (if n = 0 then buf else ps ! (n - 1))"
    using True assms
    by (simp add: dvbs2x_ts_rx_finalize_unchecked_def overwrite_def nth_append ts_packet_def
        DVBS2X_TS_PACKET_SIZE_def)
next
  case False
  then have "w_held (rx_work rx) = []" by (simp add: w_held_def)
  then show "out = take (n - 1) ps \<and>
    rxr_packets (dvbs2x_ts_rx_finalize_unchecked (Some rx) (Some buf) 1 True) =
       Some (if n = 0 then buf else ps ! (n - 1))"
    using False assms(2,3) by (simp add: dvbs2x_ts_rx_finalize_unchecked_def)
qed

text \<open>C12: end to end.  When a sender pushes any list of transport packets and a receiver is given
  the frames, the receiver never reports an error, and delivers exactly the packets sent, in order
  and unchanged: all packets that arrived completely except the last, which the finalizing call
  then returns.  The number of frames is the number of full data fields the packets make.\<close>

theorem ts_end_to_end:
  assumes "dvbs2x_vlsnr_get_modcod i = Some mc"
    and "\<And>m d. alloc m = Some d \<Longrightarrow> length d = m"
    and "dvbs2x_ts_tx_init alloc (Some tx0) (Some mc) ro = (None, Some tx)"
    and "dvbs2x_ts_rx_init (Some rx0) (Some mc) = (None, Some rx)"
    and "list_all ts_packet ps" and "length buf = 188"
    and "n = length (fst (ts_send tx ps)) * (mc_k_bch mc - 80) div 1504"
  shows "length (fst (ts_send tx ps)) = 1504 * length ps div (mc_k_bch mc - 80) \<and>
    (\<exists>rx'. ts_receive rx (fst (ts_send tx ps)) = (None, concat (take (n - 1) ps), rx') \<and>
      rxr_packets (dvbs2x_ts_rx_finalize_unchecked (Some rx') (Some buf) 1 True) =
        Some (if n = 0 then buf else ps ! (n - 1)))"
proof -
  let ?D = "mc_k_bch mc - 80"
  let ?fs = "fst (ts_send tx ps)" and ?tx' = "snd (ts_send tx ps)"
  have init: "ts_rel tx rx [] 0" "w_held (rx_work rx) = []" "tx_dfl tx = ?D" "tx_data_len tx = 0"
    using ts_rel_init [of i mc alloc tx0 ro tx rx0 rx] assms(1-4) by blast+
  from ts_end_to_end_step [OF init(1) assms(5)]
  obtain rx' out q' c' where e: "ts_receive rx ?fs = (None, concat out, rx')"
    "ts_rel ?tx' rx' q' c'" "ps = out @ w_held (rx_work rx') @ q'"
    "w_held (rx_work rx') = [] \<longrightarrow> out = []" "length ?fs * ?D + tx_data_len ?tx' = 1504 * length ps"
    "tx_bb ?tx' = tx_bb tx"
    unfolding init(2-4) append_Nil add_0 by blast
  have w': "ts_rx_winv (rx_work rx')" "ts_tx_inv ?tx'" using e(2) by (simp_all add: ts_rel_def)
  have q': "length (ts_stream c' q') = 1504 * length q'"
    using e(2) by (intro length_ts_stream) (simp add: ts_rel_def)
  have "w_pending (rx_work rx') @ tx_pending ?tx' = ts_stream c' q'"
    using e(2) by (simp add: ts_rel_def)
  from arg_cong [OF this, of length]
  have "rx_packet_bits rx' + tx_data_len ?tx' = 1504 * length q'"
    using q' length_w_pending [OF w'(1)] length_tx_pending [OF w'(2)] by simp
  then have "length ?fs * ?D = rx_packet_bits rx' + 1504 * (length out + length (w_held (rx_work rx')))"
    using e(5) arg_cong [OF e(3), of length] by simp
  moreover have "rx_packet_bits rx' < 1504" using w'(1) by (simp add: ts_rx_winv_def)
  ultimately have n: "n = length out + length (w_held (rx_work rx'))"
    using assms(7) by simp
  have "tx_data_len ?tx' < ?D"
    using w'(2) e(6) init(3) by (simp add: ts_tx_inv_def tx_dfl_def)
  then have frames: "length ?fs = 1504 * length ps div ?D"
    unfolding e(5) [symmetric] by simp
  have held: "list_all ts_packet (w_held (rx_work rx'))" using w'(1) by (simp add: ts_rx_winv_def)
  show ?thesis using ts_split [OF e(3,4) n held assms(6)] e(1) frames by auto
qed

theorem ts_end_to_end_witness:
  "\<exists>tx rx rx'. dvbs2x_ts_tx_init (\<lambda>m. Some (replicate m 0)) (Some ts_tx_zero) (Some modcod_5) 0 =
      (None, Some tx) \<and> dvbs2x_ts_rx_init (Some ts_rx_zero) (Some modcod_5) = (None, Some rx) \<and>
    length (fst (ts_send tx (replicate 5 (0x47 # replicate 187 9)))) = 3 \<and>
    ts_receive rx (fst (ts_send tx (replicate 5 (0x47 # replicate 187 9)))) =
      (None, concat (replicate 3 (0x47 # replicate 187 9)), rx')"
proof -
  let ?ps = "replicate 5 (0x47 # replicate 187 9) :: u8 list list"
  have mc: "dvbs2x_vlsnr_get_modcod 5 = Some modcod_5"
    by (simp add: dvbs2x_vlsnr_get_modcod_def vlsnr_modcod_table_def const_defs)
  have k: "mc_k_bch modcod_5 = 2512" by (simp add: modcod_5_def)
  obtain tx where tx: "dvbs2x_ts_tx_init (\<lambda>m. Some (replicate m 0)) (Some ts_tx_zero)
      (Some modcod_5) 0 = (None, Some tx)"
    by (simp add: dvbs2x_ts_tx_init_def Let_def DVBS2X_RO_0_20_def)
  obtain rx where rx: "dvbs2x_ts_rx_init (Some ts_rx_zero) (Some modcod_5) = (None, Some rx)"
    by (simp add: dvbs2x_ts_rx_init_def)
  have ps: "list_all ts_packet ?ps" by (simp add: ts_packet_def list_all_iff)
  have e: "length (fst (ts_send tx ?ps)) = 1504 * length ?ps div (mc_k_bch modcod_5 - 80) \<and>
    (\<exists>rx'. ts_receive rx (fst (ts_send tx ?ps)) =
      (None, concat (take (length (fst (ts_send tx ?ps)) * (mc_k_bch modcod_5 - 80) div 1504 - 1) ?ps),
       rx') \<and>
      rxr_packets (dvbs2x_ts_rx_finalize_unchecked (Some rx') (Some (replicate 188 0)) 1 True) =
        Some (if length (fst (ts_send tx ?ps)) * (mc_k_bch modcod_5 - 80) div 1504 = 0
              then replicate 188 0
              else ?ps ! (length (fst (ts_send tx ?ps)) * (mc_k_bch modcod_5 - 80) div 1504 - 1)))"
    by (rule ts_end_to_end [OF mc _ tx rx ps _ refl]) auto
  have "length ?ps = 5" by (rule length_replicate)
  then have three: "length (fst (ts_send tx ?ps)) = 3" using e by (simp only: k) simp
  have t: "take 3 ?ps = replicate 3 (0x47 # replicate 187 9)"
    by (simp only: take_replicate) simp
  show ?thesis using e [unfolded three k] t tx rx three by auto
qed

text \<open>A push that succeeds: where it read from, and what it left.\<close>

lemma ts_rx_push_ok:
  assumes "rxr_status (dvbs2x_ts_rx_push (Some rx) (Some f) (Some buf) cap True) = None"
  obtains g h start w where "bb_header_read (rx_bb rx) f = Inr (g, h)" "ts_rx_header_ok rx h" "start \<le> unat (h_dfl h)"
    "\<not> cap < (if \<not> rx_have_previous rx \<and> (rx_packet_bits rx + unat (h_dfl h) - start) div 1504 \<noteq> 0
       then (rx_packet_bits rx + unat (h_dfl h) - start) div 1504 - 1
       else (rx_packet_bits rx + unat (h_dfl h) - start) div 1504)"
    "ts_rx_bits (take (unat (h_dfl h) - start) (drop (80 + start) g)) (rx_work rx) = Inr w"
    "dvbs2x_ts_rx_push (Some rx) (Some f) (Some buf) cap True =
       \<lparr>rxr_status = None,
        rxr_rx = Some (rx\<lparr>rx_packet := w_packet w, rx_previous := w_previous w,
          rx_packet_bits := w_packet_bits w, rx_have_previous := w_have_previous w\<rparr>),
        rxr_packets = Some (overwrite 0 (take (w_produced w * 188) (w_output w)) buf),
        rxr_count = Some (w_produced w)\<rparr>"
proof -
  define r where "r = dvbs2x_ts_rx_push (Some rx) (Some f) (Some buf) cap True"
  have ok: "rxr_status r = None" using assms by (simp add: r_def)
  obtain g h where hr: "bb_header_read (rx_bb rx) f = Inr (g, h)"
    using ok by (auto simp: r_def dvbs2x_ts_rx_push_def split: sum.splits)
  have hok: "ts_rx_header_ok rx h"
    using ok by (auto simp: r_def dvbs2x_ts_rx_push_def hr split: if_splits)
  obtain start where st: "ts_rx_start rx h = Inr start"
    using ok by (auto simp: r_def dvbs2x_ts_rx_push_def hr hok split: sum.splits)
  let ?dfl = "unat (h_dfl h)"
  let ?xs = "take (?dfl - start) (drop (80 + start) g)"
  let ?c = "(rx_packet_bits rx + ?dfl - start) div 1504"
  have sl: "start \<le> ?dfl" by (rule ts_rx_start_le [OF st])
  then have room: "\<not> cap < (if \<not> rx_have_previous rx \<and> ?c \<noteq> 0 then ?c - 1 else ?c)"
    using ok by (auto simp: r_def dvbs2x_ts_rx_push_def hr hok st Let_def bb_const_defs
        split: if_splits)
  obtain w where w: "ts_rx_bits ?xs (rx_work rx) = Inr w"
    using ok sl room
    by (auto simp: r_def dvbs2x_ts_rx_push_def hr hok st Let_def bb_const_defs rx_work_def
        TS_MAX_PACKETS_PER_FRAME_def split: if_splits sum.splits)
  let ?rx = "rx\<lparr>rx_packet := w_packet w, rx_previous := w_previous w,
      rx_packet_bits := w_packet_bits w, rx_have_previous := w_have_previous w\<rparr>"
  have r: "r = \<lparr>rxr_status = None, rxr_rx = Some ?rx,
      rxr_packets = Some (overwrite 0 (take (w_produced w * 188) (w_output w)) buf),
      rxr_count = Some (w_produced w)\<rparr>"
    using sl room w
    by (auto simp: r_def dvbs2x_ts_rx_push_def hr hok st Let_def bb_const_defs rx_work_def
        TS_MAX_PACKETS_PER_FRAME_def)
  show ?thesis by (rule that [OF hr hok sl room w]) (use r in \<open>simp add: r_def\<close>)
qed

text \<open>C19: whatever the frame holds, a push into a receiver either fails and leaves the receiver
  and the packet buffer as they were, or keeps the receiver's invariant, delivers at most as many
  packets as the caller has room for and as the local output array can hold, and writes only that
  many packets into the buffer.\<close>

theorem ts_rx_push_safe:
  assumes "ts_rx_wf rx"
  shows "case rxr_status (dvbs2x_ts_rx_push (Some rx) (Some f) (Some buf) cap True) of
      Some e \<Rightarrow>
        rxr_rx (dvbs2x_ts_rx_push (Some rx) (Some f) (Some buf) cap True) = Some rx \<and>
        rxr_packets (dvbs2x_ts_rx_push (Some rx) (Some f) (Some buf) cap True) = Some buf
    | None \<Rightarrow> \<exists>rx' n ys.
        rxr_rx (dvbs2x_ts_rx_push (Some rx) (Some f) (Some buf) cap True) = Some rx' \<and>
        ts_rx_wf rx' \<and> rx_bb rx' = rx_bb rx \<and>
        rxr_count (dvbs2x_ts_rx_push (Some rx) (Some f) (Some buf) cap True) = Some n \<and>
        n \<le> cap \<and> n \<le> TS_MAX_PACKETS_PER_FRAME \<and> length ys \<le> n * DVBS2X_TS_PACKET_SIZE \<and>
        rxr_packets (dvbs2x_ts_rx_push (Some rx) (Some f) (Some buf) cap True) =
          Some (overwrite 0 ys buf)"
proof -
  define r where "r = dvbs2x_ts_rx_push (Some rx) (Some f) (Some buf) cap True"
  have "rxr_rx r = Some rx \<and> rxr_packets r = Some buf" if "rxr_status r \<noteq> None"
    using that by (auto simp: r_def dvbs2x_ts_rx_push_def Let_def split: sum.splits if_splits)
  moreover have "\<exists>rx' n ys. rxr_rx r = Some rx' \<and> ts_rx_wf rx' \<and> rx_bb rx' = rx_bb rx \<and>
      rxr_count r = Some n \<and> n \<le> cap \<and> n \<le> TS_MAX_PACKETS_PER_FRAME \<and>
      length ys \<le> n * DVBS2X_TS_PACKET_SIZE \<and> rxr_packets r = Some (overwrite 0 ys buf)"
    if ok: "rxr_status r = None"
  proof -
    obtain g h start w where hr: "bb_header_read (rx_bb rx) f = Inr (g, h)" and hok: "ts_rx_header_ok rx h"
      and sl: "start \<le> unat (h_dfl h)"
      and room: "\<not> cap < (if \<not> rx_have_previous rx \<and> (rx_packet_bits rx + unat (h_dfl h) - start) div 1504 \<noteq> 0
         then (rx_packet_bits rx + unat (h_dfl h) - start) div 1504 - 1
         else (rx_packet_bits rx + unat (h_dfl h) - start) div 1504)"
      and w: "ts_rx_bits (take (unat (h_dfl h) - start) (drop (80 + start) g)) (rx_work rx) = Inr w"
      and r: "r = \<lparr>rxr_status = None,
          rxr_rx = Some (rx\<lparr>rx_packet := w_packet w, rx_previous := w_previous w,
            rx_packet_bits := w_packet_bits w, rx_have_previous := w_have_previous w\<rparr>),
          rxr_packets = Some (overwrite 0 (take (w_produced w * 188) (w_output w)) buf),
          rxr_count = Some (w_produced w)\<rparr>"
      by (rule ts_rx_push_ok [OF ok [unfolded r_def], folded r_def])
    let ?dfl = "unat (h_dfl h)"
    let ?xs = "take (?dfl - start) (drop (80 + start) g)"
    let ?c = "(rx_packet_bits rx + ?dfl - start) div 1504"
    let ?rx = "rx\<lparr>rx_packet := w_packet w, rx_previous := w_previous w,
        rx_packet_bits := w_packet_bits w, rx_have_previous := w_have_previous w\<rparr>"
    have wf: "rx_packet_bits rx < 1504" "length (rx_packet rx) = 188" "length (rx_previous rx) = 188"
      "unat (ctx_dfl (rx_bb rx)) + 80 \<le> ctx_k_bch (rx_bb rx)"
      using assms by (simp_all add: ts_rx_wf_def)
    have cnt: "length (w_packet w) = 188 \<and> length (w_previous w) = 188 \<and> w_packet_bits w < 1504 \<and>
      w_produced w = (if rx_have_previous rx then w_complete (rx_work rx) (length ?xs)
        else w_complete (rx_work rx) (length ?xs) - 1)"
      using ts_rx_bits_count [OF w] wf by (simp add: rx_work_def)
    have "length ?xs \<le> ?dfl - start" by simp
    then have "w_complete (rx_work rx) (length ?xs) \<le> ?c"
      unfolding w_complete_def rx_work_fields using sl by (intro div_le_mono) simp
    then have p: "w_produced w \<le> (if \<not> rx_have_previous rx \<and> ?c \<noteq> 0 then ?c - 1 else ?c)"
      using cnt by (auto intro: diff_le_mono split: if_splits)
    have "?dfl \<le> 64720"
      using hok length_bb_header_read [OF hr] wf(4)
      by (auto simp: ts_rx_header_ok_def word_less_nat_alt not_less)
    then have "?c \<le> 44" using wf(1) by simp
    then have "w_produced w \<le> TS_MAX_PACKETS_PER_FRAME"
      using p by (auto simp: TS_MAX_PACKETS_PER_FRAME_def bb_const_defs split: if_splits)
    moreover have "w_produced w \<le> cap" using p room by linarith
    moreover have "ts_rx_wf ?rx" using cnt wf by (simp add: ts_rx_wf_def)
    moreover have "length (take (w_produced w * 188) (w_output w)) \<le> w_produced w * DVBS2X_TS_PACKET_SIZE"
      by (simp add: DVBS2X_TS_PACKET_SIZE_def)
    moreover have "rxr_rx r = Some ?rx" "rx_bb ?rx = rx_bb rx" "rxr_count r = Some (w_produced w)"
      "rxr_packets r = Some (overwrite 0 (take (w_produced w * 188) (w_output w)) buf)"
      by (simp_all add: r)
    ultimately show ?thesis by blast
  qed
  ultimately show ?thesis unfolding r_def by (auto split: option.split)
qed

theorem ts_rx_push_safe_witness:
  "case rxr_status (dvbs2x_ts_rx_push
        (Some (ts_rx_zero\<lparr>rx_bb := dvbs2x_bb_frame_init modcod_5 DVBS2X_STREAM_TS\<rparr>))
        (Some (replicate 2512 1)) (Some []) 2 True) of
      Some e \<Rightarrow> rxr_packets (dvbs2x_ts_rx_push
        (Some (ts_rx_zero\<lparr>rx_bb := dvbs2x_bb_frame_init modcod_5 DVBS2X_STREAM_TS\<rparr>))
        (Some (replicate 2512 1)) (Some []) 2 True) = Some []
    | None \<Rightarrow> \<exists>n. rxr_count (dvbs2x_ts_rx_push
        (Some (ts_rx_zero\<lparr>rx_bb := dvbs2x_bb_frame_init modcod_5 DVBS2X_STREAM_TS\<rparr>))
        (Some (replicate 2512 1)) (Some []) 2 True) = Some n \<and> n \<le> 2"
proof -
  have "ts_rx_wf (ts_rx_zero\<lparr>rx_bb := dvbs2x_bb_frame_init modcod_5 DVBS2X_STREAM_TS\<rparr>)"
    using init_dfl [OF modcod_wf_entries(5)] modcod_wf_k_bch [OF modcod_wf_entries(5)]
    by (simp add: ts_rx_wf_def ts_rx_zero_def DVBS2X_TS_PACKET_SIZE_def)
  from ts_rx_push_safe [OF this, of "replicate 2512 1" "[]" 2]
  show ?thesis by (auto split: option.splits)
qed

end
