(* ===== verification/Scrambler.thy ===== *)
theory Scrambler
  imports Dvb_Types
begin

text \<open>
  \<^verbatim>\<open>src/scrambler.c\<close>: the physical layer scrambler.  Two 18-bit shift registers make a Gold code
  whose two-bit values \<open>Rn\<close> rotate the symbols; both the data field routines, which treat pilots
  and BPSK data differently, and the whole-buffer routines are \<open>keystream\<close>s over the same
  generator.
\<close>

section \<open>The generator\<close>

record dvbs2x_scrambler =
  x_reg :: u32
  y_reg :: u32
  gold_idx :: nat

definition SCRAMBLER_FEEDBACK :: u32 where "SCRAMBLER_FEEDBACK = 0x20000"

definition parity_chk :: "u32 \<Rightarrow> u32 \<Rightarrow> u32" where
  "parity_chk a b =
     (let a = a AND b;
          a = a XOR drop_bit 16 a;
          a = a XOR drop_bit 8 a;
          a = a XOR drop_bit 4 a;
          a = a XOR drop_bit 2 a;
          a = a XOR drop_bit 1 a
      in a AND 1)"

definition x_step :: "u32 \<Rightarrow> u32" where
  "x_step x =
     (let xb = parity_chk x 0x0081; x' = drop_bit 1 x
      in if xb \<noteq> 0 then x' OR SCRAMBLER_FEEDBACK else x')"

definition y_step :: "u32 \<Rightarrow> u32" where
  "y_step y =
     (let ya = parity_chk y 0x04A1; y' = drop_bit 1 y
      in if ya \<noteq> 0 then y' OR SCRAMBLER_FEEDBACK else y')"

definition dvbs2x_scrambler_next_rn :: "dvbs2x_scrambler \<Rightarrow> u32 \<times> dvbs2x_scrambler" where
  "dvbs2x_scrambler_next_rn scr =
     (let xa = parity_chk (x_reg scr) 0x8050;
          xc = x_reg scr AND 1;
          yb = parity_chk (y_reg scr) 0xFF60;
          yc = y_reg scr AND 1
      in (push_bit 1 (xa XOR yb) + (xc XOR yc),
          scr\<lparr>x_reg := x_step (x_reg scr), y_reg := y_step (y_reg scr)\<rparr>))"

text \<open>The loop that advances the root state of the x register.\<close>

definition gold_step :: "u32 \<Rightarrow> u32" where
  "gold_step x = push_bit 17 ((x XOR drop_bit 7 x) AND 1) OR drop_bit 1 x"

definition dvbs2x_scrambler_init :: "nat \<Rightarrow> dvbs2x_scrambler" where
  "dvbs2x_scrambler_init idx =
     \<lparr>x_reg = (gold_step ^^ idx) 1, y_reg = 0x3FFFF, gold_idx = idx\<rparr>"

definition dvbs2x_scrambler_reset :: "dvbs2x_scrambler \<Rightarrow> dvbs2x_scrambler" where
  "dvbs2x_scrambler_reset scr = dvbs2x_scrambler_init (gold_idx scr)"

definition dvbs2x_scrambler_seek :: "dvbs2x_scrambler \<Rightarrow> nat \<Rightarrow> dvbs2x_scrambler" where
  "dvbs2x_scrambler_seek scr n = ((\<lambda>s. snd (dvbs2x_scrambler_next_rn s)) ^^ n) scr"

section \<open>Rotations\<close>

definition rot_fwd :: "dvbs2x_complex \<Rightarrow> u32 \<Rightarrow> dvbs2x_complex" where
  "rot_fwd s rn =
     (if rn = 1 then \<lparr>re_i = - im_q s, im_q = re_i s\<rparr>
      else if rn = 2 then \<lparr>re_i = - re_i s, im_q = - im_q s\<rparr>
      else if rn = 3 then \<lparr>re_i = im_q s, im_q = - re_i s\<rparr>
      else s)"

definition rot_inv :: "dvbs2x_complex \<Rightarrow> u32 \<Rightarrow> dvbs2x_complex" where
  "rot_inv s rn =
     (if rn = 1 then \<lparr>re_i = im_q s, im_q = - re_i s\<rparr>
      else if rn = 2 then \<lparr>re_i = - re_i s, im_q = - im_q s\<rparr>
      else if rn = 3 then \<lparr>re_i = - im_q s, im_q = re_i s\<rparr>
      else s)"

definition four_phase :: "u8 list option \<Rightarrow> bool \<Rightarrow> nat \<Rightarrow> bool" where
  "four_phase is_pilot is_qpsk n \<longleftrightarrow>
     is_qpsk \<or> (case is_pilot of None \<Rightarrow> False | Some m \<Rightarrow> m ! n \<noteq> 0)"

definition field_fwd ::
  "u8 list option \<Rightarrow> bool \<Rightarrow> u32 \<Rightarrow> nat \<Rightarrow> dvbs2x_complex \<Rightarrow> dvbs2x_complex" where
  "field_fwd is_pilot is_qpsk rn n s =
     (if four_phase is_pilot is_qpsk n then rot_fwd s rn
      else if rn AND 1 \<noteq> 0 then s\<lparr>re_i := - re_i s, im_q := - im_q s\<rparr>
      else s)"

definition field_inv ::
  "u8 list option \<Rightarrow> bool \<Rightarrow> u32 \<Rightarrow> nat \<Rightarrow> dvbs2x_complex \<Rightarrow> dvbs2x_complex" where
  "field_inv is_pilot is_qpsk rn n s =
     (if four_phase is_pilot is_qpsk n then rot_inv s rn
      else if rn AND 1 \<noteq> 0 then s\<lparr>re_i := - re_i s, im_q := - im_q s\<rparr>
      else s)"

section \<open>Scrambling a data field and a whole buffer\<close>

definition dvbs2x_scramble_field ::
  "dvbs2x_scrambler \<Rightarrow> dvbs2x_complex list \<Rightarrow> nat \<Rightarrow> u8 list option \<Rightarrow> bool \<Rightarrow>
   dvbs2x_complex list \<times> dvbs2x_scrambler" where
  "dvbs2x_scramble_field scr symbols len is_pilot is_qpsk =
     (let (ys, scr') = stream_mapi dvbs2x_scrambler_next_rn (field_fwd is_pilot is_qpsk) 0 scr
            (take len symbols)
      in (ys @ drop len symbols, scr'))"

definition dvbs2x_descramble_field ::
  "dvbs2x_scrambler \<Rightarrow> dvbs2x_complex list \<Rightarrow> nat \<Rightarrow> u8 list option \<Rightarrow> bool \<Rightarrow>
   dvbs2x_complex list \<times> dvbs2x_scrambler" where
  "dvbs2x_descramble_field scr symbols len is_pilot is_qpsk =
     (let (ys, scr') = stream_mapi dvbs2x_scrambler_next_rn (field_inv is_pilot is_qpsk) 0 scr
            (take len symbols)
      in (ys @ drop len symbols, scr'))"

definition dvbs2x_scramble ::
  "dvbs2x_scrambler \<Rightarrow> dvbs2x_complex list \<Rightarrow> nat \<Rightarrow> dvbs2x_complex list \<times> dvbs2x_scrambler" where
  "dvbs2x_scramble scr symbols len =
     (let (ys, scr') = stream_mapi dvbs2x_scrambler_next_rn
            (\<lambda>rn _ s.
              let si = re_i s; sq = im_q s
              in if rn = 1 then s\<lparr>re_i := - sq, im_q := si\<rparr>
                 else if rn = 2 then s\<lparr>re_i := - si, im_q := - sq\<rparr>
                 else if rn = 3 then s\<lparr>re_i := sq, im_q := - si\<rparr>
                 else s) 0 scr (take len symbols)
      in (ys @ drop len symbols, scr'))"

definition dvbs2x_descramble ::
  "dvbs2x_scrambler \<Rightarrow> dvbs2x_complex list \<Rightarrow> nat \<Rightarrow> dvbs2x_complex list \<times> dvbs2x_scrambler" where
  "dvbs2x_descramble scr symbols len =
     (let (ys, scr') = stream_mapi dvbs2x_scrambler_next_rn
            (\<lambda>rn _ s.
              let si = re_i s; sq = im_q s
              in if rn = 1 then s\<lparr>re_i := sq, im_q := - si\<rparr>
                 else if rn = 2 then s\<lparr>re_i := - si, im_q := - sq\<rparr>
                 else if rn = 3 then s\<lparr>re_i := - sq, im_q := si\<rparr>
                 else s) 0 scr (take len symbols)
      in (ys @ drop len symbols, scr'))"

section \<open>Lemmas\<close>

lemma rot_inv_fwd [simp]: "rot_inv (rot_fwd s rn) rn = s"
  by (simp add: rot_inv_def rot_fwd_def)

lemma field_inv_fwd: "field_inv p q rn n (field_fwd p q rn n s) = s"
  by (simp add: field_inv_def field_fwd_def)

interpretation pl_field: keystream dvbs2x_scrambler_next_rn "field_fwd p q" "field_inv p q" for p q
  by unfold_locales (rule field_inv_fwd)

text \<open>The whole-buffer routines are the data field routines in four-phase mode.\<close>

lemma scramble_is_field: "dvbs2x_scramble scr symbols len = dvbs2x_scramble_field scr symbols len p True"
  unfolding dvbs2x_scramble_def dvbs2x_scramble_field_def
  by (subst stream_mapi_cong [where g = "field_fwd p True"])
     (auto simp: field_fwd_def four_phase_def rot_fwd_def Let_def)

lemma descramble_is_field:
  "dvbs2x_descramble scr symbols len = dvbs2x_descramble_field scr symbols len p True"
  unfolding dvbs2x_descramble_def dvbs2x_descramble_field_def
  by (subst stream_mapi_cong [where g = "field_inv p True"])
     (auto simp: field_inv_def four_phase_def rot_inv_def Let_def)

lemma length_scramble_field [simp, lens]:
  "length (fst (dvbs2x_scramble_field scr xs len p q)) = length xs"
  by (simp add: dvbs2x_scramble_field_def split_beta)

lemma descramble_field_scramble_field:
  "dvbs2x_descramble_field scr (fst (dvbs2x_scramble_field scr xs len p q)) len p q =
     (xs, snd (dvbs2x_scramble_field scr xs len p q))"
proof -
  let ?e = "stream_mapi dvbs2x_scrambler_next_rn (field_fwd p q) 0 scr (take len xs)"
  have s: "fst (dvbs2x_scramble_field scr xs len p q) = fst ?e @ drop len xs"
    "snd (dvbs2x_scramble_field scr xs len p q) = snd ?e"
    by (simp_all add: dvbs2x_scramble_field_def split_beta)
  have t: "take len (fst ?e @ drop len xs) = fst ?e" "drop len (fst ?e @ drop len xs) = drop len xs"
    by (cases "len \<le> length xs"; simp)+
  show ?thesis
    unfolding dvbs2x_descramble_field_def s t
    by (simp add: split_beta pl_field.dec_run_enc_run pl_field.dec_state_enc_state)
qed

text \<open>The registers.\<close>

definition reg18 :: "u32 \<Rightarrow> bool" where
  "reg18 x \<longleftrightarrow> drop_bit 18 x = 0 \<and> x \<noteq> 0"

definition scrambler_ok :: "dvbs2x_scrambler \<Rightarrow> bool" where
  "scrambler_ok scr \<longleftrightarrow> reg18 (x_reg scr) \<and> reg18 (y_reg scr)"

lemma parity_chk_0_or_1: "parity_chk a b = 0 \<or> parity_chk a b = 1"
  by (simp add: parity_chk_def Let_def and_one_eq mod_2_eq_odd)

lemma bit_0x81: "bit (a AND 0x81 :: u32) k \<longleftrightarrow> bit a k \<and> (k = 0 \<or> k = 7)"
proof -
  have e: "(0x81 :: u32) = 1 OR push_bit 7 1" by (simp add: push_bit_eq_mult)
  show ?thesis
    unfolding e bit_and_iff bit_or_iff bit_push_bit_iff bit_1_iff by auto
qed

lemma parity_0x81: "parity_chk a 0x81 = (a XOR drop_bit 7 a) AND 1"
proof -
  define c where "c = a AND 0x81"
  have c: "bit c k \<longleftrightarrow> bit a k \<and> (k = 0 \<or> k = 7)" for k
    by (simp only: c_def bit_0x81)
  show ?thesis
    unfolding parity_chk_def Let_def c_def [symmetric] and_one_eq mod_2_eq_odd bit_0 [symmetric]
    by (simp add: bit_xor_iff bit_drop_bit_eq c)
qed

lemma gold_step_x_step: "gold_step x = x_step x"
proof -
  define t where "t = (x XOR drop_bit 7 x) AND 1"
  have "t = 0 \<or> t = 1"
    using parity_chk_0_or_1 [of x "0x81"] by (simp add: parity_0x81 t_def)
  then show ?thesis
    unfolding gold_step_def x_step_def parity_0x81 Let_def t_def [symmetric]
    by (auto simp: SCRAMBLER_FEEDBACK_def or.commute)
qed

lemma reg18_shift_feedback:
  assumes "drop_bit 18 x = 0"
  shows "drop_bit 18 (drop_bit 1 x) = 0" "drop_bit 18 (drop_bit 1 x OR SCRAMBLER_FEEDBACK) = 0"
    "drop_bit 1 x OR SCRAMBLER_FEEDBACK \<noteq> 0"
proof -
  have "drop_bit 18 (drop_bit 1 x) = drop_bit 1 (drop_bit 18 x)"
    by (simp add: drop_bit_drop_bit)
  then show d: "drop_bit 18 (drop_bit 1 x) = 0" using assms by simp
  show "drop_bit 18 (drop_bit 1 x OR SCRAMBLER_FEEDBACK) = 0"
    using d by (simp add: SCRAMBLER_FEEDBACK_def)
  show "drop_bit 1 x OR SCRAMBLER_FEEDBACK \<noteq> 0"
    by (simp add: SCRAMBLER_FEEDBACK_def or_eq_0_iff)
qed

lemma drop_1_eq_0: "drop_bit 1 (x :: u32) = 0 \<Longrightarrow> x = 0 \<or> x = 1"
proof -
  assume z: "drop_bit 1 x = 0"
  have "bit x (Suc n) = False" for n
    using arg_cong [OF z, of "\<lambda>w. bit w n"] by (simp add: bit_drop_bit_eq)
  then have "x = of_bool (bit x 0)"
    by (intro bit_word_eqI) (metis bit_1_iff bit_0_eq bot_apply bot_bool_def not0_implies_Suc of_bool_def)
  then show ?thesis by (cases "bit x 0") simp_all
qed

lemma x_step_reg18: "reg18 x \<Longrightarrow> reg18 (x_step x)"
proof -
  assume r: "reg18 x"
  have "drop_bit 1 x \<noteq> 0" if "parity_chk x 0x81 = 0"
  proof
    assume "drop_bit 1 x = 0"
    then have "x = 1" using drop_1_eq_0 [of x] r by (auto simp: reg18_def)
    with that show False by (simp add: parity_chk_def)
  qed
  then show ?thesis
    using r reg18_shift_feedback [of x] by (auto simp: reg18_def x_step_def Let_def)
qed

lemma y_step_reg18: "reg18 y \<Longrightarrow> reg18 (y_step y)"
proof -
  assume r: "reg18 y"
  have "drop_bit 1 y \<noteq> 0" if "parity_chk y 0x04A1 = 0"
  proof
    assume "drop_bit 1 y = 0"
    then have "y = 1" using drop_1_eq_0 [of y] r by (auto simp: reg18_def)
    with that show False by (simp add: parity_chk_def)
  qed
  then show ?thesis
    using r reg18_shift_feedback [of y] by (auto simp: reg18_def y_step_def Let_def)
qed

lemma next_rn_ok: "scrambler_ok scr \<Longrightarrow> scrambler_ok (snd (dvbs2x_scrambler_next_rn scr))"
  by (simp add: scrambler_ok_def dvbs2x_scrambler_next_rn_def Let_def x_step_reg18 y_step_reg18)

lemma next_rn_range: "fst (dvbs2x_scrambler_next_rn scr) < 4"
proof -
  define a where "a = parity_chk (x_reg scr) 0x8050 XOR parity_chk (y_reg scr) 0xFF60"
  define c where "c = (x_reg scr AND 1) XOR (y_reg scr AND 1)"
  have "a = 0 \<or> a = 1" unfolding a_def
    using parity_chk_0_or_1 [of "x_reg scr" "0x8050"] parity_chk_0_or_1 [of "y_reg scr" "0xFF60"]
    by auto
  moreover have "c = 0 \<or> c = 1" unfolding c_def
    by (simp add: and_one_eq mod_2_eq_odd)
  ultimately show ?thesis
    unfolding dvbs2x_scrambler_next_rn_def Let_def a_def [symmetric] c_def [symmetric] by auto
qed

lemma init_ok: "scrambler_ok (dvbs2x_scrambler_init idx)"
proof -
  have "reg18 ((gold_step ^^ idx) 1)"
    by (induction idx) (simp_all add: gold_step_x_step x_step_reg18, simp add: reg18_def)
  moreover have "reg18 0x3FFFF" by (simp add: reg18_def)
  ultimately show ?thesis by (simp add: scrambler_ok_def dvbs2x_scrambler_init_def)
qed

lemma seek_ok: "scrambler_ok scr \<Longrightarrow> scrambler_ok (dvbs2x_scrambler_seek scr n)"
  unfolding dvbs2x_scrambler_seek_def by (induction n) (simp_all add: next_rn_ok)

lemma seek_x_reg: "x_reg (dvbs2x_scrambler_seek scr n) = (x_step ^^ n) (x_reg scr)"
  unfolding dvbs2x_scrambler_seek_def
  by (induction n) (simp_all add: dvbs2x_scrambler_next_rn_def Let_def)

section \<open>Properties\<close>

text \<open>C31: descrambling a data field with the same starting state, pilot map and modulation gives
  back every symbol, and leaves the generator where scrambling left it.\<close>

theorem descramble_scramble_field:
  "dvbs2x_descramble_field scr (fst (dvbs2x_scramble_field scr symbols len is_pilot is_qpsk)) len
     is_pilot is_qpsk =
   (symbols, snd (dvbs2x_scramble_field scr symbols len is_pilot is_qpsk))"
  by (rule descramble_field_scramble_field)

text \<open>After initialisation with any code number and any number of steps, both registers are
  nonzero 18-bit values (the generator is never stuck), and every value it yields is 0 to 3.\<close>

theorem scrambler_registers_ok:
  "scrambler_ok (dvbs2x_scrambler_seek (dvbs2x_scrambler_init idx) n) \<and>
   fst (dvbs2x_scrambler_next_rn (dvbs2x_scrambler_seek (dvbs2x_scrambler_init idx) n)) < 4"
  using seek_ok [OF init_ok] next_rn_range by blast

text \<open>The root state that initialisation computes with its own shift expression is the state
  the generator's x register reaches after as many steps from code 0.\<close>

theorem gold_code_is_seek:
  "x_reg (dvbs2x_scrambler_init idx) =
   x_reg (dvbs2x_scrambler_seek (dvbs2x_scrambler_init 0) idx)"
  by (simp add: seek_x_reg dvbs2x_scrambler_init_def gold_step_x_step [abs_def])

text \<open>The whole-buffer scrambler and descrambler are the data field routines in QPSK mode.\<close>

lemma whole_buffer_is_qpsk_field:
  "dvbs2x_scramble scr symbols len = dvbs2x_scramble_field scr symbols len is_pilot True \<and>
   dvbs2x_descramble scr symbols len = dvbs2x_descramble_field scr symbols len is_pilot True"
  by (simp add: scramble_is_field [of _ _ _ is_pilot] descramble_is_field [of _ _ _ is_pilot])

end
