(* ===== verification/Layout.thy ===== *)
theory Layout
  imports Modcod
begin

text \<open>
  \<^verbatim>\<open>src/vlsnr_layout.c\<close> and \<^verbatim>\<open>src/pilot_insert.c\<close>: the map of data and pilot positions of a
  VL-SNR data field, and the two routines that walk it.  The map buffer, written one entry after
  another through \<^verbatim>\<open>map[out++]\<close>, is the list of the entries written so far, so \<^verbatim>\<open>out\<close> is its
  length.  The geometry of every MODCOD is computed on a view of the builder that keeps the
  counters only (\<open>lay_counts\<close>), which the full builder is shown to refine.
\<close>

section \<open>The map builder\<close>

record lay_state =
  ls_map :: "u8 list"
  ls_dcount :: nat
  ls_symbols :: nat
  ls_group :: nat
  ls_slot_count :: nat

definition put_data :: "lay_state \<Rightarrow> lay_state" where
  "put_data st = st\<lparr>ls_map := ls_map st @ [0], ls_dcount := ls_dcount st + 1,
     ls_symbols := ls_symbols st + 1\<rparr>"

definition put_pilots :: "nat \<Rightarrow> lay_state \<Rightarrow> lay_state" where
  "put_pilots n st = st\<lparr>ls_map := ls_map st @ replicate n 1\<rparr>"

text \<open>The length of the group pilot block that is due now, if one is.\<close>

definition group_pilots :: "bool \<Rightarrow> nat \<Rightarrow> nat \<Rightarrow> nat option" where
  "group_pilots set1 grp symbols =
     (if set1 then
        (if grp \<le> 18 \<and> symbols = 703 then Some 34
         else if 19 \<le> grp \<and> grp \<le> 21 \<and> symbols = 702 then Some 36
         else None)
      else
        (if grp \<le> 9 \<and> symbols = 704 then Some 32
         else if grp = 10 \<and> symbols = 702 then Some 36
         else None))"

text \<open>The loop over \<^verbatim>\<open>k\<close> in one slot; the flag says whether a group pilot block was put, which
  ends the loop and takes up the slot after it as well.  The \<^verbatim>\<open>x\<close> loop runs from
  \<open>k + 1 + plen - 90\<close>, which may be negative, to 89.\<close>

function slot_data :: "bool \<Rightarrow> nat \<Rightarrow> lay_state \<Rightarrow> lay_state \<times> bool" where
  "slot_data set1 k st =
     (if 90 \<le> k then (st, False)
      else
        let st = put_data st
        in case group_pilots set1 (ls_group st) (ls_symbols st) of
             None \<Rightarrow> slot_data set1 (k + 1) st
           | Some plen \<Rightarrow>
               let st = put_pilots plen st;
                   rounds = nat (90 - (int (k + 1 + plen) - 90));
                   st = (put_data ^^ rounds) st
               in (st\<lparr>ls_slot_count := (ls_slot_count st + 1) mod 16\<rparr>, True))"
  by pat_completeness auto
termination by (relation "measure (\<lambda>(_, k, _). 90 - k)") auto

function slots_loop :: "bool \<Rightarrow> nat \<Rightarrow> nat \<Rightarrow> lay_state \<Rightarrow> lay_state" where
  "slots_loop set1 slots j st =
     (if slots \<le> j then st
      else
        let (st, fired) = slot_data set1 0 st;
            j = (if fired then j + 1 else j);
            st = st\<lparr>ls_slot_count := (ls_slot_count st + 1) mod 16\<rparr>;
            st = (if ls_slot_count st = 0 \<and> int j < int slots - 1
                  then put_pilots 36 (st\<lparr>ls_group := ls_group st + 1, ls_symbols := 0\<rparr>)
                  else st)
        in slots_loop set1 slots (j + 1) st)"
  by pat_completeness auto
termination by (relation "measure (\<lambda>(_, slots, j, _). slots - j)") (auto split: if_splits)

declare slot_data.simps [simp del] slots_loop.simps [simp del]

definition lay_init :: lay_state where
  "lay_init = \<lparr>ls_map = [], ls_dcount = 0, ls_symbols = 0, ls_group = 0, ls_slot_count = 10\<rparr>"

text \<open>The map, its length and the number of pilots.\<close>

definition build_set :: "nat \<Rightarrow> bool \<Rightarrow> u8 list \<times> nat \<times> nat" where
  "build_set ndata set1 =
     (let extra = (if set1 then 18 * 34 + 3 * 36 else 9 * 32 + 36);
          slots = (ndata + extra) div 90;
          st = slots_loop set1 slots 0 lay_init;
          out = length (ls_map st)
      in (ls_map st, out, usub out (ls_dcount st)))"

record dvbs2x_vlsnr_layout =
  lay_field_len :: nat
  lay_num_data :: nat
  lay_num_pilot :: nat
  lay_is_pilot :: "u8 list option"

definition layout_alloc :: "nat \<Rightarrow> nat" where
  "layout_alloc ndata = ndata + (ndata div 90 + 4) * 36 + 64"

text \<open>\<open>alloc n\<close> says whether \<^verbatim>\<open>malloc(n)\<close> succeeds.\<close>

definition dvbs2x_vlsnr_build_layout ::
  "(nat \<Rightarrow> bool) \<Rightarrow> dvbs2x_modcod \<Rightarrow> dvbs2x_error + dvbs2x_vlsnr_layout" where
  "dvbs2x_vlsnr_build_layout alloc mc =
     (let ndata = dvbs2x_tx_coded_bits mc;
          ndata = (if mc_modulation mc = DVBS2X_MOD_QPSK then ndata div 2 else ndata);
          ndata = (if mc_has_spread mc then ndata * 2 else ndata)
      in if \<not> alloc (layout_alloc ndata) then Inl ERR_NOMEM
         else
           let (map, field_len, num_pilot) = build_set ndata (mc_set mc = DVBS2X_VLSNR_SET1)
           in Inr \<lparr>lay_field_len = field_len, lay_num_data = ndata, lay_num_pilot = num_pilot,
                   lay_is_pilot = Some map\<rparr>)"

definition dvbs2x_vlsnr_free_layout :: "dvbs2x_vlsnr_layout \<Rightarrow> dvbs2x_vlsnr_layout" where
  "dvbs2x_vlsnr_free_layout lay =
     lay\<lparr>lay_is_pilot := None, lay_field_len := 0, lay_num_data := 0, lay_num_pilot := 0\<rparr>"

section \<open>Walking the map\<close>

definition pilot_symbol :: dvbs2x_complex where
  "pilot_symbol = \<lparr>re_i = 0.70710678118654752440, im_q = 0.70710678118654752440\<rparr>"

text \<open>The entries written to \<^verbatim>\<open>output\<close>, given the map entries and the data symbols left.\<close>

fun pilot_insert_loop :: "u8 list \<Rightarrow> dvbs2x_complex list \<Rightarrow> dvbs2x_complex list" where
  "pilot_insert_loop [] data = []"
| "pilot_insert_loop (m # ms) data =
     (if m \<noteq> 0 then pilot_symbol # pilot_insert_loop ms data
      else hd data # pilot_insert_loop ms (tl data))"

definition dvbs2x_pilot_insert ::
  "dvbs2x_complex list \<Rightarrow> dvbs2x_vlsnr_layout \<Rightarrow> dvbs2x_complex list \<times> nat" where
  "dvbs2x_pilot_insert data lay =
     (pilot_insert_loop (take (lay_field_len lay) (the (lay_is_pilot lay))) data, lay_field_len lay)"

text \<open>The entries written to \<^verbatim>\<open>data\<close> and to \<^verbatim>\<open>pilots\<close>, and the number of the former.\<close>

fun pilot_extract_loop ::
  "u8 list \<Rightarrow> dvbs2x_complex list \<Rightarrow> dvbs2x_complex list \<times> dvbs2x_complex list" where
  "pilot_extract_loop [] field = ([], [])"
| "pilot_extract_loop (m # ms) field =
     (let (ds, ps) = pilot_extract_loop ms (tl field)
      in if m \<noteq> 0 then (ds, hd field # ps) else (hd field # ds, ps))"

definition dvbs2x_pilot_extract ::
  "dvbs2x_complex list \<Rightarrow> dvbs2x_vlsnr_layout \<Rightarrow> bool \<Rightarrow>
   dvbs2x_complex list \<times> dvbs2x_complex list option \<times> nat" where
  "dvbs2x_pilot_extract field lay pilots_ok =
     (let (ds, ps) = pilot_extract_loop (take (lay_field_len lay) (the (lay_is_pilot lay))) field
      in (ds, if pilots_ok then Some ps else None, length ds))"

section \<open>Closed form of a slot\<close>

definition data_positions :: "u8 list \<Rightarrow> nat" where
  "data_positions m = length (filter (\<lambda>x. x = 0) m)"

lemma put_data_power:
  "(put_data ^^ n) st = st\<lparr>ls_map := ls_map st @ replicate n 0, ls_dcount := ls_dcount st + n,
     ls_symbols := ls_symbols st + n\<rparr>"
  by (induction n) (simp_all add: put_data_def replicate_append_same)

text \<open>The count at which the group pilot block of a group is due, and its length.\<close>

definition group_threshold :: "bool \<Rightarrow> nat \<Rightarrow> (nat \<times> nat) option" where
  "group_threshold set1 grp =
     (if set1 then if grp \<le> 18 then Some (703, 34) else if grp \<le> 21 then Some (702, 36) else None
      else if grp \<le> 9 then Some (704, 32) else if grp = 10 then Some (702, 36) else None)"

lemma group_pilots_threshold:
  "group_pilots set1 grp symbols =
     (case group_threshold set1 grp of None \<Rightarrow> None
      | Some (t, p) \<Rightarrow> if symbols = t then Some p else None)"
  by (auto simp: group_pilots_def group_threshold_def)

lemma put_data_fields [simp]:
  "ls_group (put_data st) = ls_group st" "ls_symbols (put_data st) = ls_symbols st + 1"
  by (simp_all add: put_data_def)

lemma slot_data_skip:
  assumes "k + n \<le> 90"
    and "\<And>i. i < n \<Longrightarrow> group_pilots set1 (ls_group st) (ls_symbols st + i + 1) = None"
  shows "slot_data set1 k st = slot_data set1 (k + n) ((put_data ^^ n) st)"
  using assms
proof (induction n arbitrary: k st)
  case 0
  then show ?case by simp
next
  case (Suc n)
  have "slot_data set1 k st = slot_data set1 (k + 1) (put_data st)"
    using Suc.prems(1) Suc.prems(2) [of 0] by (subst slot_data.simps) simp
  also have "\<dots> = slot_data set1 (k + 1 + n) ((put_data ^^ n) (put_data st))"
  proof (rule Suc.IH)
    show "k + 1 + n \<le> 90" using Suc.prems(1) by simp
    show "group_pilots set1 (ls_group (put_data st)) (ls_symbols (put_data st) + i + 1) = None"
      if "i < n" for i
      using Suc.prems(2) [of "i + 1"] that by simp
  qed
  also have "(put_data ^^ n) (put_data st) = (put_data ^^ Suc n) st"
    by (simp only: funpow_Suc_right comp_def)
  finally show ?case by simp
qed

lemma slot_data_none:
  assumes "\<And>i. i < 90 \<Longrightarrow> group_pilots set1 (ls_group st) (ls_symbols st + i + 1) = None"
  shows "slot_data set1 0 st = ((put_data ^^ 90) st, False)"
  using slot_data_skip [of 0 90 set1 st] assms by (simp add: slot_data.simps [of set1 90])

lemma group_threshold_le: "group_threshold set1 g = Some (t, p) \<Longrightarrow> p \<le> 36"
  by (auto simp: group_threshold_def split: if_splits)

definition slot_fired :: "lay_state \<Rightarrow> nat \<Rightarrow> nat \<Rightarrow> lay_state" where
  "slot_fired st m p =
     (put_data ^^ (180 - (m + p))) (put_pilots p ((put_data ^^ m) st))
       \<lparr>ls_slot_count := (ls_slot_count st + 1) mod 16\<rparr>"

lemma slot_data_fire:
  assumes t: "group_threshold set1 (ls_group st) = Some (t, p)"
    and m: "ls_symbols st < t" "t \<le> ls_symbols st + 90"
  shows "slot_data set1 0 st = (slot_fired st (t - ls_symbols st) p, True)"
proof -
  define m where "m = t - ls_symbols st"
  have mm: "0 < m" "m \<le> 90" "t = ls_symbols st + m" using m by (auto simp: m_def)
  have skip: "slot_data set1 0 st = slot_data set1 (m - 1) ((put_data ^^ (m - 1)) st)"
    using slot_data_skip [of 0 "m - 1" set1 st] mm t by (simp add: group_pilots_threshold)
  let ?s = "(put_data ^^ (m - 1)) st"
  have s: "put_data ?s = (put_data ^^ m) st" using mm by (cases m) simp_all
  have f: "ls_group (put_data ?s) = ls_group st" "ls_symbols (put_data ?s) = t"
    unfolding s using mm by (simp_all add: put_data_power)
  have g: "group_pilots set1 (ls_group (put_data ?s)) (ls_symbols (put_data ?s)) = Some p"
    unfolding f using t by (simp add: group_pilots_threshold)
  have "nat (90 - (int (m - 1 + 1 + p) - 90)) = 180 - (m + p)" using mm by simp
  moreover have "ls_slot_count ((put_data ^^ n) (put_pilots p ((put_data ^^ m) st))) = ls_slot_count st"
    for n by (simp add: put_data_power put_pilots_def)
  moreover have "\<not> 90 \<le> m - 1" using mm by simp
  ultimately have "slot_data set1 (m - 1) ?s = (slot_fired st m p, True)"
    using g unfolding slot_data.simps [of set1 "m - 1" ?s] slot_fired_def s
    by (simp only: Let_def if_False option.case)
  then show ?thesis using skip by (simp add: m_def)
qed

section \<open>Counters only\<close>

record lay_cnt =
  c_len :: nat
  c_dcount :: nat
  c_symbols :: nat
  c_group :: nat
  c_slot :: nat

definition lay_counts :: "lay_state \<Rightarrow> lay_cnt" where
  "lay_counts st = \<lparr>c_len = length (ls_map st), c_dcount = ls_dcount st, c_symbols = ls_symbols st,
     c_group = ls_group st, c_slot = ls_slot_count st\<rparr>"

definition slot_counts :: "bool \<Rightarrow> lay_cnt \<Rightarrow> lay_cnt \<times> bool" where
  "slot_counts set1 c =
     (let plain = (c\<lparr>c_len := c_len c + 90, c_dcount := c_dcount c + 90,
                     c_symbols := c_symbols c + 90\<rparr>, False)
      in case group_threshold set1 (c_group c) of
           None \<Rightarrow> plain
         | Some (t, p) \<Rightarrow>
             if c_symbols c < t \<and> t \<le> c_symbols c + 90
             then (c\<lparr>c_len := c_len c + 180, c_dcount := c_dcount c + (180 - p),
                     c_symbols := c_symbols c + (180 - p), c_slot := (c_slot c + 1) mod 16\<rparr>, True)
             else plain)"

fun counts_loop :: "bool \<Rightarrow> nat \<Rightarrow> lay_cnt \<Rightarrow> lay_cnt" where
  "counts_loop set1 0 c = c"
| "counts_loop set1 (Suc left) c =
     (let (c, fired) = slot_counts set1 c;
          left = (if fired then left - 1 else left);
          c = c\<lparr>c_slot := (c_slot c + 1) mod 16\<rparr>;
          c = (if c_slot c = 0 \<and> 0 < left
               then c\<lparr>c_group := c_group c + 1, c_symbols := 0, c_len := c_len c + 36\<rparr> else c)
      in counts_loop set1 left c)"

text \<open>The builder's list agrees with its counters.\<close>

definition lay_ok :: "lay_state \<Rightarrow> bool" where
  "lay_ok st \<longleftrightarrow> data_positions (ls_map st) = ls_dcount st"

lemma data_positions_append [simp]: "data_positions (xs @ ys) = data_positions xs + data_positions ys"
  by (simp add: data_positions_def)

lemma data_positions_replicate [simp]: "data_positions (replicate n x) = (if x = 0 then n else 0)"
  by (simp add: data_positions_def)

lemma slot_data_counts:
  assumes "slot_data set1 0 st = (st', fired)"
  shows "slot_counts set1 (lay_counts st) = (lay_counts st', fired)"
    and "lay_ok st \<Longrightarrow> lay_ok st'"
proof -
  have "slot_counts set1 (lay_counts st) = (lay_counts st', fired) \<and> (lay_ok st \<longrightarrow> lay_ok st')"
  proof (cases "group_threshold set1 (ls_group st)")
    case None
    then have "slot_data set1 0 st = ((put_data ^^ 90) st, False)"
      by (intro slot_data_none) (simp add: group_pilots_threshold)
    then show ?thesis
      using assms None by (auto simp: slot_counts_def lay_counts_def put_data_power lay_ok_def)
  next
    case (Some tp)
    obtain t p where tp: "tp = (t, p)" by (cases tp)
    show ?thesis
    proof (cases "ls_symbols st < t \<and> t \<le> ls_symbols st + 90")
      case True
      define m where "m = t - ls_symbols st"
      have m: "m \<le> 90" "p \<le> 36" using True group_threshold_le Some tp by (auto simp: m_def)
      have "slot_data set1 0 st = (slot_fired st m p, True)"
        using slot_data_fire [of set1 st t p] Some tp True by (simp add: m_def)
      then show ?thesis
        using assms Some tp True m
        by (auto simp: slot_counts_def lay_counts_def put_data_power put_pilots_def lay_ok_def
            slot_fired_def)
    next
      case False
      then have "slot_data set1 0 st = ((put_data ^^ 90) st, False)"
        using Some tp by (intro slot_data_none) (auto simp: group_pilots_threshold)
      then show ?thesis
        using assms Some tp False
        by (auto simp: slot_counts_def lay_counts_def put_data_power lay_ok_def)
    qed
  qed
  then show "slot_counts set1 (lay_counts st) = (lay_counts st', fired)" "lay_ok st \<Longrightarrow> lay_ok st'"
    by simp_all
qed

lemma slots_loop_counts:
  "lay_ok st \<Longrightarrow> left = slots - j \<Longrightarrow>
   lay_counts (slots_loop set1 slots j st) = counts_loop set1 left (lay_counts st) \<and>
   lay_ok (slots_loop set1 slots j st)"
proof (induction left arbitrary: j st rule: less_induct)
  case (less left)
  show ?case
  proof (cases left)
    case 0
    then show ?thesis using less.prems by (simp add: slots_loop.simps)
  next
    case (Suc l)
    obtain st1 fired where sd: "slot_data set1 0 st = (st1, fired)" by force
    note c = slot_data_counts [OF sd]
    define j1 where "j1 = (if fired then j + 1 else j)"
    define l1 where "l1 = (if fired then l - 1 else l)"
    define st2 where "st2 = st1\<lparr>ls_slot_count := (ls_slot_count st1 + 1) mod 16\<rparr>"
    define st3 where "st3 = (if ls_slot_count st2 = 0 \<and> int j1 < int slots - 1
      then put_pilots 36 (st2\<lparr>ls_group := ls_group st2 + 1, ls_symbols := 0\<rparr>) else st2)"
    have loop: "slots_loop set1 slots j st = slots_loop set1 slots (j1 + 1) st3"
      using less.prems Suc
      by (subst slots_loop.simps) (simp add: sd Let_def st3_def st2_def j1_def)
    have "lay_ok st3"
      using c(2) [OF less.prems(1)] by (simp add: st3_def st2_def put_pilots_def lay_ok_def)
    moreover have l1: "l1 = slots - (j1 + 1)" "l1 < left" "0 < l1 \<longleftrightarrow> int j1 < int slots - 1"
      using less.prems(2) Suc by (auto simp: l1_def j1_def)
    moreover have "counts_loop set1 (Suc l) (lay_counts st) = counts_loop set1 l1 (lay_counts st3)"
      using l1(3)
      unfolding counts_loop.simps c(1) Let_def prod.case l1_def [symmetric]
      by (simp add: lay_counts_def st3_def st2_def put_pilots_def)
    ultimately show ?thesis
      using less.IH [of l1 st3 "j1 + 1"] unfolding loop Suc by simp
  qed
qed

text \<open>The geometry for the two sizes of data field.\<close>

lemma counts_loop_numeral:
  "counts_loop set1 (numeral n) c =
     (let (c, fired) = slot_counts set1 c;
          left = (if fired then pred_numeral n - 1 else pred_numeral n);
          c = c\<lparr>c_slot := (c_slot c + 1) mod 16\<rparr>;
          c = (if c_slot c = 0 \<and> 0 < left
               then c\<lparr>c_group := c_group c + 1, c_symbols := 0, c_len := c_len c + 36\<rparr> else c)
      in counts_loop set1 left c)"
  by (simp only: numeral_eq_Suc counts_loop.simps)

definition init_counts :: lay_cnt where
  "init_counts = \<lparr>c_len = 0, c_dcount = 0, c_symbols = 0, c_group = 0, c_slot = 10\<rparr>"

lemma counts_set1:
  "counts_loop True 350 init_counts =
     \<lparr>c_len = 32292, c_dcount = 30780, c_symbols = 720, c_group = 22, c_slot = 8\<rparr>"
  by (simp add: counts_loop_numeral init_counts_def slot_counts_def group_threshold_def)

lemma counts_set2:
  "counts_loop False 170 init_counts =
     \<lparr>c_len = 15696, c_dcount = 14976, c_symbols = 360, c_group = 11, c_slot = 4\<rparr>"
  by (simp add: counts_loop_numeral init_counts_def slot_counts_def group_threshold_def)

lemma data_symbols_table:
  assumes "mc \<in> set vlsnr_modcod_table"
  shows "data_symbols mc = (if mc_set mc = DVBS2X_VLSNR_SET1 then 30780 else 14976)"
  using modcod_cases [OF assms]
  by (elim disjE) (simp_all add: modcod_defs data_symbols_def dvbs2x_tx_coded_bits_def)

lemma lay_init_counts: "lay_counts lay_init = init_counts" "lay_ok lay_init"
  by (simp_all add: lay_counts_def lay_init_def init_counts_def lay_ok_def data_positions_def)

lemma build_set_geometry:
  fixes set1 :: bool
  defines "n \<equiv> if set1 then 30780 else 14976"
    and "len \<equiv> if set1 then 32292 else 15696"
  shows "\<exists>m. build_set n set1 = (m, len, len - n) \<and> length m = len \<and> data_positions m = n"
proof -
  define slots where "slots = (if set1 then 350 else 170::nat)"
  define st where "st = slots_loop set1 slots 0 lay_init"
  have c: "lay_counts st = counts_loop set1 slots init_counts" "lay_ok st"
    using slots_loop_counts [OF lay_init_counts(2), of slots slots 0 set1]
    by (simp_all add: st_def lay_init_counts)
  have "c_len (lay_counts st) = len \<and> c_dcount (lay_counts st) = n"
    unfolding c(1) by (cases set1) (simp_all add: slots_def counts_set1 counts_set2 len_def n_def)
  then have "length (ls_map st) = len" "ls_dcount st = n" by (simp_all add: lay_counts_def)
  moreover have "n \<le> len" by (simp add: n_def len_def)
  moreover have "build_set n set1 = (ls_map st, length (ls_map st), usub (length (ls_map st)) (ls_dcount st))"
    by (cases set1) (simp_all add: build_set_def Let_def st_def slots_def n_def)
  ultimately show ?thesis using c(2) by (simp add: lay_ok_def)
qed

lemma layout_of_modcod:
  assumes "mc \<in> set vlsnr_modcod_table" and "alloc (layout_alloc (data_symbols mc))"
  obtains m where "dvbs2x_vlsnr_build_layout alloc mc = Inr \<lparr>lay_field_len = length m,
      lay_num_data = data_symbols mc, lay_num_pilot = length m - data_symbols mc,
      lay_is_pilot = Some m\<rparr>"
    and "data_positions m = data_symbols mc" and "data_symbols mc \<le> length m"
    and "length m = (if mc_set mc = DVBS2X_VLSNR_SET1 then 32292 else 15696)"
proof -
  let ?set1 = "mc_set mc = DVBS2X_VLSNR_SET1"
  from build_set_geometry [of ?set1] obtain m where
    m: "build_set (data_symbols mc) ?set1 = (m, length m, length m - data_symbols mc)"
    "length m = (if ?set1 then 32292 else 15696)" "data_positions m = data_symbols mc"
    unfolding data_symbols_table [OF assms(1), symmetric] by (auto split: if_splits)
  have "data_symbols mc \<le> length m"
    unfolding m(3) [symmetric] data_positions_def by (rule length_filter_le)
  moreover have "dvbs2x_vlsnr_build_layout alloc mc = Inr \<lparr>lay_field_len = length m,
      lay_num_data = data_symbols mc, lay_num_pilot = length m - data_symbols mc,
      lay_is_pilot = Some m\<rparr>"
    using assms(2) m(1) unfolding dvbs2x_vlsnr_build_layout_def data_symbols_def Let_def by simp
  ultimately show ?thesis using that m by blast
qed

lemma extract_insert_loop:
  "data_positions ms \<le> length data \<Longrightarrow>
   pilot_extract_loop ms (pilot_insert_loop ms data) =
     (take (data_positions ms) data, replicate (length ms - data_positions ms) pilot_symbol)"
proof (induction ms arbitrary: data)
  case Nil
  then show ?case by (simp add: data_positions_def)
next
  case (Cons m ms)
  have le: "data_positions ms \<le> length ms" by (simp add: data_positions_def)
  show ?case
  proof (cases "m = 0")
    case True
    then obtain d ds where "data = d # ds"
      using Cons.prems by (cases data) (auto simp: data_positions_def)
    then show ?thesis using True Cons by (simp add: data_positions_def)
  next
    case False
    then show ?thesis
      using Cons le by (simp add: data_positions_def Suc_diff_le)
  qed
qed

lemma length_pilot_insert_loop [simp, lens]: "length (pilot_insert_loop ms data) = length ms"
  by (induction ms data rule: pilot_insert_loop.induct) simp_all

lemma extract_insert_field:
  assumes "dvbs2x_vlsnr_get_modcod i = Some mc"
    and "dvbs2x_vlsnr_build_layout alloc mc = Inr lay" and "length data = data_symbols mc"
  shows "length (fst (dvbs2x_pilot_insert data lay)) = lay_field_len lay \<and>
    dvbs2x_pilot_extract (fst (dvbs2x_pilot_insert data lay)) lay True =
      (data, Some (replicate (lay_num_pilot lay) pilot_symbol), lay_num_data lay)"
proof -
  have mc: "mc \<in> set vlsnr_modcod_table" using get_modcod_set [OF assms(1)] .
  have "alloc (layout_alloc (data_symbols mc))"
    using assms(2)
    by (auto simp: dvbs2x_vlsnr_build_layout_def data_symbols_def Let_def split: if_splits)
  from layout_of_modcod [where alloc = alloc, OF mc this] obtain m where
    m: "dvbs2x_vlsnr_build_layout alloc mc = Inr \<lparr>lay_field_len = length m,
      lay_num_data = data_symbols mc, lay_num_pilot = length m - data_symbols mc,
      lay_is_pilot = Some m\<rparr>" "data_positions m = data_symbols mc" "data_symbols mc \<le> length m"
    "length m = (if mc_set mc = DVBS2X_VLSNR_SET1 then 32292 else 15696)" .
  have "lay = \<lparr>lay_field_len = length m, lay_num_data = data_symbols mc,
      lay_num_pilot = length m - data_symbols mc, lay_is_pilot = Some m\<rparr>"
    using m(1) assms(2) by simp
  then show ?thesis
    using assms(3) m(2) extract_insert_loop [of m data]
    by (simp add: dvbs2x_pilot_insert_def dvbs2x_pilot_extract_def)
qed

section \<open>Properties\<close>



text \<open>C33: extracting from a field into which a MODCOD's data symbols were inserted gives back the
  data symbols, with all pilots at the pilot value.\<close>

theorem pilot_extract_insert:
  assumes "dvbs2x_vlsnr_get_modcod i = Some mc"
    and "dvbs2x_vlsnr_build_layout alloc mc = Inr lay" and "length data = data_symbols mc"
  shows "length (fst (dvbs2x_pilot_insert data lay)) = lay_field_len lay \<and>
    dvbs2x_pilot_extract (fst (dvbs2x_pilot_insert data lay)) lay True =
      (data, Some (replicate (lay_num_pilot lay) pilot_symbol), lay_num_data lay)"
  using assms by (rule extract_insert_field)

theorem pilot_extract_insert_witness:
  "fst (dvbs2x_pilot_extract
     (fst (dvbs2x_pilot_insert (replicate 14976 pilot_symbol)
        (projr (dvbs2x_vlsnr_build_layout (\<lambda>_. True) modcod_8))))
     (projr (dvbs2x_vlsnr_build_layout (\<lambda>_. True) modcod_8)) True) = replicate 14976 pilot_symbol"
proof -
  have mc: "dvbs2x_vlsnr_get_modcod 8 = Some modcod_8"
    by (simp add: dvbs2x_vlsnr_get_modcod_def vlsnr_modcod_table_def const_defs)
  have l: "dvbs2x_vlsnr_build_layout (\<lambda>_. True) modcod_8 =
      Inr (projr (dvbs2x_vlsnr_build_layout (\<lambda>_. True) modcod_8))"
    by (simp add: dvbs2x_vlsnr_build_layout_def Let_def split_beta)
  have "data_symbols modcod_8 = 14976"
    by (simp add: data_symbols_def dvbs2x_tx_coded_bits_def modcod_8_def)
  then have "length (replicate 14976 pilot_symbol) = data_symbols modcod_8"
    by (simp only: length_replicate)
  from pilot_extract_insert [OF mc l this] show ?thesis by (simp only: fst_conv)
qed

end
