(* ===== verification/Mapper.thy ===== *)
theory Mapper
  imports Dvb_Types
begin

text \<open>
  \<^verbatim>\<open>src/modulate.c\<close>, \<^verbatim>\<open>src/demodulate.c\<close> and \<^verbatim>\<open>src/interleaver.c\<close>: the bit interleaver, which
  copies, factor-two spreading, and the pi/2-BPSK and QPSK mappers and soft demappers, over exact
  real arithmetic.  An output array is the list of the entries written.  The round trips allow for
  noise: a bit is decided correctly as long as no component of its symbols is off by more than the
  amplitude.
\<close>

section \<open>Definitions\<close>

definition M_SQRT1_2 :: real where "M_SQRT1_2 = 0.70710678118654752440"
definition M_SQRT2_D :: real where "M_SQRT2_D = 1.41421356237309504880"

definition dvbs2x_interleave :: "dvbs2x_modcod \<Rightarrow> u8 list \<Rightarrow> u8 list \<Rightarrow> u8 list" where
  "dvbs2x_interleave modcod input output =
     overwrite 0 (take (dvbs2x_tx_coded_bits modcod) input) output"

definition dvbs2x_deinterleave :: "dvbs2x_modcod \<Rightarrow> real list \<Rightarrow> real list \<Rightarrow> real list" where
  "dvbs2x_deinterleave modcod input output =
     overwrite 0 (take (dvbs2x_tx_coded_bits modcod) input) output"

definition pi2bpsk_symbol :: "nat \<Rightarrow> u8 \<Rightarrow> dvbs2x_complex" where
  "pi2bpsk_symbol n x =
     (let b = (x AND 1 \<noteq> 0)
      in if even n
         then \<lparr>re_i = (if b then - M_SQRT1_2 else M_SQRT1_2),
               im_q = (if b then - M_SQRT1_2 else M_SQRT1_2)\<rparr>
         else \<lparr>re_i = (if b then M_SQRT1_2 else - M_SQRT1_2),
               im_q = (if b then - M_SQRT1_2 else M_SQRT1_2)\<rparr>)"

definition dvbs2x_mod_pi2bpsk :: "u8 list \<Rightarrow> nat \<Rightarrow> dvbs2x_complex list" where
  "dvbs2x_mod_pi2bpsk bits len = map (\<lambda>n. pi2bpsk_symbol n (bits ! n)) [0..<len]"

definition dvbs2x_mod_qpsk :: "u8 list \<Rightarrow> nat \<Rightarrow> dvbs2x_complex list" where
  "dvbs2x_mod_qpsk bits num_symbols =
     map (\<lambda>n. let b0 = bits ! (2 * n); b1 = bits ! (2 * n + 1)
              in \<lparr>re_i = (if b0 \<noteq> 0 then - M_SQRT1_2 else M_SQRT1_2),
                  im_q = (if b1 \<noteq> 0 then - M_SQRT1_2 else M_SQRT1_2)\<rparr>) [0..<num_symbols]"

definition dvbs2x_mod_spread_bits :: "u8 list \<Rightarrow> nat \<Rightarrow> u8 list" where
  "dvbs2x_mod_spread_bits inp in_len = concat (map (\<lambda>n. [inp ! n, inp ! n]) [0..<in_len])"

definition dvbs2x_demod_pi2bpsk :: "dvbs2x_complex list \<Rightarrow> nat \<Rightarrow> real \<Rightarrow> real list" where
  "dvbs2x_demod_pi2bpsk symbols len noise_var =
     (let scale = M_SQRT2_D / noise_var
      in map (\<lambda>n. if even n then scale * (re_i (symbols ! n) + im_q (symbols ! n))
                  else scale * (im_q (symbols ! n) - re_i (symbols ! n))) [0..<len])"

definition dvbs2x_demod_qpsk :: "dvbs2x_complex list \<Rightarrow> nat \<Rightarrow> real \<Rightarrow> real list" where
  "dvbs2x_demod_qpsk symbols num_symbols noise_var =
     (let scale = 2.0 * M_SQRT1_2 / noise_var
      in concat (map (\<lambda>n. [scale * re_i (symbols ! n), scale * im_q (symbols ! n)])
           [0..<num_symbols]))"

definition dvbs2x_demod_despread_llr :: "real list \<Rightarrow> nat \<Rightarrow> real list" where
  "dvbs2x_demod_despread_llr inp out_len =
     map (\<lambda>n. inp ! (2 * n) + inp ! (2 * n + 1)) [0..<out_len]"

section \<open>Lemmas\<close>

text \<open>The decoder's convention: a negative value is a one.\<close>

definition hard :: "real \<Rightarrow> u8" where
  "hard l = (if l < 0 then 1 else 0)"

text \<open>Received symbols within the noise margin of the sent ones.\<close>

definition near :: "dvbs2x_complex list \<Rightarrow> dvbs2x_complex list \<Rightarrow> bool" where
  "near rx tx \<longleftrightarrow>
     list_all2 (\<lambda>r t. \<bar>re_i r - re_i t\<bar> < M_SQRT1_2 \<and> \<bar>im_q r - im_q t\<bar> < M_SQRT1_2) rx tx"

lemma amplitude_pos: "0 < M_SQRT1_2" "0 < M_SQRT2_D"
  by (simp_all add: M_SQRT1_2_def M_SQRT2_D_def)

lemma near_refl: "near tx tx"
  using amplitude_pos by (simp add: near_def list_all2_refl)

lemma near_nth:
  "near rx tx \<Longrightarrow> n < length tx \<Longrightarrow>
   \<bar>re_i (rx ! n) - re_i (tx ! n)\<bar> < M_SQRT1_2 \<and> \<bar>im_q (rx ! n) - im_q (tx ! n)\<bar> < M_SQRT1_2"
  by (auto simp: near_def dest: list_all2_nthD2)

lemma length_modulators [simp, lens]:
  "length (dvbs2x_mod_pi2bpsk bits len) = len"
  "length (dvbs2x_mod_qpsk bits n) = n"
  "length (dvbs2x_mod_spread_bits bits n) = 2 * n"
  "length (dvbs2x_demod_pi2bpsk symbols len v) = len"
  "length (dvbs2x_demod_qpsk symbols n v) = 2 * n"
  by (simp_all add: dvbs2x_mod_pi2bpsk_def dvbs2x_mod_qpsk_def dvbs2x_mod_spread_bits_def
      dvbs2x_demod_pi2bpsk_def dvbs2x_demod_qpsk_def Let_def length_concat comp_def sum_list_triv)

lemma nth_concat_pairs:
  "n < len \<Longrightarrow> concat (map (\<lambda>n. [f n, g n]) [0..<len]) ! (2 * n) = f n \<and>
   concat (map (\<lambda>n. [f n, g n]) [0..<len]) ! (2 * n + 1) = g n"
proof (induction len)
  case (Suc len)
  have l: "length (concat (map (\<lambda>n. [f n, g n]) [0..<len])) = 2 * len"
    by (simp add: length_concat comp_def sum_list_triv)
  show ?case
  proof (cases "n = len")
    case True
    then show ?thesis using l by (simp add: nth_append)
  next
    case False
    then have "n < len" "2 * n < 2 * len" "2 * n + 1 < 2 * len" using Suc.prems by simp_all
    then show ?thesis using Suc.IH l by (simp add: nth_append)
  qed
qed simp

lemma concat_pairs_eqI:
  assumes "length xs = 2 * len" and "\<And>n. n < len \<Longrightarrow> f n = xs ! (2 * n) \<and> g n = xs ! (2 * n + 1)"
  shows "concat (map (\<lambda>n. [f n, g n]) [0..<len]) = xs"
proof (rule nth_equalityI)
  show l: "length (concat (map (\<lambda>n. [f n, g n]) [0..<len])) = length xs"
    by (simp add: assms(1) length_concat comp_def sum_list_triv)
  fix i assume "i < length (concat (map (\<lambda>n. [f n, g n]) [0..<len]))"
  then have i: "i div 2 < len" using l assms(1) by simp
  have "i = 2 * (i div 2) \<or> i = 2 * (i div 2) + 1" by linarith
  then show "concat (map (\<lambda>n. [f n, g n]) [0..<len]) ! i = xs ! i"
    using nth_concat_pairs [OF i, of f g] assms(2) [OF i] by auto
qed

lemma spread_nth:
  "n < len \<Longrightarrow> dvbs2x_mod_spread_bits bits len ! (2 * n) = bits ! n"
  "n < len \<Longrightarrow> dvbs2x_mod_spread_bits bits len ! (2 * n + 1) = bits ! n"
  using nth_concat_pairs [of n len "\<lambda>n. bits ! n" "\<lambda>n. bits ! n"]
  by (simp_all add: dvbs2x_mod_spread_bits_def)

text \<open>The sign of a soft value near its symbol.\<close>

lemma pi2bpsk_llr_sign:
  assumes "near rx (dvbs2x_mod_pi2bpsk bits len)" and "n < len" and "0 < v"
  shows "if bits ! n AND 1 = 0 then 0 < dvbs2x_demod_pi2bpsk rx len v ! n
    else dvbs2x_demod_pi2bpsk rx len v ! n < 0"
proof -
  define s where "s = M_SQRT2_D / v"
  define d where "d = (if even n then re_i (rx ! n) + im_q (rx ! n) else im_q (rx ! n) - re_i (rx ! n))"
  have s: "0 < s" using amplitude_pos assms(3) by (simp add: s_def)
  have l: "dvbs2x_demod_pi2bpsk rx len v ! n = s * d"
    using assms(2) by (simp add: dvbs2x_demod_pi2bpsk_def Let_def s_def d_def)
  have t: "dvbs2x_mod_pi2bpsk bits len ! n = pi2bpsk_symbol n (bits ! n)"
    using assms(2) by (simp add: dvbs2x_mod_pi2bpsk_def)
  note r = near_nth [OF assms(1), of n, unfolded length_modulators t, OF assms(2)]
  have "if bits ! n AND 1 = 0 then 0 < d else d < 0"
    using r by (cases "even n"; cases "bits ! n AND 1 = 0") (auto simp: d_def pi2bpsk_symbol_def Let_def abs_less_iff)
  then show ?thesis
    using s unfolding l by (auto simp: mult_pos_pos mult_pos_neg)
qed

lemma qpsk_llr_sign:
  assumes "near rx (dvbs2x_mod_qpsk bits m)" and "n < m" and "0 < v"
  shows "(if bits ! (2 * n) = 0 then 0 < dvbs2x_demod_qpsk rx m v ! (2 * n)
      else dvbs2x_demod_qpsk rx m v ! (2 * n) < 0) \<and>
    (if bits ! (2 * n + 1) = 0 then 0 < dvbs2x_demod_qpsk rx m v ! (2 * n + 1)
      else dvbs2x_demod_qpsk rx m v ! (2 * n + 1) < 0)"
proof -
  define s where "s = 2.0 * M_SQRT1_2 / v"
  have s: "0 < s" using amplitude_pos assms(3) by (simp add: s_def)
  have l: "dvbs2x_demod_qpsk rx m v ! (2 * n) = s * re_i (rx ! n)"
    "dvbs2x_demod_qpsk rx m v ! (2 * n + 1) = s * im_q (rx ! n)"
    using nth_concat_pairs [OF assms(2), of "\<lambda>n. s * re_i (rx ! n)" "\<lambda>n. s * im_q (rx ! n)"]
    unfolding dvbs2x_demod_qpsk_def Let_def s_def by simp_all
  have t: "dvbs2x_mod_qpsk bits m ! n =
      \<lparr>re_i = (if bits ! (2 * n) \<noteq> 0 then - M_SQRT1_2 else M_SQRT1_2),
       im_q = (if bits ! (2 * n + 1) \<noteq> 0 then - M_SQRT1_2 else M_SQRT1_2)\<rparr>"
    using assms(2) by (simp add: dvbs2x_mod_qpsk_def Let_def)
  note r = near_nth [OF assms(1), of n, unfolded length_modulators t, OF assms(2)]
  have "if bits ! (2 * n) = 0 then 0 < re_i (rx ! n) else re_i (rx ! n) < 0"
    "if bits ! (2 * n + 1) = 0 then 0 < im_q (rx ! n) else im_q (rx ! n) < 0"
    using r by (auto simp: abs_less_iff split: if_splits)
  then show ?thesis
    using s unfolding l by (auto simp: mult_pos_pos mult_pos_neg)
qed

definition is_bits :: "u8 list \<Rightarrow> bool" where
  "is_bits bs \<longleftrightarrow> list_all (\<lambda>b. b = 0 \<or> b = 1) bs"

lemma is_bits_nth: "is_bits bs \<Longrightarrow> i < length bs \<Longrightarrow> bs ! i = 0 \<or> bs ! i = 1"
  by (auto simp: is_bits_def list_all_length)

lemma hard_sign: "b = 0 \<or> b = 1 \<Longrightarrow> (if b = 0 then 0 < l else l < 0) \<Longrightarrow> hard l = b"
  by (auto simp: hard_def split: if_splits)

section \<open>Properties\<close>

text \<open>Pi/2-BPSK: whatever the noise, as long as every component of every received symbol is
  off by less than the amplitude, the signs of the soft values are the bits sent.\<close>

theorem pi2bpsk_decisions:
  assumes "is_bits bits" and "0 < noise_var"
    and "near rx (dvbs2x_mod_pi2bpsk bits (length bits))"
  shows "map hard (dvbs2x_demod_pi2bpsk rx (length bits) noise_var) = bits"
proof (rule nth_equalityI)
  fix i assume "i < length (map hard (dvbs2x_demod_pi2bpsk rx (length bits) noise_var))"
  then have i: "i < length bits" by simp
  then have b: "bits ! i = 0 \<or> bits ! i = 1" using is_bits_nth assms(1) by blast
  then show "map hard (dvbs2x_demod_pi2bpsk rx (length bits) noise_var) ! i = bits ! i"
    using pi2bpsk_llr_sign [OF assms(3) i assms(2)] i
    by (auto intro: hard_sign simp: nth_map)
qed simp

theorem pi2bpsk_decisions_witness:
  "map hard (dvbs2x_demod_pi2bpsk (dvbs2x_mod_pi2bpsk [1, 0, 0, 1] 4) 4 0.5) = [1, 0, 0, 1]"
  using pi2bpsk_decisions [of "[1, 0, 0, 1]" "0.5" "dvbs2x_mod_pi2bpsk [1, 0, 0, 1] 4"]
  by (simp add: is_bits_def near_refl numeral_eq_Suc)

text \<open>QPSK: the same, for the two bits of each symbol.\<close>

theorem qpsk_decisions:
  assumes "is_bits bits" and "0 < noise_var" and "length bits = 2 * n"
    and "near rx (dvbs2x_mod_qpsk bits n)"
  shows "map hard (dvbs2x_demod_qpsk rx n noise_var) = bits"
proof (rule nth_equalityI)
  show "length (map hard (dvbs2x_demod_qpsk rx n noise_var)) = length bits"
    using assms(3) by simp
  fix i assume "i < length (map hard (dvbs2x_demod_qpsk rx n noise_var))"
  then have i: "i < length bits" "i div 2 < n" "i < 2 * n" using assms(3) by simp_all
  then have b: "bits ! i = 0 \<or> bits ! i = 1" using is_bits_nth assms(1) by blast
  have "i = 2 * (i div 2) \<or> i = 2 * (i div 2) + 1" by linarith
  then have "if bits ! i = 0 then 0 < dvbs2x_demod_qpsk rx n noise_var ! i
      else dvbs2x_demod_qpsk rx n noise_var ! i < 0"
    using qpsk_llr_sign [OF assms(4) i(2) assms(2)] by metis
  from hard_sign [OF b this] show "map hard (dvbs2x_demod_qpsk rx n noise_var) ! i = bits ! i"
    using i by simp
qed

theorem qpsk_decisions_witness:
  "map hard (dvbs2x_demod_qpsk (dvbs2x_mod_qpsk [1, 0, 0, 0] 2) 2 2) = [1, 0, 0, 0]"
  using qpsk_decisions [of "[1, 0, 0, 0]" 2 2 "dvbs2x_mod_qpsk [1, 0, 0, 0] 2"]
  by (simp add: is_bits_def near_refl numeral_eq_Suc)

text \<open>C34: spreading: bits that are doubled, mapped to pi/2-BPSK, received within the noise margin,
  demapped and combined are decided as sent.\<close>

theorem spread_decisions:
  assumes "is_bits bits" and "0 < noise_var"
    and "near rx (dvbs2x_mod_pi2bpsk (dvbs2x_mod_spread_bits bits (length bits)) (2 * length bits))"
  shows "map hard (dvbs2x_demod_despread_llr
      (dvbs2x_demod_pi2bpsk rx (2 * length bits) noise_var) (length bits)) = bits"
proof (rule nth_equalityI)
  show "length (map hard (dvbs2x_demod_despread_llr
      (dvbs2x_demod_pi2bpsk rx (2 * length bits) noise_var) (length bits))) = length bits"
    by (simp add: dvbs2x_demod_despread_llr_def)
  fix i assume "i < length (map hard (dvbs2x_demod_despread_llr
      (dvbs2x_demod_pi2bpsk rx (2 * length bits) noise_var) (length bits)))"
  then have i: "i < length bits" by (simp add: dvbs2x_demod_despread_llr_def)
  then have b: "bits ! i = 0 \<or> bits ! i = 1" using is_bits_nth assms(1) by blast
  have "2 * i < 2 * length bits" "2 * i + 1 < 2 * length bits" using i by simp_all
  note s = pi2bpsk_llr_sign [OF assms(3) this(1) assms(2), unfolded spread_nth(1) [OF i]]
    pi2bpsk_llr_sign [OF assms(3) this(2) assms(2), unfolded spread_nth(2) [OF i]]
  have "if bits ! i = 0 then
      0 < dvbs2x_demod_pi2bpsk rx (2 * length bits) noise_var ! (2 * i) +
        dvbs2x_demod_pi2bpsk rx (2 * length bits) noise_var ! (2 * i + 1)
    else dvbs2x_demod_pi2bpsk rx (2 * length bits) noise_var ! (2 * i) +
        dvbs2x_demod_pi2bpsk rx (2 * length bits) noise_var ! (2 * i + 1) < 0"
    using b s by (auto split: if_splits)
  from hard_sign [OF b this] show "map hard (dvbs2x_demod_despread_llr
      (dvbs2x_demod_pi2bpsk rx (2 * length bits) noise_var) (length bits)) ! i = bits ! i"
    using i by (simp add: dvbs2x_demod_despread_llr_def)
qed

theorem spread_decisions_witness:
  "map hard (dvbs2x_demod_despread_llr (dvbs2x_demod_pi2bpsk
     (dvbs2x_mod_pi2bpsk (dvbs2x_mod_spread_bits [1, 0] 2) 4) 4 1) 2) = [1, 0]"
  using spread_decisions [of "[1, 0]" 1
      "dvbs2x_mod_pi2bpsk (dvbs2x_mod_spread_bits [1, 0] 2) 4"]
  by (simp add: is_bits_def near_refl numeral_eq_Suc)

end
