(* ===== verification/Ringbuf.thy ===== *)
theory Ringbuf
  imports Prelude
begin

text \<open>
  \<^verbatim>\<open>streaming/include/dvbs2x_ringbuf.h\<close>: the single-producer single-consumer ring buffer, with
  the indices that run through all 32-bit values and the power-of-two mask.  Elements are of any
  type; a \<^verbatim>\<open>memcpy\<close> of \<open>n\<close> elements moves \<open>n\<close> list entries.  Each operation is shown to be the
  queue operation on \<open>rb_contents\<close> (\<open>elem_fifo\<close> and \<open>batch_fifo\<close>), across the wrap of the
  buffer position and of the 32-bit indices.
\<close>

section \<open>The buffer and its operations\<close>

record 'a ringbuf =
  head :: u32
  tail :: u32
  rb_size :: u32
  rb_mask :: u32
  buffer :: "'a list"
  stats_overruns :: u64
  stats_underruns :: u64
  stats_total_written :: u64
  stats_total_read :: u64

record ringbuf_stats =
  st_overruns :: u64
  st_underruns :: u64
  st_total_written :: u64
  st_total_read :: u64
  st_current_usage :: u32
  st_capacity :: u32

definition dvbs2x_ringbuf_init :: "'a list \<Rightarrow> u32 \<Rightarrow> 'a ringbuf option" where
  "dvbs2x_ringbuf_init buf sz =
     (if sz AND (sz - 1) \<noteq> 0 then None
      else Some \<lparr>head = 0, tail = 0, rb_size = sz, rb_mask = sz - 1, buffer = buf,
                 stats_overruns = 0, stats_underruns = 0, stats_total_written = 0,
                 stats_total_read = 0\<rparr>)"

definition dvbs2x_ringbuf_avail :: "'a ringbuf \<Rightarrow> u32" where
  "dvbs2x_ringbuf_avail rb = head rb - tail rb"

definition dvbs2x_ringbuf_free :: "'a ringbuf \<Rightarrow> u32" where
  "dvbs2x_ringbuf_free rb = rb_size rb - (head rb - tail rb)"

definition dvbs2x_ringbuf_is_empty :: "'a ringbuf \<Rightarrow> bool" where
  "dvbs2x_ringbuf_is_empty rb \<longleftrightarrow> dvbs2x_ringbuf_avail rb = 0"

definition dvbs2x_ringbuf_is_full :: "'a ringbuf \<Rightarrow> bool" where
  "dvbs2x_ringbuf_is_full rb \<longleftrightarrow> dvbs2x_ringbuf_free rb = 0"

definition dvbs2x_ringbuf_put :: "'a \<Rightarrow> 'a ringbuf \<Rightarrow> bool \<times> 'a ringbuf" where
  "dvbs2x_ringbuf_put x rb =
     (if dvbs2x_ringbuf_free rb = 0
      then (False, rb\<lparr>stats_overruns := stats_overruns rb + 1\<rparr>)
      else
        let pos = head rb AND rb_mask rb
        in (True, rb\<lparr>buffer := (buffer rb)[unat pos := x], head := head rb + 1,
                     stats_total_written := stats_total_written rb + 1\<rparr>))"

definition dvbs2x_ringbuf_get :: "'a ringbuf \<Rightarrow> 'a option \<times> 'a ringbuf" where
  "dvbs2x_ringbuf_get rb =
     (if dvbs2x_ringbuf_avail rb = 0
      then (None, rb\<lparr>stats_underruns := stats_underruns rb + 1\<rparr>)
      else
        let pos = tail rb AND rb_mask rb
        in (Some (buffer rb ! unat pos),
            rb\<lparr>tail := tail rb + 1, stats_total_read := stats_total_read rb + 1\<rparr>))"

definition dvbs2x_ringbuf_put_batch :: "'a list \<Rightarrow> u32 \<Rightarrow> 'a ringbuf \<Rightarrow> u32 \<times> 'a ringbuf" where
  "dvbs2x_ringbuf_put_batch elems count rb =
     (let free = dvbs2x_ringbuf_free rb;
          n = (if count < free then count else free)
      in if n = 0 then (0, rb\<lparr>stats_overruns := stats_overruns rb + 1\<rparr>)
         else
           let pos = head rb AND rb_mask rb;
               contig = rb_size rb - pos;
               buf = (if n \<le> contig
                      then overwrite (unat pos) (take (unat n) elems) (buffer rb)
                      else overwrite 0 (take (unat (n - contig)) (drop (unat contig) elems))
                             (overwrite (unat pos) (take (unat contig) elems) (buffer rb)))
           in (n, rb\<lparr>buffer := buf, head := head rb + n,
                     stats_total_written := stats_total_written rb + ucast n\<rparr>))"

definition dvbs2x_ringbuf_get_batch :: "u32 \<Rightarrow> 'a ringbuf \<Rightarrow> 'a list \<times> 'a ringbuf" where
  "dvbs2x_ringbuf_get_batch count rb =
     (let avail = dvbs2x_ringbuf_avail rb;
          n = (if count < avail then count else avail)
      in if n = 0 then ([], rb\<lparr>stats_underruns := stats_underruns rb + 1\<rparr>)
         else
           let pos = tail rb AND rb_mask rb;
               contig = rb_size rb - pos;
               elems = (if n \<le> contig
                        then take (unat n) (drop (unat pos) (buffer rb))
                        else take (unat contig) (drop (unat pos) (buffer rb)) @
                             take (unat (n - contig)) (buffer rb))
           in (elems, rb\<lparr>tail := tail rb + n,
                         stats_total_read := stats_total_read rb + ucast n\<rparr>))"

definition dvbs2x_ringbuf_peek :: "'a ringbuf \<Rightarrow> u32 \<Rightarrow> 'a option" where
  "dvbs2x_ringbuf_peek rb offset =
     (if dvbs2x_ringbuf_avail rb \<le> offset then None
      else Some (buffer rb ! unat ((tail rb + offset) AND rb_mask rb)))"

definition dvbs2x_ringbuf_reset :: "'a ringbuf \<Rightarrow> 'a ringbuf" where
  "dvbs2x_ringbuf_reset rb =
     rb\<lparr>head := 0, tail := 0, stats_overruns := 0, stats_underruns := 0,
        stats_total_written := 0, stats_total_read := 0\<rparr>"

definition dvbs2x_ringbuf_get_stats :: "'a ringbuf \<Rightarrow> ringbuf_stats" where
  "dvbs2x_ringbuf_get_stats rb =
     \<lparr>st_overruns = stats_overruns rb, st_underruns = stats_underruns rb,
      st_total_written = stats_total_written rb, st_total_read = stats_total_read rb,
      st_current_usage = dvbs2x_ringbuf_avail rb, st_capacity = rb_size rb\<rparr>"

section \<open>Invariant and abstraction\<close>

text \<open>The power-of-two size is kept as its exponent.\<close>

definition rb_inv :: "'a ringbuf \<Rightarrow> bool" where
  "rb_inv rb \<longleftrightarrow>
     rb_size rb \<noteq> 0 \<and> rb_size rb AND (rb_size rb - 1) = 0 \<and> rb_mask rb = rb_size rb - 1 \<and>
     length (buffer rb) = unat (rb_size rb) \<and> head rb - tail rb \<le> rb_size rb"

definition rb_slot :: "'a ringbuf \<Rightarrow> nat \<Rightarrow> nat" where
  "rb_slot rb i = (unat (tail rb) + i) mod unat (rb_size rb)"

definition rb_contents :: "'a ringbuf \<Rightarrow> 'a list" where
  "rb_contents rb = map (\<lambda>i. buffer rb ! rb_slot rb i) [0..<unat (head rb - tail rb)]"

lemma power_times_odd: "0 < (n::nat) \<Longrightarrow> \<exists>k m. n = 2 ^ k * (2 * m + 1)"
proof (induction n rule: less_induct)
  case (less n)
  show ?case
  proof (cases "even n")
    case True
    then obtain m where m: "n = 2 * m" by blast
    then have "m < n" "0 < m" using less.prems by auto
    from less.IH [OF this] obtain k l where "m = 2 ^ k * (2 * l + 1)" by blast
    then show ?thesis using m by (intro exI [of _ "Suc k"] exI [of _ l]) simp
  next
    case False
    then show ?thesis by (intro exI [of _ 0] exI [of _ "n div 2"]) simp
  qed
qed

lemma power_of_two:
  assumes "(w :: u32) \<noteq> 0" "w AND (w - 1) = 0"
  obtains k where "unat w = 2 ^ k" "k < 32"
proof -
  have "0 < unat w" using assms(1) by (simp add: unat_gt_0)
  then obtain k m where km: "unat w = 2 ^ k * (2 * m + 1)" using power_times_odd by blast
  have "unat (w - 1) = unat w - 1" using assms(1) by (simp add: unat_minus_one)
  then have "unat w AND (unat w - 1) = 0"
    using arg_cong [OF assms(2), of unat] by (simp add: unsigned_and_eq)
  then have "drop_bit k (unat w) AND drop_bit k (unat w - 1) = 0"
    by (simp flip: drop_bit_and)
  moreover have "drop_bit k (unat w) = 2 * m + 1" by (simp add: km drop_bit_eq_div)
  moreover have "drop_bit k (unat w - 1) = 2 * m"
  proof -
    have "unat w - 1 = (2 ^ k - 1) + (2 * m) * 2 ^ k" by (simp add: km algebra_simps)
    moreover have "((2 ^ k - 1) + (2 * m) * 2 ^ k) div 2 ^ k = 2 * m + (2 ^ k - 1) div (2 ^ k :: nat)"
      by (rule div_mult_self1) simp
    ultimately show ?thesis by (simp only: drop_bit_eq_div) simp
  qed
  ultimately have "(2 * m + 1) AND (2 * m) = 0" by simp
  then have "m = 0" by (simp add: and_rec [of "Suc (2 * m)"])
  then have k: "unat w = 2 ^ k" using km by simp
  then have "k < 32" using unsigned_less [of w, where ?'a = nat]
    by (simp add: power_strict_increasing_iff [of "2 :: nat" k 32, simplified, symmetric])
  then show ?thesis using that k by blast
qed

text \<open>Masking a position is taking it modulo the size.\<close>

lemma rb_inv_size:
  assumes "rb_inv rb"
  obtains k where "unat (rb_size rb) = 2 ^ k" "k < 32" "rb_mask rb = mask k"
proof -
  obtain k where k: "unat (rb_size rb) = 2 ^ k" "k < 32"
    using power_of_two [of "rb_size rb"] assms unfolding rb_inv_def by blast
  have "rb_size rb = 2 ^ k"
  proof -
    have "rb_size rb = of_nat (unat (rb_size rb))" by simp
    then show ?thesis unfolding k(1) by simp
  qed
  then have "rb_mask rb = mask k" using assms by (simp add: rb_inv_def mask_eq_exp_minus_1)
  then show ?thesis using that k by blast
qed

lemma unat_and_mask:
  assumes "rb_inv rb"
  shows "unat (p AND rb_mask rb) = unat p mod unat (rb_size rb)"
proof -
  obtain k where k: "unat (rb_size rb) = 2 ^ k" "k < 32" "rb_mask rb = mask k"
    using rb_inv_size [OF assms] .
  have "unat (p AND mask k) = take_bit k (unat p)"
    by (simp add: unsigned_take_bit_eq flip: take_bit_eq_mask)
  then show ?thesis by (simp add: k take_bit_eq_mod)
qed

lemma unat_add_mod_size:
  assumes "rb_inv rb"
  shows "unat (p + q :: u32) mod unat (rb_size rb) = (unat p + unat q) mod unat (rb_size rb)"
proof -
  obtain k where k: "unat (rb_size rb) = 2 ^ k" "k < 32" using rb_inv_size [OF assms] by metis
  have "(2 ^ k :: nat) dvd 2 ^ 32" using k(2) by (intro le_imp_power_dvd) simp
  then show ?thesis unfolding k by (simp add: unat_word_ariths mod_mod_cancel)
qed

lemma head_is_tail_plus:
  "rb_inv rb \<Longrightarrow> unat (head rb) mod unat (rb_size rb) = rb_slot rb (unat (head rb - tail rb))"
  using unat_add_mod_size [of rb "tail rb" "head rb - tail rb"] by (simp add: rb_slot_def)

lemma rb_slot_less: "rb_inv rb \<Longrightarrow> rb_slot rb i < length (buffer rb)"
  by (simp add: rb_slot_def rb_inv_def unat_gt_0)

lemma mod_add_inj: "(a + i) mod n = (a + j) mod n \<Longrightarrow> i < n \<Longrightarrow> j < n \<Longrightarrow> i = (j::nat)"
proof (induction i j rule: linorder_wlog)
  case (le i j)
  then have "n dvd j - i" using mod_eq_dvd_iff_nat [of "a + i" "a + j" n] by simp
  then have "0 < j - i \<Longrightarrow> n \<le> j - i" by (rule dvd_imp_le)
  then show ?case using le by linarith
qed simp

lemma rb_slot_inj:
  "rb_inv rb \<Longrightarrow> rb_slot rb i = rb_slot rb j \<Longrightarrow> i < unat (rb_size rb) \<Longrightarrow> j < unat (rb_size rb) \<Longrightarrow> i = j"
  unfolding rb_slot_def by (rule mod_add_inj)

lemma length_rb_contents [simp]: "length (rb_contents rb) = unat (head rb - tail rb)"
  by (simp add: rb_contents_def)

lemma rb_inv_usage: "rb_inv rb \<Longrightarrow> unat (head rb - tail rb) \<le> unat (rb_size rb)"
  by (simp add: rb_inv_def word_le_nat_alt)

lemma unat_free:
  "rb_inv rb \<Longrightarrow> unat (dvbs2x_ringbuf_free rb) = unat (rb_size rb) - unat (head rb - tail rb)"
  by (simp add: dvbs2x_ringbuf_free_def rb_inv_def unat_sub)

section \<open>The operations on the contents\<close>

text \<open>What the contents are after the tail or the head has moved.\<close>

lemma rb_contents_nth:
  "i < unat (head rb - tail rb) \<Longrightarrow> rb_contents rb ! i = buffer rb ! rb_slot rb i"
  by (simp add: rb_contents_def)

lemma unat_plus_of_nat:
  "unat (a :: u32) + n < 2 ^ 32 \<Longrightarrow> unat (a + of_nat n) = unat a + n"
  by (simp add: unat_word_ariths unat_of_nat mod_simps)

lemma unat_size_less: "rb_inv rb \<Longrightarrow> unat (rb_size rb) < 2 ^ 32"
  using unsigned_less [of "rb_size rb", where ?'a = nat] by simp

text \<open>Writing \<open>n\<close> elements behind the contents and advancing the head \<dots>\<close>

lemma rb_advance_head:
  assumes inv: "rb_inv rb"
    and fields: "tail rb' = tail rb" "rb_size rb' = rb_size rb" "rb_mask rb' = rb_mask rb"
      "head rb' = head rb + of_nat n" "length (buffer rb') = length (buffer rb)"
    and n: "unat (head rb - tail rb) + n \<le> unat (rb_size rb)" "n \<le> length xs"
    and new: "\<And>i. i < n \<Longrightarrow> buffer rb' ! rb_slot rb (unat (head rb - tail rb) + i) = xs ! i"
    and old: "\<And>i. i < unat (head rb - tail rb) \<Longrightarrow>
      buffer rb' ! rb_slot rb i = buffer rb ! rb_slot rb i"
  shows "rb_inv rb' \<and> rb_contents rb' = rb_contents rb @ take n xs"
proof -
  let ?m = "unat (head rb - tail rb)"
  have h: "head rb' - tail rb' = (head rb - tail rb) + of_nat n" by (simp add: fields)
  have u: "unat (head rb' - tail rb') = ?m + n"
    unfolding h by (rule unat_plus_of_nat) (use n(1) unat_size_less [OF inv] in simp)
  have "rb_inv rb'" using inv fields n(1) u by (simp add: rb_inv_def word_le_nat_alt)
  moreover have slot: "rb_slot rb' i = rb_slot rb i" for i by (simp add: rb_slot_def fields)
  have "rb_contents rb' = rb_contents rb @ take n xs"
  proof (rule nth_equalityI)
    show "length (rb_contents rb') = length (rb_contents rb @ take n xs)" using u n(2) by simp
    fix i assume "i < length (rb_contents rb')"
    then have i: "i < ?m + n" using u by simp
    show "rb_contents rb' ! i = (rb_contents rb @ take n xs) ! i"
    proof (cases "i < ?m")
      case True
      then show ?thesis using i u old by (simp add: rb_contents_nth nth_append slot)
    next
      case False
      then show ?thesis
        using i u new [of "i - ?m"] by (simp add: rb_contents_nth nth_append slot)
    qed
  qed
  ultimately show ?thesis by simp
qed

text \<open>\<dots> and advancing the tail.\<close>

lemma rb_advance_tail:
  assumes inv: "rb_inv rb"
    and fields: "head rb' = head rb" "rb_size rb' = rb_size rb" "rb_mask rb' = rb_mask rb"
      "tail rb' = tail rb + of_nat n" "buffer rb' = buffer rb"
    and n: "n \<le> unat (head rb - tail rb)"
  shows "rb_inv rb' \<and> rb_contents rb' = drop n (rb_contents rb)"
proof -
  let ?m = "unat (head rb - tail rb)"
  have n32: "n < 2 ^ 32" using n rb_inv_usage [OF inv] unat_size_less [OF inv] by simp
  have h: "head rb' - tail rb' = (head rb - tail rb) - of_nat n" by (simp add: fields)
  have un: "unat (of_nat n :: u32) = n" using n32 by (simp add: unat_of_nat_small)
  have "of_nat n \<le> head rb - tail rb" using n un by (simp add: word_le_nat_alt)
  then have u: "unat (head rb' - tail rb') = ?m - n" unfolding h using un by (simp add: unat_sub)
  have "rb_inv rb'"
    using inv fields u rb_inv_usage [OF inv] by (simp add: rb_inv_def word_le_nat_alt)
  moreover have slot: "rb_slot rb' i = rb_slot rb (n + i)" for i
    using unat_add_mod_size [OF inv, of "tail rb" "of_nat n"] un
    by (simp add: rb_slot_def fields add.assoc [symmetric]) (metis mod_add_left_eq)
  have "rb_contents rb' = drop n (rb_contents rb)"
    by (rule nth_equalityI) (use u n in \<open>simp_all add: rb_contents_nth slot fields\<close>)
  ultimately show ?thesis by simp
qed

text \<open>The two copies of a batch, before and after the end of the array.\<close>

lemma rb_slot_contig:
  assumes "rb_inv rb" and "rb_slot rb a = p" and "i < unat (rb_size rb)"
  shows "rb_slot rb (a + i) =
    (if i < unat (rb_size rb) - p then p + i else i - (unat (rb_size rb) - p))"
proof -
  let ?n = "unat (rb_size rb)"
  have p: "p < ?n" using rb_slot_less [OF assms(1), of a] assms(1,2) by (simp add: rb_inv_def)
  have "rb_slot rb (a + i) = (p + i) mod ?n"
    unfolding assms(2) [symmetric] rb_slot_def by (simp add: mod_simps add.assoc)
  then show ?thesis using p assms(3) by (auto simp: mod_if)
qed

lemma head_pos:
  "rb_inv rb \<Longrightarrow> unat (head rb AND rb_mask rb) = rb_slot rb (unat (head rb - tail rb))"
  by (simp add: unat_and_mask head_is_tail_plus)

lemma tail_pos: "rb_inv rb \<Longrightarrow> unat ((tail rb + of_nat i) AND rb_mask rb) = rb_slot rb i"
  if "i < 2 ^ 32"
  using that unat_add_mod_size [of rb "tail rb" "of_nat i"]
  by (simp add: unat_and_mask rb_slot_def unat_of_nat_small)

lemma rb_stats_update [simp]:
  "rb_inv (rb\<lparr>stats_overruns := a\<rparr>) = rb_inv rb"
  "rb_inv (rb\<lparr>stats_underruns := a\<rparr>) = rb_inv rb"
  "rb_contents (rb\<lparr>stats_overruns := a\<rparr>) = rb_contents rb"
  "rb_contents (rb\<lparr>stats_underruns := a\<rparr>) = rb_contents rb"
  by (simp_all add: rb_inv_def rb_contents_def rb_slot_def)

lemma min_word: "unat (if a < b then a else b :: u32) = min (unat a) (unat b)"
  by (simp add: word_less_nat_alt)

text \<open>The batch write.\<close>

lemma put_batch_spec:
  assumes inv: "rb_inv rb" and count: "unat count \<le> length elems"
  defines "m \<equiv> unat (head rb - tail rb)"
  defines "n \<equiv> min (unat count) (unat (rb_size rb) - m)"
  shows "unat (fst (dvbs2x_ringbuf_put_batch elems count rb)) = n"
    and "rb_inv (snd (dvbs2x_ringbuf_put_batch elems count rb))"
    and "rb_size (snd (dvbs2x_ringbuf_put_batch elems count rb)) = rb_size rb"
    and "rb_contents (snd (dvbs2x_ringbuf_put_batch elems count rb)) = rb_contents rb @ take n elems"
proof -
  let ?w = "if count < dvbs2x_ringbuf_free rb then count else dvbs2x_ringbuf_free rb"
  have wn: "unat ?w = n" unfolding min_word n_def by (simp add: unat_free [OF inv] m_def)
  have "unat (fst (dvbs2x_ringbuf_put_batch elems count rb)) = n \<and>
    rb_inv (snd (dvbs2x_ringbuf_put_batch elems count rb)) \<and>
    rb_size (snd (dvbs2x_ringbuf_put_batch elems count rb)) = rb_size rb \<and>
    rb_contents (snd (dvbs2x_ringbuf_put_batch elems count rb)) = rb_contents rb @ take n elems"
  proof (cases "n = 0")
    case True
    then have "?w = 0" using wn by (simp only: unat_eq_zero)
    then have "dvbs2x_ringbuf_put_batch elems count rb =
        (0, rb\<lparr>stats_overruns := stats_overruns rb + 1\<rparr>)"
      unfolding dvbs2x_ringbuf_put_batch_def Let_def by simp
    then show ?thesis using True inv by simp
  next
    case False
    then have w0: "?w \<noteq> 0" using wn by auto
    let ?N = "unat (rb_size rb)"
    define pos where "pos = head rb AND rb_mask rb"
    define contig where "contig = rb_size rb - pos"
    have p: "unat pos = rb_slot rb m" using head_pos [OF inv] by (simp add: pos_def m_def)
    have pN: "unat pos < ?N" using p rb_slot_less [OF inv, of m] inv by (simp add: rb_inv_def)
    then have c: "unat contig = ?N - unat pos"
      by (simp add: contig_def unat_sub word_le_nat_alt)
    have nN: "n \<le> ?N" "n \<le> length elems" "m + n \<le> ?N"
      using count rb_inv_usage [OF inv] by (auto simp: n_def m_def)
    have lb: "length (buffer rb) = ?N" using inv by (simp add: rb_inv_def)
    define buf where "buf = (if ?w \<le> contig
        then overwrite (unat pos) (take (unat ?w) elems) (buffer rb)
        else overwrite 0 (take (unat (?w - contig)) (drop (unat contig) elems))
               (overwrite (unat pos) (take (unat contig) elems) (buffer rb)))"
    let ?rb = "rb\<lparr>buffer := buf, head := head rb + ?w,
        stats_total_written := stats_total_written rb + ucast ?w\<rparr>"
    have r: "dvbs2x_ringbuf_put_batch elems count rb = (?w, ?rb)"
      using w0 unfolding dvbs2x_ringbuf_put_batch_def Let_def buf_def contig_def pos_def
      by (simp only: if_False)
    have wc: "unat (?w - contig) = n - unat contig" if "\<not> ?w \<le> contig"
      using that wn by (simp add: unat_sub)
    have wle: "?w \<le> contig \<longleftrightarrow> n \<le> ?N - unat pos"
      unfolding word_le_nat_alt wn c ..
    have bufnth: "length buf = ?N \<and>
      (\<forall>j < ?N. buf ! j =
        (if unat pos \<le> j \<and> j < unat pos + n then elems ! (j - unat pos)
         else if j + (?N - unat pos) < n then elems ! (j + (?N - unat pos))
         else buffer rb ! j))"
    proof (cases "?w \<le> contig")
      case True
      then show ?thesis
        using nN lb pN wle by (auto simp: buf_def wn nth_overwrite)
    next
      case False
      then have big: "?N - unat pos < n" using wle by simp
      have b: "buf = overwrite 0 (take (n - (?N - unat pos)) (drop (?N - unat pos) elems))
          (overwrite (unat pos) (take (?N - unat pos) elems) (buffer rb))"
        using False wc by (simp add: buf_def c)
      show ?thesis
        unfolding b using nN lb pN big by (auto simp: nth_overwrite ac_simps)
    qed
    have slot: "rb_slot rb (m + i) = (if i < ?N - unat pos then unat pos + i
        else i - (?N - unat pos))" if "i < ?N" for i
      using rb_slot_contig [OF inv p [symmetric] that] .
    have "rb_inv ?rb \<and> rb_contents ?rb = rb_contents rb @ take n elems"
    proof (rule rb_advance_head [OF inv])
      show "head ?rb = head rb + of_nat n" by (simp flip: wn)
      show "length (buffer ?rb) = length (buffer rb)" using bufnth lb by simp
      show "unat (head rb - tail rb) + n \<le> ?N" "n \<le> length elems" using nN by (simp_all add: m_def)
      fix i assume i: "i < n"
      then have "i < ?N" using nN by simp
      then show "buffer ?rb ! rb_slot rb (unat (head rb - tail rb) + i) = elems ! i"
        using bufnth slot [of i] i pN by (auto simp: m_def)
    next
      fix i assume i: "i < unat (head rb - tail rb)"
      have apart: "rb_slot rb (m + d) \<noteq> rb_slot rb i" if "d < n" for d
        using rb_slot_inj [OF inv, of "m + d" i] that nN i by (auto simp: m_def)
      have si: "rb_slot rb i < ?N" using rb_slot_less [OF inv, of i] lb by simp
      have "\<not> (unat pos \<le> rb_slot rb i \<and> rb_slot rb i < unat pos + n)"
      proof
        assume a: "unat pos \<le> rb_slot rb i \<and> rb_slot rb i < unat pos + n"
        define d where "d = rb_slot rb i - unat pos"
        have d: "d < n" "d < ?N - unat pos" "unat pos + d = rb_slot rb i" "d < ?N"
          using a si nN(1) by (auto simp: d_def)
        then show False using apart [OF d(1)] slot [OF d(4)] by simp
      qed
      moreover have "\<not> rb_slot rb i + (?N - unat pos) < n"
      proof
        assume a: "rb_slot rb i + (?N - unat pos) < n"
        then have "rb_slot rb i + (?N - unat pos) < ?N" using nN(1) by simp
        then show False using apart [OF a] slot [of "rb_slot rb i + (?N - unat pos)"] by simp
      qed
      moreover note si
      ultimately have "buf ! rb_slot rb i = buffer rb ! rb_slot rb i"
        using conjunct2 [OF bufnth] by metis
      then show "buffer ?rb ! rb_slot rb i = buffer rb ! rb_slot rb i" by simp
    qed simp_all
    then show ?thesis using r wn by simp
  qed
  then show "unat (fst (dvbs2x_ringbuf_put_batch elems count rb)) = n"
    "rb_inv (snd (dvbs2x_ringbuf_put_batch elems count rb))"
    "rb_size (snd (dvbs2x_ringbuf_put_batch elems count rb)) = rb_size rb"
    "rb_contents (snd (dvbs2x_ringbuf_put_batch elems count rb)) = rb_contents rb @ take n elems"
    by simp_all
qed

text \<open>A single write is a batch of one.\<close>

lemma put_is_batch:
  assumes inv: "rb_inv rb"
  shows "dvbs2x_ringbuf_put x rb =
    (fst (dvbs2x_ringbuf_put_batch [x] 1 rb) = 1, snd (dvbs2x_ringbuf_put_batch [x] 1 rb))"
proof (cases "dvbs2x_ringbuf_free rb = 0")
  case True
  then show ?thesis by (simp add: dvbs2x_ringbuf_put_def dvbs2x_ringbuf_put_batch_def)
next
  case False
  then have n1: "(if 1 < dvbs2x_ringbuf_free rb then 1 else dvbs2x_ringbuf_free rb) = 1"
    by (metis linorder_less_linear word_less_1)
  let ?pos = "head rb AND rb_mask rb"
  have p: "unat ?pos < unat (rb_size rb)"
    using head_pos [OF inv] rb_slot_less [OF inv] inv by (simp add: rb_inv_def)
  then have "?pos < rb_size rb" by (simp add: word_less_nat_alt)
  then have "1 \<le> rb_size rb - ?pos"
    using p by (simp add: word_le_nat_alt unat_sub)
  then show ?thesis
    using False p inv unfolding dvbs2x_ringbuf_put_def dvbs2x_ringbuf_put_batch_def Let_def n1
    by (simp add: overwrite_one rb_inv_def)
qed

lemma put_spec:
  assumes inv: "rb_inv rb"
  shows "fst (dvbs2x_ringbuf_put x rb) \<longleftrightarrow> length (rb_contents rb) < unat (rb_size rb)"
    and "rb_inv (snd (dvbs2x_ringbuf_put x rb))"
    and "rb_size (snd (dvbs2x_ringbuf_put x rb)) = rb_size rb"
    and "rb_contents (snd (dvbs2x_ringbuf_put x rb)) =
      (if fst (dvbs2x_ringbuf_put x rb) then rb_contents rb @ [x] else rb_contents rb)"
proof -
  note b = put_batch_spec [OF inv, of 1 "[x]", simplified]
  have "fst (dvbs2x_ringbuf_put x rb) \<longleftrightarrow> unat (fst (dvbs2x_ringbuf_put_batch [x] 1 rb)) = 1"
    by (simp add: put_is_batch [OF inv] word_unat_eq_iff)
  then have ok: "fst (dvbs2x_ringbuf_put x rb) \<longleftrightarrow> length (rb_contents rb) < unat (rb_size rb)"
    unfolding b(1) by auto
  show "fst (dvbs2x_ringbuf_put x rb) \<longleftrightarrow> length (rb_contents rb) < unat (rb_size rb)" by (rule ok)
  show "rb_inv (snd (dvbs2x_ringbuf_put x rb))"
    "rb_size (snd (dvbs2x_ringbuf_put x rb)) = rb_size rb"
    using b by (simp_all add: put_is_batch [OF inv])
  show "rb_contents (snd (dvbs2x_ringbuf_put x rb)) =
      (if fst (dvbs2x_ringbuf_put x rb) then rb_contents rb @ [x] else rb_contents rb)"
    unfolding ok using b(4) by (auto simp: put_is_batch [OF inv])
qed

text \<open>The reads.\<close>

lemma get_batch_spec:
  fixes count :: u32
  assumes inv: "rb_inv rb"
  defines "n \<equiv> min (unat count) (unat (head rb - tail rb))"
  shows "fst (dvbs2x_ringbuf_get_batch count rb) = take n (rb_contents rb)"
    and "rb_inv (snd (dvbs2x_ringbuf_get_batch count rb))"
    and "rb_size (snd (dvbs2x_ringbuf_get_batch count rb)) = rb_size rb"
    and "rb_contents (snd (dvbs2x_ringbuf_get_batch count rb)) = drop n (rb_contents rb)"
proof -
  let ?m = "unat (head rb - tail rb)"
  let ?w = "if count < dvbs2x_ringbuf_avail rb then count else dvbs2x_ringbuf_avail rb"
  have wn: "unat ?w = n" unfolding min_word n_def by (simp add: dvbs2x_ringbuf_avail_def)
  have "fst (dvbs2x_ringbuf_get_batch count rb) = take n (rb_contents rb) \<and>
    rb_inv (snd (dvbs2x_ringbuf_get_batch count rb)) \<and>
    rb_size (snd (dvbs2x_ringbuf_get_batch count rb)) = rb_size rb \<and>
    rb_contents (snd (dvbs2x_ringbuf_get_batch count rb)) = drop n (rb_contents rb)"
  proof (cases "n = 0")
    case True
    then have "?w = 0" using wn by (simp only: unat_eq_zero)
    then have "dvbs2x_ringbuf_get_batch count rb =
        ([], rb\<lparr>stats_underruns := stats_underruns rb + 1\<rparr>)"
      unfolding dvbs2x_ringbuf_get_batch_def Let_def by simp
    then show ?thesis using True inv by simp
  next
    case False
    then have w0: "?w \<noteq> 0" using wn by auto
    let ?N = "unat (rb_size rb)"
    define pos where "pos = tail rb AND rb_mask rb"
    define contig where "contig = rb_size rb - pos"
    have p: "unat pos = rb_slot rb 0" using tail_pos [of 0 rb] inv by (simp add: pos_def)
    have lb: "length (buffer rb) = ?N" using inv by (simp add: rb_inv_def)
    have pN: "unat pos < ?N" using p rb_slot_less [OF inv, of 0] lb by simp
    then have c: "unat contig = ?N - unat pos"
      by (simp add: contig_def unat_sub word_le_nat_alt)
    have nN: "n \<le> ?m" "n \<le> ?N" using rb_inv_usage [OF inv] by (simp_all add: n_def)
    define elems where "elems = (if ?w \<le> contig
        then take (unat ?w) (drop (unat pos) (buffer rb))
        else take (unat contig) (drop (unat pos) (buffer rb)) @ take (unat (?w - contig)) (buffer rb))"
    let ?rb = "rb\<lparr>tail := tail rb + ?w, stats_total_read := stats_total_read rb + ucast ?w\<rparr>"
    have r: "dvbs2x_ringbuf_get_batch count rb = (elems, ?rb)"
      using w0 unfolding dvbs2x_ringbuf_get_batch_def Let_def elems_def contig_def pos_def
      by (simp only: if_False)
    have wle: "?w \<le> contig \<longleftrightarrow> n \<le> ?N - unat pos"
      unfolding word_le_nat_alt wn c ..
    have wc: "unat (?w - contig) = n - unat contig" if "\<not> ?w \<le> contig"
      using that wn by (simp add: unat_sub)
    have le: "length elems = n"
      using nN pN lb wle wc by (auto simp: elems_def c wn)
    have "elems = take n (rb_contents rb)"
    proof (rule nth_equalityI)
      show "length elems = length (take n (rb_contents rb))" using le nN by simp
      fix i assume "i < length elems"
      then have i: "i < n" "i < ?N" using le nN by simp_all
      have s: "rb_slot rb i = (if i < ?N - unat pos then unat pos + i else i - (?N - unat pos))"
        using rb_slot_contig [OF inv p [symmetric] i(2)] by simp
      show "elems ! i = take n (rb_contents rb) ! i"
        using i nN lb pN wle wc
        by (cases "?w \<le> contig") (auto simp: elems_def c wn nth_append rb_contents_nth s)
    qed
    moreover have "rb_inv ?rb \<and> rb_contents ?rb = drop n (rb_contents rb)"
      by (rule rb_advance_tail [OF inv]) (use nN in \<open>simp_all flip: wn\<close>)
    ultimately show ?thesis using r by simp
  qed
  then show "fst (dvbs2x_ringbuf_get_batch count rb) = take n (rb_contents rb)"
    "rb_inv (snd (dvbs2x_ringbuf_get_batch count rb))"
    "rb_size (snd (dvbs2x_ringbuf_get_batch count rb)) = rb_size rb"
    "rb_contents (snd (dvbs2x_ringbuf_get_batch count rb)) = drop n (rb_contents rb)"
    by simp_all
qed

lemma get_spec:
  assumes inv: "rb_inv rb"
  shows "fst (dvbs2x_ringbuf_get rb) = (case rb_contents rb of [] \<Rightarrow> None | x # _ \<Rightarrow> Some x)"
    and "rb_inv (snd (dvbs2x_ringbuf_get rb))"
    and "rb_size (snd (dvbs2x_ringbuf_get rb)) = rb_size rb"
    and "rb_contents (snd (dvbs2x_ringbuf_get rb)) = tl (rb_contents rb)"
proof -
  have "fst (dvbs2x_ringbuf_get rb) = (case rb_contents rb of [] \<Rightarrow> None | x # _ \<Rightarrow> Some x) \<and>
    rb_inv (snd (dvbs2x_ringbuf_get rb)) \<and> rb_size (snd (dvbs2x_ringbuf_get rb)) = rb_size rb \<and>
    rb_contents (snd (dvbs2x_ringbuf_get rb)) = tl (rb_contents rb)"
  proof (cases "unat (head rb - tail rb)")
    case 0
    then have "dvbs2x_ringbuf_avail rb = 0" by (simp add: dvbs2x_ringbuf_avail_def unat_eq_zero)
    moreover have "rb_contents rb = []" using 0 by (simp add: rb_contents_def)
    ultimately show ?thesis using inv by (simp add: dvbs2x_ringbuf_get_def)
  next
    case (Suc m)
    then have ne: "dvbs2x_ringbuf_avail rb \<noteq> 0" by (auto simp: dvbs2x_ringbuf_avail_def)
    let ?rb = "rb\<lparr>tail := tail rb + 1, stats_total_read := stats_total_read rb + 1\<rparr>"
    have "rb_inv ?rb \<and> rb_contents ?rb = drop 1 (rb_contents rb)"
      by (rule rb_advance_tail [OF inv]) (use Suc in simp_all)
    moreover have "rb_contents rb ! 0 = buffer rb ! unat (tail rb AND rb_mask rb)"
      using Suc tail_pos [of 0 rb] inv by (simp add: rb_contents_nth)
    moreover have "rb_contents rb \<noteq> []" using Suc by (metis length_rb_contents list.size(3) nat.distinct(1))
    ultimately show ?thesis
      using ne by (cases "rb_contents rb") (simp_all add: dvbs2x_ringbuf_get_def Let_def drop_Suc)
  qed
  then show "fst (dvbs2x_ringbuf_get rb) = (case rb_contents rb of [] \<Rightarrow> None | x # _ \<Rightarrow> Some x)"
    "rb_inv (snd (dvbs2x_ringbuf_get rb))" "rb_size (snd (dvbs2x_ringbuf_get rb)) = rb_size rb"
    "rb_contents (snd (dvbs2x_ringbuf_get rb)) = tl (rb_contents rb)"
    by simp_all
qed

lemma count_min:
  "rb_inv rb \<Longrightarrow> k \<le> unat (rb_size rb) \<Longrightarrow>
   min (unat (of_nat (min n (2 ^ 32 - 1)) :: u32)) k = min n k"
  using unat_size_less [of rb] by (simp add: unat_of_nat_small min_def)

lemma count_le: "unat (of_nat (min n (2 ^ 32 - 1)) :: u32) \<le> n"
  by (simp add: unat_of_nat_small)

interpretation ringbuf: batch_fifo rb_inv rb_contents "\<lambda>rb. unat (rb_size rb)"
  dvbs2x_ringbuf_put dvbs2x_ringbuf_get
  "\<lambda>xs rb. let (n, rb') = dvbs2x_ringbuf_put_batch xs (of_nat (min (length xs) (2 ^ 32 - 1))) rb
            in (unat n, rb')"
  "\<lambda>n rb. dvbs2x_ringbuf_get_batch (of_nat (min n (2 ^ 32 - 1))) rb"
proof (unfold_locales, goal_cases)
  case (1 q)
  then show ?case using rb_inv_usage [of q] by simp
next
  case (2 q x)
  then show ?case by (rule put_spec(1))
next
  case (3 q x)
  then show ?case by (rule put_spec(4))
next
  case (4 q x)
  then show ?case by (simp add: put_spec(2,3))
next
  case (5 q)
  then show ?case by (rule get_spec(1))
next
  case (6 q)
  then show ?case by (rule get_spec(4))
next
  case (7 q)
  then show ?case by (simp add: get_spec(2,3))
next
  case (8 q xs)
  then show ?case
    using put_batch_spec(1) [OF 8 count_le [of "length xs"]]
      count_min [OF 8, of "unat (rb_size q) - unat (head q - tail q)" "length xs"]
    by (simp add: split_beta)
next
  case (9 q xs)
  then show ?case
    using put_batch_spec(1,4) [OF 9 count_le [of "length xs"]] by (simp add: split_beta)
next
  case (10 q xs)
  then show ?case
    using put_batch_spec(2,3) [OF 10 count_le [of "length xs"]] by (simp add: split_beta)
next
  case (11 q n)
  then show ?case
    using get_batch_spec(1) [OF 11, of "of_nat (min n (2 ^ 32 - 1))"]
      count_min [OF 11 rb_inv_usage [OF 11], of n]
    by (simp add: take_map [symmetric] min_def)
next
  case (12 q n)
  then show ?case
    using get_batch_spec(4) [OF 12, of "of_nat (min n (2 ^ 32 - 1))"]
      count_min [OF 12 rb_inv_usage [OF 12], of n]
    by (simp add: min_def)
next
  case (13 q n)
  then show ?case by (simp add: get_batch_spec(2,3))
qed

lemma init_inv:
  assumes "dvbs2x_ringbuf_init buf sz = Some rb" and "sz \<noteq> 0" and "length buf = unat sz"
  shows "rb_inv rb" "rb_contents rb = []" "rb_size rb = sz"
  using assms by (auto simp: dvbs2x_ringbuf_init_def rb_inv_def rb_contents_def split: if_splits)

section \<open>Properties\<close>



text \<open>C26: the batch operations move as much as fits or is there, in order, over the end of the
  array and the wrap of the indices, and keep the invariant; looking ahead reads the element at
  that distance from the oldest.\<close>

theorem ringbuf_batch:
  assumes "rb_inv rb" and "unat count \<le> length elems"
  shows "rb_inv (snd (dvbs2x_ringbuf_put_batch elems count rb)) \<and>
    unat (fst (dvbs2x_ringbuf_put_batch elems count rb)) =
      min (unat count) (unat (rb_size rb) - length (rb_contents rb)) \<and>
    rb_contents (snd (dvbs2x_ringbuf_put_batch elems count rb)) =
      rb_contents rb @ take (unat (fst (dvbs2x_ringbuf_put_batch elems count rb))) elems \<and>
    rb_inv (snd (dvbs2x_ringbuf_get_batch count rb)) \<and>
    fst (dvbs2x_ringbuf_get_batch count rb) @ rb_contents (snd (dvbs2x_ringbuf_get_batch count rb)) =
      rb_contents rb \<and>
    length (fst (dvbs2x_ringbuf_get_batch count rb)) = min (unat count) (length (rb_contents rb)) \<and>
    dvbs2x_ringbuf_peek rb count =
      (if unat count < length (rb_contents rb) then Some (rb_contents rb ! unat count) else None)"
proof -
  have "dvbs2x_ringbuf_peek rb count =
      (if unat count < length (rb_contents rb) then Some (rb_contents rb ! unat count) else None)"
    using tail_pos [of "unat count" rb] assms(1) unsigned_less [of count, where ?'a = nat]
    by (simp add: dvbs2x_ringbuf_peek_def dvbs2x_ringbuf_avail_def word_le_nat_alt rb_contents_nth)
  then show ?thesis
    using put_batch_spec [OF assms] get_batch_spec [OF assms(1), of count] by simp
qed

theorem ringbuf_batch_witness:
  "rb_contents (snd (dvbs2x_ringbuf_put_batch [7, 8, 9] 3
     \<lparr>head = 0, tail = - 1, rb_size = 2, rb_mask = 1, buffer = [4, 5 :: nat], stats_overruns = 0,
      stats_underruns = 0, stats_total_written = 0, stats_total_read = 0\<rparr>)) = [5, 7]"
proof -
  let ?rb = "\<lparr>head = 0, tail = - 1, rb_size = 2, rb_mask = 1, buffer = [4, 5 :: nat],
    stats_overruns = 0, stats_underruns = 0, stats_total_written = 0, stats_total_read = 0\<rparr>"
  have "rb_inv ?rb" by (simp add: rb_inv_def)
  moreover have "rb_contents ?rb = [5]" by (simp add: rb_contents_def rb_slot_def unsigned_minus_1_eq_mask mask_eq_exp_minus_1)
  ultimately show ?thesis using ringbuf_batch [of ?rb 3 "[7, 8, 9]"] by simp
qed

end
