(* ===== verification/Spsc.thy ===== *)
theory Spsc
  imports Ringbuf
begin

text \<open>
  The ring buffer under concurrency: one producer in \<^verbatim>\<open>dvbs2x_ringbuf_put_batch\<close> and one consumer
  in \<^verbatim>\<open>dvbs2x_ringbuf_get_batch\<close> run at the same time, and their steps interleave in any order.
  A call is cut into its load of the other side's index, the copy of each single element, and the
  store of its own index; memory is sequentially consistent, which the acquire and release
  operations of the code are there to give.  \<open>sp_written\<close> and \<open>sp_read\<close> record what the finished
  calls handed over.
\<close>

section \<open>States and steps\<close>

text \<open>A producer that is not idle has the elements it will write and the number written so far; a
  consumer that is not idle has the number it will read and those read so far.\<close>

datatype 'a producer = PIdle | PCopy "'a list" nat
datatype 'a consumer = CIdle | CCopy nat "'a list"

record 'a spsc =
  sp_rb :: "'a ringbuf"
  sp_prod :: "'a producer"
  sp_cons :: "'a consumer"
  sp_written :: "'a list"
  sp_read :: "'a list"

text \<open>The array position of element \<open>i\<close> of a batch that starts at index \<open>start\<close>: up to the end of
  the array, and from its beginning after that.\<close>

definition batch_addr :: "'a ringbuf \<Rightarrow> u32 \<Rightarrow> nat \<Rightarrow> nat" where
  "batch_addr rb start i =
     (let pos = start AND rb_mask rb; contig = rb_size rb - pos
      in if i < unat contig then unat pos + i else i - unat contig)"

definition batch_count :: "u32 \<Rightarrow> u32 \<Rightarrow> u32" where
  "batch_count count avail = (if count < avail then count else avail)"

inductive spsc_step :: "'a spsc \<Rightarrow> 'a spsc \<Rightarrow> bool" where
  prod_start:
    "sp_prod s = PIdle \<Longrightarrow> unat count \<le> length elems \<Longrightarrow>
     n = batch_count count (dvbs2x_ringbuf_free (sp_rb s)) \<Longrightarrow> n \<noteq> 0 \<Longrightarrow>
     spsc_step s (s\<lparr>sp_prod := PCopy (take (unat n) elems) 0\<rparr>)"
| prod_full:
    "sp_prod s = PIdle \<Longrightarrow> batch_count count (dvbs2x_ringbuf_free (sp_rb s)) = 0 \<Longrightarrow>
     spsc_step s (s\<lparr>sp_rb := (sp_rb s)\<lparr>stats_overruns := stats_overruns (sp_rb s) + 1\<rparr>\<rparr>)"
| prod_copy:
    "sp_prod s = PCopy xs i \<Longrightarrow> i < length xs \<Longrightarrow>
     spsc_step s (s\<lparr>sp_rb := (sp_rb s)\<lparr>buffer :=
         (buffer (sp_rb s))[batch_addr (sp_rb s) (head (sp_rb s)) i := xs ! i]\<rparr>,
       sp_prod := PCopy xs (i + 1)\<rparr>)"
| prod_commit:
    "sp_prod s = PCopy xs (length xs) \<Longrightarrow>
     spsc_step s (s\<lparr>sp_rb := (sp_rb s)\<lparr>head := head (sp_rb s) + of_nat (length xs),
         stats_total_written := stats_total_written (sp_rb s) + of_nat (length xs)\<rparr>,
       sp_prod := PIdle, sp_written := sp_written s @ xs\<rparr>)"
| cons_start:
    "sp_cons s = CIdle \<Longrightarrow> n = batch_count count (dvbs2x_ringbuf_avail (sp_rb s)) \<Longrightarrow> n \<noteq> 0 \<Longrightarrow>
     spsc_step s (s\<lparr>sp_cons := CCopy (unat n) []\<rparr>)"
| cons_empty:
    "sp_cons s = CIdle \<Longrightarrow> batch_count count (dvbs2x_ringbuf_avail (sp_rb s)) = 0 \<Longrightarrow>
     spsc_step s (s\<lparr>sp_rb := (sp_rb s)\<lparr>stats_underruns := stats_underruns (sp_rb s) + 1\<rparr>\<rparr>)"
| cons_copy:
    "sp_cons s = CCopy n acc \<Longrightarrow> length acc < n \<Longrightarrow>
     spsc_step s (s\<lparr>sp_cons :=
       CCopy n (acc @ [buffer (sp_rb s) ! batch_addr (sp_rb s) (tail (sp_rb s)) (length acc)])\<rparr>)"
| cons_commit:
    "sp_cons s = CCopy (length acc) acc \<Longrightarrow>
     spsc_step s (s\<lparr>sp_rb := (sp_rb s)\<lparr>tail := tail (sp_rb s) + of_nat (length acc),
         stats_total_read := stats_total_read (sp_rb s) + of_nat (length acc)\<rparr>,
       sp_cons := CIdle, sp_read := sp_read s @ acc\<rparr>)"

definition spsc_init :: "'a ringbuf \<Rightarrow> 'a spsc" where
  "spsc_init rb = \<lparr>sp_rb = rb, sp_prod = PIdle, sp_cons = CIdle, sp_written = [], sp_read = []\<rparr>"

inductive spsc_reach :: "'a ringbuf \<Rightarrow> 'a spsc \<Rightarrow> bool" for rb where
  start: "spsc_reach rb (spsc_init rb)"
| step: "spsc_reach rb s \<Longrightarrow> spsc_step s s' \<Longrightarrow> spsc_reach rb s'"

section \<open>Invariant\<close>

abbreviation rb_used :: "'a ringbuf \<Rightarrow> nat" where
  "rb_used rb \<equiv> unat (head rb - tail rb)"

definition prod_inv :: "'a ringbuf \<Rightarrow> 'a producer \<Rightarrow> bool" where
  "prod_inv rb p =
     (case p of
        PIdle \<Rightarrow> True
      | PCopy xs i \<Rightarrow> i \<le> length xs \<and> rb_used rb + length xs \<le> unat (rb_size rb) \<and>
          (\<forall>j < i. buffer rb ! rb_slot rb (rb_used rb + j) = xs ! j))"

definition cons_inv :: "'a ringbuf \<Rightarrow> 'a consumer \<Rightarrow> bool" where
  "cons_inv rb c =
     (case c of
        CIdle \<Rightarrow> True
      | CCopy n acc \<Rightarrow> n \<le> rb_used rb \<and> length acc \<le> n \<and> acc = take (length acc) (rb_contents rb))"

definition spsc_inv :: "'a spsc \<Rightarrow> bool" where
  "spsc_inv s \<longleftrightarrow>
     rb_inv (sp_rb s) \<and> sp_written s = sp_read s @ rb_contents (sp_rb s) \<and>
     prod_inv (sp_rb s) (sp_prod s) \<and> cons_inv (sp_rb s) (sp_cons s)"

lemma unat_batch_count: "unat (batch_count count avail) = min (unat count) (unat avail)"
  unfolding batch_count_def by (rule min_word)

lemma batch_addr_slot:
  assumes inv: "rb_inv rb" and s: "unat (start AND rb_mask rb) = rb_slot rb a"
    and i: "i < unat (rb_size rb)"
  shows "batch_addr rb start i = rb_slot rb (a + i)"
proof -
  let ?p = "start AND rb_mask rb"
  have "unat ?p < unat (rb_size rb)"
    unfolding s using rb_slot_less [OF inv, of a] inv by (simp add: rb_inv_def)
  then have "unat (rb_size rb - ?p) = unat (rb_size rb) - rb_slot rb a"
    unfolding s [symmetric] by (simp add: unat_sub word_le_nat_alt)
  then show ?thesis
    using rb_slot_contig [OF inv refl i, of a] by (simp add: batch_addr_def s)
qed

lemma batch_addr_head:
  "rb_inv rb \<Longrightarrow> i < unat (rb_size rb) \<Longrightarrow> batch_addr rb (head rb) i = rb_slot rb (rb_used rb + i)"
  by (rule batch_addr_slot) (simp_all add: head_pos)

lemma batch_addr_tail:
  "rb_inv rb \<Longrightarrow> i < unat (rb_size rb) \<Longrightarrow> batch_addr rb (tail rb) i = rb_slot rb i"
  using batch_addr_slot [of rb "tail rb" 0 i] tail_pos [of 0 rb] by simp

lemma rb_slot_shift:
  assumes "rb_inv rb" and "tail rb' = tail rb + of_nat n" and "rb_size rb' = rb_size rb"
    and "n < 2 ^ 32"
  shows "rb_slot rb' i = rb_slot rb (n + i)"
  using unat_add_mod_size [OF assms(1), of "tail rb" "of_nat n"] assms(4)
  by (simp add: rb_slot_def assms(2,3) unat_of_nat_small add.assoc [symmetric])
     (metis mod_add_left_eq)

text \<open>Writing into the free part leaves the contents alone.\<close>

lemma copy_into_free:
  assumes inv: "rb_inv rb" and i: "rb_used rb + i < unat (rb_size rb)"
  shows "rb_inv (rb\<lparr>buffer := (buffer rb)[rb_slot rb (rb_used rb + i) := x]\<rparr>) \<and>
    rb_contents (rb\<lparr>buffer := (buffer rb)[rb_slot rb (rb_used rb + i) := x]\<rparr>) = rb_contents rb"
proof -
  let ?rb = "rb\<lparr>buffer := (buffer rb)[rb_slot rb (rb_used rb + i) := x]\<rparr>"
  have "rb_slot rb (rb_used rb + i) \<noteq> rb_slot rb j" if "j < rb_used rb" for j
    using rb_slot_inj [OF inv, of "rb_used rb + i" j] that i by auto
  then have "rb_contents ?rb = rb_contents rb"
    by (auto simp: rb_contents_def rb_slot_def nth_list_update)
  moreover have "rb_inv ?rb" using inv by (simp add: rb_inv_def)
  ultimately show ?thesis by simp
qed

section \<open>Every step keeps the invariant\<close>

lemma rb_slot_stats [simp]:
  "rb_slot (rb\<lparr>stats_overruns := a\<rparr>) i = rb_slot rb i"
  "rb_slot (rb\<lparr>stats_underruns := a\<rparr>) i = rb_slot rb i"
  by (simp_all add: rb_slot_def)

lemma inv_stats [simp]:
  "prod_inv (rb\<lparr>stats_overruns := a\<rparr>) p = prod_inv rb p"
  "prod_inv (rb\<lparr>stats_underruns := a\<rparr>) p = prod_inv rb p"
  "cons_inv (rb\<lparr>stats_overruns := a\<rparr>) c = cons_inv rb c"
  "cons_inv (rb\<lparr>stats_underruns := a\<rparr>) c = cons_inv rb c"
  by (simp_all add: prod_inv_def cons_inv_def split: producer.split consumer.split)

lemma prod_copy_inv:
  assumes s: "spsc_inv s" and p: "sp_prod s = PCopy xs i" and i: "i < length xs"
  shows "spsc_inv (s\<lparr>sp_rb := (sp_rb s)\<lparr>buffer :=
      (buffer (sp_rb s))[batch_addr (sp_rb s) (head (sp_rb s)) i := xs ! i]\<rparr>,
    sp_prod := PCopy xs (i + 1)\<rparr>)"
proof -
  let ?rb = "sp_rb s" and ?m = "rb_used (sp_rb s)"
  have inv: "rb_inv ?rb" using s by (simp add: spsc_inv_def)
  have pi: "?m + length xs \<le> unat (rb_size ?rb)"
    "\<And>j. j < i \<Longrightarrow> buffer ?rb ! rb_slot ?rb (?m + j) = xs ! j"
    using s p by (auto simp: spsc_inv_def prod_inv_def)
  let ?rb' = "?rb\<lparr>buffer := (buffer ?rb)[rb_slot ?rb (?m + i) := xs ! i]\<rparr>"
  have a: "batch_addr ?rb (head ?rb) i = rb_slot ?rb (?m + i)"
    using batch_addr_head [OF inv, of i] i pi(1) by simp
  have "?m + i < unat (rb_size ?rb)" using i pi(1) by simp
  note c = copy_into_free [OF inv this, of "xs ! i"]
  have slot: "rb_slot ?rb' j = rb_slot ?rb j" for j by (simp add: rb_slot_def)
  have "buffer ?rb' ! rb_slot ?rb (?m + j) = xs ! j" if "j < i + 1" for j
  proof (cases "j = i")
    case True
    then show ?thesis using rb_slot_less [OF inv] by simp
  next
    case False
    then have "rb_slot ?rb (?m + i) \<noteq> rb_slot ?rb (?m + j)"
      using rb_slot_inj [OF inv, of "?m + i" "?m + j"] that i pi(1) by auto
    then show ?thesis using that False pi(2) by simp
  qed
  then have "prod_inv ?rb' (PCopy xs (i + 1))" using i pi(1) by (simp add: prod_inv_def slot)
  moreover have "cons_inv ?rb' (sp_cons s)"
    using s c by (auto simp: spsc_inv_def cons_inv_def split: consumer.splits)
  ultimately show ?thesis using s c by (simp add: spsc_inv_def a)
qed

lemma prod_commit_inv:
  assumes s: "spsc_inv s" and p: "sp_prod s = PCopy xs (length xs)"
  shows "spsc_inv (s\<lparr>sp_rb := (sp_rb s)\<lparr>head := head (sp_rb s) + of_nat (length xs),
      stats_total_written := stats_total_written (sp_rb s) + of_nat (length xs)\<rparr>,
    sp_prod := PIdle, sp_written := sp_written s @ xs\<rparr>)"
proof -
  let ?rb = "sp_rb s"
  let ?rb' = "?rb\<lparr>head := head ?rb + of_nat (length xs),
      stats_total_written := stats_total_written ?rb + of_nat (length xs)\<rparr>"
  have inv: "rb_inv ?rb" using s by (simp add: spsc_inv_def)
  have r: "rb_inv ?rb' \<and> rb_contents ?rb' = rb_contents ?rb @ take (length xs) xs"
    using s p by (intro rb_advance_head [OF inv]) (auto simp: spsc_inv_def prod_inv_def)
  have "rb_used ?rb' = rb_used ?rb + length xs"
    using arg_cong [OF conjunct2 [OF r], of length] by simp
  then have "cons_inv ?rb' (sp_cons s)"
    using s r by (auto simp: spsc_inv_def cons_inv_def split: consumer.splits)
  then show ?thesis using s r by (simp add: spsc_inv_def prod_inv_def)
qed

lemma cons_copy_inv:
  assumes s: "spsc_inv s" and c: "sp_cons s = CCopy n acc" and n: "length acc < n"
  shows "spsc_inv (s\<lparr>sp_cons :=
    CCopy n (acc @ [buffer (sp_rb s) ! batch_addr (sp_rb s) (tail (sp_rb s)) (length acc)])\<rparr>)"
proof -
  let ?rb = "sp_rb s" and ?a = "length acc"
  have inv: "rb_inv ?rb" using s by (simp add: spsc_inv_def)
  have ci: "n \<le> rb_used ?rb" "acc = take ?a (rb_contents ?rb)"
    using s c by (auto simp: spsc_inv_def cons_inv_def)
  have "batch_addr ?rb (tail ?rb) ?a = rb_slot ?rb ?a"
    using batch_addr_tail [OF inv, of ?a] n ci(1) rb_inv_usage [OF inv] by simp
  then have "buffer ?rb ! batch_addr ?rb (tail ?rb) ?a = rb_contents ?rb ! ?a"
    using n ci(1) by (simp add: rb_contents_nth)
  moreover have "take (Suc ?a) (rb_contents ?rb) = take ?a (rb_contents ?rb) @ [rb_contents ?rb ! ?a]"
    using n ci(1) by (intro take_Suc_conv_app_nth) simp
  ultimately have "cons_inv ?rb (CCopy n (acc @ [buffer ?rb ! batch_addr ?rb (tail ?rb) ?a]))"
    using n ci by (simp add: cons_inv_def)
  then show ?thesis using s by (simp add: spsc_inv_def)
qed

lemma cons_commit_inv:
  assumes s: "spsc_inv s" and c: "sp_cons s = CCopy (length acc) acc"
  shows "spsc_inv (s\<lparr>sp_rb := (sp_rb s)\<lparr>tail := tail (sp_rb s) + of_nat (length acc),
      stats_total_read := stats_total_read (sp_rb s) + of_nat (length acc)\<rparr>,
    sp_cons := CIdle, sp_read := sp_read s @ acc\<rparr>)"
proof -
  let ?rb = "sp_rb s" and ?n = "length acc"
  let ?rb' = "?rb\<lparr>tail := tail ?rb + of_nat ?n,
      stats_total_read := stats_total_read ?rb + of_nat ?n\<rparr>"
  have inv: "rb_inv ?rb" using s by (simp add: spsc_inv_def)
  have ci: "?n \<le> rb_used ?rb" "acc = take ?n (rb_contents ?rb)"
    using s c by (auto simp: spsc_inv_def cons_inv_def)
  have r: "rb_inv ?rb' \<and> rb_contents ?rb' = drop ?n (rb_contents ?rb)"
    by (rule rb_advance_tail [OF inv]) (use ci in simp_all)
  have u: "rb_used ?rb' = rb_used ?rb - ?n"
    using arg_cong [OF conjunct2 [OF r], of length] by simp
  have "?n < 2 ^ 32" using ci(1) rb_inv_usage [OF inv] unat_size_less [OF inv] by simp
  then have slot: "rb_slot ?rb' i = rb_slot ?rb (?n + i)" for i
    by (intro rb_slot_shift [OF inv]) simp_all
  have shift: "?n + (rb_used ?rb - ?n + j) = rb_used ?rb + j" for j using ci(1) by simp
  have "prod_inv ?rb' (sp_prod s)"
    using s ci(1) unfolding spsc_inv_def prod_inv_def u slot shift
    by (auto split: producer.splits)
  moreover have "sp_written s = (sp_read s @ acc) @ drop ?n (rb_contents ?rb)"
  proof -
    have "acc @ drop ?n (rb_contents ?rb) = rb_contents ?rb"
      using append_take_drop_id [of ?n "rb_contents ?rb"] unfolding ci(2) [symmetric] .
    then show ?thesis using s by (simp add: spsc_inv_def)
  qed
  ultimately show ?thesis using s r by (simp add: spsc_inv_def cons_inv_def)
qed

lemma spsc_step_inv: "spsc_step s s' \<Longrightarrow> spsc_inv s \<Longrightarrow> spsc_inv s'"
proof (induction rule: spsc_step.induct)
  case (prod_start s count elems n)
  have inv: "rb_inv (sp_rb s)" using prod_start by (simp add: spsc_inv_def)
  have "unat n \<le> unat (rb_size (sp_rb s)) - rb_used (sp_rb s)" "unat n \<le> length elems"
    using prod_start(2) unfolding prod_start(3) unat_batch_count unat_free [OF inv] by simp_all
  then have "prod_inv (sp_rb s) (PCopy (take (unat n) elems) 0)"
    using rb_inv_usage [OF inv] by (simp add: prod_inv_def)
  then show ?case using prod_start by (simp add: spsc_inv_def)
next
  case (prod_full s count)
  then show ?case by (simp add: spsc_inv_def)
next
  case (prod_copy s xs i)
  then show ?case using prod_copy_inv by blast
next
  case (prod_commit s xs)
  then show ?case using prod_commit_inv by blast
next
  case (cons_start s n count)
  have "unat n \<le> rb_used (sp_rb s)"
    unfolding cons_start(2) unat_batch_count by (simp add: dvbs2x_ringbuf_avail_def)
  then have "cons_inv (sp_rb s) (CCopy (unat n) [])" by (simp add: cons_inv_def)
  then show ?case using cons_start by (simp add: spsc_inv_def)
next
  case (cons_empty s count)
  then show ?case by (simp add: spsc_inv_def)
next
  case (cons_copy s n acc)
  then show ?case using cons_copy_inv by blast
next
  case (cons_commit s acc)
  then show ?case using cons_commit_inv by blast
qed

lemma spsc_reach_inv:
  assumes "spsc_reach rb s" and "rb_inv rb" and "rb_contents rb = []"
  shows "spsc_inv s"
  using assms(1)
proof (induction rule: spsc_reach.induct)
  case start
  then show ?case using assms(2,3) by (simp add: spsc_inv_def spsc_init_def prod_inv_def cons_inv_def)
next
  case (step s s')
  then show ?case using spsc_step_inv by blast
qed

section \<open>Property\<close>

text \<open>C24: however the steps of a producer and a consumer interleave on an initialised buffer, what
  the consumer's finished calls returned is a prefix of what the producer's finished calls wrote,
  in order; the rest of it is the contents of the buffer, and what a call in progress has copied
  out so far is the beginning of those contents.\<close>

theorem spsc_fifo:
  assumes "dvbs2x_ringbuf_init buf sz = Some rb" and "sz \<noteq> 0" and "length buf = unat sz"
    and "spsc_reach rb s"
  shows "sp_written s = sp_read s @ rb_contents (sp_rb s) \<and> rb_inv (sp_rb s) \<and>
    (case sp_cons s of CIdle \<Rightarrow> True
     | CCopy n acc \<Rightarrow> acc = take (length acc) (rb_contents (sp_rb s)))"
  using spsc_reach_inv [OF assms(4) init_inv(1,2) [OF assms(1-3)]]
  by (auto simp: spsc_inv_def cons_inv_def split: consumer.splits)

theorem spsc_fifo_witness:
  "\<exists>rb s. dvbs2x_ringbuf_init [0, 0 :: nat] 2 = Some rb \<and> spsc_reach rb s \<and>
    sp_prod s = PCopy [5] 1 \<and> sp_written s = sp_read s @ rb_contents (sp_rb s)"
proof -
  define rb where "rb = the (dvbs2x_ringbuf_init [0, 0 :: nat] 2)"
  have i: "dvbs2x_ringbuf_init [0, 0 :: nat] 2 = Some rb"
    by (simp add: rb_def dvbs2x_ringbuf_init_def)
  have f: "dvbs2x_ringbuf_free rb = 2"
    by (simp add: rb_def dvbs2x_ringbuf_init_def dvbs2x_ringbuf_free_def)
  let ?s1 = "(spsc_init rb)\<lparr>sp_prod := PCopy (take (unat (1 :: u32)) [5]) 0\<rparr>"
  have "spsc_step (spsc_init rb) ?s1"
    by (rule prod_start [of _ 1]) (simp_all add: spsc_init_def batch_count_def f)
  then have r1: "spsc_reach rb ?s1" by (rule spsc_reach.step [OF spsc_reach.start])
  have "sp_prod ?s1 = PCopy [5] 0" by simp
  from spsc_reach.step [OF r1 prod_copy [OF this]] obtain s2
    where r2: "spsc_reach rb s2" "sp_prod s2 = PCopy [5] 1" by fastforce
  from spsc_fifo [OF i _ _ r2(1)] i r2 show ?thesis by auto
qed

end
