(* ===== verification/Crc32.thy ===== *)
theory Crc32
  imports Prelude
begin

text \<open>
  \<^verbatim>\<open>streaming/src/crc32.c\<close>: the table-driven CRC-32 of IEEE 802.3.  The table is that of the
  source; \<open>crc32_shift\<close> is the bit-at-a-time definition of the same register, against which table
  and loop are checked.  The register is a \<open>linear_register\<close>.
\<close>

section \<open>The code\<close>

definition crc32_table :: "u32 list" where
  "crc32_table =
     [0x00000000, 0x77073096, 0xee0e612c, 0x990951ba, 0x076dc419, 0x706af48f,
      0xe963a535, 0x9e6495a3, 0x0edb8832, 0x79dcb8a4, 0xe0d5e91e, 0x97d2d988,
      0x09b64c2b, 0x7eb17cbd, 0xe7b82d07, 0x90bf1d91, 0x1db71064, 0x6ab020f2,
      0xf3b97148, 0x84be41de, 0x1adad47d, 0x6ddde4eb, 0xf4d4b551, 0x83d385c7,
      0x136c9856, 0x646ba8c0, 0xfd62f97a, 0x8a65c9ec, 0x14015c4f, 0x63066cd9,
      0xfa0f3d63, 0x8d080df5, 0x3b6e20c8, 0x4c69105e, 0xd56041e4, 0xa2677172,
      0x3c03e4d1, 0x4b04d447, 0xd20d85fd, 0xa50ab56b, 0x35b5a8fa, 0x42b2986c,
      0xdbbbc9d6, 0xacbcf940, 0x32d86ce3, 0x45df5c75, 0xdcd60dcf, 0xabd13d59,
      0x26d930ac, 0x51de003a, 0xc8d75180, 0xbfd06116, 0x21b4f4b5, 0x56b3c423,
      0xcfba9599, 0xb8bda50f, 0x2802b89e, 0x5f058808, 0xc60cd9b2, 0xb10be924,
      0x2f6f7c87, 0x58684c11, 0xc1611dab, 0xb6662d3d, 0x76dc4190, 0x01db7106,
      0x98d220bc, 0xefd5102a, 0x71b18589, 0x06b6b51f, 0x9fbfe4a5, 0xe8b8d433,
      0x7807c9a2, 0x0f00f934, 0x9609a88e, 0xe10e9818, 0x7f6a0dbb, 0x086d3d2d,
      0x91646c97, 0xe6635c01, 0x6b6b51f4, 0x1c6c6162, 0x856530d8, 0xf262004e,
      0x6c0695ed, 0x1b01a57b, 0x8208f4c1, 0xf50fc457, 0x65b0d9c6, 0x12b7e950,
      0x8bbeb8ea, 0xfcb9887c, 0x62dd1ddf, 0x15da2d49, 0x8cd37cf3, 0xfbd44c65,
      0x4db26158, 0x3ab551ce, 0xa3bc0074, 0xd4bb30e2, 0x4adfa541, 0x3dd895d7,
      0xa4d1c46d, 0xd3d6f4fb, 0x4369e96a, 0x346ed9fc, 0xad678846, 0xda60b8d0,
      0x44042d73, 0x33031de5, 0xaa0a4c5f, 0xdd0d7cc9, 0x5005713c, 0x270241aa,
      0xbe0b1010, 0xc90c2086, 0x5768b525, 0x206f85b3, 0xb966d409, 0xce61e49f,
      0x5edef90e, 0x29d9c998, 0xb0d09822, 0xc7d7a8b4, 0x59b33d17, 0x2eb40d81,
      0xb7bd5c3b, 0xc0ba6cad, 0xedb88320, 0x9abfb3b6, 0x03b6e20c, 0x74b1d29a,
      0xead54739, 0x9dd277af, 0x04db2615, 0x73dc1683, 0xe3630b12, 0x94643b84,
      0x0d6d6a3e, 0x7a6a5aa8, 0xe40ecf0b, 0x9309ff9d, 0x0a00ae27, 0x7d079eb1,
      0xf00f9344, 0x8708a3d2, 0x1e01f268, 0x6906c2fe, 0xf762575d, 0x806567cb,
      0x196c3671, 0x6e6b06e7, 0xfed41b76, 0x89d32be0, 0x10da7a5a, 0x67dd4acc,
      0xf9b9df6f, 0x8ebeeff9, 0x17b7be43, 0x60b08ed5, 0xd6d6a3e8, 0xa1d1937e,
      0x38d8c2c4, 0x4fdff252, 0xd1bb67f1, 0xa6bc5767, 0x3fb506dd, 0x48b2364b,
      0xd80d2bda, 0xaf0a1b4c, 0x36034af6, 0x41047a60, 0xdf60efc3, 0xa867df55,
      0x316e8eef, 0x4669be79, 0xcb61b38c, 0xbc66831a, 0x256fd2a0, 0x5268e236,
      0xcc0c7795, 0xbb0b4703, 0x220216b9, 0x5505262f, 0xc5ba3bbe, 0xb2bd0b28,
      0x2bb45a92, 0x5cb36a04, 0xc2d7ffa7, 0xb5d0cf31, 0x2cd99e8b, 0x5bdeae1d,
      0x9b64c2b0, 0xec63f226, 0x756aa39c, 0x026d930a, 0x9c0906a9, 0xeb0e363f,
      0x72076785, 0x05005713, 0x95bf4a82, 0xe2b87a14, 0x7bb12bae, 0x0cb61b38,
      0x92d28e9b, 0xe5d5be0d, 0x7cdcefb7, 0x0bdbdf21, 0x86d3d2d4, 0xf1d4e242,
      0x68ddb3f8, 0x1fda836e, 0x81be16cd, 0xf6b9265b, 0x6fb077e1, 0x18b74777,
      0x88085ae6, 0xff0f6a70, 0x66063bca, 0x11010b5c, 0x8f659eff, 0xf862ae69,
      0x616bffd3, 0x166ccf45, 0xa00ae278, 0xd70dd2ee, 0x4e048354, 0x3903b3c2,
      0xa7672661, 0xd06016f7, 0x4969474d, 0x3e6e77db, 0xaed16a4a, 0xd9d65adc,
      0x40df0b66, 0x37d83bf0, 0xa9bcae53, 0xdebb9ec5, 0x47b2cf7f, 0x30b5ffe9,
      0xbdbdf21c, 0xcabac28a, 0x53b39330, 0x24b4a3a6, 0xbad03605, 0xcdd70693,
      0x54de5729, 0x23d967bf, 0xb3667a2e, 0xc4614ab8, 0x5d681b02, 0x2a6f2b94,
      0xb40bbe37, 0xc30c8ea1, 0x5a05df1b, 0x2d02ef8d]"

definition crc32_byte :: "u32 \<Rightarrow> u8 \<Rightarrow> u32" where
  "crc32_byte crc x = crc32_table ! unat ((crc XOR ucast x) AND 0xFF) XOR drop_bit 8 crc"

definition dvbs2x_crc32 :: "u8 list \<Rightarrow> nat \<Rightarrow> u32" where
  "dvbs2x_crc32 data len = foldl crc32_byte 0xFFFFFFFF (take len data) XOR 0xFFFFFFFF"

section \<open>Bit at a time\<close>

definition crc32_shift :: "u32 \<Rightarrow> u32" where
  "crc32_shift c = (if bit c 0 then drop_bit 1 c XOR 0xEDB88320 else drop_bit 1 c)"

definition crc32_bits :: "u32 \<Rightarrow> u8 \<Rightarrow> u32" where
  "crc32_bits crc x = (crc32_shift ^^ 8) (crc XOR ucast x)"

lemma funpow_8: "(f ^^ 8) x = f (f (f (f (f (f (f (f x)))))))"
  by (simp add: numeral_eq_Suc)

text \<open>The shift is linear over XOR and loses nothing.\<close>

lemma crc32_shift_alt: "crc32_shift c = drop_bit 1 c XOR (if bit c 0 then 0xEDB88320 else 0)"
  by (simp add: crc32_shift_def)

lemma crc32_shift_xor: "crc32_shift (a XOR b) = crc32_shift a XOR crc32_shift b"
  by (simp only: crc32_shift_alt drop_bit_xor bit_xor_iff) (auto simp: ac_simps)

lemma crc32_shift_0_iff: "crc32_shift c = 0 \<longleftrightarrow> c = 0"
proof
  assume z: "crc32_shift c = 0"
  have "bit (0xEDB88320 :: u32) 31" by simp
  moreover have "\<not> bit (drop_bit 1 c) 31" using bit_imp_le_length [of c 32] by (auto simp: bit_drop_bit_eq)
  ultimately have b0: "\<not> bit c 0"
    using arg_cong [OF z, of "\<lambda>w. bit w 31"] by (auto simp: crc32_shift_def bit_xor_iff split: if_splits)
  with z have d: "drop_bit 1 c = 0" by (simp only: crc32_shift_def if_False)
  show "c = 0"
  proof (rule bit_word_eqI)
    fix n
    show "bit c n = bit 0 n"
      using b0 arg_cong [OF d, of "\<lambda>w. bit w (n - 1)"] by (cases n) (simp_all add: bit_drop_bit_eq)
  qed
qed (simp add: crc32_shift_alt)

lemma crc32_shifts_xor: "(crc32_shift ^^ n) (a XOR b) = (crc32_shift ^^ n) a XOR (crc32_shift ^^ n) b"
  by (induction n) (simp_all add: crc32_shift_xor)

lemma crc32_shifts_0_iff: "(crc32_shift ^^ n) a = 0 \<longleftrightarrow> a = 0"
  by (induction n) (simp_all add: crc32_shift_0_iff)

section \<open>The table\<close>

lemma length_crc32_table: "length crc32_table = 256"
  by (simp add: crc32_table_def)

text \<open>Each half of the table is the part before it, XORed with its first entry.\<close>

lemma table_doubling:
  "take 1 (drop 1 crc32_table) = map (\<lambda>x. x XOR 0x77073096) (take 1 crc32_table)"
  "take 2 (drop 2 crc32_table) = map (\<lambda>x. x XOR 0xee0e612c) (take 2 crc32_table)"
  "take 4 (drop 4 crc32_table) = map (\<lambda>x. x XOR 0x076dc419) (take 4 crc32_table)"
  "take 8 (drop 8 crc32_table) = map (\<lambda>x. x XOR 0x0edb8832) (take 8 crc32_table)"
  "take 16 (drop 16 crc32_table) = map (\<lambda>x. x XOR 0x1db71064) (take 16 crc32_table)"
  "take 32 (drop 32 crc32_table) = map (\<lambda>x. x XOR 0x3b6e20c8) (take 32 crc32_table)"
  "take 64 (drop 64 crc32_table) = map (\<lambda>x. x XOR 0x76dc4190) (take 64 crc32_table)"
  "take 128 (drop 128 crc32_table) = map (\<lambda>x. x XOR 0xedb88320) (take 128 crc32_table)"
  by (simp_all add: crc32_table_def)

lemma shifts_of_powers:
  "(crc32_shift ^^ 8) 1 = 0x77073096" "(crc32_shift ^^ 8) 2 = 0xee0e612c"
  "(crc32_shift ^^ 8) 4 = 0x076dc419" "(crc32_shift ^^ 8) 8 = 0x0edb8832"
  "(crc32_shift ^^ 8) 16 = 0x1db71064" "(crc32_shift ^^ 8) 32 = 0x3b6e20c8"
  "(crc32_shift ^^ 8) 64 = 0x76dc4190" "(crc32_shift ^^ 8) 128 = 0xedb88320"
  unfolding funpow_8 by (simp_all add: crc32_shift_def)

lemma of_nat_power_add:
  assumes "j < 2 ^ k" and "k < 32"
  shows "(of_nat (2 ^ k + j) :: u32) = of_nat j XOR 2 ^ k"
proof -
  have "j < 2 ^ 32" using assms by (meson less_trans order_less_le_trans power_increasing less_imp_le one_le_numeral)
  then have "unat (of_nat j :: u32) = j" by (simp add: unat_of_nat_small)
  moreover have "\<not> bit j k" using assms by (simp add: bit_iff_odd)
  ultimately have "\<not> bit (of_nat j :: u32) k"
    using assms(2) by (metis bit_unsigned_iff possible_bit_nat)
  then have "(of_nat j :: u32) AND 2 ^ k = 0"
    by (simp add: and_exp_eq_0_iff_not_bit)
  then show ?thesis by (simp add: disjunctive_add_eq_xor add.commute)
qed

lemma table_double_step:
  assumes low: "\<And>i. i < 2 ^ k \<Longrightarrow> crc32_table ! i = (crc32_shift ^^ 8) (of_nat i)"
    and k: "k < 8"
    and high: "take (2 ^ k) (drop (2 ^ k) crc32_table) =
      map (\<lambda>x. x XOR (crc32_shift ^^ 8) (2 ^ k)) (take (2 ^ k) crc32_table)"
    and i: "i < 2 ^ Suc k"
  shows "crc32_table ! i = (crc32_shift ^^ 8) (of_nat i)"
proof (cases "i < 2 ^ k")
  case False
  define j where "j = i - 2 ^ k"
  have j: "j < 2 ^ k" "i = 2 ^ k + j" using i False by (auto simp: j_def)
  have "(2::nat) ^ k \<le> 2 ^ 7" using k by (intro power_increasing) simp_all
  then have len: "2 ^ k + j < length crc32_table" using j by (simp add: length_crc32_table)
  have "crc32_table ! i = take (2 ^ k) (drop (2 ^ k) crc32_table) ! j"
    using j len by simp
  also have "\<dots> = (crc32_shift ^^ 8) (of_nat j) XOR (crc32_shift ^^ 8) (2 ^ k)"
    unfolding high using j len low by simp
  also have "\<dots> = (crc32_shift ^^ 8) (of_nat i)"
    unfolding crc32_shifts_xor [symmetric] j(2) using j(1) k by (simp only: of_nat_power_add)
  finally show ?thesis .
qed (rule low)

lemma table_high:
  "take (2 ^ 0) (drop (2 ^ 0) crc32_table) =
     map (\<lambda>x. x XOR (crc32_shift ^^ 8) (2 ^ 0)) (take (2 ^ 0) crc32_table)"
  "take (2 ^ 1) (drop (2 ^ 1) crc32_table) =
     map (\<lambda>x. x XOR (crc32_shift ^^ 8) (2 ^ 1)) (take (2 ^ 1) crc32_table)"
  "take (2 ^ 2) (drop (2 ^ 2) crc32_table) =
     map (\<lambda>x. x XOR (crc32_shift ^^ 8) (2 ^ 2)) (take (2 ^ 2) crc32_table)"
  "take (2 ^ 3) (drop (2 ^ 3) crc32_table) =
     map (\<lambda>x. x XOR (crc32_shift ^^ 8) (2 ^ 3)) (take (2 ^ 3) crc32_table)"
  "take (2 ^ 4) (drop (2 ^ 4) crc32_table) =
     map (\<lambda>x. x XOR (crc32_shift ^^ 8) (2 ^ 4)) (take (2 ^ 4) crc32_table)"
  "take (2 ^ 5) (drop (2 ^ 5) crc32_table) =
     map (\<lambda>x. x XOR (crc32_shift ^^ 8) (2 ^ 5)) (take (2 ^ 5) crc32_table)"
  "take (2 ^ 6) (drop (2 ^ 6) crc32_table) =
     map (\<lambda>x. x XOR (crc32_shift ^^ 8) (2 ^ 6)) (take (2 ^ 6) crc32_table)"
  "take (2 ^ 7) (drop (2 ^ 7) crc32_table) =
     map (\<lambda>x. x XOR (crc32_shift ^^ 8) (2 ^ 7)) (take (2 ^ 7) crc32_table)"
  using table_doubling shifts_of_powers by simp_all

lemma table_nth_power:
  "k \<le> 8 \<Longrightarrow> i < 2 ^ k \<Longrightarrow> crc32_table ! i = (crc32_shift ^^ 8) (of_nat i)"
proof (induction k arbitrary: i)
  case 0
  then show ?case by (simp add: crc32_table_def funpow_8 crc32_shift_def)
next
  case (Suc k)
  then have k: "k < 8" by simp
  have "take (2 ^ k) (drop (2 ^ k) crc32_table) =
      map (\<lambda>x. x XOR (crc32_shift ^^ 8) (2 ^ k)) (take (2 ^ k) crc32_table)"
    using less_8_cases [OF k] table_high by (elim disjE) (simp_all only:)
  from table_double_step [OF _ k this Suc.prems(2)] Suc.IH k show ?case by simp
qed

lemma crc32_table_nth: "i < 256 \<Longrightarrow> crc32_table ! i = (crc32_shift ^^ 8) (of_nat i)"
  using table_nth_power [of 8 i] by simp

section \<open>The loop\<close>

lemma crc32_shift_low_zero:
  "(\<And>m. m < n \<Longrightarrow> \<not> bit c m) \<Longrightarrow> (crc32_shift ^^ n) c = drop_bit n c"
proof (induction n arbitrary: c)
  case (Suc n)
  have "(crc32_shift ^^ Suc n) c = (crc32_shift ^^ n) (drop_bit 1 c)"
    using Suc.prems [of 0] by (simp only: funpow_Suc_right comp_def crc32_shift_def) simp
  also have "\<dots> = drop_bit n (drop_bit 1 c)"
    using Suc.prems by (intro Suc.IH) (simp add: bit_drop_bit_eq)
  finally show ?case by simp
qed simp

lemma crc32_byte_bits: "crc32_byte crc x = crc32_bits crc x"
proof -
  let ?c = "crc XOR ucast x"
  let ?hi = "?c AND NOT 0xFF"
  have "unat (?c AND 0xFF) < 256"
  proof -
    have "?c AND 0xFF \<le> 0xFF" by (rule word_and_le1)
    then show ?thesis by (simp add: word_le_nat_alt)
  qed
  then have t: "crc32_table ! unat (?c AND 0xFF) = (crc32_shift ^^ 8) (?c AND 0xFF)"
    by (simp add: crc32_table_nth)
  have "\<not> bit ?hi m" if "m < 8" for m
    using that by (simp only: bit_and_iff bit_not_iff bit_mask_0xFF) simp
  then have h: "(crc32_shift ^^ 8) ?hi = drop_bit 8 ?hi" by (rule crc32_shift_low_zero)
  have "drop_bit 8 ?hi = drop_bit 8 crc"
  proof (rule bit_word_eqI)
    fix n
    have "\<not> bit x (8 + n)" using bit_u8_less [of x "8 + n"] by auto
    then show "bit (drop_bit 8 ?hi) n = bit (drop_bit 8 crc) n"
      unfolding bit_drop_bit_eq comp_def bit_and_iff bit_not_iff bit_mask_0xFF bit_xor_iff
        bit_ucast_iff by (auto dest: bit_imp_le_length)
  qed
  moreover have "?c = (?c AND 0xFF) XOR ?hi"
    by (rule bit_eqI) (auto simp only: bit_xor_iff bit_and_iff bit_not_iff possible_bit_word
      dest: bit_imp_le_length)
  ultimately show ?thesis
    unfolding crc32_byte_def crc32_bits_def t using h by (metis crc32_shifts_xor)
qed

interpretation crc32: linear_register crc32_bits
proof
  show "crc32_bits (a XOR b) (x XOR y) = crc32_bits a x XOR crc32_bits b y" for a b x y
    by (simp add: crc32_bits_def unsigned_xor_eq ac_simps flip: crc32_shifts_xor)
  show "a = 0" if "crc32_bits a 0 = 0" for a
    using that by (simp add: crc32_bits_def crc32_shifts_0_iff)
  show "x = 0" if "crc32_bits 0 x = 0" for x
  proof -
    have "(ucast x :: u32) = 0" using that by (simp add: crc32_bits_def crc32_shifts_0_iff)
    moreover have "bit (ucast x :: u32) n = bit x n" if "n < 8" for n
      using that by (simp add: bit_ucast_iff)
    ultimately show ?thesis by (intro bit_word_eqI) simp
  qed
qed

lemma dvbs2x_crc32_bits:
  "dvbs2x_crc32 data len = foldl crc32_bits 0xFFFFFFFF (take len data) XOR 0xFFFFFFFF"
  by (simp add: dvbs2x_crc32_def crc32_byte_bits [abs_def])

lemma crc32_corrupted:
  assumes "i < len" "len \<le> length data" "v \<noteq> data ! i"
  shows "dvbs2x_crc32 (data[i := v]) len \<noteq> dvbs2x_crc32 data len"
  using crc32.run_corrupted [of i "take len data" v "0xFFFFFFFF"] assms
  by (simp add: dvbs2x_crc32_bits take_update_swap xor_right_cancel)

text \<open>The check value of the standard: the CRC of the nine ASCII digits 1 to 9.\<close>

lemma crc32_check_value:
  "dvbs2x_crc32 [0x31, 0x32, 0x33, 0x34, 0x35, 0x36, 0x37, 0x38, 0x39] 9 = 0xCBF43926"
  by (simp add: dvbs2x_crc32_def crc32_byte_def crc32_table_def)

section \<open>Property\<close>

text \<open>C30: on every input the table-driven loop computes the bit-at-a-time register of the reflected
  polynomial \<^verbatim>\<open>0xEDB88320\<close>.\<close>

theorem crc32_bitwise:
  "dvbs2x_crc32 data len = foldl crc32_bits 0xFFFFFFFF (take len data) XOR 0xFFFFFFFF"
  by (rule dvbs2x_crc32_bits)

end
