(* ===== verification/Protocol.thy ===== *)
theory Protocol
  imports Crc32
begin

text \<open>
  \<^verbatim>\<open>streaming/src/protocol.c\<close> and the sequence comparison of \<^verbatim>\<open>dvbs2x_protocol.h\<close>: the wire
  frame with its 16-byte header in network byte order, and the CRC-32 behind the payload.  Buffers
  are byte lists, a null pointer is \<open>None\<close>, and the negative errno values returned are the \<open>Inl\<close>
  side of a sum.
\<close>

section \<open>Frames\<close>

datatype errno = EINVAL | ENOSPC | EBADMSG

definition DVBS2X_FRAME_MAGIC :: u32 where "DVBS2X_FRAME_MAGIC = 0x53325856"
definition DVBS2X_FRAME_HEADER_SIZE :: nat where "DVBS2X_FRAME_HEADER_SIZE = 16"
definition DVBS2X_FRAME_CRC_SIZE :: nat where "DVBS2X_FRAME_CRC_SIZE = 4"
definition DVBS2X_FRAME_MAX_PAYLOAD :: nat where "DVBS2X_FRAME_MAX_PAYLOAD = 65520"
definition DVBS2X_FRAME_BBFRAME :: nat where "DVBS2X_FRAME_BBFRAME = 2"

lemmas frame_const_defs =
  DVBS2X_FRAME_MAGIC_def DVBS2X_FRAME_HEADER_SIZE_def DVBS2X_FRAME_CRC_SIZE_def
  DVBS2X_FRAME_MAX_PAYLOAD_def DVBS2X_FRAME_BBFRAME_def

text \<open>What \<^verbatim>\<open>htonl\<close> and \<^verbatim>\<open>htons\<close> leave in memory, and what \<^verbatim>\<open>ntohl\<close> and \<^verbatim>\<open>ntohs\<close> read.\<close>

definition htonl_bytes :: "u32 \<Rightarrow> u8 list" where
  "htonl_bytes w = [ucast (drop_bit 24 w), ucast (drop_bit 16 w), ucast (drop_bit 8 w), ucast w]"

definition htons_bytes :: "u16 \<Rightarrow> u8 list" where
  "htons_bytes w = [ucast (drop_bit 8 w), ucast w]"

definition ntohl_at :: "u8 list \<Rightarrow> nat \<Rightarrow> u32" where
  "ntohl_at b i =
     push_bit 24 (ucast (b ! i)) OR push_bit 16 (ucast (b ! (i + 1))) OR
     push_bit 8 (ucast (b ! (i + 2))) OR ucast (b ! (i + 3))"

definition ntohs_at :: "u8 list \<Rightarrow> nat \<Rightarrow> u16" where
  "ntohs_at b i = push_bit 8 (ucast (b ! i)) OR ucast (b ! (i + 1))"

text \<open>The header as it lies in memory.\<close>

definition frame_header_bytes :: "u32 \<Rightarrow> u16 \<Rightarrow> u8 \<Rightarrow> u16 \<Rightarrow> u8 list" where
  "frame_header_bytes sequence payload_len frame_type stream_id =
     htonl_bytes DVBS2X_FRAME_MAGIC @ htonl_bytes sequence @ htons_bytes payload_len @
     [frame_type, 0] @ [0, 0] @ htons_bytes stream_id"

definition dvbs2x_frame_encode ::
  "u8 list option \<Rightarrow> nat \<Rightarrow> u8 list option \<Rightarrow> nat \<Rightarrow> nat \<Rightarrow> u32 \<Rightarrow> u16 \<Rightarrow>
   errno + (nat \<times> u8 list)" where
  "dvbs2x_frame_encode buf_p buf_size payload_p payload_len frame_type sequence stream_id =
     (case (buf_p, payload_p) of
        (Some buf, Some payload) \<Rightarrow>
          if DVBS2X_FRAME_MAX_PAYLOAD < payload_len then Inl EINVAL
          else if DVBS2X_FRAME_BBFRAME < frame_type then Inl EINVAL
          else
            let total_size = DVBS2X_FRAME_HEADER_SIZE + payload_len + DVBS2X_FRAME_CRC_SIZE
            in if buf_size < total_size then Inl ENOSPC
               else
                 let buf = overwrite 0
                       (frame_header_bytes sequence (of_nat payload_len) (of_nat frame_type)
                         stream_id) buf;
                     buf = overwrite DVBS2X_FRAME_HEADER_SIZE (take payload_len payload) buf;
                     crc = dvbs2x_crc32 (drop 4 buf) (DVBS2X_FRAME_HEADER_SIZE - 4 + payload_len);
                     buf = overwrite (DVBS2X_FRAME_HEADER_SIZE + payload_len) (htonl_bytes crc) buf
                 in Inr (total_size, buf)
      | _ \<Rightarrow> Inl EINVAL)"

text \<open>The results of a decode; a null result pointer discards the value, and a null payload
  pointer skips the payload.\<close>

record decode_result =
  dr_len :: nat
  dr_payload :: "u8 list option"
  dr_frame_type :: u8
  dr_sequence :: u32
  dr_stream_id :: u16

definition dvbs2x_frame_decode ::
  "u8 list option \<Rightarrow> nat \<Rightarrow> u8 list option \<Rightarrow> nat \<Rightarrow> errno + decode_result" where
  "dvbs2x_frame_decode buf_p buf_len payload_p payload_size =
     (case buf_p of
        None \<Rightarrow> Inl EINVAL
      | Some buf \<Rightarrow>
          if buf_len < DVBS2X_FRAME_HEADER_SIZE + DVBS2X_FRAME_CRC_SIZE then Inl EINVAL
          else if ntohl_at buf 0 \<noteq> DVBS2X_FRAME_MAGIC then Inl EINVAL
          else
            let seq = ntohl_at buf 4;
                plen = unat (ntohs_at buf 8);
                sid = ntohs_at buf 14
            in if DVBS2X_FRAME_MAX_PAYLOAD < plen then Inl EINVAL
               else
                 let total_size = DVBS2X_FRAME_HEADER_SIZE + plen + DVBS2X_FRAME_CRC_SIZE
                 in if buf_len < total_size then Inl EINVAL
                    else
                      let crc_expected =
                            dvbs2x_crc32 (drop 4 buf) (DVBS2X_FRAME_HEADER_SIZE - 4 + plen);
                          crc_actual = ntohl_at buf (DVBS2X_FRAME_HEADER_SIZE + plen)
                      in if crc_expected \<noteq> crc_actual then Inl EBADMSG
                         else
                           case payload_p of
                             Some payload \<Rightarrow>
                               if payload_size < plen then Inl ENOSPC
                               else Inr \<lparr>dr_len = plen,
                                 dr_payload = Some (overwrite 0
                                   (take plen (drop DVBS2X_FRAME_HEADER_SIZE buf)) payload),
                                 dr_frame_type = buf ! 10, dr_sequence = seq, dr_stream_id = sid\<rparr>
                           | None \<Rightarrow> Inr \<lparr>dr_len = plen, dr_payload = None,
                               dr_frame_type = buf ! 10, dr_sequence = seq, dr_stream_id = sid\<rparr>)"

definition dvbs2x_seq_compare :: "u32 \<Rightarrow> u32 \<Rightarrow> int" where
  "dvbs2x_seq_compare a b = sint (a - b)"

definition dvbs2x_seq_after :: "u32 \<Rightarrow> u32 \<Rightarrow> bool" where
  "dvbs2x_seq_after a b \<longleftrightarrow> 0 < dvbs2x_seq_compare a b"

definition dvbs2x_seq_before :: "u32 \<Rightarrow> u32 \<Rightarrow> bool" where
  "dvbs2x_seq_before a b \<longleftrightarrow> dvbs2x_seq_compare a b < 0"

section \<open>Byte order\<close>

lemma length_htonl [simp, lens]: "length (htonl_bytes w) = 4" "length (htons_bytes v) = 2"
  by (simp_all add: htonl_bytes_def htons_bytes_def)

lemma length_header [simp, lens]: "length (frame_header_bytes q n t i) = 16"
  by (simp add: frame_header_bytes_def)

lemma join_bytes:
  fixes a b c d :: u8
  assumes "n < 32"
  shows "bit (push_bit 24 (ucast a) OR push_bit 16 (ucast b) OR push_bit 8 (ucast c) OR ucast d :: u32) n =
    (if n < 8 then bit d n else if n < 16 then bit c (n - 8)
     else if n < 24 then bit b (n - 16) else bit a (n - 24))"
proof -
  have big: "\<not> bit x k" if "8 \<le> k" for x :: u8 and k
    using bit_u8_less [of x k] that by auto
  consider "n < 8" | "8 \<le> n" "n < 16" | "16 \<le> n" "n < 24" | "24 \<le> n" by linarith
  then show ?thesis
    by cases (use assms in \<open>auto simp: bit_or_iff bit_push_bit_iff bit_ucast_iff big\<close>)
qed

lemma ntohl_htonl: "ntohl_at (xs @ htonl_bytes w @ ys) (length xs) = w"
proof -
  have "ntohl_at (xs @ htonl_bytes w @ ys) (length xs) =
      push_bit 24 (ucast (ucast (drop_bit 24 w) :: u8)) OR
      push_bit 16 (ucast (ucast (drop_bit 16 w) :: u8)) OR
      push_bit 8 (ucast (ucast (drop_bit 8 w) :: u8)) OR ucast (ucast w :: u8)" (is "_ = ?j")
    by (simp add: ntohl_at_def htonl_bytes_def nth_append)
  also have "?j = w"
  proof (rule bit_word_eqI)
    fix n assume "n < LENGTH(32)"
    then show "bit ?j n = bit w n"
      by (auto simp: join_bytes bit_ucast_iff bit_drop_bit_eq)
  qed
  finally show ?thesis .
qed

lemma ntohs_htons: "ntohs_at (xs @ htons_bytes w @ ys) (length xs) = w"
proof -
  have "ntohs_at (xs @ htons_bytes w @ ys) (length xs) =
      push_bit 8 (ucast (ucast (drop_bit 8 w) :: u8)) OR ucast (ucast w :: u8)" (is "_ = ?j")
    by (simp add: ntohs_at_def htons_bytes_def nth_append)
  also have "?j = w"
  proof (rule bit_word_eqI)
    fix n assume "n < LENGTH(16)"
    then show "bit ?j n = bit w n"
      by (cases "n < 8") (auto simp: bit_or_iff bit_push_bit_iff bit_ucast_iff bit_drop_bit_eq)
  qed
  finally show ?thesis .
qed

text \<open>Reading four bytes loses nothing of them.\<close>

lemma ntohl_at_bit:
  assumes "k < 4" "m < 8"
  shows "bit (ntohl_at b i) (8 * (3 - k) + m) = bit (b ! (i + k)) m"
proof -
  have "k = 0 \<or> k = 1 \<or> k = 2 \<or> k = 3" using assms(1) by arith
  then show ?thesis
    using assms(2) by (elim disjE) (simp_all add: ntohl_at_def join_bytes)
qed

lemma ntohl_at_changed:
  assumes "k < 4" and "b ! (i + k) \<noteq> b' ! (i + k)"
  shows "ntohl_at b i \<noteq> ntohl_at b' i"
proof
  assume eq: "ntohl_at b i = ntohl_at b' i"
  have "b ! (i + k) = b' ! (i + k)"
  proof (rule bit_word_eqI)
    fix m assume "m < LENGTH(8)"
    then show "bit (b ! (i + k)) m = bit (b' ! (i + k)) m"
      using ntohl_at_bit [OF assms(1), of m b i] ntohl_at_bit [OF assms(1), of m b' i] eq by simp
  qed
  then show False using assms(2) by simp
qed

section \<open>What an encoded buffer holds\<close>

lemma encode_result:
  assumes "dvbs2x_frame_encode (Some buf) (length buf) (Some payload) n ft q sid = Inr (tot, buf')"
    and "n \<le> length payload"
  defines "h \<equiv> frame_header_bytes q (of_nat n) (of_nat ft) sid"
  shows "n \<le> 65520" "ft \<le> 2" "tot = 20 + n" "tot \<le> length buf"
    "buf' = (h @ take n payload @ htonl_bytes (dvbs2x_crc32 (drop 4 (h @ take n payload)) (12 + n)))
      @ drop tot buf"
proof -
  have c: "n \<le> 65520" "ft \<le> 2" "tot = 20 + n" "tot \<le> length buf"
    using assms(1) by (auto simp: dvbs2x_frame_encode_def Let_def frame_const_defs split: if_splits)
  have b1: "overwrite 16 (take n payload) (overwrite 0 h buf) = h @ take n payload @ drop (16 + n) buf"
    using c assms(2) by (simp add: overwrite_def h_def add.commute [of n 16])
  have crc: "dvbs2x_crc32 (drop 4 (h @ take n payload @ drop (16 + n) buf)) (12 + n) =
      dvbs2x_crc32 (drop 4 (h @ take n payload)) (12 + n)"
    using assms(2) by (simp add: dvbs2x_crc32_def h_def)
  have "buf' = (let b = overwrite 16 (take n payload) (overwrite 0 h buf)
      in overwrite (16 + n) (htonl_bytes (dvbs2x_crc32 (drop 4 b) (12 + n))) b)"
    using assms(1) c
    by (auto simp: dvbs2x_frame_encode_def Let_def frame_const_defs h_def split: if_splits)
  then have "buf' = overwrite (16 + n)
      (htonl_bytes (dvbs2x_crc32 (drop 4 (h @ take n payload)) (12 + n)))
      (h @ take n payload @ drop (16 + n) buf)"
    unfolding b1 Let_def crc .
  then have "buf' = (h @ take n payload @
      htonl_bytes (dvbs2x_crc32 (drop 4 (h @ take n payload)) (12 + n))) @ drop tot buf"
    using assms(2) c by (simp add: overwrite_def h_def add.commute [of n 16])
  then show "n \<le> 65520" "ft \<le> 2" "tot = 20 + n" "tot \<le> length buf"
    "buf' = (h @ take n payload @ htonl_bytes (dvbs2x_crc32 (drop 4 (h @ take n payload)) (12 + n)))
      @ drop tot buf"
    using c by simp_all
qed

text \<open>Decoding a buffer with a given header, payload and checksum field.\<close>

lemma header_fields:
  fixes rest :: "u8 list" and q :: u32 and n sid :: u16 and ft :: u8
  defines "b \<equiv> frame_header_bytes q n ft sid @ rest"
  shows "ntohl_at b 0 = DVBS2X_FRAME_MAGIC" "ntohl_at b 4 = q" "ntohs_at b 8 = n" "b ! 10 = ft"
    "ntohs_at b 14 = sid"
proof -
  let ?m = "htonl_bytes DVBS2X_FRAME_MAGIC" and ?q = "htonl_bytes q" and ?n = "htons_bytes n"
    and ?s = "htons_bytes sid"
  have e: "b = ?m @ ?q @ ?n @ [ft, 0] @ [0, 0] @ ?s @ rest"
    by (simp add: b_def frame_header_bytes_def)
  show "ntohl_at (b) 0 = DVBS2X_FRAME_MAGIC"
    using ntohl_htonl [of "[]"] unfolding e by simp
  show "ntohl_at (b) 4 = q"
    using ntohl_htonl [of ?m q "?n @ [ft, 0] @ [0, 0] @ ?s @ rest"] unfolding e by simp
  show "ntohs_at (b) 8 = n"
    using ntohs_htons [of "?m @ ?q" n "[ft, 0] @ [0, 0] @ ?s @ rest"] unfolding e by simp
  show "b ! 10 = ft" unfolding e by (simp add: nth_append)
  show "ntohs_at (b) 14 = sid"
    using ntohs_htons [of "?m @ ?q @ ?n @ [ft, 0] @ [0, 0]" sid rest] unfolding e by simp
qed

lemma sint_u32: "sint (w :: u32) = uint w - (if bit (uint w) 31 then 2 ^ 32 else 0)"
  using unsigned_less [of w, where ?'a = int]
  by (simp add: sint_uint signed_take_bit_eq_take_bit_minus take_bit_int_eq_self)

section \<open>Properties\<close>

text \<open>C27: a frame that was encoded is decoded, from a buffer of at least its length, to the payload,
  type, sequence number and stream id that went in.\<close>

theorem frame_roundtrip:
  assumes "dvbs2x_frame_encode (Some buf) (length buf) (Some payload) n ft q sid = Inr (len, buf')"
    and "n \<le> length payload" and "n \<le> length out"
  shows "dvbs2x_frame_decode (Some buf') len (Some out) (length out) =
    Inr \<lparr>dr_len = n, dr_payload = Some (overwrite 0 (take n payload) out),
         dr_frame_type = of_nat ft, dr_sequence = q, dr_stream_id = sid\<rparr>"
proof -
  note e = encode_result [OF assms(1,2)]
  let ?h = "frame_header_bytes q (of_nat n) (of_nat ft) sid"
  let ?crc = "dvbs2x_crc32 (drop 4 (?h @ take n payload)) (12 + n)"
  have b: "buf' = ?h @ (take n payload @ htonl_bytes ?crc @ drop len buf)"
    unfolding e(5) by simp
  note f = header_fields [of q "of_nat n" "of_nat ft" sid
      "take n payload @ htonl_bytes ?crc @ drop len buf", folded b]
  have n16: "unat (of_nat n :: u16) = n" using e(1) by (simp add: unat_of_nat_small)
  have l: "length (?h @ take n payload) = 16 + n" using assms(2) by simp
  have c1: "dvbs2x_crc32 (drop 4 buf') (12 + n) = ?crc"
    unfolding b using assms(2) by (simp add: dvbs2x_crc32_def)
  have c2: "ntohl_at buf' (16 + n) = ?crc"
    using ntohl_htonl [of "?h @ take n payload" ?crc "drop len buf"] unfolding l b by simp
  have p: "take n (drop 16 buf') = take n payload" unfolding b using assms(2) by simp
  show ?thesis
    using e(1,3) assms(3) n16 c1 c2 p f
    by (simp add: dvbs2x_frame_decode_def Let_def frame_const_defs)
qed

theorem frame_roundtrip_witness:
  "dvbs2x_frame_decode (Some (snd (projr
     (dvbs2x_frame_encode (Some (replicate 30 0)) 30 (Some [7, 8, 9]) 3 1 42 5)))) 23
     (Some [0, 0, 0]) 3 =
   Inr \<lparr>dr_len = 3, dr_payload = Some [7, 8, 9], dr_frame_type = 1, dr_sequence = 42,
        dr_stream_id = 5\<rparr>"
proof -
  let ?e = "dvbs2x_frame_encode (Some (replicate 30 0)) (length (replicate 30 0 :: u8 list))
    (Some [7, 8, 9]) 3 1 42 5"
  have l: "length (replicate 30 0 :: u8 list) = 30" by (rule length_replicate)
  have "?e = Inr (23, snd (projr ?e))"
    unfolding l by (simp only: dvbs2x_frame_encode_def Let_def frame_const_defs option.case
        prod.case) simp
  from frame_roundtrip [OF this, of "[0, 0, 0]"] show ?thesis
    unfolding l by (simp add: overwrite_def numeral_eq_Suc)
qed

text \<open>What an encoded frame holds, and that a changed byte outside the length field shows in the magic number or the checksum.\<close>

lemma encoded_checks:
  assumes "dvbs2x_frame_encode (Some buf) (length buf) (Some payload) n ft q sid = Inr (len, buf')" "n \<le> length payload"
  shows "len \<le> length buf'" "ntohl_at buf' 0 = DVBS2X_FRAME_MAGIC" "ntohs_at buf' 8 = of_nat n"
    "ntohl_at buf' (16 + n) = dvbs2x_crc32 (drop 4 buf') (12 + n)"
proof -
  note e = encode_result [OF assms]
  let ?h = "frame_header_bytes q (of_nat n) (of_nat ft) sid"
  let ?crc = "dvbs2x_crc32 (drop 4 (?h @ take n payload)) (12 + n)"
  have b: "buf' = ?h @ (take n payload @ htonl_bytes ?crc @ drop len buf)"
    unfolding e(5) by simp
  note f = header_fields [of q "of_nat n" "of_nat ft" sid
      "take n payload @ htonl_bytes ?crc @ drop len buf", folded b]
  show "len \<le> length buf'" unfolding b using assms(2) e(3,4) by simp
  show "ntohl_at buf' 0 = DVBS2X_FRAME_MAGIC" "ntohs_at buf' 8 = of_nat n" using f(1,3) by simp_all
  have l: "length (?h @ take n payload) = 16 + n" using assms(2) by simp
  have "dvbs2x_crc32 (drop 4 buf') (12 + n) = ?crc"
    unfolding b using assms(2) by (simp add: dvbs2x_crc32_def)
  moreover have "ntohl_at buf' (16 + n) = ?crc"
    using ntohl_htonl [of "?h @ take n payload" ?crc "drop len buf"] unfolding l b by simp
  ultimately show "ntohl_at buf' (16 + n) = dvbs2x_crc32 (drop 4 buf') (12 + n)" by simp
qed

lemma corruption_visible:
  assumes "ntohl_at b 0 = DVBS2X_FRAME_MAGIC" "ntohl_at b (16 + n) = dvbs2x_crc32 (drop 4 b) (12 + n)"
    and "20 + n \<le> length b" "i < 20 + n" "v \<noteq> b ! i"
  shows "ntohl_at (b[i := v]) 0 \<noteq> DVBS2X_FRAME_MAGIC \<or>
    dvbs2x_crc32 (drop 4 (b[i := v])) (12 + n) \<noteq> ntohl_at (b[i := v]) (16 + n)"
proof -
  let ?b = "b[i := v]"
  consider (magic) "i < 4" | (body) "4 \<le> i" "i < 16 + n" | (crc) "16 + n \<le> i" by linarith
  then show ?thesis
  proof cases
    case magic
    then have "?b ! (0 + i) \<noteq> b ! (0 + i)" using assms(3,5) by simp
    then have "ntohl_at ?b 0 \<noteq> ntohl_at b 0" by (rule ntohl_at_changed [OF magic])
    then show ?thesis using assms(1) by simp
  next
    case body
    have "drop 4 ?b = (drop 4 b)[i - 4 := v]" using body by (simp add: drop_update_swap)
    moreover have "drop 4 b ! (i - 4) = b ! i" using body assms(3) by simp
    ultimately have "dvbs2x_crc32 (drop 4 ?b) (12 + n) \<noteq> dvbs2x_crc32 (drop 4 b) (12 + n)"
      using crc32_corrupted [of "i - 4" "12 + n" "drop 4 b" v] body assms(3,5) by simp
    moreover have "ntohl_at ?b (16 + n) = ntohl_at b (16 + n)" using body by (simp add: ntohl_at_def)
    ultimately show ?thesis using assms(2) by simp
  next
    case crc
    define k where "k = i - (16 + n)"
    have k: "k < 4" "i = 16 + n + k" using crc assms(4) by (auto simp: k_def)
    have "?b ! (16 + n + k) \<noteq> b ! (16 + n + k)" using assms(3-5) k(2) by simp
    then have "ntohl_at ?b (16 + n) \<noteq> ntohl_at b (16 + n)" by (rule ntohl_at_changed [OF k(1)])
    moreover have "take (12 + n) (drop 4 ?b) = take (12 + n) (drop 4 b)"
      using crc by (simp add: drop_update_swap)
    then have "dvbs2x_crc32 (drop 4 ?b) (12 + n) = dvbs2x_crc32 (drop 4 b) (12 + n)"
      by (simp add: dvbs2x_crc32_def)
    ultimately show ?thesis using assms(2) by simp
  qed
qed





text \<open>Sequence numbers compare as if they did not wrap, as long as they are less than half
  the range apart, and are equal exactly when the comparison is 0.\<close>

theorem seq_compare_wraps:
  assumes "0 < d" and "d < 2 ^ 31"
  shows "dvbs2x_seq_after (a + of_nat d) a \<and> dvbs2x_seq_before a (a + of_nat d) \<and>
    dvbs2x_seq_compare (a + of_nat d) a = int d \<and> (dvbs2x_seq_compare a b = 0) = (a = b)"
proof -
  have u: "uint (of_nat d :: u32) = int d"
    using assms(2) by (simp add: uint_nat unat_of_nat_small)
  have s: "sint (of_nat d :: u32) = int d"
    using assms(2) by (simp add: sint_u32 u bit_iff_odd)
  have "uint (- of_nat d :: u32) = 2 ^ 32 - int d"
    using assms by (simp add: uint_word_ariths u zmod_zminus1_eq_if)
  moreover have "0 < int d" "int d < 2147483648" using assms by simp_all
  then have "(4294967296 - int d) div 2147483648 = 1" by (intro int_div_pos_eq [where r = "2147483648 - int d"]) simp_all
  ultimately have n: "sint (- of_nat d :: u32) < 0"
    using assms by (simp add: sint_u32 bit_iff_odd)
  have z: "sint w = 0 \<longleftrightarrow> w = 0" for w :: u32
    by (metis signed_0 signed_word_eqI)
  show ?thesis
    using assms s n by (simp add: dvbs2x_seq_after_def dvbs2x_seq_before_def dvbs2x_seq_compare_def z)
qed

theorem seq_compare_wraps_witness:
  "dvbs2x_seq_after 2 0xFFFFFFFE \<and> dvbs2x_seq_before 0xFFFFFFFE 2"
proof -
  have "(0xFFFFFFFE :: u32) + of_nat 4 = 2" by simp
  note e = this
  show ?thesis using seq_compare_wraps [of 4 "0xFFFFFFFE" 0, unfolded e] by simp
qed

end
