(* ===== verification/LdpcTables.thy ===== *)
theory LdpcTables
  imports Modcod
begin

text \<open>
  The parity address tables of \<^verbatim>\<open>tables/ldpc_tables.c\<close> and \<^verbatim>\<open>tables/ldpc_tables_extra.c\<close> and the
  selection of a table in \<^verbatim>\<open>src/ldpc_tables.c\<close>.  An entry is the C struct: a count and an array of
  32 addresses whose unlisted elements are zero.  \<open>table_ok\<close> is what the encoder and the decoder
  rely on; \<open>get_table_ok\<close> shows it of the table selected for each of the nine MODCODs.
\<close>

section \<open>Entries and tables\<close>

definition DVBS2X_LDPC_MAX_ROW_WEIGHT :: nat where "DVBS2X_LDPC_MAX_ROW_WEIGHT = 32"

record dvbs2x_ldpc_table_entry =
  num_addrs :: nat
  addrs :: "nat list"

text \<open>A brace initialiser: the elements it does not list are zero.\<close>

definition entry :: "nat \<Rightarrow> nat list \<Rightarrow> dvbs2x_ldpc_table_entry" where
  "entry n as =
     \<lparr>num_addrs = n, addrs = as @ replicate (DVBS2X_LDPC_MAX_ROW_WEIGHT - length as) 0\<rparr>"

definition table_n64800_r2_9 :: "dvbs2x_ldpc_table_entry list" where
  "table_n64800_r2_9 =
     [entry 11 [5332, 8018, 35444, 13098, 9655, 41945, 44273, 22741, 9371, 8727, 43219],
      entry 11 [41410, 43593, 14611, 46707, 16041, 1459, 29246, 12748, 32996, 676, 46909],
      entry 11 [9340, 35072, 35640, 17537, 10512, 44339, 30965, 25175, 9918, 21079, 29835],
      entry 11 [3332, 12088, 47966, 25168, 50180, 42842, 40914, 46726, 17073, 41812, 34356],
      entry 11 [15159, 2209, 7971, 22590, 20020, 27567, 4853, 10294, 38839, 15314, 49808],
      entry 11 [20936, 14497, 23365, 22630, 38728, 28361, 34659, 956, 8559, 44957, 22222],
      entry 11 [28043, 4641, 25208, 47039, 30612, 25796, 14661, 44139, 27335, 12884, 6980],
      entry 11 [32584, 33453, 1867, 20185, 36106, 30357, 809, 28513, 46045, 27862, 4802],
      entry 11 [43744, 13375, 36066, 23604, 30766, 6233, 45051, 23660, 20815, 19525, 25207],
      entry 11 [27522, 3854, 9311, 21925, 41107, 25773, 26323, 24237, 24344, 46187, 44503],
      entry 11 [10256, 20038, 12177, 26635, 5214, 14191, 34404, 45807, 4938, 4173, 31344],
      entry 11 [32043, 26501, 46725, 4648, 16718, 31060, 26633, 19036, 14222, 13886, 26535],
      entry 11 [18103, 8498, 36814, 34600, 36495, 36712, 29833, 27396, 11877, 42861, 1834],
      entry 11 [36592, 1645, 3649, 30521, 14674, 3630, 890, 13307, 41412, 24682, 9907],
      entry 11 [4401, 44543, 13784, 5828, 32862, 25179, 29736, 39614, 5186, 49749, 38317],
      entry 11 [41460, 39101, 50080, 40137, 32691, 26528, 35332, 44067, 8467, 14286, 10470],
      entry 11 [12211, 34019, 37870, 36918, 36419, 33153, 50070, 41498, 47741, 30538, 12342],
      entry 11 [33751, 23988, 33624, 41882, 34075, 25552, 3106, 17611, 13190, 29336, 312],
      entry 11 [5667, 35483, 35460, 16153, 37267, 28308, 50009, 46345, 34204, 32756, 38243],
      entry 11 [5657, 24157, 36834, 6890, 49576, 46244, 43875, 16738, 47225, 2944, 36882],
      entry 3 [30341, 48485, 3700],
      entry 3 [14451, 20438, 18875],
      entry 3 [13634, 41138, 42962],
      entry 3 [46459, 13369, 27974],
      entry 3 [21493, 14629, 2369],
      entry 3 [11351, 40226, 42457],
      entry 3 [34749, 39000, 3912],
      entry 3 [18128, 46776, 47055],
      entry 3 [2221, 26806, 11345],
      entry 3 [35143, 630, 2229],
      entry 3 [44009, 41295, 34646],
      entry 3 [32163, 16657, 26544],
      entry 3 [31770, 23641, 43623],
      entry 3 [45826, 10902, 39490],
      entry 3 [7514, 20480, 28511],
      entry 3 [11429, 19834, 35430],
      entry 3 [50112, 38163, 5738],
      entry 3 [16191, 16862, 6783],
      entry 3 [6085, 39149, 34988],
      entry 3 [41497, 32023, 28688]]"

definition table_n32400_r1_5 :: "dvbs2x_ldpc_table_entry list" where
  "table_n32400_r1_5 =
     [entry 13 [18222, 6715, 4908, 21568, 22821, 11708, 4769, 4495, 22243, 25872, 9051, 19072,
        13956],
      entry 13 [2038, 5205, 21215, 21009, 9584, 2403, 23652, 20866, 20130, 677, 9509, 6136,
        773],
      entry 13 [19936, 14590, 17829, 473, 4432, 23171, 11386, 17937, 22084, 24450, 267, 8822,
        19335],
      entry 13 [16376, 16769, 5111, 9794, 18907, 827, 12385, 12370, 21647, 10938, 23619,
        11633, 15865],
      entry 13 [23417, 7631, 12243, 21546, 4192, 22117, 14757, 4118, 9686, 17021, 8531, 15989,
        8807],
      entry 13 [15533, 16584, 18529, 19699, 17821, 4252, 1254, 5952, 3163, 20295, 6944, 1022,
        19743],
      entry 13 [129, 16579, 23524, 25897, 14690, 11222, 16250, 9925, 4268, 999, 7102, 24528,
        152],
      entry 13 [18361, 3708, 3454, 16604, 1551, 5809, 20324, 4775, 22418, 19091, 19674, 10975,
        7327],
      entry 13 [24133, 10950, 22779, 11388, 13818, 20668, 7556, 12333, 16446, 19684, 12510,
        25118, 8162],
      entry 3 [17026, 6850, 1269],
      entry 3 [21895, 7137, 25270],
      entry 3 [11858, 24153, 13303],
      entry 3 [7885, 16438, 12805],
      entry 3 [10473, 15004, 8052],
      entry 3 [2088, 10379, 10067],
      entry 3 [21438, 13426, 10440],
      entry 3 [17696, 727, 12164],
      entry 3 [22623, 8408, 17849]]"

definition table_n32400_r11_45 :: "dvbs2x_ldpc_table_entry list" where
  "table_n32400_r11_45 =
     [entry 10 [20617, 6867, 14845, 11974, 22563, 190, 17207, 4052, 7406, 16007],
      entry 10 [21448, 14846, 2543, 23380, 16633, 20365, 16869, 13411, 19853, 795],
      entry 10 [5200, 2330, 2775, 23620, 20643, 10745, 14742, 6493, 14222, 20939],
      entry 10 [9445, 9523, 12769, 7332, 21792, 18717, 16397, 14016, 9481, 22162],
      entry 10 [2922, 6427, 4497, 4116, 17658, 2581, 14364, 3781, 18851, 22974],
      entry 10 [10383, 2184, 1433, 3889, 12828, 17424, 17580, 20936, 1390, 21374],
      entry 10 [425, 2063, 22398, 20907, 9445, 14790, 4457, 723, 7048, 4072],
      entry 10 [11771, 9640, 23212, 9613, 12042, 8335, 21386, 20129, 13521, 16301],
      entry 10 [14867, 12501, 1086, 21526, 17701, 17731, 20907, 8790, 19224, 5784],
      entry 10 [7107, 19690, 17616, 5800, 9501, 23320, 16878, 794, 15931, 17539],
      entry 3 [4556, 21783, 1524],
      entry 3 [20100, 11706, 23663],
      entry 3 [2535, 15530, 6116],
      entry 3 [12078, 3867, 2663],
      entry 3 [19629, 20246, 7024],
      entry 3 [11748, 11426, 19802],
      entry 3 [15942, 12333, 5316],
      entry 3 [11521, 3170, 17818],
      entry 3 [2289, 23780, 16575],
      entry 3 [6649, 16991, 13025],
      entry 3 [20050, 10619, 10250],
      entry 3 [3944, 13063, 5656]]"

definition table_n32400_r1_3 :: "dvbs2x_ldpc_table_entry list" where
  "table_n32400_r1_3 =
     [entry 12 [7416, 4093, 16722, 1023, 20586, 12219, 9175, 16284, 1554, 10113, 19849, 17545],
      entry 12 [13140, 3257, 2110, 13888, 3023, 1537, 1598, 15018, 18931, 13905, 10617, 1014],
      entry 12 [339, 14366, 3309, 15360, 18358, 3196, 4412, 6023, 7070, 17380, 2777, 6691],
      entry 12 [12720, 17634, 4141, 1400, 8247, 18201, 16077, 11314, 11928, 3494, 3155, 2865],
      entry 12 [21038, 6928, 3860, 1943, 20292, 6526, 12939, 15182, 3957, 5651, 356, 2673],
      entry 12 [20555, 17905, 5724, 13932, 1218, 17763, 5912, 5164, 6233, 6220, 1277, 19209],
      entry 12 [19190, 4498, 4950, 6645, 5482, 5667, 13701, 16334, 15231, 735, 8589, 12344],
      entry 12 [679, 17849, 17807, 16033, 10181, 3368, 5778, 8275, 2736, 14042, 17506, 6005],
      entry 12 [1576, 10259, 10525, 3007, 16522, 697, 7726, 8641, 14323, 2893, 8168, 11070],
      entry 12 [17270, 10180, 18740, 847, 4969, 14715, 19316, 5530, 17428, 11193, 9861, 13562],
      entry 3 [6156, 18787, 10467],
      entry 3 [2422, 3723, 10769],
      entry 3 [8015, 18716, 13406],
      entry 3 [5969, 15949, 3084],
      entry 3 [6855, 13990, 3764],
      entry 3 [10351, 15779, 10392],
      entry 3 [16078, 19034, 11279],
      entry 3 [11747, 6608, 4188],
      entry 3 [19699, 8928, 8045],
      entry 3 [4598, 7219, 11391],
      entry 3 [19766, 11871, 5692],
      entry 3 [7487, 15905, 17621],
      entry 3 [8554, 7751, 16516],
      entry 3 [4981, 20250, 16146],
      entry 3 [12524, 21364, 10793],
      entry 3 [17083, 2051, 8862],
      entry 3 [1315, 6246, 7721],
      entry 3 [18043, 16652, 5502],
      entry 3 [1432, 5674, 2224],
      entry 3 [11257, 1312, 8453]]"

definition table_n16200_r1_5 :: "dvbs2x_ldpc_table_entry list" where
  "table_n16200_r1_5 =
     [entry 12 [6295, 9626, 304, 7695, 4839, 4936, 1660, 144, 11203, 5567, 6347, 12557],
      entry 12 [10691, 4988, 3859, 3734, 3071, 3494, 7687, 10313, 5964, 8069, 8296, 11090],
      entry 12 [10774, 3613, 5208, 11177, 7676, 3549, 8746, 6583, 7239, 12265, 2674, 4292],
      entry 12 [11869, 3708, 5981, 8718, 4908, 10650, 6805, 3334, 2627, 10461, 9285, 11120],
      entry 3 [7844, 3079, 10773],
      entry 3 [3385, 10854, 5747],
      entry 3 [1360, 12010, 12202],
      entry 3 [6189, 4241, 2343],
      entry 3 [9840, 12726, 4977]]"

definition table_n16200_r11_45 :: "dvbs2x_ldpc_table_entry list" where
  "table_n16200_r11_45 =
     [entry 10 [9054, 9186, 12155, 1000, 7383, 6459, 2992, 4723, 8135, 11250],
      entry 10 [2624, 9237, 7139, 12238, 11962, 4361, 5292, 10967, 11036, 8105],
      entry 10 [2044, 11996, 5654, 7568, 7002, 3549, 4767, 8767, 2872, 8345],
      entry 10 [6966, 8473, 5180, 8084, 3359, 5051, 9576, 5139, 1893, 902],
      entry 10 [3041, 3801, 8252, 11951, 909, 8535, 1038, 8400, 3200, 4585],
      entry 3 [5291, 10484, 10872],
      entry 3 [442, 7516, 3720],
      entry 3 [11469, 769, 10998],
      entry 3 [10575, 1436, 2935],
      entry 3 [6905, 8610, 11285],
      entry 3 [1873, 5634, 6383]]"

definition table_n16200_r4_15 :: "dvbs2x_ldpc_table_entry list" where
  "table_n16200_r4_15 =
     [entry 21 [1953, 2331, 2545, 2623, 4653, 5012, 5700, 6458, 6875, 7605, 7694, 7881, 8416,
        8758, 9181, 9555, 9578, 9932, 10068, 11479, 11699],
      entry 21 [514, 784, 2059, 2129, 2386, 2454, 3396, 5184, 6624, 6825, 7533, 7861, 9116,
        9473, 9601, 10432, 11011, 11159, 11378, 11528, 11598],
      entry 21 [483, 1303, 1735, 2291, 3302, 3648, 4222, 4522, 5511, 6626, 6804, 7404, 7752,
        7982, 8108, 8930, 9151, 9793, 9876, 10786, 11879],
      entry 4 [1956, 7572, 9020, 9971],
      entry 4 [13, 1578, 7445, 8373],
      entry 4 [6805, 6857, 8615, 11179],
      entry 4 [7983, 8022, 10017, 11748],
      entry 4 [4939, 8861, 10444, 11661],
      entry 4 [2278, 3733, 6265, 10009],
      entry 3 [4494, 7974, 10649],
      entry 3 [8909, 11030, 11696],
      entry 3 [3131, 9964, 10480]]"

definition table_n16200_r1_3 :: "dvbs2x_ldpc_table_entry list" where
  "table_n16200_r1_3 =
     [entry 12 [416, 8909, 4156, 3216, 3112, 2560, 2912, 6405, 8593, 4969, 6723, 6912],
      entry 12 [8978, 3011, 4339, 9312, 6396, 2957, 7288, 5485, 6031, 10218, 2226, 3575],
      entry 12 [3383, 10059, 1114, 10008, 10147, 9384, 4290, 434, 5139, 3536, 1965, 2291],
      entry 12 [2797, 3693, 7615, 7077, 743, 1941, 8716, 6215, 3840, 5140, 4582, 5420],
      entry 12 [6110, 8551, 1515, 7404, 4879, 4946, 5383, 1831, 3441, 9569, 10472, 4306],
      entry 3 [1505, 5682, 7778],
      entry 3 [7172, 6830, 6623],
      entry 3 [7281, 3941, 3505],
      entry 3 [10270, 8669, 914],
      entry 3 [3622, 7563, 9388],
      entry 3 [9930, 5058, 4554],
      entry 3 [4844, 9609, 2707],
      entry 3 [6883, 3237, 1714],
      entry 3 [4768, 3878, 10017],
      entry 3 [10127, 3334, 8267]]"

lemmas ldpc_table_defs =
  table_n64800_r2_9_def table_n32400_r1_5_def table_n32400_r11_45_def table_n32400_r1_3_def
  table_n16200_r1_5_def table_n16200_r11_45_def table_n16200_r4_15_def table_n16200_r1_3_def

section \<open>Table selection\<close>

definition dvbs2x_ldpc_get_table ::
  "dvbs2x_modcod \<Rightarrow> dvbs2x_ldpc_table_entry list option \<times> nat" where
  "dvbs2x_ldpc_get_table mc =
     (let k = mc_k_ldpc mc;
          num_groups = k div DVBS2X_LDPC_PARALLEL;
          den = mc_code_rate_den mc;
          table =
            (if mc_fec_len mc = DVBS2X_LDPC_NORMAL then Some table_n64800_r2_9
             else if mc_fec_len mc = DVBS2X_LDPC_MEDIUM then
               (if den = 5 then Some table_n32400_r1_5
                else if den = 45 then Some table_n32400_r11_45
                else if den = 3 then Some table_n32400_r1_3
                else None)
             else if mc_fec_len mc = DVBS2X_LDPC_SHORT then
               (if den = 5 then Some table_n16200_r1_5
                else if den = 45 then Some table_n16200_r11_45
                else if den = 15 then Some table_n16200_r4_15
                else if den = 3 then Some table_n16200_r1_3
                else None)
             else None)
      in (table, num_groups))"

section \<open>Consistency\<close>

text \<open>Every count is within the array, and every address counted is a parity position; the
  addresses of an entry are distinct, so no parity check meets a bit twice.\<close>

definition entry_ok :: "nat \<Rightarrow> dvbs2x_ldpc_table_entry \<Rightarrow> bool" where
  "entry_ok m e \<longleftrightarrow>
     length (addrs e) = DVBS2X_LDPC_MAX_ROW_WEIGHT \<and> 0 < num_addrs e \<and>
     num_addrs e \<le> DVBS2X_LDPC_MAX_ROW_WEIGHT \<and>
     list_all (\<lambda>x. x < m) (take (num_addrs e) (addrs e)) \<and>
     distinct (take (num_addrs e) (addrs e))"

definition table_ok :: "nat \<Rightarrow> nat \<Rightarrow> dvbs2x_ldpc_table_entry list \<Rightarrow> bool" where
  "table_ok m groups t \<longleftrightarrow> length t = groups \<and> list_all (entry_ok m) t"

lemma entry_ok_entry:
  "length as = n \<Longrightarrow> 0 < n \<Longrightarrow> n \<le> 32 \<Longrightarrow> list_all (\<lambda>x. x < m) as \<Longrightarrow> distinct as \<Longrightarrow>
     entry_ok m (entry n as)"
  by (simp add: entry_ok_def entry_def DVBS2X_LDPC_MAX_ROW_WEIGHT_def)

lemma table_n64800_r2_9_ok: "table_ok 50400 40 table_n64800_r2_9"
  by (simp add: table_ok_def table_n64800_r2_9_def entry_ok_entry)

lemma table_n32400_r1_5_ok: "table_ok 25920 18 table_n32400_r1_5"
  by (simp add: table_ok_def table_n32400_r1_5_def entry_ok_entry)

lemma table_n32400_r11_45_ok: "table_ok 24480 22 table_n32400_r11_45"
  by (simp add: table_ok_def table_n32400_r11_45_def entry_ok_entry)

lemma table_n32400_r1_3_ok: "table_ok 21600 30 table_n32400_r1_3"
  by (simp add: table_ok_def table_n32400_r1_3_def entry_ok_entry)

lemma table_n16200_r1_5_ok: "table_ok 12960 9 table_n16200_r1_5"
  by (simp add: table_ok_def table_n16200_r1_5_def entry_ok_entry)

lemma table_n16200_r11_45_ok: "table_ok 12240 11 table_n16200_r11_45"
  by (simp add: table_ok_def table_n16200_r11_45_def entry_ok_entry)

lemma table_n16200_r4_15_ok: "table_ok 11880 12 table_n16200_r4_15"
  by (simp add: table_ok_def table_n16200_r4_15_def entry_ok_entry)

lemma table_n16200_r1_3_ok: "table_ok 10800 15 table_n16200_r1_3"
  by (simp add: table_ok_def table_n16200_r1_3_def entry_ok_entry)

text \<open>Addresses that agree modulo \<open>q\<close> meet in the same checks; no residue has more than three of
  them, and residue 0 has one.  The check splits the residues by their binary digits, lowest first.\<close>

definition table_addrs :: "dvbs2x_ldpc_table_entry list \<Rightarrow> nat list" where
  "table_addrs t = concat (map (\<lambda>e. take (num_addrs e) (addrs e)) t)"

definition residues_ok :: "nat \<Rightarrow> dvbs2x_ldpc_table_entry list \<Rightarrow> bool" where
  "residues_ok q t \<longleftrightarrow> (\<forall>r. count_list (map (\<lambda>x. x mod q) (table_addrs t)) r \<le> 3) \<and>
     list_ex (\<lambda>x. x mod q = 0) (table_addrs t)"

fun split_count :: "nat \<Rightarrow> nat list \<Rightarrow> bool" where
  "split_count 0 xs = (length xs \<le> 3)"
| "split_count (Suc d) xs =
     (split_count d (map (\<lambda>x. x div 2) (filter even xs)) \<and>
      split_count d (map (\<lambda>x. x div 2) (filter odd xs)))"

lemma count_list_by_parity:
  "count_list xs r \<le> count_list (map (\<lambda>x. x div 2) (filter (\<lambda>x. even x = even r) xs)) (r div (2 :: nat))"
  by (induction xs) auto

lemma split_count_bound: "split_count d xs \<Longrightarrow> count_list xs r \<le> 3"
proof (induction d arbitrary: xs r)
  case 0
  then show ?case using count_le_length [of xs r] by simp
next
  case (Suc d)
  have "split_count d (map (\<lambda>x. x div 2) (filter (\<lambda>x. even x = even r) xs))"
    using Suc.prems by (cases "even r") simp_all
  from Suc.IH [OF this, of "r div 2"] count_list_by_parity [of xs r] show ?case by simp
qed

lemma residues_okI:
  "split_count d (map (\<lambda>x. x mod q) (table_addrs t)) \<Longrightarrow>
     list_ex (\<lambda>x. x mod q = 0) (table_addrs t) \<Longrightarrow> residues_ok q t"
  by (simp add: residues_ok_def split_count_bound)

lemma table_addrs_simps:
  "table_addrs [] = []"
  "length as = n \<Longrightarrow> table_addrs (entry n as # t) = as @ table_addrs t"
  by (simp_all add: table_addrs_def entry_def)

lemma table_n64800_r2_9_residues: "residues_ok 140 table_n64800_r2_9"
  unfolding table_n64800_r2_9_def by (rule residues_okI [where d = "Suc (Suc (Suc (Suc (Suc (Suc (Suc (Suc 0)))))))"]) (simp_all add: table_addrs_simps)

lemma table_n32400_r1_5_residues: "residues_ok 72 table_n32400_r1_5"
  unfolding table_n32400_r1_5_def by (rule residues_okI [where d = "Suc (Suc (Suc (Suc (Suc (Suc (Suc 0))))))"]) (simp_all add: table_addrs_simps)

lemma table_n32400_r11_45_residues: "residues_ok 68 table_n32400_r11_45"
  unfolding table_n32400_r11_45_def by (rule residues_okI [where d = "Suc (Suc (Suc (Suc (Suc (Suc (Suc 0))))))"]) (simp_all add: table_addrs_simps)

lemma table_n32400_r1_3_residues: "residues_ok 60 table_n32400_r1_3"
  unfolding table_n32400_r1_3_def by (rule residues_okI [where d = "Suc (Suc (Suc (Suc (Suc (Suc 0)))))"]) (simp_all add: table_addrs_simps)

lemma table_n16200_r1_5_residues: "residues_ok 36 table_n16200_r1_5"
  unfolding table_n16200_r1_5_def by (rule residues_okI [where d = "Suc (Suc (Suc (Suc (Suc (Suc 0)))))"]) (simp_all add: table_addrs_simps)

lemma table_n16200_r11_45_residues: "residues_ok 34 table_n16200_r11_45"
  unfolding table_n16200_r11_45_def by (rule residues_okI [where d = "Suc (Suc (Suc (Suc (Suc (Suc 0)))))"]) (simp_all add: table_addrs_simps)

lemma table_n16200_r4_15_residues: "residues_ok 33 table_n16200_r4_15"
  unfolding table_n16200_r4_15_def by (rule residues_okI [where d = "Suc (Suc (Suc (Suc (Suc (Suc 0)))))"]) (simp_all add: table_addrs_simps)

lemma table_n16200_r1_3_residues: "residues_ok 30 table_n16200_r1_3"
  unfolding table_n16200_r1_3_def by (rule residues_okI [where d = "Suc (Suc (Suc (Suc (Suc (Suc 0)))))"]) (simp_all add: table_addrs_simps)

lemmas ldpc_tables_residues =
  table_n64800_r2_9_residues table_n32400_r1_5_residues table_n32400_r11_45_residues
  table_n32400_r1_3_residues table_n16200_r1_5_residues table_n16200_r11_45_residues
  table_n16200_r4_15_residues table_n16200_r1_3_residues

lemmas ldpc_tables_ok =
  table_n64800_r2_9_ok table_n32400_r1_5_ok table_n32400_r11_45_ok table_n32400_r1_3_ok
  table_n16200_r1_5_ok table_n16200_r11_45_ok table_n16200_r4_15_ok table_n16200_r1_3_ok

text \<open>The table of a MODCOD has one row per group of 360 information bits, and its addresses are
  parity positions.\<close>

lemma get_table_ok:
  assumes "mc \<in> set vlsnr_modcod_table"
  obtains t where "dvbs2x_ldpc_get_table mc = (Some t, mc_k_ldpc mc div 360)"
    "table_ok (mc_fec_len mc - mc_k_ldpc mc) (mc_k_ldpc mc div 360) t"
    "residues_ok (mc_q_ldpc mc) t"
  using modcod_cases [OF assms]
  by (elim disjE) (auto simp: dvbs2x_ldpc_get_table_def modcod_defs const_defs ldpc_tables_ok
      ldpc_tables_residues)

end
