(* ===== verification/Ldpc.thy ===== *)
theory Ldpc
  imports LdpcTables
begin

text \<open>
  The LDPC encoder of \<^verbatim>\<open>src/ldpc_encode.c\<close> and the sparse parity-check matrix that
  \<^verbatim>\<open>src/ldpc_decode.c\<close> builds (\<^verbatim>\<open>build_csr\<close>).  The two files walk the address tables on their
  own: the encoder reduces an address by one subtraction and keeps a running shift, the matrix
  builder multiplies and takes a remainder, in two passes over preallocated arrays.  The lemmas show
  that the matrix is the list of edges \<open>csr_edges\<close> sorted by row, and that the words satisfying all
  its checks are exactly the encoder's.  Indices are natural numbers: every product and sum
  stays below \<open>2 * m\<close>, far from \<open>2 ^ 32\<close>.
\<close>

section \<open>Encoder\<close>

record dvbs2x_ldpc_code =
  code_n :: nat
  code_k :: nat
  code_q :: nat
  code_num_groups :: nat
  code_table :: "dvbs2x_ldpc_table_entry list"

record dvbs2x_ldpc_encoder =
  enc_code :: dvbs2x_ldpc_code
  enc_xp :: nat
  enc_p_period :: nat
  enc_xs :: nat

definition dvbs2x_ldpc_encoder_init :: "dvbs2x_modcod \<Rightarrow> dvbs2x_ldpc_encoder option" where
  "dvbs2x_ldpc_encoder_init mc =
     (case dvbs2x_ldpc_get_table mc of
        (None, _) \<Rightarrow> None
      | (Some table, num_groups) \<Rightarrow>
          Some \<lparr>enc_code = \<lparr>code_n = mc_fec_len mc, code_k = mc_k_ldpc mc, code_q = mc_q_ldpc mc,
                            code_num_groups = num_groups, code_table = table\<rparr>,
                enc_xp = mc_xp mc, enc_p_period = mc_p_period mc, enc_xs = mc_xs mc\<rparr>)"

definition parity_addr :: "nat \<Rightarrow> nat \<Rightarrow> nat \<Rightarrow> nat" where
  "parity_addr m a shift = (let addr = a + shift in if m \<le> addr then addr - m else addr)"

definition flip :: "nat \<Rightarrow> u8 list \<Rightarrow> u8 list" where
  "flip addr parity = parity[addr := parity ! addr XOR 1]"

text \<open>One information bit, and one group of 360 of them.\<close>

definition encode_bit ::
  "dvbs2x_ldpc_code \<Rightarrow> u8 list \<Rightarrow> nat \<Rightarrow> nat \<Rightarrow> u8 list \<times> nat \<Rightarrow> u8 list \<times> nat" where
  "encode_bit code info grp j st =
     (let m = code_n code - code_k code;
          entry = code_table code ! grp;
          bit_idx = grp * DVBS2X_LDPC_PARALLEL + j;
          (parity, shift) = st
      in (if info ! bit_idx \<noteq> 0
          then fold (\<lambda>a. flip (parity_addr m (addrs entry ! a) shift)) [0..<num_addrs entry] parity
          else parity,
          shift + code_q code))"

definition encode_group ::
  "dvbs2x_ldpc_code \<Rightarrow> u8 list \<Rightarrow> nat \<Rightarrow> u8 list \<Rightarrow> u8 list" where
  "encode_group code info grp parity =
     fst (fold (encode_bit code info grp) [0..<DVBS2X_LDPC_PARALLEL] (parity, 0))"

definition accumulate :: "nat \<Rightarrow> u8 list \<Rightarrow> u8 list" where
  "accumulate m parity = fold (\<lambda>i p. p[i := p ! i XOR p ! (i - 1)]) [1..<m] parity"

text \<open>The contents of \<^verbatim>\<open>codeword\<close> on return; the function always returns 0.\<close>

definition dvbs2x_ldpc_encode :: "dvbs2x_ldpc_encoder \<Rightarrow> u8 list \<Rightarrow> u8 list" where
  "dvbs2x_ldpc_encode enc info =
     (let code = enc_code enc;
          k = code_k code;
          m = code_n code - k;
          parity = fold (encode_group code info) [0..<code_num_groups code] (replicate m 0)
      in take k info @ accumulate m parity)"

section \<open>Parity-check matrix\<close>

record ldpc_csr =
  csr_num_rows :: nat
  csr_num_cols :: nat
  csr_row_ptr :: "nat list"
  csr_col_idx :: "nat list"
  csr_num_edges :: nat

definition check_node :: "dvbs2x_ldpc_code \<Rightarrow> nat \<Rightarrow> nat \<Rightarrow> nat \<Rightarrow> nat" where
  "check_node code grp j a =
     (addrs (code_table code ! grp) ! a + j * code_q code) mod (code_n code - code_k code)"

text \<open>The loop nest that both passes run over the information part.\<close>

definition info_loop ::
  "dvbs2x_ldpc_code \<Rightarrow> (nat \<Rightarrow> nat \<Rightarrow> 's \<Rightarrow> 's) \<Rightarrow> 's \<Rightarrow> 's" where
  "info_loop code f s =
     fold (\<lambda>grp. fold (\<lambda>j. fold (\<lambda>a.
         f (check_node code grp j a) (grp * DVBS2X_LDPC_PARALLEL + j))
       [0..<num_addrs (code_table code ! grp)]) [0..<DVBS2X_LDPC_PARALLEL])
       [0..<code_num_groups code] s"

definition bump :: "nat \<Rightarrow> nat \<Rightarrow> nat list \<Rightarrow> nat list" where
  "bump n i row_count = row_count[i := row_count ! i + n]"

text \<open>First pass: the edges of each row.\<close>

definition csr_counts :: "dvbs2x_ldpc_code \<Rightarrow> nat list" where
  "csr_counts code =
     (let m = code_n code - code_k code;
          rc = info_loop code (\<lambda>cn vn. bump 1 cn) (replicate m 0);
          rc = bump 1 0 rc
      in fold (bump 2) [1..<m] rc)"

definition csr_pointers :: "nat \<Rightarrow> nat list \<Rightarrow> nat list" where
  "csr_pointers m row_count =
     fold (\<lambda>i p. p[i + 1 := p ! i + row_count ! i]) [0..<m] (replicate (m + 1) 0)"

text \<open>Second pass: an edge goes to the next free position of its row.\<close>

definition csr_place ::
  "nat list \<Rightarrow> nat \<Rightarrow> nat \<Rightarrow> nat list \<times> nat list \<Rightarrow> nat list \<times> nat list" where
  "csr_place row_ptr cn vn st =
     (let (col_idx, row_count) = st;
          pos = row_ptr ! cn + row_count ! cn
      in (col_idx[pos := vn], bump 1 cn row_count))"

definition csr_fill :: "dvbs2x_ldpc_code \<Rightarrow> nat list \<Rightarrow> nat \<Rightarrow> nat list" where
  "csr_fill code row_ptr num_edges =
     (let m = code_n code - code_k code;
          k = code_k code;
          st = info_loop code (csr_place row_ptr) (replicate num_edges 0, replicate m 0);
          st = csr_place row_ptr 0 (k + 0) st;
          st = fold (\<lambda>i s. csr_place row_ptr i (k + i) (csr_place row_ptr i (k + i - 1) s)) [1..<m] st
      in fst st)"

definition build_csr :: "(nat \<Rightarrow> bool) \<Rightarrow> dvbs2x_ldpc_code \<Rightarrow> ldpc_csr option" where
  "build_csr alloc code =
     (let m = code_n code - code_k code
      in if \<not> alloc (m * 4) then None
         else
           let row_count = csr_counts code
           in if \<not> alloc ((m + 1) * 4) then None
              else
                let row_ptr = csr_pointers m row_count;
                    num_edges = row_ptr ! m
                in if \<not> alloc (num_edges * 4) then None
                   else Some \<lparr>csr_num_rows = m, csr_num_cols = code_n code, csr_row_ptr = row_ptr,
                              csr_col_idx = csr_fill code row_ptr num_edges,
                              csr_num_edges = num_edges\<rparr>)"

text \<open>The columns of a row, and the parity of the bits \<open>c\<close> over them.\<close>

definition csr_row :: "ldpc_csr \<Rightarrow> nat \<Rightarrow> nat list" where
  "csr_row csr r =
     map (\<lambda>i. csr_col_idx csr ! i) [csr_row_ptr csr ! r ..< csr_row_ptr csr ! (r + 1)]"

definition row_parity :: "(nat \<Rightarrow> bool) \<Rightarrow> nat list \<Rightarrow> bool" where
  "row_parity c row = odd (length (filter c row))"

definition codeword_bits :: "ldpc_csr \<Rightarrow> (nat \<Rightarrow> bool) \<Rightarrow> bool" where
  "codeword_bits csr c \<longleftrightarrow> (\<forall>r < csr_num_rows csr. \<not> row_parity c (csr_row csr r))"

section \<open>Edges\<close>

text \<open>The edges in the order in which the builder meets them.\<close>

definition info_edges :: "dvbs2x_ldpc_code \<Rightarrow> (nat \<times> nat) list" where
  "info_edges code =
     concat (map (\<lambda>g. concat (map (\<lambda>j. map (\<lambda>a.
         (check_node code g j a, g * DVBS2X_LDPC_PARALLEL + j))
       [0..<num_addrs (code_table code ! g)]) [0..<DVBS2X_LDPC_PARALLEL])) [0..<code_num_groups code])"

definition staircase_edges :: "nat \<Rightarrow> nat \<Rightarrow> (nat \<times> nat) list" where
  "staircase_edges k m = (0, k) # concat (map (\<lambda>i. [(i, k + i - 1), (i, k + i)]) [1..<m])"

definition csr_edges :: "dvbs2x_ldpc_code \<Rightarrow> (nat \<times> nat) list" where
  "csr_edges code =
     info_edges code @ staircase_edges (code_k code) (code_n code - code_k code)"

definition row_of :: "(nat \<times> nat) list \<Rightarrow> nat \<Rightarrow> nat list" where
  "row_of es r = map snd (filter (\<lambda>e. fst e = r) es)"

text \<open>What the table data give for the nine codes.\<close>

definition code_ok :: "dvbs2x_ldpc_code \<Rightarrow> bool" where
  "code_ok code \<longleftrightarrow>
     0 < code_q code \<and> code_n code = code_k code + DVBS2X_LDPC_PARALLEL * code_q code \<and>
     code_k code = DVBS2X_LDPC_PARALLEL * code_num_groups code \<and>
     table_ok (code_n code - code_k code) (code_num_groups code) (code_table code) \<and>
     residues_ok (code_q code) (code_table code)"

lemma encoder_init_ok:
  assumes "mc \<in> set vlsnr_modcod_table"
  obtains enc where "dvbs2x_ldpc_encoder_init mc = Some enc" "code_ok (enc_code enc)"
    "code_n (enc_code enc) = mc_fec_len mc" "code_k (enc_code enc) = mc_k_ldpc mc"
proof -
  obtain t where t: "dvbs2x_ldpc_get_table mc = (Some t, mc_k_ldpc mc div 360)"
    "table_ok (mc_fec_len mc - mc_k_ldpc mc) (mc_k_ldpc mc div 360) t"
    "residues_ok (mc_q_ldpc mc) t"
    using get_table_ok [OF assms] .
  have "0 < mc_q_ldpc mc" "mc_fec_len mc = mc_k_ldpc mc + 360 * mc_q_ldpc mc"
    "mc_k_ldpc mc = 360 * (mc_k_ldpc mc div 360)"
    using modcod_cases [OF assms] by (elim disjE; simp add: modcod_defs const_defs)+
  with t show ?thesis
    by (intro that) (auto simp: dvbs2x_ldpc_encoder_init_def code_ok_def DVBS2X_LDPC_PARALLEL_def)
qed

lemma fold_concat_map: "fold f (concat (map g xs)) = fold (\<lambda>x. fold f (g x)) xs"
  by (induction xs) simp_all

lemma info_loop_edges: "info_loop code f s = fold (\<lambda>(cn, vn). f cn vn) (info_edges code) s"
  by (simp add: info_loop_def info_edges_def fold_concat_map fold_map comp_def)

lemma row_of_append: "row_of (xs @ ys) r = row_of xs r @ row_of ys r"
  by (simp add: row_of_def)

lemma row_of_staircase:
  "r < m \<Longrightarrow> row_of (staircase_edges k m) r = (if r = 0 then [k] else [k + r - 1, k + r])"
proof -
  have "filter (\<lambda>e. fst e = r) (concat (map (\<lambda>i. [(i, k + i - 1), (i, k + i)]) [1..<m])) =
    (if 1 \<le> r \<and> r < m then [(r, k + r - 1), (r, k + r)] else [])" for m
    by (induction m) auto
  then show "r < m \<Longrightarrow> ?thesis" by (simp add: row_of_def staircase_edges_def)
qed

lemma set_info_edges_vn:
  assumes "(cn, vn) \<in> set (info_edges code)"
  shows "vn < DVBS2X_LDPC_PARALLEL * code_num_groups code"
proof -
  from assms obtain g j where gj: "g < code_num_groups code" "j < DVBS2X_LDPC_PARALLEL"
    "vn = g * DVBS2X_LDPC_PARALLEL + j"
    by (auto simp: info_edges_def)
  have "vn < Suc g * DVBS2X_LDPC_PARALLEL" using gj by simp
  also have "\<dots> \<le> code_num_groups code * DVBS2X_LDPC_PARALLEL"
    using gj(1) by (intro mult_le_mono1) simp
  finally show ?thesis by (simp add: mult.commute)
qed

lemma set_info_edges_cn:
  assumes "code_ok code" "(cn, vn) \<in> set (info_edges code)"
  shows "cn < code_n code - code_k code"
proof -
  have "0 < code_n code - code_k code"
    using assms(1) by (simp add: code_ok_def DVBS2X_LDPC_PARALLEL_def)
  then show ?thesis using assms(2) by (auto simp: info_edges_def check_node_def)
qed

lemma csr_edges_rows:
  assumes "code_ok code"
  shows "\<forall>e \<in> set (csr_edges code). fst e < code_n code - code_k code"
proof
  fix e assume "e \<in> set (csr_edges code)"
  moreover have "0 < code_n code - code_k code"
    using assms by (simp add: code_ok_def DVBS2X_LDPC_PARALLEL_def)
  ultimately show "fst e < code_n code - code_k code"
    using set_info_edges_cn [OF assms, of "fst e" "snd e"]
    by (auto simp: csr_edges_def staircase_edges_def)
qed

section \<open>The encoder\<close>

lemma of_bool_xor_1: "(of_bool b :: u8) XOR 1 = of_bool (\<not> b)"
  by (cases b) simp_all

lemma flip_bits:
  "a < m \<Longrightarrow> flip a (map (\<lambda>c. of_bool (f c)) [0..<m]) =
     map (\<lambda>c. of_bool (f c \<noteq> (c = a))) [0..<m]"
  unfolding flip_def by (rule nth_equalityI) (auto simp: nth_list_update of_bool_xor_1)

lemma fold_flip:
  "\<forall>a \<in> set L. a < m \<Longrightarrow> fold flip L (map (\<lambda>c. of_bool (f c)) [0..<m]) =
     map (\<lambda>c. of_bool (f c \<noteq> odd (count_list L c))) [0..<m]"
proof (induction L arbitrary: f)
  case (Cons a L)
  have "fold flip (a # L) (map (\<lambda>c. of_bool (f c)) [0..<m]) =
    fold flip L (map (\<lambda>c. of_bool (f c \<noteq> (c = a))) [0..<m])"
    using Cons.prems by (simp add: flip_bits)
  also have "\<dots> = map (\<lambda>c. of_bool ((f c \<noteq> (c = a)) \<noteq> odd (count_list L c))) [0..<m]"
    by (rule Cons.IH) (use Cons.prems in simp)
  also have "\<dots> = map (\<lambda>c. of_bool (f c \<noteq> odd (count_list (a # L) c))) [0..<m]"
    by (rule map_cong) auto
  finally show ?case .
qed simp

text \<open>The parity positions that one group flips, in order.\<close>

definition group_flips :: "dvbs2x_ldpc_code \<Rightarrow> u8 list \<Rightarrow> nat \<Rightarrow> nat \<Rightarrow> nat list" where
  "group_flips code info g n =
     concat (map (\<lambda>j. if info ! (g * DVBS2X_LDPC_PARALLEL + j) \<noteq> 0
         then map (\<lambda>a. parity_addr (code_n code - code_k code)
                  (addrs (code_table code ! g) ! a) (j * code_q code))
                [0..<num_addrs (code_table code ! g)]
         else []) [0..<n])"

lemma fold_encode_bit:
  "fold (encode_bit code info g) [0..<n] (p, 0) =
     (fold flip (group_flips code info g n) p, n * code_q code)"
  by (induction n) (simp_all add: group_flips_def encode_bit_def Let_def fold_map comp_def)

lemma parity_addr_check_node:
  assumes "code_ok code" "g < code_num_groups code" "j < DVBS2X_LDPC_PARALLEL"
    "a < num_addrs (code_table code ! g)"
  shows "parity_addr (code_n code - code_k code) (addrs (code_table code ! g) ! a) (j * code_q code)
    = check_node code g j a"
proof -
  let ?m = "code_n code - code_k code" and ?e = "code_table code ! g"
  have "table_ok ?m (code_num_groups code) (code_table code)"
    using assms(1) unfolding code_ok_def by blast
  with assms(2) have "entry_ok ?m ?e"
    unfolding table_ok_def list_all_length by auto
  then have a: "addrs ?e ! a < ?m"
    using assms(4) by (simp add: entry_ok_def list_all_length)
  have m: "?m = DVBS2X_LDPC_PARALLEL * code_q code" "0 < code_q code"
    using assms(1) by (simp_all add: code_ok_def)
  have "j * code_q code < ?m" using assms(3) m by simp
  with a show ?thesis
    by (auto simp: parity_addr_def check_node_def Let_def mod_if)
qed

lemma group_flips_info_edges:
  assumes "code_ok code"
  shows "concat (map (\<lambda>g. group_flips code info g DVBS2X_LDPC_PARALLEL) [0..<code_num_groups code])
    = map fst (filter (\<lambda>e. info ! snd e \<noteq> 0) (info_edges code))"
  unfolding info_edges_def group_flips_def filter_concat map_concat map_map comp_def
  by (intro arg_cong [where f = concat] map_cong refl)
     (auto simp: filter_map comp_def parity_addr_check_node [OF assms])

lemma encode_groups:
  assumes "code_ok code"
  shows "fold (encode_group code info) [0..<code_num_groups code] p =
    fold flip (map fst (filter (\<lambda>e. info ! snd e \<noteq> 0) (info_edges code))) p"
proof -
  have "encode_group code info = (\<lambda>g. fold flip (group_flips code info g DVBS2X_LDPC_PARALLEL))"
    by (intro ext) (simp add: encode_group_def fold_encode_bit)
  then show ?thesis
    by (simp add: group_flips_info_edges [OF assms, symmetric] fold_concat_map)
qed

fun stair :: "(nat \<Rightarrow> bool) \<Rightarrow> nat \<Rightarrow> bool" where
  "stair f 0 = f 0"
| "stair f (Suc i) = (f (Suc i) \<noteq> stair f i)"

lemma of_bool_xor: "(of_bool a :: u8) XOR of_bool b = of_bool (a \<noteq> b)"
  by (cases a; cases b) simp_all

lemma accumulate_stair:
  "accumulate m (map (\<lambda>c. of_bool (f c)) [0..<m]) = map (\<lambda>c. of_bool (stair f c)) [0..<m]"
proof -
  have "Suc n \<le> m \<Longrightarrow>
    fold (\<lambda>i p. p[i := p ! i XOR p ! (i - 1)]) [1..<Suc n] (map (\<lambda>c. of_bool (f c)) [0..<m]) =
    map (\<lambda>c. of_bool (if c < Suc n then stair f c else f c) :: u8) [0..<m]" for n
  proof (induction n)
    case 0
    then show ?case by (auto intro!: nth_equalityI)
  next
    case (Suc n)
    have "fold (\<lambda>i p. p[i := p ! i XOR p ! (i - 1)]) [1..<Suc (Suc n)]
        (map (\<lambda>c. of_bool (f c)) [0..<m]) =
      (\<lambda>p. p[Suc n := p ! Suc n XOR p ! n])
        (map (\<lambda>c. of_bool (if c < Suc n then stair f c else f c) :: u8) [0..<m])"
      using Suc by simp
    also have "\<dots> = map (\<lambda>c. of_bool (if c < Suc (Suc n) then stair f c else f c)) [0..<m]"
      using Suc.prems
      by (intro nth_equalityI) (auto simp: nth_list_update of_bool_xor less_Suc_eq)
    finally show ?case .
  qed
  from this [of "m - 1"] show ?thesis
    by (cases m) (auto simp: accumulate_def intro!: nth_equalityI)
qed

text \<open>The parity that the information bits \<open>c\<close> leave at a check.\<close>

definition info_parity :: "dvbs2x_ldpc_code \<Rightarrow> (nat \<Rightarrow> bool) \<Rightarrow> nat \<Rightarrow> bool" where
  "info_parity code c r = row_parity c (row_of (info_edges code) r)"

lemma info_parity_cong:
  assumes "code_ok code" "\<And>v. v < code_k code \<Longrightarrow> c v = c' v"
  shows "info_parity code c = info_parity code c'"
proof -
  have "filter c (row_of (info_edges code) r) = filter c' (row_of (info_edges code) r)" for r
    using set_info_edges_vn [of _ _ code] assms
    by (intro filter_cong refl) (auto simp: row_of_def code_ok_def)
  then show ?thesis by (simp add: fun_eq_iff info_parity_def row_parity_def)
qed

lemma count_flips:
  "count_list (map fst (filter (\<lambda>e. P (snd e)) es)) r = length (filter P (row_of es r))"
  by (induction es) (auto simp: row_of_def)

lemma encode_parity:
  assumes "code_ok (enc_code enc)" "length info = code_k (enc_code enc)"
  shows "dvbs2x_ldpc_encode enc info =
    info @ map (\<lambda>i. of_bool (stair (info_parity (enc_code enc) (\<lambda>v. info ! v \<noteq> 0)) i))
             [0..<code_n (enc_code enc) - code_k (enc_code enc)]"
proof -
  let ?code = "enc_code enc"
  let ?m = "code_n ?code - code_k ?code"
  let ?L = "map fst (filter (\<lambda>e. info ! snd e \<noteq> 0) (info_edges ?code))"
  have z: "replicate ?m (0::u8) = map (\<lambda>c. of_bool False) [0..<?m]"
    by (simp add: map_replicate_const)
  have "count_list ?L r = length (filter (\<lambda>v. info ! v \<noteq> 0) (row_of (info_edges ?code) r))" for r
    by (rule count_flips [where P = "\<lambda>v. info ! v \<noteq> 0"])
  then have "odd (count_list ?L r) = info_parity ?code (\<lambda>v. info ! v \<noteq> 0) r" for r
    by (simp add: info_parity_def row_parity_def)
  moreover have "\<forall>a \<in> set ?L. a < ?m"
    using set_info_edges_cn [OF assms(1)] by auto
  ultimately have "fold flip ?L (replicate ?m 0) =
    map (\<lambda>r. of_bool (info_parity ?code (\<lambda>v. info ! v \<noteq> 0) r)) [0..<?m]"
    unfolding z by (subst fold_flip) simp_all
  then show ?thesis
    by (simp add: dvbs2x_ldpc_encode_def Let_def encode_groups [OF assms(1)] accumulate_stair assms(2))
qed

text \<open>All checks hold exactly when the parity bits are the accumulated ones.\<close>

lemma checks_iff_stair:
  assumes "code_ok code"
  shows "(\<forall>r < code_n code - code_k code. \<not> row_parity c (row_of (csr_edges code) r)) \<longleftrightarrow>
    (\<forall>i < code_n code - code_k code. c (code_k code + i) = stair (info_parity code c) i)"
proof -
  let ?m = "code_n code - code_k code" and ?k = "code_k code" and ?f = "info_parity code c"
  have app: "row_parity c (xs @ ys) = (row_parity c xs \<noteq> row_parity c ys)" for xs ys
    by (simp add: row_parity_def)
  have par: "row_parity c (row_of (csr_edges code) r) =
     (?f r \<noteq> (if r = 0 then c ?k else c (?k + r - 1) \<noteq> c (?k + r)))" if "r < ?m" for r
    unfolding csr_edges_def row_of_append row_of_staircase [OF that] app info_parity_def
    by (simp add: row_parity_def)
  have "(\<forall>r < n. \<not> row_parity c (row_of (csr_edges code) r)) \<longleftrightarrow> (\<forall>i < n. c (?k + i) = stair ?f i)"
    if "n \<le> ?m" for n
    using that
  proof (induction n)
    case (Suc n)
    then have IH: "(\<forall>r < n. \<not> row_parity c (row_of (csr_edges code) r)) \<longleftrightarrow>
      (\<forall>i < n. c (?k + i) = stair ?f i)" by simp
    have "row_parity c (row_of (csr_edges code) n) = (c (?k + n) \<noteq> stair ?f n)"
      if "\<forall>i < n. c (?k + i) = stair ?f i"
    proof (cases n)
      case 0
      then show ?thesis using par [of n] Suc.prems by auto
    next
      case (Suc n')
      then have "c (?k + n') = stair ?f n'" using that by simp
      then show ?thesis using par [of n] Suc.prems Suc by auto
    qed
    with IH show ?case by (auto simp: less_Suc_eq)
  qed simp
  then show ?thesis by simp
qed

section \<open>The sparse matrix\<close>

text \<open>The counting pass and the pointers.\<close>

definition row_len :: "(nat \<times> nat) list \<Rightarrow> nat \<Rightarrow> nat" where
  "row_len es r = length (row_of es r)"

lemma row_len_simps:
  "row_len [] r = 0" "row_len (e # es) r = (if fst e = r then 1 else 0) + row_len es r"
  "row_len (xs @ ys) r = row_len xs r + row_len ys r"
  by (simp_all add: row_len_def row_of_def)

lemma bump_counts:
  "i < m \<Longrightarrow> bump n i (map f [0..<m]) = map (\<lambda>r. f r + (if r = i then n else 0)) [0..<m]"
  unfolding bump_def by (rule nth_equalityI) (auto simp: nth_list_update)

lemma fold_bump_edges:
  "\<forall>e \<in> set es. fst e < m \<Longrightarrow>
     fold (\<lambda>(cn, vn). bump 1 cn) es (map f [0..<m]) = map (\<lambda>r. f r + row_len es r) [0..<m]"
proof (induction es arbitrary: f)
  case (Cons e es)
  then have "fold (\<lambda>(cn, vn). bump 1 cn) (e # es) (map f [0..<m]) =
    fold (\<lambda>(cn, vn). bump 1 cn) es (map (\<lambda>r. f r + (if r = fst e then 1 else 0)) [0..<m])"
    by (cases e) (simp add: bump_counts)
  also have "\<dots> = map (\<lambda>r. f r + (if r = fst e then 1 else 0) + row_len es r) [0..<m]"
    using Cons by simp
  finally show ?case by (auto simp: row_len_simps)
qed (simp add: row_len_simps)

lemma fold_bump_2:
  "n \<le> m \<Longrightarrow> fold (bump 2) [1..<n] (map f [0..<m]) =
     map (\<lambda>r. f r + (if 1 \<le> r \<and> r < n then 2 else 0)) [0..<m]"
proof (induction n)
  case (Suc n)
  then show ?case
    by (cases n) (auto simp: bump_counts intro!: map_cong)
qed simp

lemma row_len_staircase:
  "r < m \<Longrightarrow> row_len (staircase_edges k m) r = (if r = 0 then 1 else 2)"
  by (simp add: row_len_def row_of_staircase)

lemma csr_counts_edges:
  assumes "code_ok code"
  shows "csr_counts code = map (row_len (csr_edges code)) [0..<code_n code - code_k code]"
proof -
  let ?m = "code_n code - code_k code"
  have m: "0 < ?m" using assms by (simp add: code_ok_def DVBS2X_LDPC_PARALLEL_def)
  have z: "replicate ?m (0::nat) = map (\<lambda>r. 0) [0..<?m]" by (simp add: map_replicate_const)
  have "\<forall>e \<in> set (info_edges code). fst e < ?m"
    using set_info_edges_cn [OF assms] by auto
  then have "csr_counts code = map (\<lambda>r. row_len (info_edges code) r +
      (if r = 0 then 1 else 0) + (if 1 \<le> r \<and> r < ?m then 2 else 0)) [0..<?m]"
    using m unfolding csr_counts_def info_loop_edges z Let_def
    by (simp add: fold_bump_edges bump_counts fold_bump_2 del: One_nat_def)
  then show ?thesis
    by (simp add: csr_edges_def row_len_simps row_len_staircase)
qed

definition row_start :: "(nat \<Rightarrow> nat) \<Rightarrow> nat \<Rightarrow> nat" where
  "row_start f r = sum_list (map f [0..<r])"

lemma row_start_Suc: "row_start f (Suc r) = row_start f r + f r"
  by (simp add: row_start_def)

lemma row_start_mono: "r < r' \<Longrightarrow> row_start f r + f r \<le> row_start f r'"
  by (induction r' ) (auto simp: row_start_Suc less_Suc_eq)

lemma csr_pointers_start:
  "csr_pointers m (map f [0..<m]) = map (row_start f) [0..<m + 1]"
proof -
  have "n \<le> m \<Longrightarrow> fold (\<lambda>i p. p[i + 1 := p ! i + map f [0..<m] ! i]) [0..<n] (replicate (m + 1) 0) =
    map (\<lambda>r. if r \<le> n then row_start f r else 0) [0..<m + 1]" for n
  proof (induction n)
    case 0
    then show ?case by (auto intro!: nth_equalityI simp: row_start_def simp del: upt_Suc)
  next
    case (Suc n)
    then have "fold (\<lambda>i p. p[i + 1 := p ! i + map f [0..<m] ! i]) [0..<Suc n] (replicate (m + 1) 0) =
      (map (\<lambda>r. if r \<le> n then row_start f r else 0) [0..<m + 1])[n + 1 := row_start f n + f n]"
      by (simp add: nth_map_upt0 del: upt_Suc map_append) (simp add: nth_append)
    also have "\<dots> = map (\<lambda>r. if r \<le> Suc n then row_start f r else 0) [0..<m + 1]"
      using Suc.prems
      by (intro nth_equalityI)
         (auto simp: nth_list_update nth_map_upt0 row_start_Suc le_Suc_eq simp del: upt_Suc)
    finally show ?case .
  qed
  from this [of m] show ?thesis unfolding csr_pointers_def by simp
qed

text \<open>The filling pass: after the edges \<open>es\<close>, row \<open>r\<close> holds the columns of \<open>row_of es r\<close> at the start
  of its segment.\<close>

definition filled ::
  "(nat \<Rightarrow> nat) \<Rightarrow> nat \<Rightarrow> (nat \<times> nat) list \<Rightarrow> nat list \<times> nat list \<Rightarrow> bool" where
  "filled f m es st \<longleftrightarrow>
     length (fst st) = row_start f m \<and> snd st = map (row_len es) [0..<m] \<and>
     (\<forall>r < m. \<forall>i < row_len es r. fst st ! (row_start f r + i) = row_of es r ! i)"

lemma filled_place:
  assumes "filled f m es st" "cn < m" "\<And>r. row_len (es @ [(cn, vn)]) r \<le> f r"
  shows "filled f m (es @ [(cn, vn)]) (csr_place (map (row_start f) [0..<m + 1]) cn vn st)"
proof -
  obtain col rc where st: "st = (col, rc)" by (cases st)
  have col: "length col = row_start f m" and rc: "rc = map (row_len es) [0..<m]"
    and old: "\<And>r i. r < m \<Longrightarrow> i < row_len es r \<Longrightarrow> col ! (row_start f r + i) = row_of es r ! i"
    using assms(1) by (auto simp: filled_def st)
  let ?pos = "row_start f cn + row_len es cn"
  have "row_len es cn < f cn"
    using assms(3) [of cn] by (simp add: row_len_simps)
  then have pos: "?pos < row_start f cn + f cn" "?pos < row_start f m"
    using row_start_mono [OF assms(2), of f] by simp_all
  have place: "csr_place (map (row_start f) [0..<m + 1]) cn vn st =
    (col[?pos := vn], map (row_len (es @ [(cn, vn)])) [0..<m])"
    using assms(2)
    by (auto simp: csr_place_def st rc bump_counts nth_map_upt0 row_len_simps simp del: upt_Suc)
  have "(col[?pos := vn]) ! (row_start f r + i) = row_of (es @ [(cn, vn)]) r ! i"
    if r: "r < m" and i: "i < row_len (es @ [(cn, vn)]) r" for r i
  proof (cases "r = cn")
    case True
    then show ?thesis
      using i r pos col old [of cn i]
      by (auto simp: row_len_simps row_of_append nth_append row_of_def [of "[_]"] less_Suc_eq
          row_len_def)
  next
    case False
    then have i': "i < row_len es r" using i by (simp add: row_len_simps)
    then have "i < f r" using assms(3) [of r] by (simp add: row_len_simps)
    then have "row_start f r + i \<noteq> ?pos"
      using False pos row_start_mono [of r cn f] row_start_mono [of cn r f] by (cases "r < cn") auto
    then show ?thesis
      using old [OF r i'] False by (simp add: row_of_append row_of_def [of "[_]"])
  qed
  then show ?thesis unfolding filled_def place by (simp add: col)
qed

lemma filled_fold:
  assumes "filled f m es st" "\<forall>e \<in> set es'. fst e < m" "\<And>r. row_len (es @ es') r \<le> f r"
  shows "filled f m (es @ es')
    (fold (\<lambda>(cn, vn). csr_place (map (row_start f) [0..<m + 1]) cn vn) es' st)"
  using assms
proof (induction es' arbitrary: es st)
  case (Cons e es')
  obtain cn vn where e: "e = (cn, vn)" by (cases e)
  have "row_len (es @ [(cn, vn)]) r \<le> f r" for r
    using Cons.prems(3) [of r] by (simp add: e row_len_simps)
  then have "filled f m (es @ [(cn, vn)]) (csr_place (map (row_start f) [0..<m + 1]) cn vn st)"
    using Cons.prems(2) by (intro filled_place Cons.prems(1)) (simp_all add: e)
  then show ?case
    using Cons.IH [of "es @ [(cn, vn)]"] Cons.prems(2,3) by (simp add: e del: upt_Suc)
qed simp

lemma csr_fill_edges:
  "csr_fill code rp ne =
     fst (fold (\<lambda>(cn, vn). csr_place rp cn vn) (csr_edges code)
           (replicate ne 0, replicate (code_n code - code_k code) 0))"
  unfolding csr_fill_def info_loop_edges csr_edges_def staircase_edges_def Let_def
  by (simp add: fold_concat_map comp_def)

lemma build_csr_rows:
  assumes "code_ok code" "build_csr alloc code = Some csr"
  shows "csr_num_rows csr = code_n code - code_k code" "csr_num_cols csr = code_n code"
    "length (csr_row_ptr csr) = csr_num_rows csr + 1" "csr_row_ptr csr ! 0 = 0"
    "csr_row_ptr csr ! csr_num_rows csr = csr_num_edges csr"
    "length (csr_col_idx csr) = csr_num_edges csr"
    "r < csr_num_rows csr \<Longrightarrow> csr_row_ptr csr ! (r + 1) =
       csr_row_ptr csr ! r + length (csr_row csr r)"
    "r < csr_num_rows csr \<Longrightarrow> csr_row csr r = row_of (csr_edges code) r"
proof -
  let ?m = "code_n code - code_k code"
  let ?f = "row_len (csr_edges code)"
  let ?rp = "map (row_start ?f) [0..<?m + 1]"
  have ne: "?rp ! ?m = row_start ?f ?m" by (simp add: nth_map_upt0 del: upt_Suc)
  have csr: "csr = \<lparr>csr_num_rows = ?m, csr_num_cols = code_n code, csr_row_ptr = ?rp,
    csr_col_idx = csr_fill code ?rp (row_start ?f ?m), csr_num_edges = row_start ?f ?m\<rparr>"
    using assms(2)
    unfolding build_csr_def Let_def csr_counts_edges [OF assms(1)] csr_pointers_start ne
    by (auto split: if_splits)
  have "filled ?f ?m [] (replicate (row_start ?f ?m) 0, replicate ?m 0)"
    by (auto simp: filled_def row_len_simps intro: nth_equalityI)
  from filled_fold [OF this csr_edges_rows [OF assms(1)]]
  have fl: "filled ?f ?m (csr_edges code)
    (fold (\<lambda>(cn, vn). csr_place ?rp cn vn) (csr_edges code)
       (replicate (row_start ?f ?m) 0, replicate ?m 0))"
    by simp
  then have col: "length (csr_fill code ?rp (row_start ?f ?m)) = row_start ?f ?m"
    "\<And>r i. r < ?m \<Longrightarrow> i < ?f r \<Longrightarrow>
       csr_fill code ?rp (row_start ?f ?m) ! (row_start ?f r + i) = row_of (csr_edges code) r ! i"
    unfolding csr_fill_edges by (auto simp: filled_def)
  show row: "csr_row csr r = row_of (csr_edges code) r" if "r < csr_num_rows csr" for r
    using that col(2)
    by (intro nth_equalityI)
       (simp_all add: csr csr_row_def nth_map_upt0 row_start_Suc row_len_def del: upt_Suc)
  show "r < csr_num_rows csr \<Longrightarrow> csr_row_ptr csr ! (r + 1) =
       csr_row_ptr csr ! r + length (csr_row csr r)"
    by (simp add: csr csr_row_def nth_map_upt0 row_start_Suc del: upt_Suc)
  show "csr_num_rows csr = ?m" "csr_num_cols csr = code_n code"
    "length (csr_row_ptr csr) = csr_num_rows csr + 1" "csr_row_ptr csr ! 0 = 0"
    "csr_row_ptr csr ! csr_num_rows csr = csr_num_edges csr"
    "length (csr_col_idx csr) = csr_num_edges csr"
    using col(1) ne by (simp_all add: csr nth_map_upt0 row_start_def del: upt_Suc)
qed

section \<open>Row degrees\<close>

lemma sum_list_swap:
  "sum_list (map (\<lambda>x. sum_list (map (\<lambda>y. f x y :: nat) ys)) xs) =
   sum_list (map (\<lambda>y. sum_list (map (\<lambda>x. f x y) xs)) ys)"
  by (induction xs) (simp_all add: sum_list_addf)

lemma length_filter_sum: "length (filter P xs) = sum_list (map (\<lambda>x. if P x then 1 else 0) xs)"
  by (induction xs) simp_all

lemma row_len_concat_map: "length (row_of (concat (map f xs)) r) =
    sum_list (map (\<lambda>x. length (row_of (f x) r)) xs)"
  by (induction xs) (simp_all add: row_of_def)

lemma count_list_map: "count_list (map f xs) z = length (filter (\<lambda>a. f a = z) xs)"
  by (induction xs) auto

lemma count_list_concat_map:
  "count_list (concat (map f xs)) z = sum_list (map (\<lambda>x. count_list (f x) z) xs)"
  by (induction xs) simp_all

lemma length_filter_unique:
  assumes "distinct xs" "\<And>x y. x \<in> set xs \<Longrightarrow> y \<in> set xs \<Longrightarrow> P x \<Longrightarrow> P y \<Longrightarrow> x = y"
  shows "length (filter P xs) \<le> 1"
proof -
  have "card (set (filter P xs)) \<le> 1"
    using assms(2) by (intro card_le_Suc0_iff_eq [THEN iffD2, unfolded One_nat_def [symmetric]]) auto
  then show ?thesis using distinct_card [of "filter P xs"] assms(1) by simp
qed

text \<open>For one address at most one of the 360 shifts meets a given check, and only when the two agree
  modulo \<open>q\<close>.\<close>

lemma shift_hits:
  assumes "0 < q" "m = DVBS2X_LDPC_PARALLEL * q"
  shows "length (filter (\<lambda>j. (x + j * q) mod m = r) [0..<DVBS2X_LDPC_PARALLEL]) \<le>
    (if x mod q = r mod q then 1 else 0)"
proof (cases "x mod q = r mod q")
  case True
  have le: "j' \<le> j" if "j' < DVBS2X_LDPC_PARALLEL" "(x + j * q) mod m = (x + j' * q) mod m" for j j'
  proof (rule ccontr)
    assume "\<not> j' \<le> j"
    then have "x + j * q \<le> x + j' * q" by simp
    with that(2) have "m dvd (j' - j) * q"
      by (metis add_diff_cancel_left diff_mult_distrib mod_eq_dvd_iff_nat)
    moreover have "0 < (j' - j) * q" "(j' - j) * q < m"
      using \<open>\<not> j' \<le> j\<close> that(1) assms by simp_all
    ultimately show False by (meson dvd_imp_le not_le)
  qed
  have "j = j'" if "j < DVBS2X_LDPC_PARALLEL" "j' < DVBS2X_LDPC_PARALLEL"
    "(x + j * q) mod m = (x + j' * q) mod m" for j j'
    using le [of j' j] le [of j j'] that by simp
  then have "length (filter (\<lambda>j. (x + j * q) mod m = r) [0..<DVBS2X_LDPC_PARALLEL]) \<le> 1"
    by (intro length_filter_unique) auto
  with True show ?thesis by simp
next
  case False
  have "(x + j * q) mod m mod q = x mod q" for j
    by (simp add: assms(2) mod_mod_cancel)
  with False have "filter (\<lambda>j. (x + j * q) mod m = r) [0..<DVBS2X_LDPC_PARALLEL] = []"
    by (auto simp: filter_empty_conv)
  then show ?thesis by simp
qed

lemma info_degree:
  assumes "code_ok code"
  shows "length (row_of (info_edges code) r) \<le> 3"
proof -
  let ?q = "code_q code" and ?m = "code_n code - code_k code"
  have q: "0 < ?q" "?m = DVBS2X_LDPC_PARALLEL * ?q" using assms by (simp_all add: code_ok_def)
  have t: "length (code_table code) = code_num_groups code"
    "residues_ok ?q (code_table code)"
    "\<And>g. g < code_num_groups code \<Longrightarrow>
       num_addrs (code_table code ! g) \<le> length (addrs (code_table code ! g))"
    using assms by (auto simp: code_ok_def table_ok_def list_all_length entry_ok_def)
  have grp: "length (row_of (concat (map (\<lambda>j. map (\<lambda>a. (check_node code g j a, v g j))
        [0..<num_addrs e]) [0..<DVBS2X_LDPC_PARALLEL])) r) \<le>
      count_list (map (\<lambda>x. x mod ?q) (take (num_addrs e) (addrs e))) (r mod ?q)"
    if g: "g < code_num_groups code" and e: "e = code_table code ! g" for g e v
  proof -
    have "length (row_of (concat (map (\<lambda>j. map (\<lambda>a. (check_node code g j a, v g j))
        [0..<num_addrs e]) [0..<DVBS2X_LDPC_PARALLEL])) r) =
      sum_list (map (\<lambda>j. sum_list (map (\<lambda>a. if (addrs e ! a + j * ?q) mod ?m = r then 1 else 0)
        [0..<num_addrs e])) [0..<DVBS2X_LDPC_PARALLEL])"
      unfolding row_len_concat_map
      by (simp add: row_of_def filter_map comp_def check_node_def e flip: length_filter_sum)
    also have "\<dots> = sum_list (map (\<lambda>a. length (filter (\<lambda>j. (addrs e ! a + j * ?q) mod ?m = r)
        [0..<DVBS2X_LDPC_PARALLEL])) [0..<num_addrs e])"
      by (subst sum_list_swap) (simp add: length_filter_sum)
    also have "\<dots> \<le> sum_list (map (\<lambda>a. if addrs e ! a mod ?q = r mod ?q then 1 else 0) [0..<num_addrs e])"
      by (rule sum_list_mono) (rule shift_hits [OF q])
    also have "\<dots> = length (filter (\<lambda>a. addrs e ! a mod ?q = r mod ?q) [0..<num_addrs e])"
      by (simp add: length_filter_sum)
    also have "\<dots> = count_list (map (\<lambda>a. addrs e ! a mod ?q) [0..<num_addrs e]) (r mod ?q)"
      by (simp add: count_list_map)
    also have "map (\<lambda>a. addrs e ! a mod ?q) [0..<num_addrs e] =
      map (\<lambda>x. x mod ?q) (take (num_addrs e) (addrs e))"
      using t(3) [OF g] by (intro nth_equalityI) (simp_all add: e)
    finally show ?thesis .
  qed
  have "length (row_of (info_edges code) r) \<le>
    sum_list (map (\<lambda>g. count_list (map (\<lambda>x. x mod ?q)
      (take (num_addrs (code_table code ! g)) (addrs (code_table code ! g)))) (r mod ?q))
      [0..<code_num_groups code])"
    unfolding info_edges_def row_len_concat_map [of _ "[0..<code_num_groups code]"]
    by (rule sum_list_mono) (auto intro: grp)
  also have "\<dots> = count_list (map (\<lambda>x. x mod ?q) (concat (map (\<lambda>g.
      take (num_addrs (code_table code ! g)) (addrs (code_table code ! g))) [0..<code_num_groups code]))) (r mod ?q)"
    by (simp add: map_concat comp_def count_list_concat_map)
  also have "concat (map (\<lambda>g. take (num_addrs (code_table code ! g)) (addrs (code_table code ! g)))
      [0..<code_num_groups code]) = table_addrs (code_table code)"
    unfolding table_addrs_def
    by (rule arg_cong [where f = concat], rule nth_equalityI) (simp_all add: t(1))
  also have "count_list (map (\<lambda>x. x mod ?q) (table_addrs (code_table code))) (r mod ?q) \<le> 3"
    using t(2) by (simp add: residues_ok_def)
  finally show ?thesis .
qed

text \<open>The first check has an information bit.\<close>

lemma first_row_info:
  assumes "code_ok code"
  shows "row_of (info_edges code) 0 \<noteq> []"
proof -
  let ?q = "code_q code" and ?m = "code_n code - code_k code"
  have q: "0 < ?q" "?m = DVBS2X_LDPC_PARALLEL * ?q" using assms by (simp_all add: code_ok_def)
  have t: "length (code_table code) = code_num_groups code" "residues_ok ?q (code_table code)"
    "list_all (entry_ok ?m) (code_table code)"
    using assms unfolding code_ok_def table_ok_def by blast+
  then obtain e x where e: "e \<in> set (code_table code)" "x \<in> set (take (num_addrs e) (addrs e))"
    "x mod ?q = 0"
    by (auto simp: residues_ok_def table_addrs_def list_ex_iff)
  then obtain g where g: "g < code_num_groups code" "code_table code ! g = e"
    using t(1) by (auto simp: in_set_conv_nth)
  have "entry_ok ?m e" using t(3) e(1) by (simp only: list_all_iff)
  then have x: "x < ?m" using e(2) by (simp only: entry_ok_def list_all_iff)
  obtain a where a: "a < num_addrs e" "addrs e ! a = x"
    using e(2) by (auto simp: in_set_conv_nth)
  let ?b = "x div ?q"
  have b: "x = ?b * ?q" "?b < DVBS2X_LDPC_PARALLEL"
    using e(3) x q by (auto simp: less_mult_imp_div_less mult.commute)
  define j where "j = (DVBS2X_LDPC_PARALLEL - ?b) mod DVBS2X_LDPC_PARALLEL"
  have j: "j < DVBS2X_LDPC_PARALLEL" by (simp add: j_def DVBS2X_LDPC_PARALLEL_def)
  have "(?b + j) mod DVBS2X_LDPC_PARALLEL = 0"
    using b(2) by (simp add: j_def mod_add_right_eq)
  then have "(x + j * ?q) mod ?m = 0"
    by (subst b(1)) (simp add: q(2) mult_mod_left [symmetric] flip: distrib_right)
  then have "check_node code g j a = 0" by (simp add: check_node_def g(2) a(2))
  then have "(0, g * DVBS2X_LDPC_PARALLEL + j) \<in> set (info_edges code)"
    using g a j unfolding info_edges_def by force
  then show ?thesis by (force simp: row_of_def filter_empty_conv)
qed

lemma row_degree:
  assumes "code_ok code" "r < code_n code - code_k code"
  shows "0 < length (row_of (csr_edges code) r)" "length (row_of (csr_edges code) r) \<le> 5"
  using info_degree [OF assms(1), of r] le_SucI
  by (auto simp add: csr_edges_def row_of_append row_of_staircase [OF assms(2)])

section \<open>Properties\<close>

lemma checks_iff_encode:
  assumes "code_ok (enc_code enc)" "build_csr alloc (enc_code enc) = Some csr"
  shows "codeword_bits csr c \<longleftrightarrow>
    (\<forall>v < code_n (enc_code enc). c v =
       (dvbs2x_ldpc_encode enc (map (\<lambda>v. of_bool (c v)) [0..<code_k (enc_code enc)]) ! v \<noteq> 0))"
proof -
  let ?code = "enc_code enc"
  let ?k = "code_k ?code" and ?m = "code_n ?code - code_k ?code"
  let ?info = "map (\<lambda>v. of_bool (c v) :: u8) [0..<?k]"
  have n: "code_n ?code = ?k + ?m" using assms(1) by (simp add: code_ok_def)
  have f: "info_parity ?code (\<lambda>v. ?info ! v \<noteq> 0) = info_parity ?code c"
    by (rule info_parity_cong [OF assms(1)]) simp
  have cw: "dvbs2x_ldpc_encode enc ?info =
    ?info @ map (\<lambda>i. of_bool (stair (info_parity ?code c) i)) [0..<?m]"
    using encode_parity [OF assms(1), of ?info] by (simp add: f)
  have "codeword_bits csr c \<longleftrightarrow> (\<forall>i < ?m. c (?k + i) = stair (info_parity ?code c) i)"
    using build_csr_rows(1,8) [OF assms] checks_iff_stair [OF assms(1), of c]
    by (simp add: codeword_bits_def)
  moreover have "(\<forall>v < a + b. Q v) \<longleftrightarrow> (\<forall>v < a. Q v) \<and> (\<forall>i < b. Q (a + i))" for a b :: nat and Q
    by (auto, metis add_diff_inverse_nat nat_add_left_cancel_less)
  ultimately show ?thesis unfolding cw by (subst n) (simp add: nth_append)
qed

lemma encode_satisfies_checks:
  assumes "code_ok (enc_code enc)" "build_csr alloc (enc_code enc) = Some csr"
    "length info = code_k (enc_code enc)"
  shows "length (dvbs2x_ldpc_encode enc info) = code_n (enc_code enc) \<and>
    take (code_k (enc_code enc)) (dvbs2x_ldpc_encode enc info) = info \<and>
    csr_num_rows csr = code_n (enc_code enc) - code_k (enc_code enc) \<and>
    codeword_bits csr (\<lambda>v. dvbs2x_ldpc_encode enc info ! v \<noteq> 0)"
proof -
  let ?code = "enc_code enc"
  note cw = encode_parity [OF assms(1,3)]
  have "info_parity ?code (\<lambda>v. dvbs2x_ldpc_encode enc info ! v \<noteq> 0) =
    info_parity ?code (\<lambda>v. info ! v \<noteq> 0)"
    by (rule info_parity_cong [OF assms(1)]) (simp add: cw nth_append assms(3))
  then have "\<forall>r < code_n ?code - code_k ?code. \<not> row_parity
      (\<lambda>v. dvbs2x_ldpc_encode enc info ! v \<noteq> 0) (row_of (csr_edges ?code) r)"
    by (subst checks_iff_stair [OF assms(1)]) (simp add: cw assms(3) nth_append)
  then show ?thesis
    using build_csr_rows(1,8) [OF assms(1,2)] cw assms(1,3)
    by (simp add: codeword_bits_def) (simp add: code_ok_def)
qed

text \<open>For each of the nine MODCODs the encoder's output has the length of the FEC frame, starts
  with the information bits, and satisfies every parity check of the matrix that the decoder builds
  from the same table.\<close>

theorem ldpc_encode_checks:
  assumes "dvbs2x_vlsnr_get_modcod idx = Some mc" "dvbs2x_ldpc_encoder_init mc = Some enc"
    "build_csr alloc (enc_code enc) = Some csr" "length info = mc_k_ldpc mc"
  shows "length (dvbs2x_ldpc_encode enc info) = mc_fec_len mc \<and>
    take (mc_k_ldpc mc) (dvbs2x_ldpc_encode enc info) = info \<and>
    csr_num_rows csr = mc_fec_len mc - mc_k_ldpc mc \<and>
    codeword_bits csr (\<lambda>v. dvbs2x_ldpc_encode enc info ! v \<noteq> 0)"
proof -
  have code: "code_ok (enc_code enc)" "code_n (enc_code enc) = mc_fec_len mc"
    "code_k (enc_code enc) = mc_k_ldpc mc"
    using encoder_init_ok [OF get_modcod_set [OF assms(1)]] assms(2) by auto
  with encode_satisfies_checks [OF _ assms(3), of info] assms(4) show ?thesis by simp
qed

theorem ldpc_encode_checks_witness:
  "length (dvbs2x_ldpc_encode (the (dvbs2x_ldpc_encoder_init modcod_9)) (replicate 5400 1)) = 16200"
proof -
  obtain enc where enc: "dvbs2x_ldpc_encoder_init modcod_9 = Some enc"
    using encoder_init_ok [of modcod_9] by (auto simp: vlsnr_modcod_table_def)
  obtain csr where "build_csr (\<lambda>_. True) (enc_code enc) = Some csr"
    by (auto simp: build_csr_def Let_def)
  moreover have "dvbs2x_vlsnr_get_modcod 9 = Some modcod_9"
    by (simp add: dvbs2x_vlsnr_get_modcod_def vlsnr_modcod_table_def const_defs)
  moreover have "mc_fec_len modcod_9 = 16200" "mc_k_ldpc modcod_9 = 5400"
    by (simp_all add: modcod_9_def)
  ultimately show ?thesis
    using ldpc_encode_checks [of 9 modcod_9 enc _ csr "replicate 5400 1"] enc by simp
qed

text \<open>C11: conversely, bits that satisfy every check are the encoding of their information part, so
  the parity-check matrix and the encoder describe the same code.\<close>

theorem ldpc_checks_iff_encode:
  assumes "dvbs2x_vlsnr_get_modcod idx = Some mc" "dvbs2x_ldpc_encoder_init mc = Some enc"
    "build_csr alloc (enc_code enc) = Some csr"
  shows "codeword_bits csr c \<longleftrightarrow>
    (\<forall>v < mc_fec_len mc. c v =
       (dvbs2x_ldpc_encode enc (map (\<lambda>v. of_bool (c v)) [0..<mc_k_ldpc mc]) ! v \<noteq> 0))"
proof -
  have "code_ok (enc_code enc)" "code_n (enc_code enc) = mc_fec_len mc"
    "code_k (enc_code enc) = mc_k_ldpc mc"
    using encoder_init_ok [OF get_modcod_set [OF assms(1)]] assms(2) by auto
  with checks_iff_encode [OF _ assms(3)] show ?thesis by simp
qed

theorem ldpc_checks_iff_encode_witness:
  "\<exists>enc csr. dvbs2x_ldpc_encoder_init modcod_9 = Some enc \<and>
     build_csr (\<lambda>_. True) (enc_code enc) = Some csr \<and>
     (codeword_bits csr (\<lambda>v. v = 5400) \<longleftrightarrow>
       (\<forall>v < 16200. (v = 5400) =
         (dvbs2x_ldpc_encode enc (map (\<lambda>v. of_bool (v = 5400)) [0..<5400]) ! v \<noteq> 0)))"
proof -
  obtain enc where enc: "dvbs2x_ldpc_encoder_init modcod_9 = Some enc"
    using encoder_init_ok [of modcod_9] by (auto simp: vlsnr_modcod_table_def)
  obtain csr where csr: "build_csr (\<lambda>_. True) (enc_code enc) = Some csr"
    by (auto simp: build_csr_def Let_def)
  have mc: "dvbs2x_vlsnr_get_modcod 9 = Some modcod_9"
    by (simp add: dvbs2x_vlsnr_get_modcod_def vlsnr_modcod_table_def const_defs)
  have "mc_fec_len modcod_9 = 16200" "mc_k_ldpc modcod_9 = 5400" by (simp_all add: modcod_9_def)
  with ldpc_checks_iff_encode [OF mc enc csr, of "\<lambda>v. v = 5400"] enc csr show ?thesis by auto
qed

end
