(* ===== verification/LdpcDecode.thy ===== *)
theory LdpcDecode
  imports Ldpc
begin

text \<open>
  The LDPC decoder of \<^verbatim>\<open>src/ldpc_decode.c\<close>: the table-driven box-plus operator, the decoder
  context with its cached matrix and work arrays, the layered sum-product iteration and its
  convergence schedule.  A \<^verbatim>\<open>double\<close> is a real number.  The cancel flag is volatile and written
  by another thread: \<open>cancel i\<close> is the value read before iteration \<open>i\<close> (constantly false for a null
  pointer).
\<close>

section \<open>Box-plus\<close>

definition LLR_CLAMP :: real where "LLR_CLAMP = 40"
definition BOXPLUS_LUT_SIZE :: nat where "BOXPLUS_LUT_SIZE = 512"

text \<open>The static table, which \<^verbatim>\<open>init_boxplus_lut\<close> fills before its first use.\<close>

definition boxplus_lut :: "real list" where
  "boxplus_lut =
     (let step = LLR_CLAMP / real BOXPLUS_LUT_SIZE
      in map (\<lambda>i. ln (1 + exp (- real i * step))) [0..<BOXPLUS_LUT_SIZE + 1])"

definition lut_log1pexp :: "real \<Rightarrow> real" where
  "lut_log1pexp x =
     (if LLR_CLAMP \<le> x then 0
      else
        let idx_f = x * (real BOXPLUS_LUT_SIZE / LLR_CLAMP);
            idx = nat \<lfloor>idx_f\<rfloor>;
            f = idx_f - real idx
        in boxplus_lut ! idx + f * (boxplus_lut ! (idx + 1) - boxplus_lut ! idx))"

definition clamp :: "real \<Rightarrow> real" where
  "clamp a = (if LLR_CLAMP < a then LLR_CLAMP else if a < - LLR_CLAMP then - LLR_CLAMP else a)"

definition boxplus :: "real \<Rightarrow> real \<Rightarrow> real" where
  "boxplus a b =
     (let a = clamp a;
          b = clamp b;
          sgn = (if a < 0 then -1 else 1) * (if b < 0 then -1 else 1);
          aa = \<bar>a\<bar>;
          ab = \<bar>b\<bar>;
          mn = (if aa < ab then aa else ab);
          corr = lut_log1pexp \<bar>a + b\<bar> - lut_log1pexp \<bar>a - b\<bar>
      in sgn * mn + corr)"

section \<open>Decoder context\<close>

text \<open>\<open>None\<close> is a null pointer; \<open>dec_work\<close> tells whether the five work arrays are allocated, which
  \<^verbatim>\<open>init\<close> and \<^verbatim>\<open>free\<close> do together.\<close>

record dvbs2x_ldpc_decoder =
  dec_code :: dvbs2x_ldpc_code
  dec_max_iter :: nat
  dec_xp :: nat
  dec_p_period :: nat
  dec_xs :: nat
  dec_row_ptr :: "nat list option"
  dec_col_idx :: "nat list option"
  dec_num_edges :: nat
  dec_max_deg :: nat
  dec_work :: bool

definition csr_degree_max :: "nat \<Rightarrow> nat list \<Rightarrow> nat" where
  "csr_degree_max m row_ptr =
     fold (\<lambda>i d. let deg = row_ptr ! (i + 1) - row_ptr ! i in if d < deg then deg else d) [0..<m] 0"

definition dvbs2x_ldpc_decoder_init ::
  "(nat \<Rightarrow> bool) \<Rightarrow> dvbs2x_modcod \<Rightarrow> nat \<Rightarrow> dvbs2x_ldpc_decoder option" where
  "dvbs2x_ldpc_decoder_init alloc mc max_iter =
     (case dvbs2x_ldpc_get_table mc of
        (None, _) \<Rightarrow> None
      | (Some table, num_groups) \<Rightarrow>
          let code = \<lparr>code_n = mc_fec_len mc, code_k = mc_k_ldpc mc, code_q = mc_q_ldpc mc,
                      code_num_groups = num_groups, code_table = table\<rparr>
          in (case build_csr alloc code of
                None \<Rightarrow> None
              | Some csr \<Rightarrow>
                  let m = code_n code - code_k code;
                      max_deg = csr_degree_max m (csr_row_ptr csr)
                  in if \<not> alloc (code_n code * 8) \<or> \<not> alloc (csr_num_edges csr * 8) \<or>
                        \<not> alloc ((max_deg + 1) * 8)
                     then None
                     else Some \<lparr>dec_code = code, dec_max_iter = max_iter, dec_xp = mc_xp mc,
                                dec_p_period = mc_p_period mc, dec_xs = mc_xs mc,
                                dec_row_ptr = Some (csr_row_ptr csr),
                                dec_col_idx = Some (csr_col_idx csr),
                                dec_num_edges = csr_num_edges csr, dec_max_deg = max_deg,
                                dec_work = True\<rparr>))"

definition dvbs2x_ldpc_decoder_free :: "dvbs2x_ldpc_decoder \<Rightarrow> dvbs2x_ldpc_decoder" where
  "dvbs2x_ldpc_decoder_free dec = dec\<lparr>dec_row_ptr := None, dec_col_idx := None, dec_work := False\<rparr>"

section \<open>One check node\<close>

definition forward_pass :: "real list \<Rightarrow> real list" where
  "forward_pass v2c =
     fold (\<lambda>d fwd. fwd[d := boxplus (fwd ! (d - 1)) (v2c ! d)]) [1..<length v2c] v2c"

definition backward_pass :: "real list \<Rightarrow> real list" where
  "backward_pass v2c =
     fold (\<lambda>d bwd. bwd[d := boxplus (bwd ! (d + 1)) (v2c ! d)]) (rev [0..<length v2c - 1]) v2c"

definition extrinsic :: "nat \<Rightarrow> real list \<Rightarrow> real list \<Rightarrow> nat \<Rightarrow> real" where
  "extrinsic degree fwd bwd d =
     (if degree = 1 then 0
      else if d = 0 then bwd ! 1
      else if d = degree - 1 then fwd ! (degree - 2)
      else boxplus (fwd ! (d - 1)) (bwd ! (d + 1)))"

definition update_edge ::
  "nat list \<Rightarrow> nat \<Rightarrow> (nat \<Rightarrow> real) \<Rightarrow> nat \<Rightarrow> real list \<times> real list \<Rightarrow> real list \<times> real list" where
  "update_edge col_idx start msg d st =
     (let (vn_llr, edge_msg) = st;
          vn = col_idx ! (start + d);
          new_msg = msg d
      in (vn_llr[vn := vn_llr ! vn + (new_msg - edge_msg ! (start + d))],
          edge_msg[start + d := new_msg]))"

definition check_node_update ::
  "nat list \<Rightarrow> nat list \<Rightarrow> nat \<Rightarrow> real list \<times> real list \<Rightarrow> real list \<times> real list" where
  "check_node_update row_ptr col_idx i st =
     (let (vn_llr, edge_msg) = st;
          start = row_ptr ! i;
          degree = row_ptr ! (i + 1) - start
      in if degree = 0 then st
         else
           let v2c = map (\<lambda>d. vn_llr ! (col_idx ! (start + d)) - edge_msg ! (start + d)) [0..<degree];
               fwd = forward_pass v2c;
               bwd = backward_pass v2c
           in fold (update_edge col_idx start (extrinsic degree fwd bwd)) [0..<degree] st)"

section \<open>The iteration\<close>

definition CONV_CHECK_PERIOD :: nat where "CONV_CHECK_PERIOD = 5"
definition EARLY_CHECK_ITERS :: nat where "EARLY_CHECK_ITERS = 10"

definition syndrome_ok :: "nat \<Rightarrow> nat list \<Rightarrow> nat list \<Rightarrow> real list \<Rightarrow> bool" where
  "syndrome_ok m row_ptr col_idx vn_llr =
     list_all (\<lambda>i. \<not> fold (\<lambda>j parity. if vn_llr ! (col_idx ! j) < 0 then \<not> parity else parity)
                        [row_ptr ! i ..< row_ptr ! (i + 1)] False) [0..<m]"

datatype decode_exit = Cancelled nat | Converged nat | Exhausted

function decode_loop ::
  "nat \<Rightarrow> nat \<Rightarrow> nat list \<Rightarrow> nat list \<Rightarrow> (nat \<Rightarrow> bool) \<Rightarrow> nat \<Rightarrow> real list \<times> real list \<Rightarrow>
   decode_exit \<times> real list" where
  "decode_loop m max_iter row_ptr col_idx cancel iter st =
     (if iter < max_iter then
        if cancel iter then (Cancelled iter, fst st)
        else
          let st = fold (check_node_update row_ptr col_idx) [0..<m] st
          in if EARLY_CHECK_ITERS \<le> iter \<and> (iter + 1) mod CONV_CHECK_PERIOD \<noteq> 0 \<and>
                iter + 1 < max_iter
             then decode_loop m max_iter row_ptr col_idx cancel (iter + 1) st
             else if syndrome_ok m row_ptr col_idx (fst st) then (Converged (iter + 1), fst st)
             else decode_loop m max_iter row_ptr col_idx cancel (iter + 1) st
      else (Exhausted, fst st))"
  by pat_completeness auto
termination
  by (relation "measure (\<lambda>(m, max_iter, row_ptr, col_idx, cancel, iter, st). max_iter - iter)") auto

declare decode_loop.simps [simp del]

text \<open>What a call leaves behind: its return value, \<^verbatim>\<open>*iter_used\<close> and \<^verbatim>\<open>output\<close> where they are
  written, and the work array \<^verbatim>\<open>work_vn\<close>.\<close>

record decode_result =
  dr_ret :: int
  dr_iter_used :: "nat option"
  dr_output :: "u8 list option"
  dr_vn :: "real list"

definition dvbs2x_ldpc_decode ::
  "dvbs2x_ldpc_decoder \<Rightarrow> (nat \<Rightarrow> bool) \<Rightarrow> real list \<Rightarrow> decode_result" where
  "dvbs2x_ldpc_decode dec cancel llr =
     (let n = code_n (dec_code dec);
          k = code_k (dec_code dec);
          m = n - k
      in case (dec_row_ptr dec, dec_col_idx dec, dec_work dec) of
           (Some row_ptr, Some col_idx, True) \<Rightarrow>
             (let (ex, vn_llr) = decode_loop m (dec_max_iter dec) row_ptr col_idx cancel 0
                    (map (\<lambda>i. llr ! i) [0..<n], replicate (dec_num_edges dec) 0);
                  output = map (\<lambda>i. if vn_llr ! i < 0 then 1 else 0) [0..<k]
              in case ex of
                   Cancelled iter \<Rightarrow> \<lparr>dr_ret = -1, dr_iter_used = Some iter, dr_output = None,
                                      dr_vn = vn_llr\<rparr>
                 | Converged iter \<Rightarrow> \<lparr>dr_ret = 0, dr_iter_used = Some iter,
                                      dr_output = Some output, dr_vn = vn_llr\<rparr>
                 | Exhausted \<Rightarrow> \<lparr>dr_ret = -1, dr_iter_used = Some (dec_max_iter dec),
                                 dr_output = Some output, dr_vn = vn_llr\<rparr>)
         | _ \<Rightarrow> \<lparr>dr_ret = -1, dr_iter_used = None, dr_output = None, dr_vn = []\<rparr>)"

section \<open>The exits of the iteration\<close>

lemma fold_parity:
  "fold (\<lambda>j b. if P j then \<not> b else b) js b = (b \<noteq> odd (length (filter P js)))"
  by (induction js arbitrary: b) auto

lemma syndrome_ok_codeword:
  "csr_num_rows csr = m \<Longrightarrow>
     syndrome_ok m (csr_row_ptr csr) (csr_col_idx csr) vn = codeword_bits csr (\<lambda>v. vn ! v < 0)"
  by (auto simp: syndrome_ok_def codeword_bits_def list_all_iff fold_parity row_parity_def csr_row_def
      filter_map comp_def)

definition exit_ok ::
  "(real list \<Rightarrow> bool) \<Rightarrow> nat \<Rightarrow> (nat \<Rightarrow> bool) \<Rightarrow> nat \<Rightarrow> decode_exit \<times> real list \<Rightarrow> bool" where
  "exit_ok good max_iter cancel iter r \<longleftrightarrow>
     (case fst r of
        Cancelled i \<Rightarrow> iter \<le> i \<and> i < max_iter \<and> cancel i \<and> (\<forall>j \<in> {iter..<i}. \<not> cancel j)
      | Converged i \<Rightarrow> iter < i \<and> i \<le> max_iter \<and> good (snd r) \<and> (\<forall>j \<in> {iter..<i}. \<not> cancel j)
      | Exhausted \<Rightarrow> (\<forall>j \<in> {iter..<max_iter}. \<not> cancel j) \<and> (iter < max_iter \<longrightarrow> \<not> good (snd r)))"

lemma exit_ok_later:
  assumes "exit_ok good max_iter cancel (iter + 1) r" "iter < max_iter" "\<not> cancel iter"
    "iter + 1 < max_iter \<or> fst r = Exhausted \<and> \<not> good (snd r)"
  shows "exit_ok good max_iter cancel iter r"
proof -
  have "(\<forall>j \<in> {iter..<n}. \<not> cancel j) \<longleftrightarrow> (\<forall>j \<in> {iter + 1..<n}. \<not> cancel j)" if "iter < n" for n
    using that assms(3) by (auto simp: Suc_le_eq)
  then show ?thesis
    using assms by (auto simp: exit_ok_def split: decode_exit.splits)
qed

lemma decode_loop_exit:
  "exit_ok (syndrome_ok m rp ci) max_iter cancel iter
     (decode_loop m max_iter rp ci cancel iter st)"
proof (induction m max_iter rp ci cancel iter st rule: decode_loop.induct)
  case (1 m max_iter rp ci cancel iter st)
  define st' where "st' = fold (check_node_update rp ci) [0..<m] st"
  define again where "again \<longleftrightarrow> EARLY_CHECK_ITERS \<le> iter \<and> (iter + 1) mod CONV_CHECK_PERIOD \<noteq> 0 \<and>
    iter + 1 < max_iter"
  note unf = decode_loop.simps [of m max_iter rp ci cancel iter st, folded st'_def again_def, unfolded Let_def]
  show ?case
  proof (cases "iter < max_iter \<and> \<not> cancel iter")
    case False
    then show ?thesis by (subst unf) (auto simp: exit_ok_def)
  next
    case run: True
    show ?thesis
    proof (cases "\<not> again \<and> syndrome_ok m rp ci (fst st')")
      case True
      then show ?thesis using run by (subst unf) (auto simp: exit_ok_def)
    next
      case False
      let ?r = "decode_loop m max_iter rp ci cancel (iter + 1) st'"
      have IH: "exit_ok (syndrome_ok m rp ci) max_iter cancel (iter + 1) ?r"
        using 1 [of st'] run False unfolding st'_def again_def by blast
      have "?r = (Exhausted, fst st') \<and> \<not> syndrome_ok m rp ci (fst st')" if "\<not> iter + 1 < max_iter"
        using that False decode_loop.simps [of m max_iter rp ci cancel "iter + 1" st']
        by (simp add: again_def)
      then have ex: "iter + 1 < max_iter \<or> fst ?r = Exhausted \<and> \<not> syndrome_ok m rp ci (snd ?r)"
        by (cases "iter + 1 < max_iter") simp_all
      have "exit_ok (syndrome_ok m rp ci) max_iter cancel iter ?r"
        by (rule exit_ok_later [OF IH _ _ ex])
           (use run in simp_all)
      then show ?thesis using run False by (subst unf) auto
    qed
  qed
qed

lemma decoder_init_parts:
  assumes "mc \<in> set vlsnr_modcod_table" "dvbs2x_ldpc_encoder_init mc = Some enc"
    "dvbs2x_ldpc_decoder_init alloc mc max_iter = Some dec"
  obtains csr where "build_csr alloc (enc_code enc) = Some csr" "dec_code dec = enc_code enc"
    "dec_row_ptr dec = Some (csr_row_ptr csr)" "dec_col_idx dec = Some (csr_col_idx csr)"
    "dec_num_edges dec = csr_num_edges csr" "dec_work dec" "dec_max_iter dec = max_iter"
    "dec_max_deg dec = csr_degree_max (code_n (enc_code enc) - code_k (enc_code enc)) (csr_row_ptr csr)"
  using assms(2,3)
  by (auto simp: dvbs2x_ldpc_encoder_init_def dvbs2x_ldpc_decoder_init_def Let_def
      split: option.splits prod.splits if_splits)

lemma decode_initialised:
  assumes "dec_row_ptr dec = Some rp" "dec_col_idx dec = Some ci" "dec_work dec"
    "length llr = code_n (dec_code dec)"
    "decode_loop (code_n (dec_code dec) - code_k (dec_code dec)) (dec_max_iter dec) rp ci cancel 0
       (llr, replicate (dec_num_edges dec) 0) = (ex, vn)"
  shows "dvbs2x_ldpc_decode dec cancel llr =
    \<lparr>dr_ret = (case ex of Converged _ \<Rightarrow> 0 | _ \<Rightarrow> -1),
     dr_iter_used = Some (case ex of Cancelled i \<Rightarrow> i | Converged i \<Rightarrow> i | Exhausted \<Rightarrow> dec_max_iter dec),
     dr_output = (case ex of Cancelled _ \<Rightarrow> None
       | _ \<Rightarrow> Some (map (\<lambda>i. of_bool (vn ! i < 0)) [0..<code_k (dec_code dec)])),
     dr_vn = vn\<rparr>"
proof -
  have "map (\<lambda>i. llr ! i) [0..<code_n (dec_code dec)] = llr"
    using assms(4) by (metis map_nth)
  then show ?thesis
    using assms by (auto simp: dvbs2x_ldpc_decode_def Let_def split: decode_exit.splits)
qed

lemma codec_9:
  obtains enc dec where "dvbs2x_ldpc_encoder_init modcod_9 = Some enc"
    "dvbs2x_ldpc_decoder_init (\<lambda>_. True) modcod_9 50 = Some dec"
    "dvbs2x_vlsnr_get_modcod 9 = Some modcod_9" "mc_fec_len modcod_9 = 16200"
    "mc_k_ldpc modcod_9 = 5400"
proof -
  obtain enc where enc: "dvbs2x_ldpc_encoder_init modcod_9 = Some enc"
    using encoder_init_ok [of modcod_9] by (auto simp: vlsnr_modcod_table_def)
  obtain tab where tab: "dvbs2x_ldpc_get_table modcod_9 = (Some tab, mc_k_ldpc modcod_9 div 360)"
    using get_table_ok [of modcod_9] by (auto simp: vlsnr_modcod_table_def)
  have "\<exists>dec. dvbs2x_ldpc_decoder_init (\<lambda>_. True) modcod_9 50 = Some dec"
    by (simp add: dvbs2x_ldpc_decoder_init_def tab build_csr_def Let_def)
  then obtain dec where dec: "dvbs2x_ldpc_decoder_init (\<lambda>_. True) modcod_9 50 = Some dec" ..
  show ?thesis
    by (rule that [OF enc dec])
       (simp_all add: dvbs2x_vlsnr_get_modcod_def vlsnr_modcod_table_def const_defs modcod_9_def)
qed

section \<open>Properties\<close>

text \<open>C7: without a cancel the decoder always writes the hard decisions of its work array, within the
  iteration limit, and returns 0 exactly when re-encoding that output gives back the hard decisions
  of all positions.  In particular a frame reported as decoded is the encoder's word for the
  delivered bits, and the convergence schedule never skips the check of the last iteration.\<close>

theorem ldpc_decode_exact:
  assumes "dvbs2x_vlsnr_get_modcod idx = Some mc" "dvbs2x_ldpc_encoder_init mc = Some enc"
    "dvbs2x_ldpc_decoder_init alloc mc max_iter = Some dec" "length llr = mc_fec_len mc"
    "0 < max_iter" "r = dvbs2x_ldpc_decode dec (\<lambda>_. False) llr"
    "out = map (\<lambda>v. of_bool (dr_vn r ! v < 0)) [0..<mc_k_ldpc mc]"
  shows "dr_output r = Some out \<and> (\<exists>i. dr_iter_used r = Some i \<and> 1 \<le> i \<and> i \<le> max_iter) \<and>
    dr_ret r = (if \<forall>v < mc_fec_len mc. (dr_vn r ! v < 0) = (dvbs2x_ldpc_encode enc out ! v \<noteq> 0)
                then 0 else -1)"
proof -
  have mc: "mc \<in> set vlsnr_modcod_table" by (rule get_modcod_set [OF assms(1)])
  have code: "code_ok (enc_code enc)" "code_n (enc_code enc) = mc_fec_len mc"
    "code_k (enc_code enc) = mc_k_ldpc mc"
    using encoder_init_ok [OF mc] assms(2) by auto
  obtain csr where csr: "build_csr alloc (enc_code enc) = Some csr" "dec_code dec = enc_code enc"
    "dec_row_ptr dec = Some (csr_row_ptr csr)" "dec_col_idx dec = Some (csr_col_idx csr)"
    "dec_work dec" "dec_max_iter dec = max_iter"
    using decoder_init_parts [OF mc assms(2,3)] by metis
  let ?m = "mc_fec_len mc - mc_k_ldpc mc"
  obtain ex vn where loop: "decode_loop ?m max_iter (csr_row_ptr csr) (csr_col_idx csr)
      (\<lambda>_. False) 0 (llr, replicate (dec_num_edges dec) 0) = (ex, vn)"
    by fastforce
  have r: "r = \<lparr>dr_ret = (case ex of Converged _ \<Rightarrow> 0 | _ \<Rightarrow> -1),
     dr_iter_used = Some (case ex of Cancelled i \<Rightarrow> i | Converged i \<Rightarrow> i | Exhausted \<Rightarrow> max_iter),
     dr_output = (case ex of Cancelled _ \<Rightarrow> None
       | _ \<Rightarrow> Some (map (\<lambda>i. of_bool (vn ! i < 0)) [0..<mc_k_ldpc mc])), dr_vn = vn\<rparr>"
    using decode_initialised [OF csr(3,4,5), of llr "\<lambda>_. False" ex vn] loop assms(4)
    unfolding assms(6) csr(2,6) code(2,3) by simp
  have "csr_num_rows csr = ?m" using build_csr_rows(1) [OF code(1) csr(1)] code by simp
  then have good: "syndrome_ok ?m (csr_row_ptr csr) (csr_col_idx csr) vn \<longleftrightarrow>
    (\<forall>v < mc_fec_len mc. (vn ! v < 0) = (dvbs2x_ldpc_encode enc out ! v \<noteq> 0))"
    using checks_iff_encode [OF code(1) csr(1), of "\<lambda>v. vn ! v < 0"] code
    by (simp add: syndrome_ok_codeword assms(7) r)
  have "exit_ok (syndrome_ok ?m (csr_row_ptr csr) (csr_col_idx csr)) max_iter (\<lambda>_. False) 0 (ex, vn)"
    using decode_loop_exit by (metis loop)
  then show ?thesis
    using assms(5,7) good by (cases ex) (auto simp: exit_ok_def r)
qed

theorem ldpc_decode_exact_witness:
  "\<exists>enc dec. dvbs2x_ldpc_encoder_init modcod_9 = Some enc \<and>
     dvbs2x_ldpc_decoder_init (\<lambda>_. True) modcod_9 50 = Some dec \<and>
     (let r = dvbs2x_ldpc_decode dec (\<lambda>_. False) (replicate 16200 (-1));
          out = map (\<lambda>v. of_bool (dr_vn r ! v < 0)) [0..<5400]
      in dr_output r = Some out \<and>
         dr_ret r = (if \<forall>v < 16200. (dr_vn r ! v < 0) = (dvbs2x_ldpc_encode enc out ! v \<noteq> 0)
                     then 0 else -1))"
proof -
  obtain enc dec where c: "dvbs2x_ldpc_encoder_init modcod_9 = Some enc"
    "dvbs2x_ldpc_decoder_init (\<lambda>_. True) modcod_9 50 = Some dec"
    "dvbs2x_vlsnr_get_modcod 9 = Some modcod_9" "mc_fec_len modcod_9 = 16200"
    "mc_k_ldpc modcod_9 = 5400" by (rule codec_9)
  show ?thesis
    using ldpc_decode_exact [OF c(3,1,2), of "replicate 16200 (-1)", OF _ _ refl refl] c
    unfolding Let_def c(4,5) by simp
qed



end
