(* ===== verification/LdpcConverge.thy ===== *)
theory LdpcConverge
  imports LdpcDecode
begin

text \<open>
  What the box-plus operator and one sweep of the decoder guarantee: the table-driven operator stays
  within \<open>ln 2\<close> of min-sum, and since no check of the nine codes has more than five
  edges, an input whose signs are a codeword with magnitudes of at least 4 survives the
  first sweep with all its hard decisions.
\<close>

section \<open>Box-plus against min-sum\<close>

definition log1pexp :: "real \<Rightarrow> real" where
  "log1pexp x = ln (1 + exp (- x))"

lemma log1pexp_antimono: "x \<le> y \<Longrightarrow> log1pexp y \<le> log1pexp x"
proof -
  assume "x \<le> y"
  moreover have "0 < 1 + exp (- z)" for z :: real using exp_gt_zero [of "- z"] by linarith
  ultimately show ?thesis unfolding log1pexp_def by (subst ln_le_cancel_iff) simp_all
qed

lemma log1pexp_nonneg: "0 \<le> log1pexp x"
  unfolding log1pexp_def by (rule ln_ge_zero) simp

lemma nth_boxplus_lut: "i \<le> 512 \<Longrightarrow> boxplus_lut ! i = log1pexp (real i * (5 / 64))"
  by (simp add: boxplus_lut_def log1pexp_def nth_map_upt0 BOXPLUS_LUT_SIZE_def LLR_CLAMP_def Let_def
      del: upt_Suc)

text \<open>The index of a lookup and its successor are inside the table.\<close>

lemma lut_index: "x < LLR_CLAMP \<Longrightarrow> nat \<lfloor>x * (real BOXPLUS_LUT_SIZE / LLR_CLAMP)\<rfloor> < 512"
proof -
  assume "x < LLR_CLAMP"
  then have "\<lfloor>x * (real BOXPLUS_LUT_SIZE / LLR_CLAMP)\<rfloor> < 512"
    by (simp add: LLR_CLAMP_def BOXPLUS_LUT_SIZE_def floor_less_iff)
  then show ?thesis by linarith
qed

text \<open>Within a step the value lies between the two table entries.\<close>

lemma lut_between:
  assumes "0 \<le> x" "x < LLR_CLAMP"
  defines "i \<equiv> nat \<lfloor>x * (real BOXPLUS_LUT_SIZE / LLR_CLAMP)\<rfloor>"
  shows "log1pexp (real (i + 1) * (5 / 64)) \<le> lut_log1pexp x \<and> lut_log1pexp x \<le> log1pexp (real i * (5 / 64))"
    "lut_log1pexp x = log1pexp (real i * (5 / 64)) +
      (x * (real BOXPLUS_LUT_SIZE / LLR_CLAMP) - real i) *
        (log1pexp (real (i + 1) * (5 / 64)) - log1pexp (real i * (5 / 64)))"
proof -
  let ?y = "x * (real BOXPLUS_LUT_SIZE / LLR_CLAMP)"
  let ?a = "log1pexp (real i * (5 / 64))" and ?b = "log1pexp (real (i + 1) * (5 / 64))"
  have i: "i < 512" unfolding i_def by (rule lut_index [OF assms(2)])
  have "0 \<le> ?y" using assms(1) by (simp add: LLR_CLAMP_def)
  then have f: "0 \<le> ?y - real i" "?y - real i \<le> 1"
    unfolding i_def by (simp_all add: of_nat_nat) linarith
  show eq: "lut_log1pexp x = ?a + (?y - real i) * (?b - ?a)"
    using assms(2) i
    unfolding lut_log1pexp_def Let_def i_def [symmetric] by (simp add: nth_boxplus_lut)
  have d: "?b - ?a \<le> 0" using log1pexp_antimono [of "real i * (5 / 64)" "real (i + 1) * (5 / 64)"] by simp
  have "(?y - real i) * (?b - ?a) \<le> 0" by (rule mult_nonneg_nonpos [OF f(1) d])
  moreover have "?b - ?a \<le> (?y - real i) * (?b - ?a)"
    using mult_right_mono_neg [OF f(2) d] by simp
  ultimately show "?b \<le> lut_log1pexp x \<and> lut_log1pexp x \<le> ?a" unfolding eq by linarith
qed

lemma lut_nonneg: "0 \<le> x \<Longrightarrow> 0 \<le> lut_log1pexp x"
  using lut_between(1) [of x] log1pexp_nonneg
  by (cases "x < LLR_CLAMP") (auto simp: lut_log1pexp_def intro: order_trans)

lemma lut_antimono:
  assumes "0 \<le> x" "x \<le> y"
  shows "lut_log1pexp y \<le> lut_log1pexp x"
proof (cases "y < LLR_CLAMP")
  case False
  then show ?thesis using lut_nonneg [OF assms(1)] by (simp add: lut_log1pexp_def)
next
  case True
  then have x: "x < LLR_CLAMP" using assms(2) by simp
  have y: "0 \<le> y" using assms by simp
  let ?s = "real BOXPLUS_LUT_SIZE / LLR_CLAMP"
  let ?i = "nat \<lfloor>x * ?s\<rfloor>" and ?j = "nat \<lfloor>y * ?s\<rfloor>"
  have s: "x * ?s \<le> y * ?s" using assms(2) by (intro mult_right_mono) (simp_all add: LLR_CLAMP_def)
  then have "?i \<le> ?j" by (intro nat_mono floor_mono)
  then consider "?i = ?j" | "?i + 1 \<le> ?j" by linarith
  then show ?thesis
  proof cases
    case 1
    let ?d = "log1pexp (real (?i + 1) * (5 / 64)) - log1pexp (real ?i * (5 / 64))"
    have "?d \<le> 0" using log1pexp_antimono [of "real ?i * (5 / 64)" "real (?i + 1) * (5 / 64)"] by simp
    then have "(y * ?s - real ?i) * ?d \<le> (x * ?s - real ?i) * ?d"
      using s by (intro mult_right_mono_neg) simp_all
    then show ?thesis
      unfolding lut_between(2) [OF assms(1) x] lut_between(2) [OF y True] 1 [symmetric] by simp
  next
    case 2
    then have "real (?i + 1) * (5 / 64) \<le> real ?j * (5 / 64)" by (intro mult_right_mono) simp_all
    from log1pexp_antimono [OF this] show ?thesis
      using lut_between(1) [OF assms(1) x] lut_between(1) [OF y True] by linarith
  qed
qed

lemma lut_le_ln2: "0 \<le> x \<Longrightarrow> lut_log1pexp x \<le> ln 2"
proof -
  assume "0 \<le> x"
  then have "lut_log1pexp x \<le> lut_log1pexp 0" by (intro lut_antimono) simp_all
  also have "lut_log1pexp 0 = ln 2"
    by (simp add: lut_log1pexp_def LLR_CLAMP_def nth_boxplus_lut log1pexp_def)
  finally show ?thesis .
qed

definition sign_of :: "real \<Rightarrow> real" where
  "sign_of a = (if a < 0 then -1 else 1)"

definition clamped_min :: "real \<Rightarrow> real \<Rightarrow> real" where
  "clamped_min a b = min LLR_CLAMP (min \<bar>a\<bar> \<bar>b\<bar>)"

lemma boxplus_clamped:
  "boxplus a b = sign_of a * sign_of b * clamped_min a b +
     (lut_log1pexp \<bar>clamp a + clamp b\<bar> - lut_log1pexp \<bar>clamp a - clamp b\<bar>)"
  by (auto simp: boxplus_def Let_def sign_of_def clamped_min_def clamp_def LLR_CLAMP_def min_def abs_real_def)

lemma sign_clamp: "sign_of (clamp a) = sign_of a"
  by (auto simp: sign_of_def clamp_def LLR_CLAMP_def)

lemma abs_sum_diff:
  "sign_of a = sign_of b \<Longrightarrow> \<bar>a - b\<bar> \<le> \<bar>a + b\<bar>"
  "sign_of a \<noteq> sign_of b \<Longrightarrow> \<bar>a + b\<bar> \<le> \<bar>a - b\<bar>"
  by (auto simp: sign_of_def split: if_splits)

lemma boxplus_bounds:
  "clamped_min a b - ln 2 \<le> sign_of a * sign_of b * boxplus a b \<and>
   sign_of a * sign_of b * boxplus a b \<le> clamped_min a b"
proof -
  let ?p = "lut_log1pexp \<bar>clamp a + clamp b\<bar>" and ?q = "lut_log1pexp \<bar>clamp a - clamp b\<bar>"
  have r: "0 \<le> ?p" "?p \<le> ln 2" "0 \<le> ?q" "?q \<le> ln 2"
    by (simp_all add: lut_nonneg lut_le_ln2)
  have s: "sign_of a * sign_of a = 1" "sign_of b * sign_of b = 1" by (simp_all add: sign_of_def)
  have "?p \<le> ?q" if "sign_of a = sign_of b"
    using that by (intro lut_antimono abs_sum_diff) (simp_all add: sign_clamp)
  moreover have "?q \<le> ?p" if "sign_of a \<noteq> sign_of b"
    using that by (intro lut_antimono abs_sum_diff) (simp_all add: sign_clamp)
  moreover have "sign_of a * sign_of b = (if sign_of a = sign_of b then 1 else -1)"
    by (simp add: sign_of_def)
  ultimately show ?thesis using r unfolding boxplus_clamped by (auto simp: sign_of_def)
qed

section \<open>A confident codeword is decoded in one iteration\<close>

lemma boxplus_sign:
  assumes "s = 1 \<or> s = -1" "t = 1 \<or> t = -1" "0 < B" "B \<le> LLR_CLAMP" "B \<le> s * x" "B \<le> t * y"
  shows "B - ln 2 \<le> s * t * boxplus x y"
proof -
  have "sign_of x = s" "sign_of y = t" "B \<le> \<bar>x\<bar>" "B \<le> \<bar>y\<bar>"
    using assms by (auto simp: sign_of_def)
  then have "B \<le> clamped_min x y" using assms(4) by (simp add: clamped_min_def)
  then show ?thesis
    using boxplus_bounds [of x y] \<open>sign_of x = s\<close> \<open>sign_of y = t\<close> by simp
qed

lemma length_forward_pass: "length (forward_pass xs) = length xs"
proof -
  have "length (fold (\<lambda>d fwd. fwd[d := boxplus (fwd ! (d - 1)) (xs ! d)]) ds ys) = length ys" for ds ys
    by (induction ds arbitrary: ys) simp_all
  then show ?thesis by (simp add: forward_pass_def)
qed

lemma forward_pass_nth:
  assumes "0 < length xs"
  shows "forward_pass xs ! 0 = xs ! 0"
    "Suc d < length xs \<Longrightarrow> forward_pass xs ! Suc d = boxplus (forward_pass xs ! d) (xs ! Suc d)"
proof -
  let ?F = "\<lambda>n. fold (\<lambda>d fwd. fwd[d := boxplus (fwd ! (d - 1)) (xs ! d)]) [1..<Suc n] xs"
  have len: "length (?F n) = length xs" for n by (induction n) simp_all
  have stable: "?F (n + k) ! d = ?F n ! d" if "d \<le> n" for n k d
    using that by (induction k) simp_all
  have F: "forward_pass xs = ?F (length xs - 1)"
    using assms by (simp add: forward_pass_def)
  have at: "forward_pass xs ! d = ?F d ! d" if "d < length xs" for d
    using stable [of d d "length xs - 1 - d"] that F by simp
  show "forward_pass xs ! 0 = xs ! 0" using at [of 0] assms by simp
  show "forward_pass xs ! Suc d = boxplus (forward_pass xs ! d) (xs ! Suc d)" if "Suc d < length xs"
    using at [of d] at [of "Suc d"] that len [of d] by simp
qed

lemma backward_fold:
  "length ys = length xs \<Longrightarrow> n < length xs \<Longrightarrow>
   (let R = fold (\<lambda>d bwd. bwd[d := boxplus (bwd ! (d + 1)) (xs ! d)]) (rev [0..<n]) ys
    in length R = length xs \<and> (\<forall>i. n \<le> i \<longrightarrow> R ! i = ys ! i) \<and>
       (\<forall>i < n. R ! i = boxplus (R ! Suc i) (xs ! i)))"
proof (induction n arbitrary: ys)
  case (Suc n)
  let ?ys = "ys[n := boxplus (ys ! (n + 1)) (xs ! n)]"
  have "length ?ys = length xs" "n < length xs" using Suc.prems by simp_all
  from Suc.IH [OF this] show ?case
    using Suc.prems by (auto simp: Let_def less_Suc_eq)
qed simp

lemma backward_pass_nth:
  assumes "0 < length xs"
  shows "length (backward_pass xs) = length xs" "backward_pass xs ! (length xs - 1) = xs ! (length xs - 1)"
    "Suc d < length xs \<Longrightarrow> backward_pass xs ! d = boxplus (backward_pass xs ! Suc d) (xs ! d)"
  using backward_fold [of xs xs "length xs - 1"] assms
  by (auto simp: backward_pass_def Let_def)

definition bit_sign :: "bool \<Rightarrow> real" where
  "bit_sign b = (if b then -1 else 1)"

lemma bit_sign_simps [simp]:
  "bit_sign b * bit_sign b = 1" "bit_sign b = 1 \<or> bit_sign b = -1"
  by (simp_all add: bit_sign_def)

lemma prod_signs:
  "prod_list (map (\<lambda>v. bit_sign (c v)) xs) = bit_sign (odd (length (filter c xs)))"
  by (induction xs) (simp_all add: bit_sign_def)

text \<open>The first \<open>m\<close> messages into a check of at most five edges agree in sign with the bits \<open>sg\<close>,
  and are at least \<open>B\<close> in magnitude.\<close>

definition confident :: "real \<Rightarrow> (nat \<Rightarrow> bool) \<Rightarrow> nat \<Rightarrow> real list \<Rightarrow> bool" where
  "confident B sg m xs \<longleftrightarrow>
     0 < m \<and> m \<le> length xs \<and> m \<le> 5 \<and> 4 \<le> B \<and> B \<le> LLR_CLAMP \<and>
     (\<forall>d < m. B \<le> bit_sign (sg d) * xs ! d)"

abbreviation sign_prod :: "(nat \<Rightarrow> bool) \<Rightarrow> nat \<Rightarrow> nat \<Rightarrow> real" where
  "sign_prod sg i j \<equiv> prod_list (map (\<lambda>d. bit_sign (sg d)) [i..<j])"

lemma sign_prod_unit: "sign_prod sg i j = 1 \<or> sign_prod sg i j = -1"
  by (simp add: prod_signs)

lemma ln2_le: "ln (2 :: real) \<le> 3 / 4"
proof -
  have "(1 + (3 / 4) / real 6) ^ 6 \<le> exp (3 / 4 :: real)"
    by (rule exp_ge_one_plus_x_over_n_power_n) simp_all
  moreover have "(2 :: real) \<le> (1 + (3 / 4) / real 6) ^ 6" by (simp add: power_divide eval_nat_numeral)
  ultimately have "2 \<le> exp (3 / 4 :: real)" by linarith
  then have "ln 2 \<le> ln (exp (3 / 4 :: real))" by (subst ln_le_cancel_iff) simp_all
  then show ?thesis by simp
qed

lemma margin: "4 \<le> B \<Longrightarrow> d \<le> 5 \<Longrightarrow> 0 < B - real d * ln 2"
proof -
  assume B: "4 \<le> B" and "d \<le> 5"
  then have "real d * ln 2 \<le> 5 * ln 2" by (intro mult_right_mono) simp_all
  also have "\<dots> < 4" using ln2_le by simp
  finally show ?thesis using B by simp
qed

lemma weaken_bound: "B \<le> x \<Longrightarrow> B - real d * ln 2 \<le> x"
  by (simp add: add_increasing2 diff_le_eq)

lemma forward_confident:
  assumes "confident B sg m xs" "d < m"
  shows "B - real d * ln 2 \<le> sign_prod sg 0 (Suc d) * forward_pass xs ! d"
  using assms(2)
proof (induction d)
  case 0
  have "0 < length xs" "B \<le> bit_sign (sg 0) * xs ! 0" using assms(1) by (auto simp: confident_def)
  then show ?case by (simp add: forward_pass_nth(1))
next
  case (Suc d)
  have B: "4 \<le> B" "B \<le> LLR_CLAMP" "d \<le> 5" "0 < length xs" "Suc d < length xs"
    "B \<le> bit_sign (sg (Suc d)) * xs ! Suc d"
    using Suc.prems assms(1) by (auto simp: confident_def)
  have "B - real d * ln 2 - ln 2 \<le>
    sign_prod sg 0 (Suc d) * bit_sign (sg (Suc d)) * boxplus (forward_pass xs ! d) (xs ! Suc d)"
    by (rule boxplus_sign [OF sign_prod_unit _ margin])
       (use Suc B weaken_bound [OF B(2)] weaken_bound [OF B(6)] in simp_all)
  then show ?case
    using B by (simp add: forward_pass_nth(2) algebra_simps)
qed

lemma backward_confident:
  assumes "confident B sg (length xs) xs" "k < length xs"
  shows "B - real k * ln 2 \<le>
    sign_prod sg (length xs - 1 - k) (length xs) * backward_pass xs ! (length xs - 1 - k)"
  using assms(2)
proof (induction k)
  case 0
  have "backward_pass xs ! (length xs - 1) = xs ! (length xs - 1)"
    using assms(1) by (intro backward_pass_nth(2)) (simp add: confident_def)
  then show ?case
    using assms(1) by (auto simp add: confident_def upt_conv_Cons)
next
  case (Suc k)
  let ?n = "length xs" and ?d = "length xs - 1 - Suc k"
  have d: "length xs - 1 - k = Suc ?d" "Suc ?d < ?n" using Suc.prems by simp_all
  have B: "4 \<le> B" "B \<le> LLR_CLAMP" "k \<le> 5" "B \<le> bit_sign (sg ?d) * xs ! ?d"
    using Suc.prems assms(1) d by (auto simp: confident_def)
  have "B - real k * ln 2 - ln 2 \<le>
    sign_prod sg (Suc ?d) ?n * bit_sign (sg ?d) * boxplus (backward_pass xs ! Suc ?d) (xs ! ?d)"
    by (rule boxplus_sign [OF sign_prod_unit _ margin])
       (use Suc B d weaken_bound [OF B(2)] weaken_bound [OF B(4)] in simp_all)
  moreover have "backward_pass xs ! ?d = boxplus (backward_pass xs ! Suc ?d) (xs ! ?d)"
    by (intro backward_pass_nth(3)) (use d(2) in linarith)+
  moreover have "sign_prod sg ?d ?n = bit_sign (sg ?d) * sign_prod sg (Suc ?d) ?n"
    using d(2) by (subst upt_conv_Cons) simp_all
  ultimately show ?case by (simp add: algebra_simps)
qed

lemma sign_prod_split: "i \<le> j \<Longrightarrow> j \<le> k \<Longrightarrow> sign_prod sg i k = sign_prod sg i j * sign_prod sg j k"
  by (metis map_append prod_list.append upt_add_eq_append le_add_diff_inverse)

lemma unit_cancel: "(a :: real) * (s * b) = 1 \<Longrightarrow> s = 1 \<or> s = -1 \<Longrightarrow> a * b = s"
  by auto

text \<open>With even parity the extrinsic message of an edge has the sign of its own bit.\<close>

lemma extrinsic_sign:
  assumes "confident B sg (length xs) xs" "d < length xs" "sign_prod sg 0 (length xs) = 1"
  shows "0 \<le> bit_sign (sg d) *
    extrinsic (length xs) (forward_pass xs) (backward_pass xs) d"
proof -
  let ?n = "length xs" and ?f = "forward_pass xs" and ?b = "backward_pass xs"
  have n: "0 < ?n" "?n \<le> 5" and B: "4 \<le> B" "B \<le> LLR_CLAMP"
    using assms(1) by (simp_all add: confident_def)
  have "sign_prod sg d ?n = bit_sign (sg d) * sign_prod sg (Suc d) ?n"
    using assms(2) by (subst upt_conv_Cons) simp_all
  then have "sign_prod sg 0 d * (bit_sign (sg d) * sign_prod sg (Suc d) ?n) = 1"
    using assms(2,3) sign_prod_split [of 0 d ?n sg] by (metis le0 less_imp_le)
  then have own: "sign_prod sg 0 d * sign_prod sg (Suc d) ?n = bit_sign (sg d)"
    by (rule unit_cancel) simp
  have f: "B - real (?n - 2) * ln 2 \<le> sign_prod sg 0 d * ?f ! (d - 1)" if "0 < d"
  proof -
    have "B - real (?n - 2) * ln 2 \<le> B - real (d - 1) * ln 2"
      using assms(2) that by (intro diff_left_mono mult_right_mono) (auto simp: of_nat_le_iff)
    also have "\<dots> \<le> sign_prod sg 0 d * ?f ! (d - 1)"
      using forward_confident [OF assms(1), of "d - 1"] assms(2) that by simp
    finally show ?thesis .
  qed
  have b: "B - real (?n - 2) * ln 2 \<le> sign_prod sg (Suc d) ?n * ?b ! (d + 1)" if "d + 1 < ?n"
  proof -
    have "B - real (?n - 2) * ln 2 \<le> B - real (?n - 2 - d) * ln 2"
      by (intro diff_left_mono mult_right_mono) (auto simp: of_nat_le_iff)
    also have "?n - 1 - (?n - 2 - d) = d + 1" using that by simp
    then have "B - real (?n - 2 - d) * ln 2 \<le> sign_prod sg (Suc d) ?n * ?b ! (d + 1)"
      using backward_confident [OF assms(1), of "?n - 2 - d"] that by simp
    finally show ?thesis .
  qed
  have m: "0 < B - real (?n - 2) * ln 2" using n B by (intro margin) simp_all
  have m2: "ln 2 \<le> B - real (?n - 2) * ln 2"
  proof -
    have "0 < B - real (Suc (?n - 2)) * ln 2" using n B by (intro margin) simp_all
    then show ?thesis by (simp add: algebra_simps)
  qed
  consider "?n = 1" | "?n \<noteq> 1" "d = 0" | "?n \<noteq> 1" "d \<noteq> 0" "d = ?n - 1"
    | "?n \<noteq> 1" "d \<noteq> 0" "d \<noteq> ?n - 1" by blast
  then show ?thesis
  proof cases
    case 1
    then show ?thesis by (simp add: extrinsic_def)
  next
    case 2
    then show ?thesis using b m own n by (simp add: extrinsic_def)
  next
    case 3
    then have "sign_prod sg (Suc d) ?n = 1" by simp
    then have "sign_prod sg 0 d = bit_sign (sg d)" using own by simp
    moreover have "d - 1 = ?n - 2" using 3 by simp
    ultimately show ?thesis using 3 f m by (simp add: extrinsic_def)
  next
    case 4
    then have "B - real (?n - 2) * ln 2 - ln 2 \<le>
      sign_prod sg 0 d * sign_prod sg (Suc d) ?n * boxplus (?f ! (d - 1)) (?b ! (d + 1))"
      using assms(2) f b B
      by (intro boxplus_sign sign_prod_unit m) (simp_all add: diff_le_eq add_increasing2)
    then show ?thesis using 4 m2 own by (simp add: extrinsic_def)
  qed
qed

text \<open>An erased edge at the end of the check silences the others, and receives what they say.\<close>

lemma boxplus_zero: "boxplus x 0 = 0" "boxplus 0 x = 0"
  by (simp_all add: boxplus_def Let_def clamp_def LLR_CLAMP_def)

lemma backward_erased:
  assumes "length xs = Suc m" "xs ! m = 0" "d \<le> m"
  shows "backward_pass xs ! d = 0"
proof -
  have "backward_pass xs ! (m - k) = 0" if "k \<le> m" for k
    using that
  proof (induction k)
    case 0
    then show ?case using backward_pass_nth(2) [of xs] assms by simp
  next
    case (Suc k)
    then show ?case
      using backward_pass_nth(3) [of xs "m - Suc k"] assms(1) by (simp add: boxplus_zero Suc_diff_Suc)
  qed
  from this [of "m - d"] show ?thesis using assms(3) by simp
qed

lemma extrinsic_erased:
  assumes "confident B sg m xs" "7 \<le> B" "length xs = Suc m" "xs ! m = 0" "m \<le> 4"
    "sign_prod sg 0 (Suc m) = 1"
  shows "d < m \<Longrightarrow> extrinsic (Suc m) (forward_pass xs) (backward_pass xs) d = 0"
    "4 \<le> bit_sign (sg m) * extrinsic (Suc m) (forward_pass xs) (backward_pass xs) m"
proof -
  have m: "0 < m" using assms(1) by (simp add: confident_def)
  show "d < m \<Longrightarrow> extrinsic (Suc m) (forward_pass xs) (backward_pass xs) d = 0"
    using backward_erased [OF assms(3,4)] m by (auto simp: extrinsic_def boxplus_zero)
  have "real (m - 1) * ln 2 \<le> 3 * (3 / 4)"
    using assms(5) m ln2_le by (intro mult_mono) auto
  then have "4 \<le> B - real (m - 1) * ln 2" using assms(2) by simp
  also have "\<dots> \<le> sign_prod sg 0 m * forward_pass xs ! (m - 1)"
    using forward_confident [OF assms(1), of "m - 1"] m by simp
  also have "sign_prod sg 0 m = bit_sign (sg m)"
  proof -
    have "sign_prod sg 0 m * bit_sign (sg m) = 1" using assms(6) by simp
    then show ?thesis using unit_cancel [of "sign_prod sg 0 m" "bit_sign (sg m)" 1] by simp
  qed
  finally show "4 \<le> bit_sign (sg m) * extrinsic (Suc m) (forward_pass xs) (backward_pass xs) m"
    using m by (simp add: extrinsic_def numeral_2_eq_2)
qed

text \<open>One sweep, with the bits in \<open>E\<close> erased (parity bits, no two of them adjacent).  Before row
  \<open>r\<close> the other bits have the signs of \<open>c\<close> with magnitude at least \<open>B\<close>, the erased ones
  of the rows done have been recovered with magnitude at least 4, the rest of them are still
  zero, and the edges of the rows to come have zero messages.\<close>

definition sweep_inv ::
  "(nat \<Rightarrow> bool) \<Rightarrow> real \<Rightarrow> nat set \<Rightarrow> nat \<Rightarrow> nat \<Rightarrow> nat \<Rightarrow> nat \<Rightarrow> real list \<times> real list \<Rightarrow> bool" where
  "sweep_inv c B E known n ne start st \<longleftrightarrow>
     length (fst st) = n \<and> length (snd st) = ne \<and>
     (\<forall>v < n. if v \<in> E then if v < known then 4 \<le> bit_sign (c v) * fst st ! v else fst st ! v = 0
              else B \<le> bit_sign (c v) * fst st ! v) \<and>
     (\<forall>e. start \<le> e \<longrightarrow> e < ne \<longrightarrow> snd st ! e = 0)"

lemma sweep_inv_at:
  "sweep_inv c B E known n ne start st \<Longrightarrow> v < n \<Longrightarrow> v \<notin> E \<Longrightarrow> B \<le> bit_sign (c v) * fst st ! v"
  "sweep_inv c B E known n ne start st \<Longrightarrow> v < n \<Longrightarrow> v \<in> E \<Longrightarrow> v < known \<Longrightarrow>
     4 \<le> bit_sign (c v) * fst st ! v"
  "sweep_inv c B E known n ne start st \<Longrightarrow> v < n \<Longrightarrow> v \<in> E \<Longrightarrow> known \<le> v \<Longrightarrow> fst st ! v = 0"
  by (auto simp: sweep_inv_def)

lemma update_edge_zero:
  assumes "sweep_inv c B E known n ne (start + d) st" "start + d < ne"
  shows "update_edge col_idx start msg d st =
    ((fst st)[col_idx ! (start + d) := fst st ! (col_idx ! (start + d)) + msg d],
     (snd st)[start + d := msg d])"
  using assms by (simp add: update_edge_def Let_def split_def sweep_inv_def)

lemma update_edge_sweep:
  assumes "sweep_inv c B E known n ne (start + d) st" "start + d < ne"
    "v = col_idx ! (start + d)" "v < n" "v \<in> E \<longrightarrow> v < known" "0 \<le> bit_sign (c v) * msg d"
  shows "sweep_inv c B E known n ne (start + Suc d) (update_edge col_idx start msg d st)"
proof -
  have "x \<le> bit_sign (c v) * fst st ! v \<longrightarrow> x \<le> bit_sign (c v) * fst st ! v + bit_sign (c v) * msg d" for x
    using assms(6) by linarith
  then show ?thesis
    using assms(1,4,5) unfolding update_edge_zero [OF assms(1,2)] assms(3) [symmetric]
    by (auto simp: sweep_inv_def nth_list_update distrib_left)
qed

lemma update_edges_sweep:
  assumes "sweep_inv c B E known n ne start st" "start + deg \<le> ne"
    "\<And>d. d < deg \<Longrightarrow> col_idx ! (start + d) < n \<and> (col_idx ! (start + d) \<in> E \<longrightarrow> col_idx ! (start + d) < known) \<and>
       0 \<le> bit_sign (c (col_idx ! (start + d))) * msg d"
  shows "k \<le> deg \<Longrightarrow>
    sweep_inv c B E known n ne (start + k) (fold (update_edge col_idx start msg) [0..<k] st)"
proof (induction k)
  case (Suc k)
  then have "sweep_inv c B E known n ne (start + k) (fold (update_edge col_idx start msg) [0..<k] st)" by simp
  moreover have "start + k < ne" using assms(2) Suc.prems by simp
  ultimately show ?case
    using assms(3) [of k] Suc.prems by (simp add: update_edge_sweep [OF _ _ refl] del: add_Suc_right)
qed (use assms in simp)

lemma sweep_inv_known:
  assumes "sweep_inv c B E known n ne start st" "known < n \<Longrightarrow> known \<in> E \<Longrightarrow> 4 \<le> bit_sign (c known) * fst st ! known"
  shows "sweep_inv c B E (Suc known) n ne start st"
  using assms unfolding sweep_inv_def by (auto simp: less_Suc_eq)

lemma check_node_messages:
  assumes "row_ptr ! (i + 1) = row_ptr ! i + deg" "0 < deg"
    "v2c = map (\<lambda>d. fst st ! (col_idx ! (row_ptr ! i + d)) - snd st ! (row_ptr ! i + d)) [0..<deg]"
  shows "check_node_update row_ptr col_idx i st =
    fold (update_edge col_idx (row_ptr ! i) (extrinsic deg (forward_pass v2c) (backward_pass v2c))) [0..<deg] st"
  using assms by (simp add: check_node_update_def Let_def split_def)

lemma row_sign_prod:
  "\<not> row_parity c (map f [0..<deg]) \<Longrightarrow> sign_prod (\<lambda>d. c (f d)) 0 deg = 1"
  unfolding prod_signs row_parity_def by (simp add: filter_map comp_def bit_sign_def)

text \<open>A row without an erased bit to recover.\<close>

lemma check_node_sweep:
  assumes "sweep_inv c B E known n ne (row_ptr ! i) st" "row_ptr ! i + deg \<le> ne"
    "row_ptr ! (i + 1) = row_ptr ! i + deg" "0 < deg" "deg \<le> 5" "4 \<le> B" "known \<notin> E"
    "\<And>d. d < deg \<Longrightarrow> col_idx ! (row_ptr ! i + d) < n \<and>
       (col_idx ! (row_ptr ! i + d) \<in> E \<longrightarrow> col_idx ! (row_ptr ! i + d) < known)"
    "\<not> row_parity c (map (\<lambda>d. col_idx ! (row_ptr ! i + d)) [0..<deg])"
  shows "sweep_inv c B E (Suc known) n ne (row_ptr ! (i + 1)) (check_node_update row_ptr col_idx i st)"
proof -
  let ?start = "row_ptr ! i"
  let ?sg = "\<lambda>d. c (col_idx ! (?start + d))"
  let ?v2c = "map (\<lambda>d. fst st ! (col_idx ! (?start + d)) - snd st ! (?start + d)) [0..<deg]"
  have "4 \<le> bit_sign (?sg d) * fst st ! (col_idx ! (?start + d)) \<and> snd st ! (?start + d) = 0"
    if "d < deg" for d
    using assms(2,6) assms(8) [OF that] that sweep_inv_at(1,2) [OF assms(1), of "col_idx ! (?start + d)"] assms(1)
    by (cases "col_idx ! (?start + d) \<in> E") (auto simp: sweep_inv_def)
  then have conf: "confident 4 ?sg (length ?v2c) ?v2c"
    using assms(4,5) by (simp add: confident_def nth_map_upt0 LLR_CLAMP_def)
  have msg: "0 \<le> bit_sign (?sg d) *
    extrinsic deg (forward_pass ?v2c) (backward_pass ?v2c) d" if "d < deg" for d
    using extrinsic_sign [OF conf, of d] that row_sign_prod [OF assms(9)] by simp
  have "sweep_inv c B E known n ne (?start + deg)
    (fold (update_edge col_idx ?start (extrinsic deg (forward_pass ?v2c) (backward_pass ?v2c))) [0..<deg] st)"
    by (rule update_edges_sweep [OF assms(1,2) _ le_refl]) (use assms(8) msg in simp_all)
  then show ?thesis
    unfolding check_node_messages [OF assms(3,4) refl] assms(3) using assms(7) by (intro sweep_inv_known) simp_all
qed

text \<open>A row that recovers an erased bit, its last one.\<close>

lemma check_node_recovers:
  assumes "sweep_inv c B E known n ne (row_ptr ! i) st" "row_ptr ! i + Suc m \<le> ne"
    "row_ptr ! (i + 1) = row_ptr ! i + Suc m" "0 < m" "m \<le> 4" "7 \<le> B" "B \<le> LLR_CLAMP"
    "known \<in> E" "known < n" "col_idx ! (row_ptr ! i + m) = known"
    "\<And>d. d < m \<Longrightarrow> col_idx ! (row_ptr ! i + d) < n \<and> col_idx ! (row_ptr ! i + d) \<notin> E"
    "\<not> row_parity c (map (\<lambda>d. col_idx ! (row_ptr ! i + d)) [0..<Suc m])"
  shows "sweep_inv c B E (Suc known) n ne (row_ptr ! (i + 1)) (check_node_update row_ptr col_idx i st)"
proof -
  let ?start = "row_ptr ! i"
  let ?sg = "\<lambda>d. c (col_idx ! (?start + d))"
  let ?v2c = "map (\<lambda>d. fst st ! (col_idx ! (?start + d)) - snd st ! (?start + d)) [0..<Suc m]"
  let ?msg = "extrinsic (Suc m) (forward_pass ?v2c) (backward_pass ?v2c)"
  have edge0: "snd st ! (?start + d) = 0" if "d < Suc m" for d
    using assms(1,2) that by (simp add: sweep_inv_def)
  have len: "length ?v2c = Suc m" by simp
  have nth: "?v2c ! d = fst st ! (col_idx ! (?start + d))" if "d < Suc m" for d
    using edge0 [OF that] that by (simp only: nth_map_upt0 diff_zero)
  have conf: "confident B ?sg m ?v2c"
    using assms(4-7) assms(11) sweep_inv_at(1) [OF assms(1)] nth len by (simp add: confident_def del: upt_Suc)
  have last: "?v2c ! m = 0"
    using sweep_inv_at(3) [OF assms(1,9,8)] nth [of m] assms(10) by simp
  note msg = extrinsic_erased [OF conf assms(6) len last assms(5) row_sign_prod [OF assms(12)]]
  let ?st = "fold (update_edge col_idx ?start ?msg) [0..<m] st"
  have st: "sweep_inv c B E known n ne (?start + m) ?st"
    by (rule update_edges_sweep [OF assms(1) _ _ le_refl]) (use assms(2,11) msg(1) in simp_all)
  have known0: "fst ?st ! known = 0" by (rule sweep_inv_at(3) [OF st assms(9,8)]) simp
  have upd: "update_edge col_idx ?start ?msg m ?st = ((fst ?st)[known := ?msg m], (snd ?st)[?start + m := ?msg m])"
    using update_edge_zero [OF st, of col_idx ?msg] assms(2,10) known0 by simp
  have "sweep_inv c B E (Suc known) n ne (?start + Suc m) (update_edge col_idx ?start ?msg m ?st)"
    using st msg(2) assms(8,9,10) unfolding upd
    by (auto simp: sweep_inv_def nth_list_update less_Suc_eq)
  moreover have "check_node_update row_ptr col_idx i st = update_edge col_idx ?start ?msg m ?st"
    unfolding check_node_messages [OF assms(3) zero_less_Suc refl] by simp
  ultimately show ?thesis unfolding assms(3) by simp
qed

lemma row_ptr_le:
  assumes "code_ok code" "build_csr alloc code = Some csr" "r \<le> csr_num_rows csr"
  shows "csr_row_ptr csr ! r \<le> csr_num_edges csr"
proof -
  have "csr_row_ptr csr ! r \<le> csr_row_ptr csr ! (r + k)" if "r + k \<le> csr_num_rows csr" for k
    using that
  proof (induction k)
    case (Suc k)
    then show ?case using build_csr_rows(7) [OF assms(1,2), of "r + k"] by simp
  qed simp
  from this [of "csr_num_rows csr - r"] show ?thesis
    using build_csr_rows(5) [OF assms(1,2)] assms(3) by simp
qed

text \<open>The shape of a row: columns that are information bits or the parity bit before, then the
  row's own parity bit.\<close>

lemma row_shape:
  assumes "code_ok code" "r < code_n code - code_k code"
  obtains vs where "row_of (csr_edges code) r = vs @ [code_k code + r]" "vs \<noteq> []"
    "\<And>v. v \<in> set vs \<Longrightarrow> v < code_k code \<or> 0 < r \<and> v = code_k code + r - 1"
proof -
  let ?i = "row_of (info_edges code) r"
  have info: "v < code_k code" if "v \<in> set ?i" for v
    using set_info_edges_vn [of r v code] assms(1) that by (auto simp: row_of_def code_ok_def)
  have row: "row_of (csr_edges code) r =
    (?i @ (if r = 0 then [] else [code_k code + r - 1])) @ [code_k code + r]"
    by (simp add: csr_edges_def row_of_append row_of_staircase [OF assms(2)])
  have "?i @ (if r = 0 then [] else [code_k code + r - 1]) \<noteq> []"
    using first_row_info [OF assms(1)] by (cases "r = 0") simp_all
  then show ?thesis using info by (intro that [OF row]) (auto split: if_splits)
qed

lemma first_sweep:
  assumes "code_ok code" "build_csr alloc code = Some csr" "codeword_bits csr c"
    and E: "\<And>v. v \<in> E \<Longrightarrow> code_k code \<le> v \<and> Suc v \<notin> E"
    and B: "4 \<le> B" "E \<noteq> {} \<longrightarrow> 7 \<le> B" "B \<le> LLR_CLAMP"
    and llr: "length llr = code_n code"
      "\<And>v. v < code_n code \<Longrightarrow> if v \<in> E then llr ! v = 0 else B \<le> bit_sign (c v) * llr ! v"
  shows "r \<le> csr_num_rows csr \<Longrightarrow>
    sweep_inv c B E (code_k code + r) (code_n code) (csr_num_edges csr) (csr_row_ptr csr ! r)
      (fold (check_node_update (csr_row_ptr csr) (csr_col_idx csr)) [0..<r]
        (llr, replicate (csr_num_edges csr) 0))"
proof (induction r)
  case 0
  have "\<not> v < code_k code" if "v \<in> E" for v using E [OF that] by simp
  then show ?case using llr by (auto simp: sweep_inv_def)
next
  case (Suc r)
  note csr = build_csr_rows [OF assms(1,2)]
  have r: "r < csr_num_rows csr" "r < code_n code - code_k code" using Suc.prems csr(1) by simp_all
  let ?deg = "length (csr_row csr r)" and ?s = "csr_row_ptr csr ! r" and ?k = "code_k code"
  let ?st = "fold (check_node_update (csr_row_ptr csr) (csr_col_idx csr)) [0..<r]
        (llr, replicate (csr_num_edges csr) 0)"
  have row: "csr_row csr r = map (\<lambda>d. csr_col_idx csr ! (?s + d)) [0..<?deg]"
    by (intro nth_equalityI) (auto simp: csr_row_def)
  have deg: "0 < ?deg" "?deg \<le> 5"
    using row_degree [OF assms(1) r(2)] csr(8) [OF r(1)] by simp_all
  have ptr: "csr_row_ptr csr ! (r + 1) = ?s + ?deg" by (rule csr(7) [OF r(1)])
  have ne: "?s + ?deg \<le> csr_num_edges csr"
    using row_ptr_le [OF assms(1,2), of "r + 1"] r(1) ptr by simp
  have par: "\<not> row_parity c (map (\<lambda>d. csr_col_idx csr ! (?s + d)) [0..<?deg])"
    using assms(3) r(1) by (simp add: codeword_bits_def flip: row)
  obtain vs where vs: "csr_row csr r = vs @ [?k + r]" "vs \<noteq> []"
    "\<And>v. v \<in> set vs \<Longrightarrow> v < ?k \<or> 0 < r \<and> v = ?k + r - 1"
    using row_shape [OF assms(1) r(2)] csr(8) [OF r(1)] by metis
  have col: "csr_col_idx csr ! (?s + d) = (vs @ [?k + r]) ! d" if "d < ?deg" for d
    using row that vs(1) by (metis nth_map_upt0)
  have deg_vs: "?deg = Suc (length vs)" using vs(1) by simp
  have kn: "?k + r < code_n code" using r(2) by simp
  have IH: "sweep_inv c B E (?k + r) (code_n code) (csr_num_edges csr) ?s ?st"
    using Suc by simp
  have "sweep_inv c B E (Suc (?k + r)) (code_n code) (csr_num_edges csr) (csr_row_ptr csr ! (r + 1))
     (check_node_update (csr_row_ptr csr) (csr_col_idx csr) r ?st)"
  proof (cases "?k + r \<in> E")
    case False
    have "csr_col_idx csr ! (?s + d) < code_n code \<and>
        (csr_col_idx csr ! (?s + d) \<in> E \<longrightarrow> csr_col_idx csr ! (?s + d) < ?k + r)" if d: "d < ?deg" for d
    proof (cases "d < length vs")
      case True
      then show ?thesis using vs(3) [OF nth_mem [OF True]] kn col [OF d] by (auto simp: nth_append)
    next
      case False
      then have "d = length vs" using d deg_vs by simp
      then show ?thesis using col [OF d] kn \<open>?k + r \<notin> E\<close> by simp
    qed
    then show ?thesis by (rule check_node_sweep [OF IH ne ptr deg B(1) False _ par])
  next
    case True
    have "csr_col_idx csr ! (?s + d) < code_n code \<and> csr_col_idx csr ! (?s + d) \<notin> E"
      if d: "d < length vs" for d
    proof -
      have "?k + r - 1 \<notin> E" if "0 < r" using E [of "?k + r - 1"] True that by auto
      moreover have "v \<notin> E" if "v < ?k" for v using E [of v] that by auto
      ultimately show ?thesis
        using vs(3) [OF nth_mem [OF d]] kn col [of d] d deg_vs by (auto simp: nth_append)
    qed
    then show ?thesis
      using IH ne ptr vs(2) deg B True kn par col [of "length vs"] unfolding deg_vs
      by (intro check_node_recovers [where m = "length vs"]) auto
  qed
  then show ?case by simp
qed

text \<open>A codeword received with its erased bits at zero and the others confident is decoded by the
  first iteration.\<close>

lemma decode_erasures:
  assumes "dvbs2x_vlsnr_get_modcod idx = Some mc" "dvbs2x_ldpc_encoder_init mc = Some enc"
    "dvbs2x_ldpc_decoder_init alloc mc max_iter = Some dec0"
    "dec = dec0\<lparr>dec_max_iter := niter\<rparr>" "0 < niter" "\<not> cancel 0"
    "length info = mc_k_ldpc mc" "set info \<subseteq> {0, 1}" "length llr = mc_fec_len mc"
    and E: "\<And>v. v \<in> E \<Longrightarrow> mc_k_ldpc mc \<le> v \<and> Suc v \<notin> E"
    and B: "4 \<le> B" "E \<noteq> {} \<longrightarrow> 7 \<le> B" "B \<le> LLR_CLAMP"
    and llr: "\<And>v. v < mc_fec_len mc \<Longrightarrow> if v \<in> E then llr ! v = 0
       else B \<le> bit_sign (dvbs2x_ldpc_encode enc info ! v \<noteq> 0) * llr ! v"
  shows "dr_ret (dvbs2x_ldpc_decode dec cancel llr) = 0 \<and>
    dr_iter_used (dvbs2x_ldpc_decode dec cancel llr) = Some 1 \<and>
    dr_output (dvbs2x_ldpc_decode dec cancel llr) = Some info"
proof -
  have mc: "mc \<in> set vlsnr_modcod_table" by (rule get_modcod_set [OF assms(1)])
  have code: "code_ok (enc_code enc)" "code_n (enc_code enc) = mc_fec_len mc"
    "code_k (enc_code enc) = mc_k_ldpc mc"
    using encoder_init_ok [OF mc] assms(2) by auto
  obtain csr where csr: "build_csr alloc (enc_code enc) = Some csr" "dec_code dec = enc_code enc"
    "dec_row_ptr dec = Some (csr_row_ptr csr)" "dec_col_idx dec = Some (csr_col_idx csr)"
    "dec_num_edges dec = csr_num_edges csr" "dec_work dec" "dec_max_iter dec = niter"
    using decoder_init_parts [OF mc assms(2,3)] by (auto simp: assms(4))
  let ?m = "mc_fec_len mc - mc_k_ldpc mc" and ?c = "\<lambda>v. dvbs2x_ldpc_encode enc info ! v \<noteq> 0"
  have k: "mc_k_ldpc mc \<le> mc_fec_len mc" using code by (simp add: code_ok_def)
  have rows: "csr_num_rows csr = ?m" using build_csr_rows(1) [OF code(1) csr(1)] code by simp
  have cw: "codeword_bits csr ?c" "take (mc_k_ldpc mc) (dvbs2x_ldpc_encode enc info) = info"
    using encode_satisfies_checks [OF code(1) csr(1), of info] assms(7) code by simp_all
  let ?st = "fold (check_node_update (csr_row_ptr csr) (csr_col_idx csr)) [0..<?m]
        (llr, replicate (csr_num_edges csr) 0)"
  have "sweep_inv ?c B E (mc_k_ldpc mc + ?m) (mc_fec_len mc) (csr_num_edges csr) (csr_row_ptr csr ! ?m) ?st"
    using first_sweep [OF code(1) csr(1) cw(1), of E B llr ?m] assms(9) code(2,3) rows E B llr by simp
  then have "4 \<le> bit_sign (?c v) * fst ?st ! v" if "v < mc_fec_len mc" for v
    using that k B(1) by (fastforce simp: sweep_inv_def split: if_splits)
  then have hard: "(fst ?st ! v < 0) = ?c v" if "v < mc_fec_len mc" for v
    using that by (fastforce simp: bit_sign_def split: if_splits)
  have "codeword_bits csr (\<lambda>v. fst ?st ! v < 0)"
  proof -
    have "row_parity (\<lambda>v. fst ?st ! v < 0) (csr_row csr r) = row_parity ?c (csr_row csr r)" if r: "r < ?m" for r
    proof -
      have "r < code_n (enc_code enc) - code_k (enc_code enc)" using r code by simp
      from row_shape [OF code(1) this] obtain vs where vs:
        "row_of (csr_edges (enc_code enc)) r = vs @ [code_k (enc_code enc) + r]"
        "\<And>v. v \<in> set vs \<Longrightarrow> v < code_k (enc_code enc) \<or> 0 < r \<and> v = code_k (enc_code enc) + r - 1"
        by metis
      have row: "csr_row csr r = vs @ [mc_k_ldpc mc + r]"
        using build_csr_rows(8) [OF code(1) csr(1), of r] vs(1) r rows code by simp
      have "v < mc_fec_len mc" if "v \<in> set (csr_row csr r)" for v
        using that vs(2) [of v] r k unfolding row code(3) by auto
      then show ?thesis
        unfolding row_parity_def using hard
        by (intro arg_cong [where f = "\<lambda>xs. odd (length xs)"] filter_cong) simp_all
    qed
    then show ?thesis using cw(1) rows by (simp add: codeword_bits_def)
  qed
  then have "syndrome_ok ?m (csr_row_ptr csr) (csr_col_idx csr) (fst ?st)"
    by (simp add: syndrome_ok_codeword [OF rows])
  then have loop: "decode_loop ?m niter (csr_row_ptr csr) (csr_col_idx csr) cancel 0
      (llr, replicate (csr_num_edges csr) 0) = (Converged 1, fst ?st)"
    using assms(5,6) by (subst decode_loop.simps) (simp add: Let_def EARLY_CHECK_ITERS_def)
  have "map (\<lambda>i. of_bool (fst ?st ! i < 0)) [0..<mc_k_ldpc mc] = info"
  proof (rule nth_equalityI)
    fix i assume "i < length (map (\<lambda>i. of_bool (fst ?st ! i < 0) :: u8) [0..<mc_k_ldpc mc])"
    then have i: "i < mc_k_ldpc mc" by simp
    then have "dvbs2x_ldpc_encode enc info ! i = info ! i" using cw(2) by (metis nth_take)
    moreover have "info ! i \<in> set info" using assms(7) i by simp
    then have "info ! i = 0 \<or> info ! i = 1" using assms(8) by auto
    ultimately show "map (\<lambda>i. of_bool (fst ?st ! i < 0)) [0..<mc_k_ldpc mc] ! i = info ! i"
      using hard [of i] i k by (auto simp: nth_map_upt0)
  qed (use assms(7) in simp)
  then show ?thesis
    using decode_initialised [OF csr(3,4,6), of llr cancel "Converged 1" "fst ?st"] loop assms(9) csr code
    by simp
qed

section \<open>Properties\<close>

text \<open>Box-plus is the min-sum value of its clamped arguments, corrected towards zero by at most
  \<open>ln 2\<close>, so a message never exceeds the clamp, and a lookup reads only table entries.\<close>

theorem boxplus_corrects_min_sum:
  "clamped_min a b - ln 2 \<le> sign_of a * sign_of b * boxplus a b \<and>
   sign_of a * sign_of b * boxplus a b \<le> clamped_min a b \<and> \<bar>boxplus a b\<bar> \<le> LLR_CLAMP \<and>
   (LLR_CLAMP \<le> x \<or> nat \<lfloor>x * (real BOXPLUS_LUT_SIZE / LLR_CLAMP)\<rfloor> + 1 < length boxplus_lut)"
proof -
  have "\<bar>boxplus a b\<bar> = \<bar>sign_of a * sign_of b * boxplus a b\<bar>"
    by (simp add: sign_of_def)
  moreover have "0 \<le> clamped_min a b" "clamped_min a b \<le> LLR_CLAMP"
    by (simp_all add: clamped_min_def LLR_CLAMP_def)
  moreover have "ln 2 \<le> LLR_CLAMP" using ln_2_less_1 by (simp add: LLR_CLAMP_def)
  ultimately have "\<bar>boxplus a b\<bar> \<le> LLR_CLAMP" using boxplus_bounds [of a b] by linarith
  then show ?thesis
    using boxplus_bounds [of a b] lut_index [of x]
    by (cases "LLR_CLAMP \<le> x")
       (simp_all add: boxplus_lut_def Let_def BOXPLUS_LUT_SIZE_def del: upt_Suc)
qed

text \<open>C8: if the signs of the input are those of the encoding of \<open>info\<close> and every magnitude is at
  least 4, the decoder returns 0 after one iteration and delivers \<open>info\<close>: the table-driven
  box-plus never turns a confident codeword away.\<close>

theorem ldpc_decode_confident:
  assumes "dvbs2x_vlsnr_get_modcod idx = Some mc" "dvbs2x_ldpc_encoder_init mc = Some enc"
    "dvbs2x_ldpc_decoder_init alloc mc max_iter = Some dec" "0 < max_iter" "\<not> cancel 0"
    "length info = mc_k_ldpc mc" "set info \<subseteq> {0, 1}" "length llr = mc_fec_len mc"
    "\<forall>v < mc_fec_len mc.
       if dvbs2x_ldpc_encode enc info ! v \<noteq> 0 then llr ! v \<le> -4 else 4 \<le> llr ! v"
  shows "dr_ret (dvbs2x_ldpc_decode dec cancel llr) = 0 \<and>
    dr_iter_used (dvbs2x_ldpc_decode dec cancel llr) = Some 1 \<and>
    dr_output (dvbs2x_ldpc_decode dec cancel llr) = Some info"
proof -
  have "dec_max_iter dec = max_iter"
    using assms(3)
    by (auto simp: dvbs2x_ldpc_decoder_init_def Let_def split: option.splits prod.splits if_splits)
  then have dec: "dec = dec\<lparr>dec_max_iter := max_iter\<rparr>" by simp
  have "4 \<le> bit_sign (dvbs2x_ldpc_encode enc info ! v \<noteq> 0) * llr ! v" if "v < mc_fec_len mc" for v
    using assms(9) that by (auto simp: bit_sign_def split: if_splits)
  then show ?thesis
    using assms by (intro decode_erasures [OF assms(1-3) dec, where E = "{}" and B = 4]) (simp_all add: LLR_CLAMP_def)
qed

theorem ldpc_decode_confident_witness:
  "\<exists>enc dec. dvbs2x_ldpc_encoder_init modcod_9 = Some enc \<and>
     dvbs2x_ldpc_decoder_init (\<lambda>_. True) modcod_9 50 = Some dec \<and>
     dr_output (dvbs2x_ldpc_decode dec (\<lambda>_. False)
       (map (\<lambda>v. if dvbs2x_ldpc_encode enc (replicate 5400 1) ! v \<noteq> 0 then -4 else 5) [0..<16200])) =
       Some (replicate 5400 1)"
proof -
  obtain enc dec where c: "dvbs2x_ldpc_encoder_init modcod_9 = Some enc"
    "dvbs2x_ldpc_decoder_init (\<lambda>_. True) modcod_9 50 = Some dec"
    "dvbs2x_vlsnr_get_modcod 9 = Some modcod_9" "mc_fec_len modcod_9 = 16200"
    "mc_k_ldpc modcod_9 = 5400" by (rule codec_9)
  let ?llr = "map (\<lambda>v. if dvbs2x_ldpc_encode enc (replicate 5400 1) ! v \<noteq> 0 then -4 else 5 :: real) [0..<16200]"
  have "dr_output (dvbs2x_ldpc_decode dec (\<lambda>_. False) ?llr) = Some (replicate 5400 1)"
    using ldpc_decode_confident [OF c(3,1,2), of "\<lambda>_. False" "replicate 5400 1" ?llr]
    by (simp add: c nth_map_upt0)
  then show ?thesis using c by blast
qed

end
