(* ===== verification/PlHeader.thy ===== *)
theory PlHeader
  imports Dvb_Types
begin

text \<open>
  The PL header of \<^verbatim>\<open>src/plheader_gen.c\<close>: 26 start-of-frame symbols and the 64 symbols of the
  signalling code, and the maximum-likelihood recovery of the code.
\<close>

section \<open>Tables\<close>

definition sof_sequence :: "u8 list" where
  "sof_sequence =
     [0, 1, 1, 0, 0, 0, 1, 1, 0, 1, 0, 0, 1, 0,
      1, 1, 1, 0, 1, 0, 0, 0, 0, 0, 1, 0]"

definition dvbs2x_plheader_get_sof :: "u8 list" where
  "dvbs2x_plheader_get_sof = sof_sequence"

definition pls_gen :: "u32 list" where
  "pls_gen =
     [0x90AC2DDD, 0x55555555, 0x33333333, 0x0F0F0F0F,
      0x00FF00FF, 0x0000FFFF, 0xFFFFFFFF]"

definition pls_scram :: "u8 list" where
  "pls_scram =
     [0, 1, 1, 1, 0, 0, 0, 1, 1, 0, 0, 1, 1, 1, 0, 1, 1, 0, 0, 0, 0, 0,
      1, 1, 1, 1, 0, 0, 1, 0, 0, 1, 0, 1, 0, 1, 0, 0, 1, 1, 0, 1, 0, 0,
      0, 0, 1, 0, 0, 0, 1, 0, 1, 1, 0, 1, 1, 1, 1, 1, 1, 0, 1, 0]"

definition M_SQRT1_2_F :: real where "M_SQRT1_2_F = 0.70710678118654752440"

text \<open>\<^verbatim>\<open>pl_const[phase][bit]\<close> as I and Q.\<close>

definition pl_const :: "(real \<times> real) list list" where
  "pl_const =
     (let r = M_SQRT1_2_F in
      [[( r,  r), (-r, -r)],
       [(-r,  r), ( r, -r)],
       [(-r,  r), ( r, -r)],
       [(-r, -r), ( r,  r)]])"

section \<open>Encoding the signalling code\<close>

definition pls_word :: "nat \<Rightarrow> u32" where
  "pls_word code =
     (let temp = 0;
          temp = (if bit code 7 then temp XOR pls_gen ! 0 else temp);
          temp = (if bit code 6 then temp XOR pls_gen ! 1 else temp);
          temp = (if bit code 5 then temp XOR pls_gen ! 2 else temp);
          temp = (if bit code 4 then temp XOR pls_gen ! 3 else temp);
          temp = (if bit code 3 then temp XOR pls_gen ! 4 else temp);
          temp = (if bit code 2 then temp XOR pls_gen ! 5 else temp)
      in (if bit code 1 then temp XOR pls_gen ! 6 else temp))"

text \<open>Output bits \<open>2 * m\<close> and \<open>2 * m + 1\<close> come from bit \<open>31 - m\<close> of the word, the second one XORed
  with the low bit of the code; then the scrambling sequence is added.\<close>

definition pls_encode :: "nat \<Rightarrow> u8 list" where
  "pls_encode code =
     (let temp = pls_word code;
          encoded = concat (map (\<lambda>m. let b = (if bit temp (31 - m) then 1 else 0)
                                     in [b, b XOR (if bit code 0 then 1 else 0)]) [0..<32])
      in map2 (XOR) encoded pls_scram)"

section \<open>Generation and recovery\<close>

definition dvbs2x_plheader_generate :: "nat \<Rightarrow> dvbs2x_complex list" where
  "dvbs2x_plheader_generate pls_code =
     (let all_bits = sof_sequence @ pls_encode (pls_code mod 256);
          vlsnr = bit pls_code 7
      in map (\<lambda>n. let b = (if bit (all_bits ! n) 0 then 1 else 0);
                      phase = (if n < DVBS2X_SOF_LEN then n mod 2
                               else n mod 2 + (if vlsnr then 2 else 0));
                      (i, q) = pl_const ! phase ! b
                  in \<lparr>re_i = i, im_q = q\<rparr>) [0..<DVBS2X_PLHEADER_LEN])"

definition plsc_soft :: "dvbs2x_complex list \<Rightarrow> real list" where
  "plsc_soft symbols =
     map (\<lambda>n. let i = DVBS2X_SOF_LEN + n;
                  phase = i mod 2 + 2
              in re_i (symbols ! i) * fst (pl_const ! phase ! 0) +
                 im_q (symbols ! i) * snd (pl_const ! phase ! 0)) [0..<DVBS2X_PLSC_LEN]"

definition pls_corr :: "real list \<Rightarrow> nat \<Rightarrow> real" where
  "pls_corr soft code =
     (let enc = pls_encode code
      in fold (\<lambda>n corr. corr + soft ! n * (if enc ! n \<noteq> 0 then -1 else 1)) [0..<DVBS2X_PLSC_LEN] 0)"

definition pls_best :: "real list \<Rightarrow> nat \<Rightarrow> real \<times> nat" where
  "pls_best soft n =
     fold (\<lambda>code (best_corr, best_code).
            let corr = pls_corr soft code
            in if best_corr < corr then (corr, code) else (best_corr, best_code))
          [0..<n] (-1000000000000000000000000000000, 0)"

text \<open>The recovered code; the function always returns 0.\<close>

definition dvbs2x_plheader_recover :: "dvbs2x_complex list \<Rightarrow> nat" where
  "dvbs2x_plheader_recover symbols = snd (pls_best (plsc_soft symbols) 256) mod 128"

section \<open>The distance of the code\<close>

text \<open>All sums of generator rows, with their rows as bit lists.\<close>

fun heavy_sums :: "bool list list \<Rightarrow> bool list \<Rightarrow> bool \<Rightarrow> bool" where
  "heavy_sums [] acc nonzero = (nonzero \<longrightarrow> 12 \<le> length (filter id acc))"
| "heavy_sums (g # gs) acc nonzero =
     (heavy_sums gs acc nonzero \<and> heavy_sums gs (map2 (\<noteq>) acc g) True)"

definition word_bits :: "u32 \<Rightarrow> bool list" where
  "word_bits w = map (bit w) [0..<32]"

lemma word_bits_xor: "map2 (\<noteq>) (word_bits v) (word_bits w) = word_bits (v XOR w)"
  by (intro nth_equalityI) (simp_all add: word_bits_def bit_xor_iff nth_map_upt0)

fun pick :: "u32 list \<Rightarrow> bool list \<Rightarrow> u32 \<Rightarrow> u32" where
  "pick (g # gs) (b # bs) w = pick gs bs (if b then w XOR g else w)"
| "pick _ _ w = w"

lemma heavy_sums_pick:
  "heavy_sums (map word_bits gs) (word_bits w) nonzero \<Longrightarrow> length bs = length gs \<Longrightarrow>
     nonzero \<or> True \<in> set bs \<Longrightarrow> 12 \<le> length (filter id (word_bits (pick gs bs w)))"
proof (induction gs arbitrary: w nonzero bs)
  case (Cons g gs)
  then obtain b bs' where bs: "bs = b # bs'" "length bs' = length gs" by (cases bs) auto
  have "heavy_sums (map word_bits gs) (word_bits w) nonzero"
    "heavy_sums (map word_bits gs) (word_bits (w XOR g)) True"
    using Cons.prems(1) unfolding list.map heavy_sums.simps word_bits_xor by blast+
  then show ?case
    using Cons.prems Cons.IH [of w nonzero bs'] Cons.IH [of "w XOR g" True bs'] bs
    by (cases b) auto
qed simp

lemma generator_heavy: "heavy_sums (map word_bits pls_gen) (word_bits 0) False"
proof -
  have "map word_bits pls_gen =
    [rev (nibbles [9, 0, 10, 12, 2, 13, 13, 13]),
     rev (nibbles [5, 5, 5, 5, 5, 5, 5, 5]),
     rev (nibbles [3, 3, 3, 3, 3, 3, 3, 3]),
     rev (nibbles [0, 15, 0, 15, 0, 15, 0, 15]),
     rev (nibbles [0, 0, 15, 15, 0, 0, 15, 15]),
     rev (nibbles [0, 0, 0, 0, 15, 15, 15, 15]),
     rev (nibbles [15, 15, 15, 15, 15, 15, 15, 15])]"
    by (simp add: pls_gen_def word_bits_def nibbles_def bit_0 upt_conv_Cons)
  moreover have "word_bits 0 = replicate 32 False"
    by (intro nth_equalityI) (simp_all add: word_bits_def)
  ultimately show ?thesis by (simp only:) code_simp
qed

lemma if_xor: "(if p then t XOR g else t) = t XOR (if p then g else 0)" for t g :: u32
  by simp

lemma if_neq_xor: "(if p = (\<not> q) then g else 0) = (if p then g else 0) XOR (if q then g else 0)" for g :: u32
  by simp

lemma pls_word_xor: "pls_word (a XOR b) = pls_word a XOR pls_word b"
  unfolding pls_word_def Let_def if_xor
  by (simp add: bit_xor_iff if_neq_xor ac_simps)

lemma pls_word_pick:
  "pls_word c = pick pls_gen (map (bit c) [7, 6, 5, 4, 3, 2, 1]) 0"
  by (simp add: pls_word_def pls_gen_def Let_def)

lemma pls_word_heavy:
  assumes "c < 256" "c \<noteq> 0" "\<not> bit c 0"
  shows "12 \<le> length (filter (bit (pls_word c)) [0..<32])"
proof -
  have "\<exists>k \<in> set [7, 6, 5, 4, 3, 2, 1]. bit c k"
  proof (rule ccontr)
    assume no: "\<not> ?thesis"
    have "bit c k = bit (0 :: nat) k" for k
    proof (cases "k < 8")
      case True
      then have "k = 0 \<or> k = 1 \<or> k = 2 \<or> k = 3 \<or> k = 4 \<or> k = 5 \<or> k = 6 \<or> k = 7" by arith
      then show ?thesis using no assms(3) by auto
    next
      case False
      have "c div 2 ^ k = 0"
        using assms(1) False power_increasing [of 8 k "2 :: nat"] by simp
      then show ?thesis by (simp add: bit_iff_odd)
    qed
    then have "c = 0" by (intro bit_eqI) simp
    with assms(2) show False by simp
  qed
  then have "12 \<le> length (filter id (word_bits (pls_word c)))"
    unfolding pls_word_pick by (intro heavy_sums_pick [OF generator_heavy]) (auto simp: pls_gen_def)
  then show ?thesis by (simp add: word_bits_def filter_map comp_def)
qed

text \<open>Two codes differ in at least 24 of their 64 bits.\<close>

lemma length_pls_scram: "length pls_scram = 64"
  by (simp add: pls_scram_def)

definition raw_bit :: "nat \<Rightarrow> nat \<Rightarrow> bool" where
  "raw_bit c n = (bit (pls_word c) (31 - n div 2) \<noteq> (odd n \<and> bit c 0))"

lemma concat_pairs: "concat (map (\<lambda>m. [f m, g m]) [0..<k]) = map (\<lambda>n. if odd n then g (n div 2) else f (n div 2)) [0..<2 * k]"
  by (induction k) simp_all

lemma pls_encode_nth: "n < 64 \<Longrightarrow> pls_encode c ! n = of_bool (raw_bit c n) XOR pls_scram ! n"
  unfolding pls_encode_def Let_def concat_pairs
  by (auto simp: length_pls_scram raw_bit_def nth_map_upt0)

lemma length_pls_encode: "length (pls_encode c) = 64"
  unfolding pls_encode_def Let_def concat_pairs by (simp add: length_pls_scram)

lemma raw_bit_xor: "raw_bit (a XOR b) n = (raw_bit a n \<noteq> raw_bit b n)"
  by (auto simp: raw_bit_def pls_word_xor bit_xor_iff)

lemma count_pairs:
  "length (filter P [0..<2 * k]) = length (filter (\<lambda>m. P (2 * m)) [0..<k]) + length (filter (\<lambda>m. P (2 * m + 1)) [0..<k])"
  by (induction k) simp_all

lemma rev_upt_32: "map (\<lambda>m. 31 - m) [0..<32] = rev [0..<32 :: nat]"
  by code_simp

lemma raw_weight:
  assumes "c < 256" "c \<noteq> 0"
  shows "24 \<le> length (filter (raw_bit c) [0..<64])"
proof -
  let ?W = "\<lambda>p. length (filter (\<lambda>m. bit (pls_word c) (31 - m) \<noteq> p) [0..<32])"
  have "length (filter (\<lambda>m. bit (pls_word c) (31 - m)) [0..<32]) =
    length (filter (bit (pls_word c)) (map (\<lambda>m. 31 - m) [0..<32]))"
    by (simp add: filter_map comp_def)
  also have "\<dots> = length (filter (bit (pls_word c)) [0..<32])"
    unfolding rev_upt_32 by (simp flip: rev_filter)
  finally have W: "?W False = length (filter (bit (pls_word c)) [0..<32])" by simp
  have sum: "?W False + ?W True = 32"
    using sum_length_filter_compl [of "\<lambda>m. bit (pls_word c) (31 - m)" "[0..<32]"] by simp
  have "length (filter (raw_bit c) [0..<64]) = ?W False + ?W (bit c 0)"
    using count_pairs [of "raw_bit c" 32] by (simp add: raw_bit_def)
  then show ?thesis
    using sum W pls_word_heavy [OF assms] by (cases "bit c 0") auto
qed

section \<open>Recovery\<close>

definition bit_pm :: "nat \<Rightarrow> nat \<Rightarrow> real" where
  "bit_pm c n = (if pls_encode c ! n \<noteq> 0 then -1 else 1)"

lemma pls_corr_sum: "pls_corr soft c = (\<Sum>n<64. soft ! n * bit_pm c n)"
proof -
  have "fold (\<lambda>n corr. corr + f n) [0..<k] 0 = (\<Sum>n<k. f n)" for f :: "nat \<Rightarrow> real" and k
    by (induction k) simp_all
  then show ?thesis
    by (simp add: pls_corr_def bit_pm_def Let_def DVBS2X_PLSC_LEN_def)
qed

lemma pls_scram_01: "n < 64 \<Longrightarrow> pls_scram ! n = 0 \<or> pls_scram ! n = 1"
proof -
  assume "n < 64"
  then have "pls_scram ! n \<in> set pls_scram" by (simp add: length_pls_scram)
  moreover have "set pls_scram \<subseteq> {0, 1}" by (simp add: pls_scram_def)
  ultimately show ?thesis by blast
qed

lemma bit_pm_diff:
  assumes "n < 64"
  shows "bit_pm a n - bit_pm b n = (if raw_bit (a XOR b) n then 2 * bit_pm a n else 0)"
  using pls_scram_01 [OF assms]
  by (auto simp: bit_pm_def pls_encode_nth [OF assms] raw_bit_xor)

lemma bit_pm_unit: "bit_pm a n * bit_pm a n = 1" "bit_pm a n = 1 \<or> bit_pm a n = -1"
  by (simp_all add: bit_pm_def)

text \<open>Soft values whose total deviation from the code's is below 24 correlate best with that code.\<close>

lemma corr_margin:
  assumes "a < 256" "b < 256" "a \<noteq> b"
    "(\<Sum>n<64. \<bar>soft ! n - t * bit_pm a n\<bar>) < 24 * t"
  shows "pls_corr soft b < pls_corr soft a"
proof -
  let ?D = "\<lambda>n. raw_bit (a XOR b) n" and ?dev = "\<lambda>n. \<bar>soft ! n - t * bit_pm a n\<bar>"
  have t: "0 < t"
  proof -
    have "0 \<le> (\<Sum>n<64. ?dev n)" by (intro sum_nonneg) simp
    then show ?thesis using assms(4) by linarith
  qed
  have "a XOR b < 256"
  proof -
    have "take_bit 8 (a XOR b) = a XOR b"
      using assms(1,2) by (simp add: take_bit_xor take_bit_nat_eq_self)
    then show ?thesis using take_bit_nat_less_exp [of 8 "a XOR b"] by simp
  qed
  moreover have "a XOR b \<noteq> 0" using assms(3) by (auto simp: bit_eq_iff bit_xor_iff)
  ultimately have "24 \<le> length (filter ?D [0..<64])" by (rule raw_weight)
  also have "\<dots> = card {n. n < 64 \<and> ?D n}"
    unfolding length_filter_conv_card by (rule arg_cong [where f = card]) auto
  finally have card: "24 \<le> card {n \<in> {..<64}. ?D n}" by (simp add: conj_commute)
  have "pls_corr soft a - pls_corr soft b = (\<Sum>n<64. soft ! n * (bit_pm a n - bit_pm b n))"
    by (simp add: pls_corr_sum sum_subtractf [symmetric] right_diff_distrib)
  also have "\<dots> = (\<Sum>n<64. if ?D n then 2 * (soft ! n * bit_pm a n) else 0)"
    by (rule sum.cong) (simp_all add: bit_pm_diff)
  also have "\<dots> \<ge> (\<Sum>n<64. if ?D n then 2 * (t - ?dev n) else 0)"
  proof (rule sum_mono)
    fix n
    have "t - ?dev n \<le> soft ! n * bit_pm a n"
      using bit_pm_unit(2) [of a n] by (elim disjE) (simp_all add: abs_if)
    then show "(if ?D n then 2 * (t - ?dev n) else 0) \<le> (if ?D n then 2 * (soft ! n * bit_pm a n) else 0)"
      by simp
  qed
  also have "(\<Sum>n<64. if ?D n then 2 * (t - ?dev n) else 0) =
      (\<Sum>n \<in> {n \<in> {..<64}. ?D n}. 2 * t) - 2 * (\<Sum>n \<in> {n \<in> {..<64}. ?D n}. ?dev n)"
    by (simp add: sum.inter_filter [symmetric] sum_subtractf sum_distrib_left right_diff_distrib del: sum_constant)
  finally have "pls_corr soft a - pls_corr soft b \<ge>
      (\<Sum>n \<in> {n \<in> {..<64}. ?D n}. 2 * t) - 2 * (\<Sum>n \<in> {n \<in> {..<64}. ?D n}. ?dev n)" .
  moreover have "(\<Sum>n \<in> {n \<in> {..<64}. ?D n}. ?dev n) \<le> (\<Sum>n<64. ?dev n)"
    by (rule sum_mono2) auto
  moreover have "(\<Sum>n \<in> {n \<in> {..<64}. ?D n}. 2 * t) \<ge> 48 * t"
    using card t by simp
  ultimately show ?thesis using assms(4) by linarith
qed

lemma pls_best_unique:
  assumes "c < N" "\<And>c'. c' < N \<Longrightarrow> c' \<noteq> c \<Longrightarrow> pls_corr soft c' < pls_corr soft c"
    "-1000000000000000000000000000000 < pls_corr soft c"
  shows "n \<le> N \<Longrightarrow> (c < n \<longrightarrow> pls_best soft n = (pls_corr soft c, c)) \<and>
    (n \<le> c \<longrightarrow> fst (pls_best soft n) < pls_corr soft c)"
proof (induction n)
  case 0
  then show ?case using assms(3) by (simp add: pls_best_def)
next
  case (Suc n)
  have step: "pls_best soft (Suc n) =
    (if fst (pls_best soft n) < pls_corr soft n then (pls_corr soft n, n) else pls_best soft n)"
    by (simp add: pls_best_def Let_def split: prod.split)
  show ?case
    using Suc assms(2) [of n] by (auto simp: step less_Suc_eq not_less split: if_splits)
qed

lemma pl_const_dot:
  "p < 4 \<Longrightarrow> b < 2 \<Longrightarrow> fst (pl_const ! p ! b) * fst (pl_const ! p ! 0) +
     snd (pl_const ! p ! b) * snd (pl_const ! p ! 0) =
     2 * M_SQRT1_2_F * M_SQRT1_2_F * (if b = 0 then 1 else -1)"
  "p < 4 \<Longrightarrow> \<bar>fst (pl_const ! p ! 0)\<bar> = M_SQRT1_2_F \<and> \<bar>snd (pl_const ! p ! 0)\<bar> = M_SQRT1_2_F"
proof -
  assume "p < 4"
  then have p: "p = 0 \<or> p = 1 \<or> p = 2 \<or> p = 3" by arith
  show "\<bar>fst (pl_const ! p ! 0)\<bar> = M_SQRT1_2_F \<and> \<bar>snd (pl_const ! p ! 0)\<bar> = M_SQRT1_2_F"
    using p by (auto simp: pl_const_def Let_def M_SQRT1_2_F_def)
  assume "b < 2"
  then have "b = 0 \<or> b = 1" by arith
  with p show "fst (pl_const ! p ! b) * fst (pl_const ! p ! 0) +
     snd (pl_const ! p ! b) * snd (pl_const ! p ! 0) =
     2 * M_SQRT1_2_F * M_SQRT1_2_F * (if b = 0 then 1 else -1)"
    by (auto simp: pl_const_def Let_def)
qed

lemma generate_soft:
  assumes "n < 64" "128 \<le> c" "c < 256"
  shows "plsc_soft (dvbs2x_plheader_generate c) ! n = 2 * M_SQRT1_2_F * M_SQRT1_2_F * bit_pm c n"
proof -
  have "bit c 7"
  proof -
    have "c div 128 = 1" using assms(2,3) by simp
    then show ?thesis by (simp add: bit_iff_odd)
  qed
  have mod2: "(26 + n) mod 2 = n mod 2" by presburger
  let ?x = "pls_encode c ! n"
  have x: "?x = 0 \<or> ?x = 1"
    using pls_scram_01 [OF assms(1)] by (auto simp: pls_encode_nth [OF assms(1)])
  let ?b = "if bit ?x 0 then 1 else 0 :: nat"
  have "dvbs2x_plheader_generate c ! (26 + n) =
    \<lparr>re_i = fst (pl_const ! (n mod 2 + 2) ! ?b), im_q = snd (pl_const ! (n mod 2 + 2) ! ?b)\<rparr>"
    using assms \<open>bit c 7\<close>
    by (simp add: dvbs2x_plheader_generate_def Let_def nth_map_upt0 const_defs sof_sequence_def
        nth_append split_def mod2)
  then show ?thesis
    using assms(1) x pl_const_dot(1) [of "n mod 2 + 2" ?b]
    by (auto simp: plsc_soft_def Let_def nth_map_upt0 const_defs bit_pm_def bit_0 mod2)
qed

lemma soft_deviation:
  assumes "n < 64"
  shows "\<bar>plsc_soft rx ! n - plsc_soft tx ! n\<bar> \<le> M_SQRT1_2_F *
    (\<bar>re_i (rx ! (26 + n)) - re_i (tx ! (26 + n))\<bar> + \<bar>im_q (rx ! (26 + n)) - im_q (tx ! (26 + n))\<bar>)"
proof -
  let ?k = "pl_const ! (n mod 2 + 2) ! 0"
  let ?di = "re_i (rx ! (26 + n)) - re_i (tx ! (26 + n))" and ?dq = "im_q (rx ! (26 + n)) - im_q (tx ! (26 + n))"
  have mod2: "(26 + n) mod 2 = n mod 2" "(n + 26) mod 2 = n mod 2" by presburger+
  have "plsc_soft rx ! n - plsc_soft tx ! n = ?di * fst ?k + ?dq * snd ?k"
    using assms by (simp add: plsc_soft_def Let_def nth_map_upt0 const_defs mod2 algebra_simps)
  also have "\<bar>\<dots>\<bar> \<le> \<bar>?di * fst ?k\<bar> + \<bar>?dq * snd ?k\<bar>" by (rule abs_triangle_ineq)
  also have "\<dots> = M_SQRT1_2_F * (\<bar>?di\<bar> + \<bar>?dq\<bar>)"
    using pl_const_dot(2) [of "n mod 2 + 2"] by (simp add: abs_mult distrib_left mult.commute)
  finally show ?thesis .
qed

text \<open>C14: The code recovered from a received VL-SNR header is the low seven bits of the code the
  header was generated from, however the noise is spread, as long as the I and Q deviations of the
  64 signalling symbols add up to less than 33.  (Any two codes are at least 24 symbols apart, and
  the start-of-frame symbols are not looked at.)\<close>

theorem plheader_recover_noisy:
  assumes "128 \<le> c" "c < 256"
    "(\<Sum>n<64. \<bar>re_i (rx ! (26 + n)) - re_i (dvbs2x_plheader_generate c ! (26 + n))\<bar> +
             \<bar>im_q (rx ! (26 + n)) - im_q (dvbs2x_plheader_generate c ! (26 + n))\<bar>) < 33"
  shows "dvbs2x_plheader_recover rx = c mod 128"
proof -
  let ?r = M_SQRT1_2_F and ?soft = "plsc_soft rx"
  let ?t = "2 * ?r * ?r" and ?dev = "\<lambda>n. \<bar>?soft ! n - 2 * ?r * ?r * bit_pm c n\<bar>"
  have "(\<Sum>n<64. ?dev n) \<le> ?r * (\<Sum>n<64. \<bar>re_i (rx ! (26 + n)) - re_i (dvbs2x_plheader_generate c ! (26 + n))\<bar> +
             \<bar>im_q (rx ! (26 + n)) - im_q (dvbs2x_plheader_generate c ! (26 + n))\<bar>)"
    unfolding sum_distrib_left
    by (rule sum_mono) (use soft_deviation [of _ rx "dvbs2x_plheader_generate c"] generate_soft [OF _ assms(1,2)] in simp)
  also have "\<dots> < 24 * ?t" using assms(3) by (simp add: M_SQRT1_2_F_def)
  finally have near: "(\<Sum>n<64. ?dev n) < 24 * ?t" .
  have "(\<Sum>n<64. ?t - ?dev n) \<le> pls_corr ?soft c"
    unfolding pls_corr_sum
  proof (rule sum_mono)
    fix n show "?t - ?dev n \<le> ?soft ! n * bit_pm c n"
      using bit_pm_unit(2) [of c n] by (elim disjE) (simp_all add: abs_if)
  qed
  then have "0 < pls_corr ?soft c"
    using near by (simp add: sum_subtractf M_SQRT1_2_F_def)
  then have "pls_best ?soft 256 = (pls_corr ?soft c, c)"
    using pls_best_unique [of c 256 ?soft 256] corr_margin [OF assms(2) _ _ near] assms(2) by fastforce
  then show ?thesis by (simp add: dvbs2x_plheader_recover_def)
qed

theorem plheader_recover_noisy_witness:
  "dvbs2x_plheader_recover (dvbs2x_plheader_generate 0x85) = 0x85 mod 128"
  by (rule plheader_recover_noisy) simp_all

end
