(* ===== verification/Gf2m.thy ===== *)
theory Gf2m
  imports Prelude
begin

text \<open>
  The arithmetic of \<open>GF(2^m)\<close>, \<open>m\<close> = 14, 15, 16, of \<^verbatim>\<open>src/bch_decode.c\<close>: the exponential and
  logarithm tables and multiplication, addition and inversion with them.  Field elements are the
  \<^verbatim>\<open>int\<close>s of the code, which stay below \<open>2 ^ 16\<close>; they are natural numbers here.

  The locale \<open>primitive_poly\<close> states what the tables need of a primitive polynomial and derives the
  laws of the operations; it is interpreted on the three polynomials of the code, whose orders are
  computed by squaring on bit lists.  The types \<open>gf14\<close>, \<open>gf15\<close> and \<open>gf16\<close> package the results as
  instances of the class of fields.
\<close>

section \<open>Tables and operations\<close>

record gf_tables =
  gf_m :: nat
  gf_n :: nat
  gf_prim_poly :: nat
  exp_table :: "nat list"
  log_table :: "int list"

definition GF_MAX_M :: nat where "GF_MAX_M = 16"

definition gf_prim_polys :: "nat list" where
  "gf_prim_polys = replicate 14 0 @ [0x402B, 0x802D, 0x1002D]"

text \<open>One step of the generating register: \<^verbatim>\<open>reg <<= 1; if (reg & (1u << m)) reg ^= prim_poly\<close>.\<close>

definition gf_shift :: "nat \<Rightarrow> nat \<Rightarrow> nat \<Rightarrow> nat" where
  "gf_shift m prim_poly reg =
     (let reg = 2 * reg in if bit reg m then reg XOR prim_poly else reg)"

text \<open>The tables are local variables that nothing initialises; every entry that is read has been
  written before (\<open>exp_table_nth\<close> and \<open>log_table_nth\<close> below), so their first contents do not matter
  and are zeros here.\<close>

definition gf_init :: "nat \<Rightarrow> gf_tables" where
  "gf_init m =
     (let n = 2 ^ m - 1;
          prim_poly = gf_prim_polys ! m;
          (ex, lg, reg) =
            fold (\<lambda>i (ex, lg, reg). (ex[i := reg], lg[reg := int i], gf_shift m prim_poly reg))
              [0..<n] (replicate (2 * 2 ^ GF_MAX_M) 0, replicate (2 ^ GF_MAX_M) 0, 1);
          ex = fold (\<lambda>i ex. ex[i := ex ! (i - n)]) [n..<2 * n] ex;
          lg = lg[0 := -1]
      in \<lparr>gf_m = m, gf_n = n, gf_prim_poly = prim_poly, exp_table = ex, log_table = lg\<rparr>)"

definition gf_mul :: "gf_tables \<Rightarrow> nat \<Rightarrow> nat \<Rightarrow> nat" where
  "gf_mul gf a b =
     (if a = 0 \<or> b = 0 then 0 else exp_table gf ! nat (log_table gf ! a + log_table gf ! b))"

definition gf_add :: "nat \<Rightarrow> nat \<Rightarrow> nat" where
  "gf_add a b = a XOR b"

definition gf_inv :: "gf_tables \<Rightarrow> nat \<Rightarrow> nat" where
  "gf_inv gf a = (if a = 0 then 0 else exp_table gf ! nat (int (gf_n gf) - log_table gf ! a))"

section \<open>The register\<close>

lemma nat_xor_eq_0_iff: "(a :: nat) XOR b = 0 \<longleftrightarrow> a = b"
  by (auto simp: bit_eq_iff bit_xor_iff)

lemma nat_xor_self_left [simp]: "(a :: nat) XOR (a XOR b) = b"
  by (rule bit_eqI) (auto simp: bit_xor_iff)

lemma nat_bit_double: "bit (2 * a :: nat) n \<longleftrightarrow> n \<noteq> 0 \<and> bit a (n - 1)"
  by (simp add: bit_double_iff)

lemma nat_double_xor: "2 * (a XOR b :: nat) = 2 * a XOR 2 * b"
  by (rule bit_eqI) (auto simp: nat_bit_double bit_xor_iff)

lemma gf_shift_xor: "gf_shift m p (a XOR b) = gf_shift m p a XOR gf_shift m p b"
  unfolding gf_shift_def Let_def nat_double_xor bit_xor_iff
  by (auto simp: xor.assoc xor.commute xor.left_commute)

lemma gf_shift_0 [simp]: "gf_shift m p 0 = 0"
  by (simp add: gf_shift_def)

lemma gf_shift_pow_xor:
  "(gf_shift m p ^^ i) (a XOR b) = (gf_shift m p ^^ i) a XOR (gf_shift m p ^^ i) b"
  by (induction i) (simp_all add: gf_shift_xor)

lemma gf_shift_pow_0 [simp]: "(gf_shift m p ^^ i) 0 = 0"
  by (induction i) simp_all

lemma nat_less_exp_iff: "(a :: nat) < 2 ^ m \<longleftrightarrow> (\<forall>k \<ge> m. \<not> bit a k)"
proof
  assume "a < 2 ^ m"
  then have "take_bit m a = a" by (simp add: take_bit_nat_eq_self)
  then show "\<forall>k \<ge> m. \<not> bit a k" by (metis bit_take_bit_iff not_less)
next
  assume "\<forall>k \<ge> m. \<not> bit a k"
  then have "take_bit m a = a" by (intro bit_eqI) (auto simp: bit_take_bit_iff not_le [symmetric])
  then show "a < 2 ^ m" by (metis take_bit_nat_less_exp)
qed

lemma xor_less_exp: "(a :: nat) < 2 ^ m \<Longrightarrow> b < 2 ^ m \<Longrightarrow> a XOR b < 2 ^ m"
  by (simp add: nat_less_exp_iff bit_xor_iff)

section \<open>Computing powers of the register\<close>

text \<open>Multiplication by the bits of a register value, and powers by squaring.\<close>

fun pmul_bits :: "nat \<Rightarrow> nat \<Rightarrow> bool list \<Rightarrow> nat \<Rightarrow> nat" where
  "pmul_bits m p [] b = 0"
| "pmul_bits m p (x # xs) b = (if x then b else 0) XOR gf_shift m p (pmul_bits m p xs b)"

lemma pmul_bits_commute:
  "(gf_shift m p ^^ j) (pmul_bits m p xs b) = pmul_bits m p xs ((gf_shift m p ^^ j) b)"
  by (induction xs) (simp_all add: gf_shift_pow_xor flip: funpow_swap1)

definition bits_of :: "nat \<Rightarrow> nat \<Rightarrow> bool list" where
  "bits_of m a = map (bit a) [0..<m]"

lemma pmul_bits_1:
  assumes "a < 2 ^ m" "k \<le> m"
  shows "pmul_bits m p (map (bit a) [k..<m]) 1 = drop_bit k a"
  using assms(2)
proof (induction "m - k" arbitrary: k)
  case 0
  then show ?case using assms(1) by (simp add: drop_bit_eq_div)
next
  case (Suc j)
  then have k: "k < m" by arith
  have ih: "pmul_bits m p (map (bit a) [Suc k..<m]) 1 = drop_bit (Suc k) a"
    using Suc k by simp
  have "\<not> bit (2 * drop_bit (Suc k) a) m"
    using assms(1) by (auto simp: nat_bit_double bit_drop_bit_eq nat_less_exp_iff simp del: mult_2)
  then have "pmul_bits m p (map (bit a) [k..<m]) 1 =
    (if bit a k then 1 else 0) XOR 2 * drop_bit (Suc k) a"
    using k ih by (simp add: upt_conv_Cons gf_shift_def)
  also have "\<dots> = drop_bit k a"
  proof (rule bit_eqI)
    fix n
    show "bit ((if bit a k then 1 else 0) XOR 2 * drop_bit (Suc k) a) n = bit (drop_bit k a) n"
      by (cases n) (auto simp: bit_xor_iff nat_bit_double bit_drop_bit_eq bit_1_iff bit_0 even_xor_iff)
  qed
  finally show ?case .
qed

lemma pmul_power:
  assumes "(gf_shift m p ^^ i) 1 < 2 ^ m"
  shows "(gf_shift m p ^^ (i + j)) 1 =
    pmul_bits m p (bits_of m ((gf_shift m p ^^ i) 1)) ((gf_shift m p ^^ j) 1)"
proof -
  have "(gf_shift m p ^^ (i + j)) 1 = (gf_shift m p ^^ j) ((gf_shift m p ^^ i) 1)"
    by (simp add: add.commute [of i] funpow_add)
  also have "(gf_shift m p ^^ i) 1 = pmul_bits m p (bits_of m ((gf_shift m p ^^ i) 1)) 1"
    using pmul_bits_1 [OF assms, of 0 p] by (simp add: bits_of_def)
  finally show ?thesis by (simp add: pmul_bits_commute)
qed

text \<open>The same on bit lists, low bit first, which evaluate quickly.\<close>

fun shl1 :: "bool \<Rightarrow> bool list \<Rightarrow> bool list" where
  "shl1 c [] = []"
| "shl1 c (x # xs) = c # shl1 x xs"

fun xorl :: "bool list \<Rightarrow> bool list \<Rightarrow> bool list" where
  "xorl (x # xs) (y # ys) = (if x then \<not> y else y) # xorl xs ys"
| "xorl _ _ = []"

definition shiftL :: "bool list \<Rightarrow> bool list \<Rightarrow> bool list" where
  "shiftL p xs = (let s = shl1 False xs in if last xs then xorl s p else s)"

fun pmulL :: "bool list \<Rightarrow> bool list \<Rightarrow> bool list \<Rightarrow> bool list" where
  "pmulL p [] b = map (\<lambda>_. False) p"
| "pmulL p (x # xs) b = (let r = shiftL p (pmulL p xs b) in if x then xorl b r else r)"

fun xpowL :: "bool list \<Rightarrow> bool list \<Rightarrow> bool list \<Rightarrow> bool list" where
  "xpowL p [] acc = acc"
| "xpowL p (b # bs) acc = xpowL p bs (let s = pmulL p acc acc in if b then shiftL p s else s)"

lemma length_bits_of [simp]: "length (bits_of m a) = m"
  by (simp add: bits_of_def)

lemma bits_of_nth [simp]: "i < m \<Longrightarrow> bits_of m a ! i = bit a i"
  by (simp add: bits_of_def)

lemma length_xorl [simp]: "length (xorl xs ys) = min (length xs) (length ys)"
  by (induction xs ys rule: xorl.induct) simp_all

lemma xorl_nth [simp]: "i < length xs \<Longrightarrow> i < length ys \<Longrightarrow> xorl xs ys ! i = (xs ! i \<noteq> ys ! i)"
  by (induction xs ys arbitrary: i rule: xorl.induct) (auto simp: nth_Cons split: nat.split)

lemma length_shl1 [simp]: "length (shl1 c xs) = length xs"
  by (induction xs arbitrary: c) simp_all

lemma shl1_nth: "i < length xs \<Longrightarrow> shl1 c xs ! i = (if i = 0 then c else xs ! (i - 1))"
  by (induction xs arbitrary: c i) (auto simp: nth_Cons split: nat.split)

lemma bits_of_xor: "bits_of m (a XOR b) = xorl (bits_of m a) (bits_of m b)"
  by (rule nth_equalityI) (simp_all add: bit_xor_iff)

lemma bits_of_0: "bits_of m 0 = replicate m False"
  by (rule nth_equalityI) simp_all

lemma bits_of_shift:
  assumes "0 < m"
  shows "bits_of m (gf_shift m p a) = shiftL (bits_of m p) (bits_of m a)"
proof (rule nth_equalityI)
  fix i assume "i < length (bits_of m (gf_shift m p a))"
  then have i: "i < m" by simp
  have l: "last (bits_of m a) = bit a (m - 1)"
    using assms by (simp add: last_conv_nth flip: length_0_conv)
  show "bits_of m (gf_shift m p a) ! i = shiftL (bits_of m p) (bits_of m a) ! i"
    using i assms
    by (auto simp: gf_shift_def shiftL_def Let_def l shl1_nth nat_bit_double bit_xor_iff)
qed (simp add: shiftL_def Let_def)

lemma bits_of_pmul:
  "0 < m \<Longrightarrow> bits_of m (pmul_bits m p xs b) = pmulL (bits_of m p) xs (bits_of m b)"
proof (induction xs)
  case Nil
  then show ?case by (simp add: bits_of_0 map_replicate_const)
next
  case (Cons x xs)
  then show ?case by (cases x) (simp_all add: bits_of_xor bits_of_shift Let_def)
qed

lemma bits_of_inj: "a < 2 ^ m \<Longrightarrow> b < 2 ^ m \<Longrightarrow> bits_of m a = bits_of m b \<Longrightarrow> a = b"
  by (rule bit_eqI) (metis bits_of_nth nat_less_exp_iff not_less)

fun bin_val :: "bool list \<Rightarrow> nat \<Rightarrow> nat" where
  "bin_val [] acc = acc"
| "bin_val (b # bs) acc = bin_val bs (2 * acc + of_bool b)"

section \<open>What the tables need of a polynomial\<close>

locale shift_register =
  fixes m p :: nat
  assumes m_bounds: "2 \<le> m" "m \<le> GF_MAX_M"
    and p_bits: "bit p m" "p < 2 ^ Suc m" "odd p"
begin

abbreviation order :: nat where "order \<equiv> 2 ^ m - 1"
abbreviation X :: "nat \<Rightarrow> nat \<Rightarrow> nat" where "X i \<equiv> gf_shift m p ^^ i"
abbreviation elem :: "nat \<Rightarrow> bool" where "elem a \<equiv> a < 2 ^ m"

lemma exp_m_ge: "4 \<le> (2 :: nat) ^ m"
  using power_increasing [OF m_bounds(1), of "2 :: nat"] by simp

lemma elem_1: "elem 1"
  using exp_m_ge by simp

lemma shift_elem: "elem a \<Longrightarrow> elem (gf_shift m p a)"
proof -
  assume "elem a"
  then have a: "\<not> bit a k" if "m \<le> k" for k using that by (simp add: nat_less_exp_iff)
  have p: "\<not> bit p k" if "m < k" for k using p_bits(2) that unfolding nat_less_exp_iff by (simp add: Suc_le_eq)
  show ?thesis
    unfolding nat_less_exp_iff
  proof (intro allI impI)
    fix k assume "m \<le> k"
    show "\<not> bit (gf_shift m p a) k"
    proof (cases "k = m")
      case True
      then show ?thesis using p_bits(1) by (simp add: gf_shift_def Let_def bit_xor_iff)
    next
      case False
      then show ?thesis
        using \<open>m \<le> k\<close> a [of "k - 1"] p [of k] by (simp add: gf_shift_def Let_def bit_xor_iff nat_bit_double)
    qed
  qed
qed

lemma X_elem: "elem a \<Longrightarrow> elem (X i a)"
  by (induction i) (simp_all add: shift_elem)

lemma shift_eq_0: "gf_shift m p a = 0 \<Longrightarrow> a = 0"
proof (rule ccontr)
  assume z: "gf_shift m p a = 0" and "a \<noteq> 0"
  then have "2 * a XOR p = 0" by (auto simp: gf_shift_def Let_def split: if_splits)
  then have "2 * a = p" by (simp add: nat_xor_eq_0_iff)
  then show False using p_bits(3) by auto
qed

lemma X_eq_0_iff [simp]: "X i a = 0 \<longleftrightarrow> a = 0"
  by (induction i) (auto dest: shift_eq_0)

lemma X_pos [simp]: "0 < X i a \<longleftrightarrow> 0 < a"
  by (metis X_eq_0_iff neq0_conv)

lemma X_inj: "X i a = X i b \<longleftrightarrow> a = b"
  by (metis X_eq_0_iff gf_shift_pow_xor nat_xor_eq_0_iff)

lemma X_add: "X (i + j) a = X i (X j a)"
  by (simp add: funpow_add)

lemma xpow_power:
  "xpowL (bits_of m p) bs (bits_of m (X a 1)) = bits_of m (X (bin_val bs a) 1)"
proof (induction bs arbitrary: a)
  case (Cons b bs)
  have m: "0 < m" using m_bounds(1) by simp
  have "pmulL (bits_of m p) (bits_of m (X a 1)) (bits_of m (X a 1)) = bits_of m (X (a + a) 1)"
    unfolding pmul_power [OF X_elem [OF elem_1]] by (simp only: bits_of_pmul [OF m])
  then show ?case
    using Cons [of "2 * a + of_bool b"]
    by (cases b) (simp_all add: Let_def mult_2 flip: bits_of_shift [OF m])
qed simp

lemma power_is_1_iff:
  "X (bin_val bs 0) 1 = 1 \<longleftrightarrow> xpowL (bits_of m p) bs (bits_of m 1) = bits_of m 1"
  using xpow_power [of bs 0] bits_of_inj [OF X_elem [OF elem_1] elem_1] by auto

lemma X_mult_1: "X a 1 = 1 \<Longrightarrow> X (a * k) 1 = 1"
proof (induction k)
  case (Suc k)
  have "X (a * Suc k) 1 = X (a + a * k) 1" by simp
  also have "\<dots> = X a (X (a * k) 1)" by (rule X_add)
  finally show ?case by (simp only: Suc)
qed simp

text \<open>The order of \<open>x\<close> is \<open>n\<close> when \<open>x ^ n\<close> is 1 and no maximal proper divisor of \<open>n\<close> does the same.\<close>

lemma order_from_divisors:
  assumes "X n 1 = 1" "\<And>d. d dvd n \<Longrightarrow> d \<noteq> n \<Longrightarrow> \<exists>q \<in> Q. d dvd q" "\<And>q. q \<in> Q \<Longrightarrow> X q 1 \<noteq> 1"
    "0 < i" "i < n"
  shows "X i 1 \<noteq> 1"
proof
  assume i: "X i 1 = 1"
  obtain u v where "i * u = n * v + gcd i n"
    using bezout_nat [of i n] assms(4) by auto
  then have "X (gcd i n) 1 = X (gcd i n) (X (n * v) 1)" "X (i * u) 1 = X (gcd i n) (X (n * v) 1)"
    by (simp_all only: X_mult_1 [OF assms(1)]) (metis X_add X_mult_1 [OF assms(1)] add.commute)
  then have "X (gcd i n) 1 = 1" by (simp only: X_mult_1 [OF i])
  moreover have "gcd i n \<noteq> n" using assms(4,5) by (metis gcd_dvd1 dvd_imp_le not_less)
  then obtain q where "q \<in> Q" "gcd i n dvd q" using assms(2) [of "gcd i n"] by auto
  ultimately show False using assms(3) [of q] X_mult_1 by (auto elim!: dvdE)
qed

end

locale primitive_poly = shift_register +
  assumes p_table: "gf_prim_polys ! m = p"
    and order_n: "(gf_shift m p ^^ (2 ^ m - 1)) 1 = 1"
    and order_minimal: "\<And>i. 0 < i \<Longrightarrow> i < 2 ^ m - 1 \<Longrightarrow> (gf_shift m p ^^ i) 1 \<noteq> 1"
begin

lemma X_order: "X (order * k) 1 = 1"
  by (rule X_mult_1 [OF order_n])

lemma X_mod: "X (i mod order) 1 = X i 1"
proof -
  have "X i 1 = X (i mod order + order * (i div order)) 1" by simp
  also have "\<dots> = X (i mod order) (X (order * (i div order)) 1)" by (rule X_add)
  finally show ?thesis by (simp only: X_order)
qed

lemma X_distinct:
  assumes "i < order" "j < order" "X i 1 = X j 1"
  shows "i = j"
proof -
  have less: False if "i < j" "j < order" "X i 1 = X j 1" for i j
  proof -
    have "X i (X (j - i) 1) = X i 1"
      using that X_add [of i "j - i" 1] by simp
    then have "X (j - i) 1 = 1" by (simp only: X_inj)
    moreover have "0 < j - i" "j - i < order" using that by simp_all
    ultimately show False by (metis order_minimal)
  qed
  show ?thesis using assms less [of i j] less [of j i] by (metis linorder_neqE_nat)
qed

lemma elem_power:
  assumes "elem a" "a \<noteq> 0"
  obtains i where "i < order" "a = X i 1"
proof -
  have "inj_on (\<lambda>i. X i 1) {..<order}"
    using X_distinct by (auto simp: inj_on_def)
  then have "card ((\<lambda>i. X i 1) ` {..<order}) = order" by (simp add: card_image)
  moreover have "(\<lambda>i. X i 1) ` {..<order} \<subseteq> {1..<2 ^ m}"
  proof
    fix x assume "x \<in> (\<lambda>i. X i 1) ` {..<order}"
    then obtain i where "x = X i 1" by auto
    moreover have "X i 1 \<noteq> 0" by (simp only: X_eq_0_iff)
    ultimately show "x \<in> {1..<2 ^ m}" using X_elem [OF elem_1, of i] by (simp add: Suc_le_eq)
  qed
  ultimately have "(\<lambda>i. X i 1) ` {..<order} = {1..<2 ^ m}"
    by (intro card_subset_eq) simp_all
  moreover have "a \<in> {1..<2 ^ m}" using assms by simp
  ultimately show ?thesis using that by blast
qed

text \<open>The contents of the tables.\<close>

lemma order_bounds: "3 \<le> order" "2 ^ m \<le> (2 :: nat) ^ GF_MAX_M"
  using exp_m_ge power_increasing [OF m_bounds(2), of "2 :: nat"] by simp_all

lemma table_loop:
  assumes "order \<le> length ex" "2 ^ m \<le> length lg" "k \<le> order"
  shows "case fold (\<lambda>i (ex, lg, reg). (ex[i := reg], lg[reg := int i], gf_shift m p reg)) [0..<k] (ex, lg, 1)
    of (ex', lg', reg) \<Rightarrow> length ex' = length ex \<and> length lg' = length lg \<and> reg = X k 1 \<and>
      (\<forall>i<k. ex' ! i = X i 1 \<and> lg' ! X i 1 = int i)"
  using assms(3)
proof (induction k)
  case (Suc k)
  obtain ex' lg' reg where st: "fold (\<lambda>i (ex, lg, reg). (ex[i := reg], lg[reg := int i], gf_shift m p reg))
      [0..<k] (ex, lg, 1) = (ex', lg', reg)"
    by (rule prod_cases3)
  have ih: "length ex' = length ex" "length lg' = length lg" "reg = X k 1"
    "\<And>i. i < k \<Longrightarrow> ex' ! i = X i 1 \<and> lg' ! X i 1 = int i"
    using Suc.IH [OF Suc_leD [OF Suc.prems], unfolded st prod.case] by blast+
  have "X k 1 \<noteq> X i 1" if "i < k" for i
    using X_distinct [of i k] that Suc.prems by auto
  moreover have "X k 1 < length lg'" using X_elem [OF elem_1, of k] assms(2) ih(2) by linarith
  moreover have "k < length ex'" using Suc.prems assms(1) ih(1) by linarith
  ultimately have "\<forall>i<Suc k. ex'[k := reg] ! i = X i 1 \<and> lg'[reg := int k] ! X i 1 = int i"
    using ih(3,4) by (simp add: nth_list_update less_Suc_eq)
  moreover have "fold (\<lambda>i (ex, lg, reg). (ex[i := reg], lg[reg := int i], gf_shift m p reg))
      [0..<Suc k] (ex, lg, 1) = (ex'[k := reg], lg'[reg := int k], gf_shift m p reg)"
    by (simp only: upt_Suc_append le0 fold_append comp_def st fold_simps prod.case)
  ultimately show ?case
    using ih(1-3) by (simp only: prod.case length_list_update funpow.simps comp_def)
qed simp

lemma extend_loop:
  assumes "2 * n \<le> length ex"
  shows "k \<le> n \<Longrightarrow> length (fold (\<lambda>i ex. ex[i := ex ! (i - n)]) [n..<n + k] ex) = length ex \<and>
    (\<forall>i<n + k. fold (\<lambda>i ex. ex[i := ex ! (i - n)]) [n..<n + k] ex ! i = ex ! (if i < n then i else i - n))"
proof (induction k)
  case (Suc k)
  let ?f = "fold (\<lambda>i ex. ex[i := ex ! (i - n)]) [n..<n + k] ex"
  have "fold (\<lambda>i ex. ex[i := ex ! (i - n)]) [n..<n + Suc k] ex = ?f[n + k := ?f ! k]" by simp
  then show ?case
    using Suc assms by (auto simp: nth_list_update less_Suc_eq)
qed simp

lemma gf_init_tables:
  shows "gf_m (gf_init m) = m" "gf_n (gf_init m) = order"
    and "\<And>i. i < 2 * order \<Longrightarrow> exp_table (gf_init m) ! i = X i 1"
    and "\<And>i. i < order \<Longrightarrow> log_table (gf_init m) ! X i 1 = int i"
proof -
  let ?step = "\<lambda>i (ex, lg, reg). (ex[i := reg], lg[reg := int i], gf_shift m p reg)"
  obtain ex lg reg where st: "fold ?step [0..<order]
      (replicate (2 * 2 ^ GF_MAX_M) 0, replicate (2 ^ GF_MAX_M) 0, 1) = (ex, lg, reg)"
    by (rule prod_cases3)
  have t: "length ex = 2 * 2 ^ GF_MAX_M" "\<And>i. i < order \<Longrightarrow> ex ! i = X i 1 \<and> lg ! X i 1 = int i"
  proof -
    have "order \<le> length (replicate (2 * 2 ^ GF_MAX_M) (0 :: nat))"
      "2 ^ m \<le> length (replicate (2 ^ GF_MAX_M) (0 :: int))"
      unfolding length_replicate using order_bounds by linarith+
    from table_loop [OF this order_refl, unfolded st prod.case length_replicate]
    show "length ex = 2 * 2 ^ GF_MAX_M" "\<And>i. i < order \<Longrightarrow> ex ! i = X i 1 \<and> lg ! X i 1 = int i"
      by blast+
  qed
  have init: "gf_init m = \<lparr>gf_m = m, gf_n = order, gf_prim_poly = p,
    exp_table = fold (\<lambda>i ex. ex[i := ex ! (i - order)]) [order..<2 * order] ex, log_table = lg[0 := -1]\<rparr>"
    unfolding gf_init_def Let_def p_table st by simp
  show "gf_m (gf_init m) = m" "gf_n (gf_init m) = order" by (simp_all add: init)
  show "exp_table (gf_init m) ! i = X i 1" if "i < 2 * order" for i
  proof -
    have "exp_table (gf_init m) ! i = ex ! (if i < order then i else i - order)"
    proof -
      have "2 * order \<le> length ex" unfolding t(1) using order_bounds(2) by linarith
      from extend_loop [OF this order_refl]
      show ?thesis using that unfolding init gf_tables.select_convs mult_2 by blast
    qed
    also have "\<dots> = X (if i < order then i else i - order) 1"
      using t(2) that by auto
    also have "\<dots> = X (i mod order) 1" using that by (auto simp: mod_if)
    finally show ?thesis by (simp only: X_mod)
  qed
  show "log_table (gf_init m) ! X i 1 = int i" if "i < order" for i
  proof -
    have "X i 1 \<noteq> 0" by (simp only: X_eq_0_iff)
    then have "lg[0 := -1] ! X i 1 = lg ! X i 1" by (intro nth_list_update_neq) simp
    then show ?thesis using t(2) [OF that] by (simp add: init)
  qed
qed

text \<open>The operations.\<close>

lemma gf_mul_X: "gf_mul (gf_init m) (X i 1) (X j 1) = X (i + j) 1"
proof -
  have "gf_mul (gf_init m) (X (i mod order) 1) (X (j mod order) 1) = X (i mod order + j mod order) 1"
  proof -
    have less: "i mod order < order" "j mod order < order" using order_bounds(1) by auto
    then have sum: "i mod order + j mod order < 2 * order" by linarith
    have nz: "X (i mod order) 1 \<noteq> 0" "X (j mod order) 1 \<noteq> 0" by (simp_all only: X_eq_0_iff)
    show ?thesis
      unfolding gf_mul_def gf_init_tables(4) [OF less(1)] gf_init_tables(4) [OF less(2)]
      using nz gf_init_tables(3) [OF sum] by (simp flip: of_nat_add)
  qed
  also have "\<dots> = X ((i mod order + j mod order) mod order) 1" by (simp only: X_mod)
  also have "\<dots> = X ((i + j) mod order) 1" by (simp only: mod_add_eq)
  finally show ?thesis by (simp only: X_mod)
qed

lemma gf_mul_0: "gf_mul gf 0 b = 0" "gf_mul gf a 0 = 0"
  by (simp_all add: gf_mul_def)

lemma gf_mul_X_left: "elem b \<Longrightarrow> gf_mul (gf_init m) (X i 1) b = X i b"
proof (cases "b = 0")
  case True
  then show ?thesis by (simp add: gf_mul_0)
next
  case False
  assume "elem b"
  then obtain j where "b = X j 1" using False by (rule elem_power)
  then show ?thesis by (simp only: gf_mul_X X_add)
qed

lemma gf_mul_elem: "elem a \<Longrightarrow> elem b \<Longrightarrow> elem (gf_mul (gf_init m) a b)"
  by (cases "a = 0") (metis gf_mul_0(1) gf_mul_X_left X_elem elem_power)+

lemma gf_mul_commute: "elem a \<Longrightarrow> elem b \<Longrightarrow> gf_mul (gf_init m) a b = gf_mul (gf_init m) b a"
  by (auto simp: gf_mul_def add.commute)

lemma gf_mul_1: "elem a \<Longrightarrow> gf_mul (gf_init m) 1 a = a"
  using gf_mul_X_left [of a 0] by simp

lemma gf_mul_assoc:
  assumes "elem a" "elem b" "elem c"
  shows "gf_mul (gf_init m) (gf_mul (gf_init m) a b) c = gf_mul (gf_init m) a (gf_mul (gf_init m) b c)"
proof (cases "a = 0 \<or> b = 0 \<or> c = 0")
  case True
  then show ?thesis by (auto simp: gf_mul_0)
next
  case False
  then obtain i j k where "a = X i 1" "b = X j 1" "c = X k 1" using assms elem_power by metis
  then show ?thesis by (simp only: gf_mul_X add.assoc)
qed

lemma gf_mul_xor:
  assumes "elem a" "elem b" "elem c"
  shows "gf_mul (gf_init m) a (b XOR c) = gf_mul (gf_init m) a b XOR gf_mul (gf_init m) a c"
proof (cases "a = 0")
  case False
  then obtain i where "a = X i 1" using assms elem_power by metis
  then show ?thesis using assms by (simp only: gf_mul_X_left xor_less_exp gf_shift_pow_xor)
qed (simp add: gf_mul_0)

lemma gf_xor_mul:
  "elem a \<Longrightarrow> elem b \<Longrightarrow> elem c \<Longrightarrow>
     gf_mul (gf_init m) (a XOR b) c = gf_mul (gf_init m) a c XOR gf_mul (gf_init m) b c"
  using gf_mul_xor [of c a b] gf_mul_commute xor_less_exp by metis

lemma gf_inv_elem: "elem a \<Longrightarrow> elem (gf_inv (gf_init m) a)"
  and gf_mul_inv: "elem a \<Longrightarrow> a \<noteq> 0 \<Longrightarrow> gf_mul (gf_init m) (gf_inv (gf_init m) a) a = 1"
proof -
  have inv: "gf_inv (gf_init m) (X i 1) = X (order - i) 1" if "i < order" for i
  proof -
    have nz: "X i 1 \<noteq> 0" by (simp only: X_eq_0_iff)
    have e: "order - i < 2 * order" using order_bounds(1) by arith
    show ?thesis
      unfolding gf_inv_def gf_init_tables(4) [OF that] gf_init_tables(2)
      using nz gf_init_tables(3) [OF e] that
      by (simp only: if_False of_nat_diff [symmetric] less_imp_le nat_int)
  qed
  show "elem (gf_inv (gf_init m) a)" if el: "elem a"
  proof (cases "a = 0")
    case True
    then show ?thesis by (simp add: gf_inv_def)
  next
    case False
    obtain i where "i < order" "a = X i 1" by (rule elem_power [OF el False])
    then show ?thesis using X_elem [OF elem_1] by (simp only: inv)
  qed
  show "gf_mul (gf_init m) (gf_inv (gf_init m) a) a = 1" if el: "elem a" "a \<noteq> 0"
  proof -
    obtain i where "i < order" "a = X i 1" by (rule elem_power [OF el])
    moreover from this have "X (order - i + i) 1 = 1" using order_n by simp
    ultimately show ?thesis by (simp only: inv gf_mul_X)
  qed
qed

end

section \<open>The three polynomials\<close>

text \<open>A number below \<open>s * s\<close> that no number from 2 up to \<open>s\<close> divides is irreducible.\<close>

lemma dvd_irreducible_mult:
  fixes p :: nat
  assumes "\<forall>x \<in> set [2..<s]. \<not> x dvd p" "0 < p" "p < s * s" "d dvd p * a"
  shows "p dvd d \<or> d dvd a"
proof (cases "coprime d p")
  case True
  then show ?thesis using assms(4) by (simp add: coprime_dvd_mult_right_iff)
next
  case False
  have "gcd d p = p"
  proof (rule ccontr)
    assume ne: "gcd d p \<noteq> p"
    obtain h where h: "p = gcd d p * h" using gcd_dvd2 [of d p] by (auto simp: dvd_def)
    have small: "x dvd p \<Longrightarrow> 2 \<le> x \<Longrightarrow> s \<le> x" for x using assms(1) by (cases "s \<le> x") auto
    have "h dvd p" by (subst h) simp
    have "gcd d p \<noteq> 0" using assms(2) by simp
    have "h \<noteq> 0"
    proof
      assume "h = 0"
      with h assms(2) show False by simp
    qed
    have "gcd d p \<noteq> 1" using False by (simp add: coprime_iff_gcd_eq_1)
    have "h \<noteq> 1"
    proof
      assume "h = 1"
      with h ne show False by simp
    qed
    have "s \<le> gcd d p" by (rule small) (use \<open>gcd d p \<noteq> 0\<close> \<open>gcd d p \<noteq> 1\<close> in \<open>simp, linarith\<close>)
    moreover have "s \<le> h" by (rule small [OF \<open>h dvd p\<close>]) (use \<open>h \<noteq> 0\<close> \<open>h \<noteq> 1\<close> in linarith)
    ultimately have "s * s \<le> gcd d p * h" by (rule mult_le_mono)
    then show False using h assms(3) by linarith
  qed
  then show ?thesis by (metis gcd_dvd1)
qed

lemma irreducibles:
  "\<forall>x \<in> set [2..<2]. \<not> x dvd (3 :: nat)"
  "\<forall>x \<in> set [2..<3]. \<not> x dvd (5 :: nat)"
  "\<forall>x \<in> set [2..<3]. \<not> x dvd (7 :: nat)"
  "\<forall>x \<in> set [2..<5]. \<not> x dvd (17 :: nat)"
  "\<forall>x \<in> set [2..<6]. \<not> x dvd (31 :: nat)"
  "\<forall>x \<in> set [2..<7]. \<not> x dvd (43 :: nat)"
  "\<forall>x \<in> set [2..<12]. \<not> x dvd (127 :: nat)"
  "\<forall>x \<in> set [2..<13]. \<not> x dvd (151 :: nat)"
  "\<forall>x \<in> set [2..<17]. \<not> x dvd (257 :: nat)"
  by (simp_all add: upt_conv_Cons)

lemma proper_divisor_65535:
  assumes "d dvd (65535 :: nat)" "d \<noteq> 65535"
  shows "\<exists>q \<in> {21845, 13107, 3855, 255}. d dvd q"
proof (rule ccontr)
  assume no: "\<not> ?thesis"
  have "3 dvd d" using dvd_irreducible_mult [OF irreducibles(1), of d 21845] assms no by simp
  moreover have "5 dvd d" using dvd_irreducible_mult [OF irreducibles(2), of d 13107] assms no by simp
  moreover have "17 dvd d" using dvd_irreducible_mult [OF irreducibles(4), of d 3855] assms no by simp
  moreover have "257 dvd d" using dvd_irreducible_mult [OF irreducibles(9), of d 255] assms no by simp
  ultimately have "3 * (5 * (17 * (257))) dvd d"
    by (intro divides_mult) (simp_all add: coprime_iff_gcd_eq_1 gcd_non_0_nat)
  then show False using assms by (simp add: dvd_antisym)
qed

lemma proper_divisor_32767:
  assumes "d dvd (32767 :: nat)" "d \<noteq> 32767"
  shows "\<exists>q \<in> {4681, 1057, 217}. d dvd q"
proof (rule ccontr)
  assume no: "\<not> ?thesis"
  have "7 dvd d" using dvd_irreducible_mult [OF irreducibles(3), of d 4681] assms no by simp
  moreover have "31 dvd d" using dvd_irreducible_mult [OF irreducibles(5), of d 1057] assms no by simp
  moreover have "151 dvd d" using dvd_irreducible_mult [OF irreducibles(8), of d 217] assms no by simp
  ultimately have "7 * (31 * (151)) dvd d"
    by (intro divides_mult) (simp_all add: coprime_iff_gcd_eq_1 gcd_non_0_nat)
  then show False using assms by (simp add: dvd_antisym)
qed

lemma proper_divisor_16383:
  assumes "d dvd (16383 :: nat)" "d \<noteq> 16383"
  shows "\<exists>q \<in> {5461, 381, 129}. d dvd q"
proof (rule ccontr)
  assume no: "\<not> ?thesis"
  have "3 dvd d" using dvd_irreducible_mult [OF irreducibles(1), of d 5461] assms no by simp
  moreover have "43 dvd d" using dvd_irreducible_mult [OF irreducibles(6), of d 381] assms no by simp
  moreover have "127 dvd d" using dvd_irreducible_mult [OF irreducibles(7), of d 129] assms no by simp
  ultimately have "3 * (43 * (127)) dvd d"
    by (intro divides_mult) (simp_all add: coprime_iff_gcd_eq_1 gcd_non_0_nat)
  then show False using assms by (simp add: dvd_antisym)
qed

lemma bits_of_14:
  "bits_of 14 0x402B = rev (drop 2 (nibbles [0, 0, 2, 11]))"
  "bits_of 14 1 = rev (drop 2 (nibbles [0, 0, 0, 1]))"
  by (simp_all add: bits_of_def nibbles_def upt_conv_Cons bit_iff_odd)

interpretation reg14: shift_register 14 "0x402B"
  by unfold_locales (simp_all add: GF_MAX_M_def bit_iff_odd)

lemma power_14:
  "(gf_shift 14 0x402B ^^ 16383) 1 = 1"
  "(gf_shift 14 0x402B ^^ 5461) 1 \<noteq> 1"
  "(gf_shift 14 0x402B ^^ 381) 1 \<noteq> 1"
  "(gf_shift 14 0x402B ^^ 129) 1 \<noteq> 1"
proof -
  have "xpowL (bits_of 14 0x402B) (nibbles [3, 15, 15, 15]) (bits_of 14 1) = bits_of 14 1"
    unfolding bits_of_14 by code_simp
  then show "(gf_shift 14 0x402B ^^ 16383) 1 = 1"
    unfolding reg14.power_is_1_iff [symmetric] by (simp add: nibbles_def)
  have "xpowL (bits_of 14 0x402B) (nibbles [1, 5, 5, 5]) (bits_of 14 1) \<noteq> bits_of 14 1"
    unfolding bits_of_14 by code_simp
  then show "(gf_shift 14 0x402B ^^ 5461) 1 \<noteq> 1"
    unfolding reg14.power_is_1_iff [symmetric] by (simp add: nibbles_def)
  have "xpowL (bits_of 14 0x402B) (nibbles [0, 1, 7, 13]) (bits_of 14 1) \<noteq> bits_of 14 1"
    unfolding bits_of_14 by code_simp
  then show "(gf_shift 14 0x402B ^^ 381) 1 \<noteq> 1"
    unfolding reg14.power_is_1_iff [symmetric] by (simp add: nibbles_def)
  have "xpowL (bits_of 14 0x402B) (nibbles [0, 0, 8, 1]) (bits_of 14 1) \<noteq> bits_of 14 1"
    unfolding bits_of_14 by code_simp
  then show "(gf_shift 14 0x402B ^^ 129) 1 \<noteq> 1"
    unfolding reg14.power_is_1_iff [symmetric] by (simp add: nibbles_def)
qed

interpretation gf14: primitive_poly 14 "0x402B"
proof unfold_locales
  show "gf_prim_polys ! 14 = 0x402B" by (simp add: gf_prim_polys_def nth_append)
  show "(gf_shift 14 0x402B ^^ (2 ^ 14 - 1)) 1 = 1" using power_14(1) by simp
  show "(gf_shift 14 0x402B ^^ i) 1 \<noteq> 1" if "0 < i" "i < 2 ^ 14 - 1" for i
    using reg14.order_from_divisors [OF power_14(1) proper_divisor_16383 _ that(1)] that(2) power_14(2-)
    by auto
qed

lemma bits_of_15:
  "bits_of 15 0x802D = rev (drop 1 (nibbles [0, 0, 2, 13]))"
  "bits_of 15 1 = rev (drop 1 (nibbles [0, 0, 0, 1]))"
  by (simp_all add: bits_of_def nibbles_def upt_conv_Cons bit_iff_odd)

interpretation reg15: shift_register 15 "0x802D"
  by unfold_locales (simp_all add: GF_MAX_M_def bit_iff_odd)

lemma power_15:
  "(gf_shift 15 0x802D ^^ 32767) 1 = 1"
  "(gf_shift 15 0x802D ^^ 4681) 1 \<noteq> 1"
  "(gf_shift 15 0x802D ^^ 1057) 1 \<noteq> 1"
  "(gf_shift 15 0x802D ^^ 217) 1 \<noteq> 1"
proof -
  have "xpowL (bits_of 15 0x802D) (nibbles [7, 15, 15, 15]) (bits_of 15 1) = bits_of 15 1"
    unfolding bits_of_15 by code_simp
  then show "(gf_shift 15 0x802D ^^ 32767) 1 = 1"
    unfolding reg15.power_is_1_iff [symmetric] by (simp add: nibbles_def)
  have "xpowL (bits_of 15 0x802D) (nibbles [1, 2, 4, 9]) (bits_of 15 1) \<noteq> bits_of 15 1"
    unfolding bits_of_15 by code_simp
  then show "(gf_shift 15 0x802D ^^ 4681) 1 \<noteq> 1"
    unfolding reg15.power_is_1_iff [symmetric] by (simp add: nibbles_def)
  have "xpowL (bits_of 15 0x802D) (nibbles [0, 4, 2, 1]) (bits_of 15 1) \<noteq> bits_of 15 1"
    unfolding bits_of_15 by code_simp
  then show "(gf_shift 15 0x802D ^^ 1057) 1 \<noteq> 1"
    unfolding reg15.power_is_1_iff [symmetric] by (simp add: nibbles_def)
  have "xpowL (bits_of 15 0x802D) (nibbles [0, 0, 13, 9]) (bits_of 15 1) \<noteq> bits_of 15 1"
    unfolding bits_of_15 by code_simp
  then show "(gf_shift 15 0x802D ^^ 217) 1 \<noteq> 1"
    unfolding reg15.power_is_1_iff [symmetric] by (simp add: nibbles_def)
qed

interpretation gf15: primitive_poly 15 "0x802D"
proof unfold_locales
  show "gf_prim_polys ! 15 = 0x802D" by (simp add: gf_prim_polys_def nth_append)
  show "(gf_shift 15 0x802D ^^ (2 ^ 15 - 1)) 1 = 1" using power_15(1) by simp
  show "(gf_shift 15 0x802D ^^ i) 1 \<noteq> 1" if "0 < i" "i < 2 ^ 15 - 1" for i
    using reg15.order_from_divisors [OF power_15(1) proper_divisor_32767 _ that(1)] that(2) power_15(2-)
    by auto
qed

lemma bits_of_16:
  "bits_of 16 0x1002D = rev (nibbles [0, 0, 2, 13])"
  "bits_of 16 1 = rev (nibbles [0, 0, 0, 1])"
  by (simp_all add: bits_of_def nibbles_def upt_conv_Cons bit_iff_odd)

interpretation reg16: shift_register 16 "0x1002D"
  by unfold_locales (simp_all add: GF_MAX_M_def bit_iff_odd)

lemma power_16:
  "(gf_shift 16 0x1002D ^^ 65535) 1 = 1"
  "(gf_shift 16 0x1002D ^^ 21845) 1 \<noteq> 1"
  "(gf_shift 16 0x1002D ^^ 13107) 1 \<noteq> 1"
  "(gf_shift 16 0x1002D ^^ 3855) 1 \<noteq> 1"
  "(gf_shift 16 0x1002D ^^ 255) 1 \<noteq> 1"
proof -
  have "xpowL (bits_of 16 0x1002D) (nibbles [15, 15, 15, 15]) (bits_of 16 1) = bits_of 16 1"
    unfolding bits_of_16 by code_simp
  then show "(gf_shift 16 0x1002D ^^ 65535) 1 = 1"
    unfolding reg16.power_is_1_iff [symmetric] by (simp add: nibbles_def)
  have "xpowL (bits_of 16 0x1002D) (nibbles [5, 5, 5, 5]) (bits_of 16 1) \<noteq> bits_of 16 1"
    unfolding bits_of_16 by code_simp
  then show "(gf_shift 16 0x1002D ^^ 21845) 1 \<noteq> 1"
    unfolding reg16.power_is_1_iff [symmetric] by (simp add: nibbles_def)
  have "xpowL (bits_of 16 0x1002D) (nibbles [3, 3, 3, 3]) (bits_of 16 1) \<noteq> bits_of 16 1"
    unfolding bits_of_16 by code_simp
  then show "(gf_shift 16 0x1002D ^^ 13107) 1 \<noteq> 1"
    unfolding reg16.power_is_1_iff [symmetric] by (simp add: nibbles_def)
  have "xpowL (bits_of 16 0x1002D) (nibbles [0, 15, 0, 15]) (bits_of 16 1) \<noteq> bits_of 16 1"
    unfolding bits_of_16 by code_simp
  then show "(gf_shift 16 0x1002D ^^ 3855) 1 \<noteq> 1"
    unfolding reg16.power_is_1_iff [symmetric] by (simp add: nibbles_def)
  have "xpowL (bits_of 16 0x1002D) (nibbles [0, 0, 15, 15]) (bits_of 16 1) \<noteq> bits_of 16 1"
    unfolding bits_of_16 by code_simp
  then show "(gf_shift 16 0x1002D ^^ 255) 1 \<noteq> 1"
    unfolding reg16.power_is_1_iff [symmetric] by (simp add: nibbles_def)
qed

interpretation gf16: primitive_poly 16 "0x1002D"
proof unfold_locales
  show "gf_prim_polys ! 16 = 0x1002D" by (simp add: gf_prim_polys_def nth_append)
  show "(gf_shift 16 0x1002D ^^ (2 ^ 16 - 1)) 1 = 1" using power_16(1) by simp
  show "(gf_shift 16 0x1002D ^^ i) 1 \<noteq> 1" if "0 < i" "i < 2 ^ 16 - 1" for i
    using reg16.order_from_divisors [OF power_16(1) proper_divisor_65535 _ that(1)] that(2) power_16(2-)
    by auto
qed

section \<open>The fields as types\<close>

typedef gf14 = "{a :: nat. a < 2 ^ 14}"
  by (rule exI [of _ 0]) simp

setup_lifting type_definition_gf14

instantiation gf14 :: field
begin

lift_definition zero_gf14 :: gf14 is 0 by simp
lift_definition one_gf14 :: gf14 is 1 by simp
lift_definition plus_gf14 :: "gf14 \<Rightarrow> gf14 \<Rightarrow> gf14" is gf_add
  unfolding gf_add_def by (rule xor_less_exp)
lift_definition uminus_gf14 :: "gf14 \<Rightarrow> gf14" is "\<lambda>a. a" .
lift_definition minus_gf14 :: "gf14 \<Rightarrow> gf14 \<Rightarrow> gf14" is gf_add
  unfolding gf_add_def by (rule xor_less_exp)
lift_definition times_gf14 :: "gf14 \<Rightarrow> gf14 \<Rightarrow> gf14" is "gf_mul (gf_init 14)"
  by (rule gf14.gf_mul_elem)
lift_definition inverse_gf14 :: "gf14 \<Rightarrow> gf14" is "gf_inv (gf_init 14)"
  by (rule gf14.gf_inv_elem)

definition divide_gf14 :: "gf14 \<Rightarrow> gf14 \<Rightarrow> gf14" where
  "divide_gf14 a b = a * inverse b"

instance
proof
  fix a b c :: gf14
  show "a * b * c = a * (b * c)" by transfer (rule gf14.gf_mul_assoc)
  show "a * b = b * a" by transfer (rule gf14.gf_mul_commute)
  show "1 * a = a" by transfer (rule gf14.gf_mul_1)
  show "a + b + c = a + (b + c)" by transfer (simp add: gf_add_def xor.assoc)
  show "a + b = b + a" by transfer (simp add: gf_add_def xor.commute)
  show "0 + a = a" by transfer (simp add: gf_add_def)
  show "- a + a = 0" by transfer (simp add: gf_add_def)
  show "a - b = a + - b" by transfer simp
  show "(a + b) * c = a * c + b * c"
    unfolding gf_add_def by transfer (unfold gf_add_def, rule gf14.gf_xor_mul)
  show "(0 :: gf14) \<noteq> 1" by transfer simp
  show "a \<noteq> 0 \<Longrightarrow> inverse a * a = 1" by transfer (rule gf14.gf_mul_inv)
  show "a div b = a * inverse b" by (rule divide_gf14_def)
  show "inverse (0 :: gf14) = 0" by transfer (simp add: gf_inv_def)
qed

end

typedef gf15 = "{a :: nat. a < 2 ^ 15}"
  by (rule exI [of _ 0]) simp

setup_lifting type_definition_gf15

instantiation gf15 :: field
begin

lift_definition zero_gf15 :: gf15 is 0 by simp
lift_definition one_gf15 :: gf15 is 1 by simp
lift_definition plus_gf15 :: "gf15 \<Rightarrow> gf15 \<Rightarrow> gf15" is gf_add
  unfolding gf_add_def by (rule xor_less_exp)
lift_definition uminus_gf15 :: "gf15 \<Rightarrow> gf15" is "\<lambda>a. a" .
lift_definition minus_gf15 :: "gf15 \<Rightarrow> gf15 \<Rightarrow> gf15" is gf_add
  unfolding gf_add_def by (rule xor_less_exp)
lift_definition times_gf15 :: "gf15 \<Rightarrow> gf15 \<Rightarrow> gf15" is "gf_mul (gf_init 15)"
  by (rule gf15.gf_mul_elem)
lift_definition inverse_gf15 :: "gf15 \<Rightarrow> gf15" is "gf_inv (gf_init 15)"
  by (rule gf15.gf_inv_elem)

definition divide_gf15 :: "gf15 \<Rightarrow> gf15 \<Rightarrow> gf15" where
  "divide_gf15 a b = a * inverse b"

instance
proof
  fix a b c :: gf15
  show "a * b * c = a * (b * c)" by transfer (rule gf15.gf_mul_assoc)
  show "a * b = b * a" by transfer (rule gf15.gf_mul_commute)
  show "1 * a = a" by transfer (rule gf15.gf_mul_1)
  show "a + b + c = a + (b + c)" by transfer (simp add: gf_add_def xor.assoc)
  show "a + b = b + a" by transfer (simp add: gf_add_def xor.commute)
  show "0 + a = a" by transfer (simp add: gf_add_def)
  show "- a + a = 0" by transfer (simp add: gf_add_def)
  show "a - b = a + - b" by transfer simp
  show "(a + b) * c = a * c + b * c"
    unfolding gf_add_def by transfer (unfold gf_add_def, rule gf15.gf_xor_mul)
  show "(0 :: gf15) \<noteq> 1" by transfer simp
  show "a \<noteq> 0 \<Longrightarrow> inverse a * a = 1" by transfer (rule gf15.gf_mul_inv)
  show "a div b = a * inverse b" by (rule divide_gf15_def)
  show "inverse (0 :: gf15) = 0" by transfer (simp add: gf_inv_def)
qed

end

typedef gf16 = "{a :: nat. a < 2 ^ 16}"
  by (rule exI [of _ 0]) simp

setup_lifting type_definition_gf16

instantiation gf16 :: field
begin

lift_definition zero_gf16 :: gf16 is 0 by simp
lift_definition one_gf16 :: gf16 is 1 by simp
lift_definition plus_gf16 :: "gf16 \<Rightarrow> gf16 \<Rightarrow> gf16" is gf_add
  unfolding gf_add_def by (rule xor_less_exp)
lift_definition uminus_gf16 :: "gf16 \<Rightarrow> gf16" is "\<lambda>a. a" .
lift_definition minus_gf16 :: "gf16 \<Rightarrow> gf16 \<Rightarrow> gf16" is gf_add
  unfolding gf_add_def by (rule xor_less_exp)
lift_definition times_gf16 :: "gf16 \<Rightarrow> gf16 \<Rightarrow> gf16" is "gf_mul (gf_init 16)"
  by (rule gf16.gf_mul_elem)
lift_definition inverse_gf16 :: "gf16 \<Rightarrow> gf16" is "gf_inv (gf_init 16)"
  by (rule gf16.gf_inv_elem)

definition divide_gf16 :: "gf16 \<Rightarrow> gf16 \<Rightarrow> gf16" where
  "divide_gf16 a b = a * inverse b"

instance
proof
  fix a b c :: gf16
  show "a * b * c = a * (b * c)" by transfer (rule gf16.gf_mul_assoc)
  show "a * b = b * a" by transfer (rule gf16.gf_mul_commute)
  show "1 * a = a" by transfer (rule gf16.gf_mul_1)
  show "a + b + c = a + (b + c)" by transfer (simp add: gf_add_def xor.assoc)
  show "a + b = b + a" by transfer (simp add: gf_add_def xor.commute)
  show "0 + a = a" by transfer (simp add: gf_add_def)
  show "- a + a = 0" by transfer (simp add: gf_add_def)
  show "a - b = a + - b" by transfer simp
  show "(a + b) * c = a * c + b * c"
    unfolding gf_add_def by transfer (unfold gf_add_def, rule gf16.gf_xor_mul)
  show "(0 :: gf16) \<noteq> 1" by transfer simp
  show "a \<noteq> 0 \<Longrightarrow> inverse a * a = 1" by transfer (rule gf16.gf_mul_inv)
  show "a div b = a * inverse b" by (rule divide_gf16_def)
  show "inverse (0 :: gf16) = 0" by transfer (simp add: gf_inv_def)
qed

end

section \<open>Reading table entries in a field\<close>

text \<open>\<open>gf_code\<close> reads the integers of the code as elements of a field; the decoder is verified against it.\<close>

locale gf_code = primitive_poly m p for m p +
  fixes \<phi> :: "nat \<Rightarrow> 'f::field"
  assumes phi_inj: "a < 2 ^ m \<Longrightarrow> b < 2 ^ m \<Longrightarrow> \<phi> a = \<phi> b \<Longrightarrow> a = b"
    and phi_0 [simp]: "\<phi> 0 = 0"
    and phi_1 [simp]: "\<phi> 1 = 1"
    and phi_add: "a < 2 ^ m \<Longrightarrow> b < 2 ^ m \<Longrightarrow> \<phi> (gf_add a b) = \<phi> a + \<phi> b"
    and phi_mul: "a < 2 ^ m \<Longrightarrow> b < 2 ^ m \<Longrightarrow> \<phi> (gf_mul (gf_init m) a b) = \<phi> a * \<phi> b"
    and phi_inv: "a < 2 ^ m \<Longrightarrow> \<phi> (gf_inv (gf_init m) a) = inverse (\<phi> a)"
begin

definition \<alpha> :: 'f where "\<alpha> = \<phi> (X 1 1)"

lemma phi_Suc_0 [simp]: "\<phi> (Suc 0) = 1"
  using phi_1 by simp

lemma phi_eq_0_iff: "elem a \<Longrightarrow> \<phi> a = 0 \<longleftrightarrow> a = 0"
  using phi_inj [of a 0] by auto

lemma phi_X: "\<phi> (X i 1) = \<alpha> ^ i"
proof (induction i)
  case (Suc i)
  have "X (Suc i) 1 = gf_mul (gf_init m) (X 1 1) (X i 1)" by (simp only: gf_mul_X plus_1_eq_Suc)
  then show ?case
    using X_elem [OF elem_1, of 1] X_elem [OF elem_1, of i] Suc phi_mul
    by (simp only: \<alpha>_def power_Suc)
qed simp

lemma alpha_power_mod: "\<alpha> ^ (i mod order) = \<alpha> ^ i"
  by (simp only: X_mod flip: phi_X)

lemma alpha_nonzero: "\<alpha> \<noteq> 0"
proof -
  have "X 1 1 \<noteq> 0" by (simp only: X_eq_0_iff)
  then show ?thesis using phi_eq_0_iff [OF X_elem [OF elem_1, of 1]] unfolding \<alpha>_def by (simp only: not_False_eq_True)
qed

lemma alpha_order: "\<alpha> ^ order = 1"
  by (metis phi_X order_n phi_1)

lemma alpha_distinct: "i < order \<Longrightarrow> j < order \<Longrightarrow> \<alpha> ^ i = \<alpha> ^ j \<Longrightarrow> i = j"
  by (metis X_distinct X_elem elem_1 phi_X phi_inj)

lemma char_2: "x + x = (0 :: 'f)"
proof -
  have "1 + 1 = \<phi> (gf_add 1 1)" using phi_add [OF elem_1 elem_1] by simp
  then have "1 + 1 = (0 :: 'f)" by (simp add: gf_add_def)
  then have "x * (1 + 1) = 0" by simp
  then show ?thesis by (simp only: distrib_left mult_1_right)
qed

lemma minus_is_plus: "x - y = x + (y :: 'f)"
proof -
  have "- y = y" using char_2 [of y] by (simp only: neg_eq_iff_add_eq_0)
  then show ?thesis by (simp only: diff_conv_add_uminus)
qed

lemma exp_entry: "\<phi> (exp_table (gf_init m) ! (k mod order)) = \<alpha> ^ k"
proof -
  have "k mod order < order" by (rule mod_less_divisor) (use order_bounds(1) in linarith)
  then have "k mod order < 2 * order" by linarith
  then show ?thesis by (simp only: gf_init_tables(3) phi_X alpha_power_mod)
qed

lemma exp_entry_elem: "elem (exp_table (gf_init m) ! (k mod order))"
proof -
  have "k mod order < order" by (rule mod_less_divisor) (use order_bounds(1) in linarith)
  then have "k mod order < 2 * order" by linarith
  then show ?thesis using X_elem [OF elem_1] by (simp only: gf_init_tables(3))
qed

end

interpretation code14: gf_code 14 "0x402B" Abs_gf14
proof unfold_locales
  show "a = b" if "a < 2 ^ 14" "b < 2 ^ 14" "Abs_gf14 a = Abs_gf14 b" for a b
    using that by (simp add: Abs_gf14_inject)
qed (simp_all add: zero_gf14_def one_gf14_def plus_gf14.abs_eq times_gf14.abs_eq
    inverse_gf14.abs_eq eq_onp_def)

interpretation code15: gf_code 15 "0x802D" Abs_gf15
proof unfold_locales
  show "a = b" if "a < 2 ^ 15" "b < 2 ^ 15" "Abs_gf15 a = Abs_gf15 b" for a b
    using that by (simp add: Abs_gf15_inject)
qed (simp_all add: zero_gf15_def one_gf15_def plus_gf15.abs_eq times_gf15.abs_eq
    inverse_gf15.abs_eq eq_onp_def)

interpretation code16: gf_code 16 "0x1002D" Abs_gf16
proof unfold_locales
  show "a = b" if "a < 2 ^ 16" "b < 2 ^ 16" "Abs_gf16 a = Abs_gf16 b" for a b
    using that by (simp add: Abs_gf16_inject)
qed (simp_all add: zero_gf16_def one_gf16_def plus_gf16.abs_eq times_gf16.abs_eq
    inverse_gf16.abs_eq eq_onp_def)

end
