(* ===== verification/BchEncode.thy ===== *)
theory BchEncode
  imports Modcod Gf2m
begin

text \<open>
  The BCH encoder of \<^verbatim>\<open>src/bch_encode.c\<close>: the generator polynomial as the product of the minimal
  polynomials of \<open>\<alpha> ^ 1\<close> to \<open>\<alpha> ^ (2 t)\<close>, found by Gaussian elimination over the powers of each root,
  and systematic encoding by a feedback shift register.  A packed polynomial is a natural number whose
  bit \<open>i\<close> is the coefficient of \<open>x ^ i\<close>; none is longer than 17 bits.
\<close>

section \<open>Definitions\<close>

definition DVBS2X_BCH_MAX_PARITY :: nat where "DVBS2X_BCH_MAX_PARITY = 192"

definition prim_polys :: "nat list" where
  "prim_polys = replicate 14 0 @ [0x402B, 0x802D, 0x1002D]"

record dvbs2x_bch_encoder =
  enc_t :: nat
  enc_n :: nat
  enc_k :: nat
  enc_parity_len :: nat
  enc_gf_m :: nat
  enc_gen_poly :: "u8 list"

text \<open>Reduction of the vector \<open>powers ! d\<close> by the pivots found so far; \<open>row_bits\<close> tracks which powers
  contribute.  A zero in \<open>pivot_col\<close> means that there is no pivot.\<close>

definition min_poly_reduce ::
  "nat \<Rightarrow> nat list \<Rightarrow> nat list \<Rightarrow> nat \<times> nat \<Rightarrow> nat \<times> nat" where
  "min_poly_reduce m matrix pivot_col start =
     fold (\<lambda>i (vec, row_bits).
             if bit vec i \<and> pivot_col ! i \<noteq> 0
             then (vec XOR matrix ! i, row_bits XOR pivot_col ! i) else (vec, row_bits)) [0..<m] start"

fun min_poly_loop :: "nat \<Rightarrow> nat list \<Rightarrow> nat list \<Rightarrow> nat list \<Rightarrow> nat list \<Rightarrow> nat \<times> nat" where
  "min_poly_loop m powers [] matrix pivot_col = (2 ^ m OR 1, m)"
| "min_poly_loop m powers (d # ds) matrix pivot_col =
     (let (vec, row_bits) = min_poly_reduce m matrix pivot_col (powers ! d, 2 ^ d)
      in if vec = 0 then (row_bits, d)
         else case find (bit vec) [0..<m] of
                Some i \<Rightarrow> min_poly_loop m powers ds (matrix[i := vec]) (pivot_col[i := row_bits])
              | None \<Rightarrow> min_poly_loop m powers ds matrix pivot_col)"

text \<open>The polynomial and its degree, from the table of powers of \<open>\<alpha>\<close>.\<close>

definition compute_min_poly :: "nat \<Rightarrow> nat \<Rightarrow> nat list \<Rightarrow> nat \<Rightarrow> nat \<times> nat" where
  "compute_min_poly m k exp_tab n =
     min_poly_loop m (map (\<lambda>i. exp_tab ! ((k * i) mod n)) [0..<m + 1]) [0..<m + 1]
       (replicate 17 0) (replicate 17 0)"

definition poly_mul_row :: "nat \<Rightarrow> nat \<Rightarrow> nat \<Rightarrow> u8 list \<Rightarrow> u8 list" where
  "poly_mul_row b_packed deg_b i temp =
     fold (\<lambda>j temp. if bit b_packed j then temp[i + j := temp ! (i + j) XOR 1] else temp) [0..<deg_b + 1] temp"

definition gf2_poly_mul :: "u8 list \<Rightarrow> u8 list \<Rightarrow> nat \<Rightarrow> nat \<Rightarrow> nat \<Rightarrow> u8 list \<times> nat" where
  "gf2_poly_mul result a deg_a b_packed deg_b =
     (let temp = fold (\<lambda>i temp. if a ! i = 0 then temp else poly_mul_row b_packed deg_b i temp)
                   [0..<deg_a + 1] (replicate (DVBS2X_BCH_MAX_PARITY + 1) 0);
          result_deg = deg_a + deg_b
      in (overwrite 0 (take (result_deg + 1) temp) result, result_deg))"

text \<open>The marking loop \<^verbatim>\<open>while (!visited_roots[conj])\<close>; \<open>None\<close> would be a loop that does not end.\<close>

partial_function (option) mark_conjugates :: "nat \<Rightarrow> (nat \<Rightarrow> bool) \<Rightarrow> nat \<Rightarrow> (nat \<Rightarrow> bool) option" where
  "mark_conjugates n visited cj =
     (if visited cj then Some visited
      else mark_conjugates n (visited(cj := True)) ((cj * 2) mod n))"

definition bch_exp_table :: "nat \<Rightarrow> nat list" where
  "bch_exp_table m =
     (let n = 2 ^ m - 1;
          (ex, reg) = fold (\<lambda>i (ex, reg). (ex[i := reg], gf_shift m (prim_polys ! m) reg)) [0..<n]
                        (replicate (2 * n) 0, 1)
      in fold (\<lambda>i ex. ex[i := ex ! (i - n)]) [n..<2 * n] ex)"

text \<open>The loop over the roots \<open>k\<close>, on the marked exponents, the generator and its degree.\<close>

fun bch_gen_loop :: "nat \<Rightarrow> nat list \<Rightarrow> nat \<Rightarrow> nat list \<Rightarrow> (nat \<Rightarrow> bool) \<Rightarrow> u8 list \<Rightarrow> nat \<Rightarrow> (u8 list \<times> nat) option" where
  "bch_gen_loop m exp_tab n [] visited gen_poly gen_deg = Some (gen_poly, gen_deg)"
| "bch_gen_loop m exp_tab n (k # ks) visited gen_poly gen_deg =
     (if visited (k mod n) then bch_gen_loop m exp_tab n ks visited gen_poly gen_deg
      else let (min_poly, min_deg) = compute_min_poly m k exp_tab n
           in case mark_conjugates n visited (k mod n) of
                None \<Rightarrow> None
              | Some visited \<Rightarrow>
                  let (gen_poly, gen_deg) = gf2_poly_mul gen_poly gen_poly gen_deg min_poly min_deg
                  in bch_gen_loop m exp_tab n ks visited gen_poly gen_deg)"

definition frame_gf_m :: "dvbs2x_frame_type \<Rightarrow> nat" where
  "frame_gf_m ft = (case ft of DVBS2X_FRAME_NORMAL \<Rightarrow> 16 | DVBS2X_FRAME_MEDIUM \<Rightarrow> 15 | DVBS2X_FRAME_SHORT \<Rightarrow> 14)"

text \<open>\<open>alloc\<close> says whether \<^verbatim>\<open>malloc\<close> of the table succeeds.  The result is the return value and the
  context; the context is what the function has filled in when it returns.\<close>

definition dvbs2x_bch_encoder_init ::
  "bool \<Rightarrow> dvbs2x_bch_encoder \<Rightarrow> dvbs2x_modcod \<Rightarrow> (int \<times> dvbs2x_bch_encoder) option" where
  "dvbs2x_bch_encoder_init alloc enc mc =
     (let m = frame_gf_m (mc_frame_type mc);
          enc = enc\<lparr>enc_t := mc_bch_t mc, enc_k := mc_k_bch mc, enc_n := mc_n_bch mc,
                    enc_parity_len := mc_n_bch mc - mc_k_bch mc, enc_gf_m := m\<rparr>;
          n = 2 ^ m - 1
      in if \<not> alloc then Some (-1, enc)
         else let exp_tab = bch_exp_table m;
                  gen_poly = (replicate (DVBS2X_BCH_MAX_PARITY + 1) 0)[0 := 1]
              in case bch_gen_loop m exp_tab n [1..<2 * enc_t enc + 1] (\<lambda>_. False) gen_poly 0 of
                   None \<Rightarrow> None
                 | Some (gen_poly, gen_deg) \<Rightarrow>
                     let enc = enc\<lparr>enc_gen_poly := gen_poly\<rparr>
                     in Some (if gen_deg \<noteq> enc_parity_len enc then -1 else 0, enc))"

text \<open>One input bit through the register, and the register after all of them.\<close>

definition lfsr_step :: "nat \<Rightarrow> u8 list \<Rightarrow> u8 \<Rightarrow> u8 list \<Rightarrow> u8 list" where
  "lfsr_step parity_len gen_poly inp lfsr =
     (let fb = inp XOR lfsr ! (parity_len - 1);
          lfsr = fold (\<lambda>j lfsr. lfsr[j := if gen_poly ! j \<noteq> 0 then lfsr ! (j - 1) XOR fb else lfsr ! (j - 1)])
                   (rev [1..<parity_len]) lfsr
      in lfsr[0 := if gen_poly ! 0 \<noteq> 0 then fb else 0])"

definition dvbs2x_bch_encode :: "dvbs2x_bch_encoder \<Rightarrow> u8 list \<Rightarrow> u8 list" where
  "dvbs2x_bch_encode enc input =
     (let lfsr = fold (\<lambda>i lfsr. lfsr_step (enc_parity_len enc) (enc_gen_poly enc) (input ! i) lfsr)
                   [0..<enc_k enc] (replicate (enc_parity_len enc) 0)
      in take (enc_k enc) input @ map (\<lambda>i. lfsr ! (enc_parity_len enc - 1 - i)) [0..<enc_parity_len enc])"

section \<open>The loops\<close>

lemma nat_less_bit: "(b :: nat) < 2 ^ n \<Longrightarrow> n \<le> i \<Longrightarrow> \<not> bit b i"
  by (simp add: nat_less_exp_iff)

lemma lfsr_shift_nth:
  "K < length l \<Longrightarrow> i < length l \<Longrightarrow>
   length (fold (\<lambda>j l. l[j := f j (l ! (j - 1))]) (rev [1..<K + 1]) l) = length l \<and>
   fold (\<lambda>j l. l[j := f j (l ! (j - 1))]) (rev [1..<K + 1]) l ! i =
     (if 1 \<le> i \<and> i \<le> K then f i (l ! (i - 1)) else l ! i)"
proof (induction K arbitrary: l)
  case (Suc K)
  then show ?case by (auto simp: nth_list_update le_Suc_eq)
qed auto

lemma lfsr_step_nth:
  assumes "length lfsr = P" "0 < P"
  shows "length (lfsr_step P g x lfsr) = P"
    and "i < P \<Longrightarrow> lfsr_step P g x lfsr ! i =
      (if g ! i \<noteq> 0 then (if i = 0 then 0 else lfsr ! (i - 1)) XOR (x XOR lfsr ! (P - 1))
       else if i = 0 then 0 else lfsr ! (i - 1))"
proof -
  let ?fb = "x XOR lfsr ! (P - 1)"
  let ?f = "\<lambda>j v. if g ! j \<noteq> 0 then v XOR ?fb else v"
  define l where "l = fold (\<lambda>j l. l[j := ?f j (l ! (j - 1))]) (rev [1..<P]) lfsr"
  have s: "lfsr_step P g x lfsr = l[0 := if g ! 0 \<noteq> 0 then ?fb else 0]"
    by (simp only: lfsr_step_def Let_def l_def)
  have P: "P - 1 < length lfsr" "P - 1 + 1 = P" using assms by auto
  note l = lfsr_shift_nth [OF P(1), of _ ?f, unfolded P(2), folded l_def]
  have len: "length l = P" using l [of 0] assms by simp
  then show "length (lfsr_step P g x lfsr) = P" by (simp add: s)
  show "lfsr_step P g x lfsr ! i =
      (if g ! i \<noteq> 0 then (if i = 0 then 0 else lfsr ! (i - 1)) XOR ?fb
       else if i = 0 then 0 else lfsr ! (i - 1))" if "i < P"
    using l [of i] that assms len by (auto simp: s nth_list_update)
qed

lemma poly_mul_row_nth:
  "i + D \<le> length temp \<Longrightarrow> c < length temp \<Longrightarrow>
   length (fold (\<lambda>j temp. if bit b j then temp[i + j := temp ! (i + j) XOR 1] else temp) [0..<D] temp) = length temp \<and>
   fold (\<lambda>j temp. if bit b j then temp[i + j := temp ! (i + j) XOR 1] else temp) [0..<D] temp ! c =
     (if i \<le> c \<and> c < i + D \<and> bit b (c - i) then temp ! c XOR (1 :: u8) else temp ! c)"
proof (induction D)
  case (Suc D)
  define F where "F = fold (\<lambda>j temp. if bit b j then temp[i + j := temp ! (i + j) XOR 1] else temp) [0..<D] temp"
  have ih: "length F = length temp" "F ! c = (if i \<le> c \<and> c < i + D \<and> bit b (c - i) then temp ! c XOR 1 else temp ! c)"
    using Suc unfolding F_def by auto
  have "fold (\<lambda>j temp. if bit b j then temp[i + j := temp ! (i + j) XOR 1] else temp) [0..<Suc D] temp =
    (if bit b D then F[i + D := F ! (i + D) XOR 1] else F)" by (simp add: F_def)
  then show ?case
    using ih Suc.prems by (cases "c = i + D") (auto simp: nth_list_update)
qed auto

section \<open>Evaluation on bit lists\<close>

text \<open>The elimination on the vectors alone: \<open>minL\<close> returns the degree at which a dependency appears.\<close>

fun reduceL :: "bool list option list \<Rightarrow> nat \<Rightarrow> bool list \<Rightarrow> bool list" where
  "reduceL [] i v = v"
| "reduceL (None # rs) i v = reduceL rs (Suc i) v"
| "reduceL (Some r # rs) i v = reduceL rs (Suc i) (if v ! i then xorl v r else v)"

fun lowest :: "bool list \<Rightarrow> nat \<Rightarrow> nat option" where
  "lowest [] i = None"
| "lowest (b # bs) i = (if b then Some i else lowest bs (Suc i))"

fun minL :: "bool list option list \<Rightarrow> bool list list \<Rightarrow> nat \<Rightarrow> nat option" where
  "minL rows [] d = None"
| "minL rows (v # vs) d =
     (let v' = reduceL rows 0 v
      in case lowest v' 0 of
           None \<Rightarrow> Some d
         | Some i \<Rightarrow> minL (rows[i := Some v']) vs (Suc d))"

fun iterL :: "bool list \<Rightarrow> nat \<Rightarrow> bool list \<Rightarrow> bool list" where
  "iterL p 0 v = v"
| "iterL p (Suc n) v = iterL p n (shiftL p v)"

fun powL :: "bool list \<Rightarrow> nat \<Rightarrow> nat \<Rightarrow> bool list \<Rightarrow> bool list list" where
  "powL p k 0 v = []"
| "powL p k (Suc c) v = v # powL p k c (iterL p k v)"

lemma lowest_find: "lowest (map P xs) i = map_option (\<lambda>j. i + j) (find (\<lambda>j. P (xs ! j)) [0..<length xs])"
proof (induction xs arbitrary: i)
  case (Cons x xs)
  have "[0..<length (x # xs)] = 0 # map Suc [0..<length xs]"
    by (simp add: upt_conv_Cons map_Suc_upt del: upt_Suc)
  moreover have "find Q (map Suc ys) = map_option Suc (find (Q \<circ> Suc) ys)" for Q ys
    by (induction ys) simp_all
  ultimately show ?case
    using Cons [of "Suc i"] by (simp add: comp_def option.map_comp del: upt_Suc)
qed simp

lemma lowest_bits: "lowest (bits_of m a) 0 = find (bit a) [0..<m]"
proof -
  have "find (\<lambda>j. bit a ([0..<m] ! j)) [0..<m] = find (bit a) [0..<m]"
    by (rule find_cong) simp_all
  then show ?thesis
    using lowest_find [of "bit a" "[0..<m]" 0] by (simp add: bits_of_def option.map_id [unfolded id_def])
qed

text \<open>The orbits that the marking loop visits, with the marked exponents as a list.\<close>

fun markL :: "nat list \<Rightarrow> nat \<Rightarrow> nat list \<Rightarrow> nat \<Rightarrow> nat list option" where
  "markL [] n L c = None"
| "markL (f # fs) n L c = (if c \<in> set L then Some L else markL fs n (c # L) ((c * 2) mod n))"

fun rootsL :: "nat list \<Rightarrow> nat \<Rightarrow> nat list \<Rightarrow> nat list \<Rightarrow> nat list option" where
  "rootsL fs n [] L = Some []"
| "rootsL fs n (k # ks) L =
     (if k \<in> set L then rootsL fs n ks L
      else case markL fs n L k of None \<Rightarrow> None
           | Some L \<Rightarrow> map_option (Cons k) (rootsL fs n ks L))"

lemma mark_list:
  "markL fs n L c = Some L' \<Longrightarrow> mark_conjugates n (\<lambda>x. x \<in> set L) c = Some (\<lambda>x. x \<in> set L')"
proof (induction fs n L c rule: markL.induct)
  case (2 f fs n L c)
  have "(\<lambda>x. x \<in> set L)(c := True) = (\<lambda>x. x \<in> set (c # L))" by (rule ext) auto
  then show ?case
    using 2 by (subst mark_conjugates.simps) (auto split: if_splits)
qed simp

context gf_code
begin

lemma bits_of_power: "bits_of m (X (a + n) 1) = iterL (bits_of m p) n (bits_of m (X a 1))"
proof (induction n arbitrary: a)
  case (Suc n)
  have m: "0 < m" using m_bounds(1) by simp
  show ?case using Suc [of "Suc a"] by (simp add: bits_of_shift [OF m])
qed simp

lemma powL_powers:
  "powL (bits_of m p) k c (bits_of m (X a 1)) = map (\<lambda>j. bits_of m (X (a + k * j) 1)) [0..<c]"
proof (induction c arbitrary: a)
  case (Suc c)
  have "[0..<Suc c] = 0 # map Suc [0..<c]" by (simp add: upt_conv_Cons map_Suc_upt del: upt_Suc)
  moreover have "iterL (bits_of m p) k (bits_of m (X a 1)) = bits_of m (X (a + k) 1)"
    by (simp only: bits_of_power)
  ultimately show ?case
    by (simp only: powL.simps Suc [of "a + k"] list.map map_map comp_def mult_0_right add_0_right mult_Suc_right add.assoc)
qed simp

text \<open>\<open>good \<beta> vec row\<close>: the vector is the sum of the powers of \<open>\<beta>\<close> that the row names.\<close>

definition packed :: "nat \<Rightarrow> nat \<Rightarrow> 'f \<Rightarrow> 'f" where
  "packed b d \<beta> = (\<Sum>j\<le>d. if bit b j then \<beta> ^ j else 0)"

definition good :: "'f \<Rightarrow> nat \<Rightarrow> nat \<Rightarrow> bool" where
  "good \<beta> vec row \<longleftrightarrow> elem vec \<and> \<phi> vec = packed row m \<beta>"

lemma packed_xor: "packed (a XOR b) d \<beta> = packed a d \<beta> + packed b d \<beta>"
  unfolding packed_def sum.distrib [symmetric]
  by (intro sum.cong) (auto simp: bit_xor_iff char_2)

lemma good_xor: "good \<beta> v r \<Longrightarrow> good \<beta> v' r' \<Longrightarrow> good \<beta> (v XOR v') (r XOR r')"
  using phi_add by (auto simp: good_def packed_xor gf_add_def xor_less_exp)

definition related :: "'f \<Rightarrow> nat \<Rightarrow> bool list option list \<Rightarrow> nat list \<Rightarrow> nat list \<Rightarrow> bool" where
  "related \<beta> d rows matrix pivots \<longleftrightarrow> length rows = m \<and> length matrix = 17 \<and> length pivots = 17 \<and>
     (\<forall>i < m. case rows ! i of None \<Rightarrow> pivots ! i = 0
      | Some r \<Rightarrow> pivots ! i \<noteq> 0 \<and> r = bits_of m (matrix ! i) \<and> good \<beta> (matrix ! i) (pivots ! i) \<and> pivots ! i < 2 ^ d)"

lemma reduce_related:
  assumes "related \<beta> d rows matrix pivots" "good \<beta> vec row" "row < 2 ^ Suc d" "bit row d" "i \<le> m"
  shows "case fold (\<lambda>i (vec, row_bits). if bit vec i \<and> pivots ! i \<noteq> 0
      then (vec XOR matrix ! i, row_bits XOR pivots ! i) else (vec, row_bits)) [i..<m] (vec, row) of
    (vec', row') \<Rightarrow> good \<beta> vec' row' \<and> row' < 2 ^ Suc d \<and> bit row' d \<and>
      bits_of m vec' = reduceL (drop i rows) i (bits_of m vec)"
  using assms(2-5)
proof (induction "m - i" arbitrary: i vec row)
  case 0
  have len: "length rows = m" using assms(1) unfolding related_def by blast
  have im: "i = m" using 0 by simp
  have "drop i rows = []" unfolding im len [symmetric] by simp
  moreover have "[i..<m] = []" unfolding im by simp
  ultimately show ?case using 0 by simp
next
  case (Suc j)
  then have i: "i < m" by arith
  have drop: "drop i rows = rows ! i # drop (Suc i) rows"
    using i assms(1) by (simp add: related_def Cons_nth_drop_Suc)
  have ih: "good \<beta> vec row \<Longrightarrow> row < 2 ^ Suc d \<Longrightarrow> bit row d \<Longrightarrow>
    case fold (\<lambda>i (vec, row_bits). if bit vec i \<and> pivots ! i \<noteq> 0
      then (vec XOR matrix ! i, row_bits XOR pivots ! i) else (vec, row_bits)) [Suc i..<m] (vec, row) of
    (vec', row') \<Rightarrow> good \<beta> vec' row' \<and> row' < 2 ^ Suc d \<and> bit row' d \<and>
      bits_of m vec' = reduceL (drop (Suc i) rows) (Suc i) (bits_of m vec)" for vec row
    using Suc.hyps(1) [of "Suc i"] Suc.hyps(2) i by simp
  have rel: "case rows ! i of None \<Rightarrow> pivots ! i = 0
      | Some r \<Rightarrow> pivots ! i \<noteq> 0 \<and> r = bits_of m (matrix ! i) \<and> good \<beta> (matrix ! i) (pivots ! i) \<and> pivots ! i < 2 ^ d"
    using assms(1) i by (simp add: related_def)
  show ?case
  proof (cases "bit vec i \<and> pivots ! i \<noteq> 0")
    case False
    then show ?thesis
      using ih [OF Suc.prems(1-3)] rel i by (cases "rows ! i") (auto simp: upt_conv_Cons drop)
  next
    case True
    then obtain r where r: "rows ! i = Some r" "r = bits_of m (matrix ! i)"
      "good \<beta> (matrix ! i) (pivots ! i)" "pivots ! i < 2 ^ d" using rel by (cases "rows ! i") auto
    have less: "row XOR pivots ! i < 2 ^ Suc d"
      using Suc.prems(2) r(4) by (intro xor_less_exp) simp_all
    have bit: "bit (row XOR pivots ! i) d"
      using Suc.prems(3) r(4) by (auto simp: bit_xor_iff nat_less_exp_iff)
    show ?thesis
      using ih [OF good_xor [OF Suc.prems(1) r(3)] less bit] True r i
      by (simp add: upt_conv_Cons drop bits_of_xor)
  qed
qed

lemma packed_above: "b < 2 ^ Suc d \<Longrightarrow> d \<le> n \<Longrightarrow> packed b n \<beta> = packed b d \<beta>"
  unfolding packed_def
  by (rule sum.mono_neutral_right) (use nat_less_bit [of b "Suc d"] in \<open>auto simp: Suc_le_eq\<close>)

lemma loop_related:
  assumes "related \<beta> d rows matrix pivots" "d \<le> m"
    and powers: "\<And>j. j \<le> m \<Longrightarrow> elem (powers ! j) \<and> \<phi> (powers ! j) = \<beta> ^ j"
    and "minL rows (map (\<lambda>j. bits_of m (powers ! j)) [d..<m + 1]) d = Some e"
  shows "\<exists>poly. min_poly_loop m powers [d..<m + 1] matrix pivots = (poly, e) \<and> bit poly e \<and>
    packed poly e \<beta> = 0 \<and> e \<le> m"
  using assms(1,2,4)
proof (induction "Suc m - d" arbitrary: d rows matrix pivots)
  case (Suc j)
  have upt: "[d..<m + 1] = d # [Suc d..<m + 1]" using Suc.prems(2) by (simp add: upt_conv_Cons)
  have "packed (2 ^ d) m \<beta> = \<beta> ^ d"
  proof -
    have "packed (2 ^ d) m \<beta> = (\<Sum>j\<le>m. if d = j then \<beta> ^ d else 0)"
      unfolding packed_def by (intro sum.cong) (auto simp: bit_exp_iff)
    then show ?thesis using Suc.prems(2) by simp
  qed
  then have start: "good \<beta> (powers ! d) (2 ^ d)" using powers [OF Suc.prems(2)] by (simp add: good_def)
  obtain vec row where red: "min_poly_reduce m matrix pivots (powers ! d, 2 ^ d) = (vec, row)"
    by (rule prod.exhaust)
  have vec: "good \<beta> vec row" "row < 2 ^ Suc d" "bit row d"
    "bits_of m vec = reduceL rows 0 (bits_of m (powers ! d))"
    using reduce_related [OF Suc.prems(1) start, of 0] red unfolding min_poly_reduce_def
    by (simp_all add: bit_exp_iff)
  have vl: "lowest (reduceL rows 0 (bits_of m (powers ! d))) 0 = find (bit vec) [0..<m]"
    by (simp only: vec(4) [symmetric] lowest_bits)
  show ?case
  proof (cases "find (bit vec) [0..<m]")
    case None
    have "vec = 0"
    proof (rule bit_eqI)
      fix i show "bit vec i = bit 0 i"
        using None vec(1) by (cases "i < m") (auto simp: find_None_iff good_def nat_less_exp_iff)
    qed
    moreover have "e = d" using Suc.prems(3) None vl unfolding upt by (simp add: del: upt_Suc)
    moreover have "packed row d \<beta> = 0"
      using vec(1) packed_above [OF vec(2) Suc.prems(2)] \<open>vec = 0\<close> by (simp add: good_def)
    ultimately show ?thesis using vec(3) Suc.prems(2) red unfolding upt by simp
  next
    case (Some i)
    then have i: "i < m" "bit vec i" by (auto simp: find_Some_iff)
    have "vec \<noteq> 0" using i(2) by (intro notI) simp
    have "row \<noteq> 0" using vec(3) by (intro notI) simp
    have rel: "related \<beta> (Suc d) (rows[i := Some (bits_of m vec)]) (matrix[i := vec]) (pivots[i := row])"
      unfolding related_def
    proof (intro conjI allI impI)
      fix q assume q: "q < m"
      have "m \<le> 16" using m_bounds(2) by (simp add: GF_MAX_M_def)
      have "case rows ! q of None \<Rightarrow> pivots ! q = 0
        | Some r \<Rightarrow> pivots ! q \<noteq> 0 \<and> r = bits_of m (matrix ! q) \<and> good \<beta> (matrix ! q) (pivots ! q) \<and> pivots ! q < 2 ^ d"
        using Suc.prems(1) q by (simp add: related_def)
      then show "case rows[i := Some (bits_of m vec)] ! q of None \<Rightarrow> pivots[i := row] ! q = 0
        | Some r \<Rightarrow> pivots[i := row] ! q \<noteq> 0 \<and> r = bits_of m (matrix[i := vec] ! q) \<and>
            good \<beta> (matrix[i := vec] ! q) (pivots[i := row] ! q) \<and> pivots[i := row] ! q < 2 ^ Suc d"
        using vec q i \<open>row \<noteq> 0\<close> \<open>m \<le> 16\<close> Suc.prems(1)
        by (cases "q = i") (auto simp: related_def split: option.splits)
    qed (use Suc.prems(1) in \<open>auto simp: related_def\<close>)
    have next_e: "minL (rows[i := Some (bits_of m vec)]) (map (\<lambda>j. bits_of m (powers ! j)) [Suc d..<m + 1]) (Suc d) = Some e"
      using Suc.prems(3) Some vl vec(4) unfolding upt by (simp add: del: upt_Suc)
    then have le: "Suc d \<le> m" by (cases "Suc d \<le> m") (simp_all add: not_le)
    have j: "j = Suc m - Suc d" using Suc.hyps(2) by arith
    from Suc.hyps(1) [OF j rel le next_e] obtain poly where "min_poly_loop m powers [Suc d..<m + 1] (matrix[i := vec]) (pivots[i := row]) = (poly, e)"
      "bit poly e" "packed poly e \<beta> = 0" "e \<le> m"
      by blast
    then show ?thesis using red Some \<open>vec \<noteq> 0\<close> unfolding upt by simp
  qed
qed simp

section \<open>Binary polynomials in the field\<close>

definition bv :: "u8 \<Rightarrow> 'f" where
  "bv x = (if x = 0 then 0 else 1)"

abbreviation bits01 :: "u8 list \<Rightarrow> bool" where
  "bits01 xs \<equiv> \<forall>x \<in> set xs. x = 0 \<or> x = 1"

lemma bv_simps [simp]: "bv 0 = 0" "bv 1 = 1"
  by (simp_all add: bv_def)

lemma bv_xor: "x = 0 \<or> x = 1 \<Longrightarrow> y = 0 \<or> y = 1 \<Longrightarrow> bv (x XOR y) = bv x + bv y"
  by (auto simp: char_2)

text \<open>The value of a coefficient array at a point, and the arrays that hold a polynomial of degree \<open>d\<close>.\<close>

definition value_at :: "u8 list \<Rightarrow> 'f \<Rightarrow> 'f" where
  "value_at g \<beta> = (\<Sum>c<length g. bv (g ! c) * \<beta> ^ c)"

lemma mul_row_value:
  assumes "bits01 temp" "i + d < length temp"
  shows "bits01 (poly_mul_row b d i temp)" "length (poly_mul_row b d i temp) = length temp"
    "value_at (poly_mul_row b d i temp) \<beta> = value_at temp \<beta> + \<beta> ^ i * packed b d \<beta>"
    "c < length temp \<Longrightarrow> c < i \<or> i + d < c \<Longrightarrow> poly_mul_row b d i temp ! c = temp ! c"
    "bit b d \<Longrightarrow> poly_mul_row b d i temp ! (i + d) = temp ! (i + d) XOR 1"
proof -
  let ?t = "poly_mul_row b d i temp"
  have len: "length ?t = length temp"
    and nth: "\<And>c. c < length temp \<Longrightarrow> ?t ! c = (if i \<le> c \<and> c < i + (d + 1) \<and> bit b (c - i) then temp ! c XOR 1 else temp ! c)"
  proof -
    have r: "i + (d + 1) \<le> length temp" using assms(2) by simp
    note n = poly_mul_row_nth [OF r, of _ b]
    show "length ?t = length temp" unfolding poly_mul_row_def using n [OF assms(2)] by (rule conjunct1)
    show "?t ! c = (if i \<le> c \<and> c < i + (d + 1) \<and> bit b (c - i) then temp ! c XOR 1 else temp ! c)"
      if "c < length temp" for c unfolding poly_mul_row_def using n [OF that] by (rule conjunct2)
  qed
  show "length ?t = length temp" by (rule len)
  have t01: "temp ! c = 0 \<or> temp ! c = 1" if "c < length temp" for c using assms(1) that by simp
  show "bits01 ?t"
  proof
    fix x assume "x \<in> set ?t"
    then obtain c where c: "c < length temp" "x = ?t ! c" by (auto simp: in_set_conv_nth len)
    then show "x = 0 \<or> x = 1" using nth [OF c(1)] t01 [OF c(1)] by auto
  qed
  show "?t ! c = temp ! c" if "c < length temp" "c < i \<or> i + d < c" using nth [OF that(1)] that(2) by auto
  show "?t ! (i + d) = temp ! (i + d) XOR 1" if "bit b d" using nth [OF assms(2)] that by simp
  have "value_at ?t \<beta> = (\<Sum>c<length temp. bv (temp ! c) * \<beta> ^ c +
      (if i \<le> c \<and> c < i + (d + 1) \<and> bit b (c - i) then \<beta> ^ c else 0))"
    unfolding value_at_def len
  proof (intro sum.cong refl)
    fix c assume "c \<in> {..<length temp}"
    then have c: "c < length temp" by simp
    show "bv (?t ! c) * \<beta> ^ c = bv (temp ! c) * \<beta> ^ c +
        (if i \<le> c \<and> c < i + (d + 1) \<and> bit b (c - i) then \<beta> ^ c else 0)"
      using nth [OF c] t01 [OF c] by (auto simp: char_2)
  qed
  also have "\<dots> = value_at temp \<beta> +
      (\<Sum>c<length temp. if i \<le> c \<and> c < i + (d + 1) \<and> bit b (c - i) then \<beta> ^ c else 0)"
    unfolding value_at_def by (rule sum.distrib)
  also have "(\<Sum>c<length temp. if i \<le> c \<and> c < i + (d + 1) \<and> bit b (c - i) then \<beta> ^ c else 0) =
      (\<Sum>c\<in>{i..i + d}. if bit b (c - i) then \<beta> ^ c else 0)"
    using assms(2) by (intro sum.mono_neutral_cong_right) auto
  also have "\<dots> = (\<Sum>j\<le>d. if bit b j then \<beta> ^ (i + j) else 0)"
    by (rule sum.reindex_bij_witness [of _ "\<lambda>j. i + j" "\<lambda>c. c - i"]) auto
  also have "\<dots> = \<beta> ^ i * packed b d \<beta>"
    unfolding packed_def sum_distrib_left by (intro sum.cong) (auto simp: power_add)
  finally show "value_at ?t \<beta> = value_at temp \<beta> + \<beta> ^ i * packed b d \<beta>" .
qed

definition poly_of :: "u8 list \<Rightarrow> nat \<Rightarrow> bool" where
  "poly_of g d \<longleftrightarrow> length g = DVBS2X_BCH_MAX_PARITY + 1 \<and> bits01 g \<and> d \<le> DVBS2X_BCH_MAX_PARITY \<and>
     g ! d = 1 \<and> (\<forall>c < length g. d < c \<longrightarrow> g ! c = 0)"

lemma mul_loop:
  assumes "bits01 g" "d + e < L" "d < length g" "k \<le> d + 1"
  shows "let t = fold (\<lambda>i temp. if g ! i = 0 then temp else poly_mul_row b e i temp) [0..<k] (replicate L 0)
    in length t = L \<and> bits01 t \<and> (\<forall>c < L. k + e \<le> c \<longrightarrow> t ! c = 0) \<and>
      value_at t \<beta> = (\<Sum>i<k. bv (g ! i) * \<beta> ^ i) * packed b e \<beta>"
  using assms(4)
proof (induction k)
  case 0
  then show ?case by (simp add: value_at_def)
next
  case (Suc k)
  define t where "t = fold (\<lambda>i temp. if g ! i = 0 then temp else poly_mul_row b e i temp) [0..<k] (replicate L 0)"
  have ih: "length t = L" "bits01 t" "\<And>c. c < L \<Longrightarrow> k + e \<le> c \<Longrightarrow> t ! c = 0"
    "value_at t \<beta> = (\<Sum>i<k. bv (g ! i) * \<beta> ^ i) * packed b e \<beta>"
    using Suc unfolding t_def [symmetric] Let_def by auto
  have step: "fold (\<lambda>i temp. if g ! i = 0 then temp else poly_mul_row b e i temp) [0..<Suc k] (replicate L 0) =
    (if g ! k = 0 then t else poly_mul_row b e k t)" by (simp add: t_def)
  have less: "k + e < length t" using Suc.prems assms(2) ih(1) by simp
  note row = mul_row_value [OF ih(2) less, where b = b]
  show ?case
  proof (cases "g ! k = 0")
    case True
    then show ?thesis unfolding step Let_def using ih by simp
  next
    case False
    then have "g ! k = 1" using assms(1,3) Suc.prems nth_mem [of k g] by auto
    moreover have "poly_mul_row b e k t ! c = 0" if "c < L" "Suc k + e \<le> c" for c
      using row(4) [where c = c] ih(1,3) that by simp
    ultimately show ?thesis
      unfolding step Let_def using row(1-3) ih False by (simp add: distrib_right)
  qed
qed

lemma poly_mul_value:
  assumes g: "poly_of g d" and b: "bit b e" and de: "d + e \<le> DVBS2X_BCH_MAX_PARITY"
  shows "\<exists>g'. gf2_poly_mul g g d b e = (g', d + e) \<and> poly_of g' (d + e) \<and>
    (\<forall>\<beta> :: 'f. value_at g' \<beta> = value_at g \<beta> * packed b e \<beta>)"
proof -
  let ?L = "DVBS2X_BCH_MAX_PARITY + 1"
  let ?f = "\<lambda>i temp. if g ! i = 0 then temp else poly_mul_row b e i temp"
  have g': "length g = ?L" "bits01 g" "g ! d = 1" "\<And>c. c < ?L \<Longrightarrow> d < c \<Longrightarrow> g ! c = 0"
    using g by (auto simp: poly_of_def)
  have less: "d + e < ?L" "d < length g" using de g' by simp_all
  define t0 where "t0 = fold ?f [0..<d] (replicate ?L 0)"
  define t where "t = fold ?f [0..<d + 1] (replicate ?L 0)"
  have t0: "length t0 = ?L" "bits01 t0" "t0 ! (d + e) = 0"
    using mul_loop [OF g'(2) less, of d b undefined] less unfolding t0_def [symmetric] Let_def by auto
  have t: "length t = ?L" "bits01 t" "\<And>c. c < ?L \<Longrightarrow> d + 1 + e \<le> c \<Longrightarrow> t ! c = 0"
    "value_at t \<beta> = (\<Sum>i<d + 1. bv (g ! i) * \<beta> ^ i) * packed b e \<beta>" for \<beta>
    using mul_loop [OF g'(2) less order_refl, of b] unfolding t_def [symmetric] Let_def by blast+
  have "t = poly_mul_row b e d t0" using g'(3) by (simp add: t_def t0_def)
  then have top: "t ! (d + e) = 1" using mul_row_value(5) [OF t0(2) _ b] t0(1,3) less by simp
  have "value_at t \<beta> = value_at g \<beta> * packed b e \<beta>" for \<beta>
  proof -
    have "value_at g \<beta> = (\<Sum>i<d + 1. bv (g ! i) * \<beta> ^ i)"
      unfolding value_at_def using g'(1,4) less by (intro sum.mono_neutral_right) auto
    then show ?thesis by (simp only: t(4))
  qed
  moreover have "overwrite 0 (take (d + e + 1) t) g = t"
  proof (rule nth_equalityI)
    have n: "length (take (d + e + 1) t) = d + e + 1" using t(1) less(1) by simp
    then show "length (overwrite 0 (take (d + e + 1) t) g) = length t" using t(1) g'(1) less(1) by simp
    fix c assume "c < length (overwrite 0 (take (d + e + 1) t) g)"
    then have c: "c < ?L" using n g'(1) less(1) by simp
    then show "overwrite 0 (take (d + e + 1) t) g ! c = t ! c"
      using n g'(1,4) t(1,3) less(1) by (cases "c < d + e + 1") (simp_all add: nth_overwrite)
  qed
  moreover have "poly_of t (d + e)" using t(1-3) top de unfolding poly_of_def by auto
  ultimately show ?thesis
    by (intro exI [of _ t]) (simp add: gf2_poly_mul_def Let_def t_def)
qed

section \<open>The generator\<close>

lemma bch_exp_entry:
  assumes "i < 2 * order"
  shows "bch_exp_table m ! i = X i 1"
proof -
  let ?step = "\<lambda>i (ex, reg). (ex[i := reg], gf_shift m p reg)"
  have p: "prim_polys ! m = p" using p_table by (simp add: prim_polys_def gf_prim_polys_def)
  have loop: "k \<le> order \<Longrightarrow> \<exists>ex. fold ?step [0..<k] (replicate (2 * order) 0, 1) = (ex, X k 1) \<and>
    length ex = 2 * order \<and> (\<forall>i < k. ex ! i = X i 1)" for k
  proof (induction k)
    case (Suc k)
    then obtain ex where ex: "fold ?step [0..<k] (replicate (2 * order) 0, 1) = (ex, X k 1)"
      "length ex = 2 * order" "\<forall>i < k. ex ! i = X i 1" by auto
    have "fold ?step [0..<Suc k] (replicate (2 * order) 0, 1) = (ex[k := X k 1], gf_shift m p (X k 1))"
      by (simp only: upt_Suc_append le0 fold_append comp_def ex(1) fold_simps prod.case)
    moreover have "\<forall>i < Suc k. ex[k := X k 1] ! i = X i 1"
      using ex Suc.prems by (auto simp: nth_list_update less_Suc_eq)
    ultimately show ?case using ex(2)
      by (intro exI [of _ "ex[k := X k 1]"]) (simp only: length_list_update funpow.simps comp_def simp_thms)
  qed simp
  obtain ex where ex: "fold ?step [0..<order] (replicate (2 * order) 0, 1) = (ex, X order 1)"
    "length ex = 2 * order" "\<forall>i < order. ex ! i = X i 1" using loop [OF order_refl] by blast
  have "bch_exp_table m = fold (\<lambda>i ex. ex[i := ex ! (i - order)]) [order..<order + order] ex"
    unfolding bch_exp_table_def Let_def p ex(1) by (simp only: prod.case mult_2)
  then have "bch_exp_table m ! i = ex ! (if i < order then i else i - order)"
    using extend_loop [of order ex order] ex(2) assms unfolding mult_2 by (simp only: order_refl)
  also have "\<dots> = X (if i < order then i else i - order) 1"
  proof -
    have "(if i < order then i else i - order) < order" using assms by auto
    then show ?thesis using ex(3) by blast
  qed
  also have "\<dots> = X (i mod order) 1" using assms by (auto simp: mod_if)
  finally show ?thesis by (simp only: X_mod)
qed

definition min_ok :: "nat \<Rightarrow> bool" where
  "min_ok k \<longleftrightarrow> minL (replicate m None) (powL (bits_of m p) k (m + 1) (bits_of m 1)) 0 = Some m"

lemma min_poly_ok:
  assumes "min_ok k"
  shows "\<exists>poly. compute_min_poly m k (bch_exp_table m) order = (poly, m) \<and> bit poly m \<and> packed poly m (\<alpha> ^ k) = 0"
proof -
  let ?powers = "map (\<lambda>i. bch_exp_table m ! ((k * i) mod order)) [0..<m + 1]"
  have pw: "?powers ! j = X (k * j) 1" if "j \<le> m" for j
  proof -
    have "k * j mod order < order" by (rule mod_less_divisor) (use order_bounds(1) in linarith)
    then have "bch_exp_table m ! (k * j mod order) = X (k * j mod order) 1" by (intro bch_exp_entry) linarith
    then show ?thesis using that by (simp only: X_mod nth_map_upt0 less_Suc_eq_le Suc_eq_plus1 [symmetric])
  qed
  have powers: "elem (?powers ! j) \<and> \<phi> (?powers ! j) = (\<alpha> ^ k) ^ j" if "j \<le> m" for j
    unfolding pw [OF that] by (simp only: phi_X power_mult X_elem [OF elem_1] simp_thms)
  have "powL (bits_of m p) k (m + 1) (bits_of m (X 0 1)) = map (\<lambda>j. bits_of m (?powers ! j)) [0..<m + 1]"
    unfolding powL_powers
  proof (rule map_cong [OF refl])
    fix j assume "j \<in> set [0..<m + 1]"
    then have "j \<le> m" by auto
    show "bits_of m (X (0 + k * j) 1) = bits_of m (?powers ! j)" unfolding pw [OF \<open>j \<le> m\<close>] add_0 ..
  qed
  then have min: "minL (replicate m None) (map (\<lambda>j. bits_of m (?powers ! j)) [0..<m + 1]) 0 = Some m"
    using assms by (simp only: min_ok_def funpow_0)
  have "m \<le> 16" using m_bounds(2) by (simp add: GF_MAX_M_def)
  then have "related (\<alpha> ^ k) 0 (replicate m None) (replicate 17 0) (replicate 17 0)"
    by (simp add: related_def)
  from loop_related [OF this _ powers min] show ?thesis unfolding compute_min_poly_def by blast
qed

lemma gen_loop:
  assumes "rootsL fs order ks L = Some rs" "\<forall>k \<in> set ks. k < order" "\<forall>k \<in> set rs. min_ok k"
    "poly_of g d" "d + m * length rs \<le> DVBS2X_BCH_MAX_PARITY"
  shows "\<exists>g'. bch_gen_loop m (bch_exp_table m) order ks (\<lambda>x. x \<in> set L) g d = Some (g', d + m * length rs) \<and>
    poly_of g' (d + m * length rs) \<and> (\<forall>\<beta>. value_at g \<beta> = 0 \<longrightarrow> value_at g' \<beta> = 0) \<and>
    (\<forall>k \<in> set rs. value_at g' (\<alpha> ^ k) = 0)"
  using assms
proof (induction ks arbitrary: L rs g d)
  case (Cons k ks)
  have k: "k mod order = k" using Cons.prems(2) by simp
  show ?case
  proof (cases "k \<in> set L")
    case True
    then show ?thesis
      using Cons.IH [of L rs g d] Cons.prems unfolding bch_gen_loop.simps k by simp
  next
    case False
    then obtain L' rs' where L': "markL fs order L k = Some L'" "rootsL fs order ks L' = Some rs'" "rs = k # rs'"
      using Cons.prems(1) by (auto split: option.splits)
    obtain poly where poly: "compute_min_poly m k (bch_exp_table m) order = (poly, m)" "bit poly m" "packed poly m (\<alpha> ^ k) = 0"
      using min_poly_ok [of k] Cons.prems(3) L'(3) by auto
    have le: "d + m \<le> DVBS2X_BCH_MAX_PARITY" using Cons.prems(5) L'(3) by simp
    obtain g1 where g1: "gf2_poly_mul g g d poly m = (g1, d + m)" "poly_of g1 (d + m)"
      "\<And>\<beta> :: 'f. value_at g1 \<beta> = value_at g \<beta> * packed poly m \<beta>"
      using poly_mul_value [OF Cons.prems(4) poly(2) le] by blast
    have "d + m + m * length rs' \<le> DVBS2X_BCH_MAX_PARITY" using Cons.prems(5) L'(3) by simp
    from Cons.IH [OF L'(2) _ _ g1(2) this] obtain g' where g':
      "bch_gen_loop m (bch_exp_table m) order ks (\<lambda>x. x \<in> set L') g1 (d + m) = Some (g', d + m + m * length rs')"
      "poly_of g' (d + m + m * length rs')" "\<forall>\<beta>. value_at g1 \<beta> = 0 \<longrightarrow> value_at g' \<beta> = 0"
      "\<forall>k \<in> set rs'. value_at g' (\<alpha> ^ k) = 0"
      using Cons.prems(2,3) L'(3) by auto
    have deg: "d + m + m * length rs' = d + m * length rs" using L'(3) by simp
    have "bch_gen_loop m (bch_exp_table m) order (k # ks) (\<lambda>x. x \<in> set L) g d = Some (g', d + m * length rs)"
      unfolding bch_gen_loop.simps k if_not_P [OF False] poly(1) mark_list [OF L'(1)] Let_def prod.case option.case
        g1(1) g'(1) deg ..
    then show ?thesis
      using g'(2-4) g1(3) poly(3) L'(3) unfolding deg by (intro exI [of _ g']) auto
  qed
qed simp

text \<open>Squaring is additive, so a root brings its square with it.\<close>

lemma square_add: "(x + y) ^ 2 = x ^ 2 + (y ^ 2 :: 'f)"
proof -
  have "(x + y) ^ 2 = x ^ 2 + y ^ 2 + (x * y + x * y)" by (simp add: power2_eq_square algebra_simps)
  then show ?thesis by (simp only: char_2 add_0_right)
qed

lemma square_sum: "finite A \<Longrightarrow> (\<Sum>x\<in>A. f x) ^ 2 = (\<Sum>x\<in>A. f x ^ 2 :: 'f)"
  by (induction rule: finite_induct) (simp_all add: square_add)

lemma value_at_square: "value_at g (\<beta> ^ 2) = value_at g \<beta> ^ 2"
  unfolding value_at_def square_sum [OF finite_lessThan]
  by (intro sum.cong) (simp_all add: bv_def power_mult_distrib power_mult [symmetric] mult.commute)

lemma roots_closed:
  assumes odd: "\<And>k. odd k \<Longrightarrow> k \<le> N \<Longrightarrow> value_at g (\<alpha> ^ k) = 0"
  shows "0 < k \<Longrightarrow> k \<le> N \<Longrightarrow> value_at g (\<alpha> ^ k) = 0"
proof (induction k rule: less_induct)
  case (less k)
  show ?case
  proof (cases "odd k")
    case False
    then obtain j where "k = j * 2" by (auto elim: evenE)
    then show ?thesis using less value_at_square [of g "\<alpha> ^ j"] by (simp add: power_mult)
  qed (use odd less in simp)
qed

definition generator :: "u8 list \<Rightarrow> nat \<Rightarrow> bool" where
  "generator g d \<longleftrightarrow> poly_of g d \<and> (\<forall>k. 0 < k \<and> k \<le> 24 \<longrightarrow> value_at g (\<alpha> ^ k) = 0)"

lemma encoder_init:
  assumes mc: "frame_gf_m (mc_frame_type mc) = m" "mc_bch_t mc = 12" "mc_n_bch mc - mc_k_bch mc = 12 * m"
    and roots: "rootsL fs order [1..<25] [] = Some rs" "length rs = 12" "\<forall>k \<in> set rs. min_ok k"
      "\<And>k. odd k \<Longrightarrow> k \<le> 24 \<Longrightarrow> k \<in> set rs" and order: "24 < order"
  shows "\<exists>g. dvbs2x_bch_encoder_init True enc mc =
      Some (0, \<lparr>enc_t = 12, enc_n = mc_n_bch mc, enc_k = mc_k_bch mc, enc_parity_len = 12 * m,
                enc_gf_m = m, enc_gen_poly = g\<rparr>) \<and> generator g (12 * m)"
proof -
  let ?g0 = "(replicate (DVBS2X_BCH_MAX_PARITY + 1) 0)[0 := 1] :: u8 list"
  have m16: "m \<le> 16" using m_bounds(2) by (simp add: GF_MAX_M_def)
  have g0: "poly_of ?g0 0"
    by (auto simp: poly_of_def nth_list_update DVBS2X_BCH_MAX_PARITY_def set_update_subset_insert
        dest!: subsetD [OF set_update_subset_insert])
  have less: "\<forall>k \<in> set [1..<25]. k < order" using order by auto
  have deg: "0 + m * length rs \<le> DVBS2X_BCH_MAX_PARITY" using roots(2) m16 by (simp add: DVBS2X_BCH_MAX_PARITY_def)
  from gen_loop [OF roots(1) less roots(3) g0 deg] obtain g where
    g: "bch_gen_loop m (bch_exp_table m) order [1..<25] (\<lambda>x. x \<in> set []) ?g0 0 = Some (g, 0 + m * length rs)"
    "poly_of g (0 + m * length rs)" "\<forall>k \<in> set rs. value_at g (\<alpha> ^ k) = 0" by blast
  have gl: "bch_gen_loop m (bch_exp_table m) order [1..<2 * 12 + 1] (\<lambda>_. False) ?g0 0 = Some (g, 12 * m)"
    using g(1) roots(2) by (simp add: mult.commute del: upt_Suc)
  have "generator g (12 * m)"
    using g(2) roots(2) roots_closed [of 24 g] g(3) roots(4) by (simp add: generator_def mult.commute)
  moreover have "dvbs2x_bch_encoder_init True enc mc =
      Some (0, \<lparr>enc_t = 12, enc_n = mc_n_bch mc, enc_k = mc_k_bch mc, enc_parity_len = 12 * m,
                enc_gf_m = m, enc_gen_poly = g\<rparr>)"
  proof -
    have t: "enc_t (enc\<lparr>enc_t := 12, enc_k := mc_k_bch mc, enc_n := mc_n_bch mc, enc_parity_len := 12 * m,
      enc_gf_m := m\<rparr>) = 12" by simp
    show ?thesis unfolding dvbs2x_bch_encoder_init_def Let_def mc t gl option.case prod.case by simp
  qed
  ultimately show ?thesis by blast
qed

section \<open>Encoding\<close>

lemma generator_sum:
  assumes "poly_of g P" "value_at g \<beta> = 0"
  shows "(\<Sum>j<P. bv (g ! j) * \<beta> ^ j) = (\<beta> ^ P :: 'f)"
proof -
  have "value_at g \<beta> = (\<Sum>j<Suc P. bv (g ! j) * \<beta> ^ j)"
    unfolding value_at_def using assms(1) by (intro sum.mono_neutral_right) (auto simp: poly_of_def)
  then have "(\<Sum>j<P. bv (g ! j) * \<beta> ^ j) + \<beta> ^ P = 0" using assms by (simp add: poly_of_def)
  then show ?thesis by (metis add_diff_cancel_right' diff_0 minus_is_plus add_0_left)
qed

lemma lfsr_step_01:
  assumes l: "length l = P" "bits01 l" and P: "0 < P" and x: "x = 0 \<or> x = 1"
  shows "bits01 (lfsr_step P g x l)"
proof -
  note nth = lfsr_step_nth [OF l(1) P, where g = g and x = x]
  have l01: "l ! i = 0 \<or> l ! i = 1" if "i < P" for i using l that by simp
  have xor01: "a = 0 \<or> a = 1 \<Longrightarrow> b = 0 \<or> b = 1 \<Longrightarrow> a XOR b = 0 \<or> a XOR b = 1" for a b :: u8 by auto
  have "lfsr_step P g x l ! i = 0 \<or> lfsr_step P g x l ! i = 1" if i: "i < P" for i
  proof -
    have "(if i = 0 then 0 else l ! (i - 1)) = 0 \<or> (if i = 0 then 0 else l ! (i - 1)) = 1"
      using l01 [of "i - 1"] i by simp
    moreover have "x XOR l ! (P - 1) = 0 \<or> x XOR l ! (P - 1) = 1" using l01 [of "P - 1"] P x by (intro xor01) simp_all
    ultimately show ?thesis unfolding nth(2) [OF i] by (simp add: xor01)
  qed
  then show ?thesis unfolding all_set_conv_all_nth nth(1) by blast
qed

lemma lfsr_step_value:
  assumes g: "poly_of g P" "0 < P" "value_at g \<beta> = 0" and l: "length l = P" "bits01 l" and x: "x = 0 \<or> x = 1"
  shows "length (lfsr_step P g x l) = P" "bits01 (lfsr_step P g x l)"
    "value_at (lfsr_step P g x l) \<beta> = \<beta> * value_at l \<beta> + bv x * \<beta> ^ P"
proof -
  let ?l = "lfsr_step P g x l" and ?fb = "x XOR l ! (P - 1)"
  note nth = lfsr_step_nth [OF l(1) g(2), where g = g and x = x]
  show "length ?l = P" by (rule nth(1))
  have l01: "l ! i = 0 \<or> l ! i = 1" if "i < P" for i using l that by simp
  have g01: "g ! i = 0 \<or> g ! i = 1" if "i < P" for i using g(1) that by (auto simp: poly_of_def)
  have fb: "?fb = 0 \<or> ?fb = 1" using x l01 [of "P - 1"] g(2) by auto
  show "bits01 ?l" by (rule lfsr_step_01 [OF l g(2) x])
  have "value_at ?l \<beta> = (\<Sum>i<P. (if i = 0 then 0 else bv (l ! (i - 1))) * \<beta> ^ i + bv ?fb * (bv (g ! i) * \<beta> ^ i))"
    unfolding value_at_def nth(1)
  proof (intro sum.cong refl)
    fix i assume "i \<in> {..<P}"
    then have i: "i < P" by simp
    show "bv (?l ! i) * \<beta> ^ i = (if i = 0 then 0 else bv (l ! (i - 1))) * \<beta> ^ i + bv ?fb * (bv (g ! i) * \<beta> ^ i)"
      using g01 [OF i] nth(2) [OF i] fb l01 [of "i - 1"] i bv_xor [of "l ! (i - 1)" ?fb]
      by (auto simp: distrib_right bv_xor)
  qed
  also have "\<dots> = (\<Sum>i<P. (if i = 0 then 0 else bv (l ! (i - 1))) * \<beta> ^ i) + bv ?fb * \<beta> ^ P"
    by (simp only: sum.distrib sum_distrib_left [symmetric] generator_sum [OF g(1,3)])
  also have "(\<Sum>i<P. (if i = 0 then 0 else bv (l ! (i - 1))) * \<beta> ^ i) = \<beta> * (\<Sum>j<P - 1. bv (l ! j) * \<beta> ^ j)"
  proof -
    obtain Q where Q: "P = Suc Q" using g(2) by (cases P) auto
    show ?thesis unfolding Q by (subst sum.lessThan_Suc_shift) (simp add: sum_distrib_left mult_ac)
  qed
  also have "bv ?fb * \<beta> ^ P = bv x * \<beta> ^ P + \<beta> * (bv (l ! (P - 1)) * \<beta> ^ (P - 1))"
  proof -
    have "\<beta> ^ P = \<beta> * \<beta> ^ (P - 1)" using g(2) by (simp add: power_eq_if)
    then show ?thesis using bv_xor [OF x l01 [of "P - 1"]] g(2) by (simp add: algebra_simps)
  qed
  also have "\<beta> * (\<Sum>j<P - 1. bv (l ! j) * \<beta> ^ j) + (bv x * \<beta> ^ P + \<beta> * (bv (l ! (P - 1)) * \<beta> ^ (P - 1))) =
      \<beta> * ((\<Sum>j<P - 1. bv (l ! j) * \<beta> ^ j) + bv (l ! (P - 1)) * \<beta> ^ (P - 1)) + bv x * \<beta> ^ P"
    by (simp add: distrib_left add_ac)
  also have "(\<Sum>j<P - 1. bv (l ! j) * \<beta> ^ j) + bv (l ! (P - 1)) * \<beta> ^ (P - 1) = value_at l \<beta>"
    unfolding value_at_def l(1) using g(2) by (cases P) simp_all
  finally show "value_at ?l \<beta> = \<beta> * value_at l \<beta> + bv x * \<beta> ^ P" .
qed

lemma lfsr_loop:
  assumes g: "poly_of g P" "0 < P" and inp: "bits01 inp" "k \<le> length inp"
  shows "let l = fold (\<lambda>i l. lfsr_step P g (inp ! i) l) [0..<k] (replicate P 0)
    in length l = P \<and> bits01 l \<and>
      (\<forall>\<beta>. value_at g \<beta> = 0 \<longrightarrow> value_at l \<beta> = (\<Sum>i<k. bv (inp ! i) * \<beta> ^ (P + (k - 1 - i))))"
  using inp(2)
proof (induction k)
  case 0
  then show ?case by (simp add: value_at_def)
next
  case (Suc k)
  define l where "l = fold (\<lambda>i l. lfsr_step P g (inp ! i) l) [0..<k] (replicate P 0)"
  have ih: "length l = P" "bits01 l"
    "\<And>\<beta>. value_at g \<beta> = 0 \<Longrightarrow> value_at l \<beta> = (\<Sum>i<k. bv (inp ! i) * \<beta> ^ (P + (k - 1 - i)))"
    using Suc unfolding l_def [symmetric] Let_def by auto
  have step: "fold (\<lambda>i l. lfsr_step P g (inp ! i) l) [0..<Suc k] (replicate P 0) = lfsr_step P g (inp ! k) l"
    by (simp add: l_def)
  have x: "inp ! k = 0 \<or> inp ! k = 1" using inp(1) Suc.prems by simp
  have "value_at (lfsr_step P g (inp ! k) l) \<beta> = (\<Sum>i<Suc k. bv (inp ! i) * \<beta> ^ (P + (Suc k - 1 - i)))"
    if "value_at g \<beta> = 0" for \<beta>
  proof -
    have "\<beta> * (\<Sum>i<k. bv (inp ! i) * \<beta> ^ (P + (k - 1 - i))) = (\<Sum>i<k. bv (inp ! i) * \<beta> ^ (P + (k - i)))"
      unfolding sum_distrib_left
    proof (intro sum.cong refl)
      fix i assume "i \<in> {..<k}"
      then have "P + (k - i) = Suc (P + (k - 1 - i))" by auto
      then show "\<beta> * (bv (inp ! i) * \<beta> ^ (P + (k - 1 - i))) = bv (inp ! i) * \<beta> ^ (P + (k - i))" by simp
    qed
    then show ?thesis using lfsr_step_value(3) [OF g that ih(1,2) x] ih(3) [OF that] by simp
  qed
  moreover have "length (lfsr_step P g (inp ! k) l) = P" by (rule lfsr_step_nth(1) [OF ih(1) g(2)])
  moreover have "bits01 (lfsr_step P g (inp ! k) l)" by (rule lfsr_step_01 [OF ih(1,2) g(2) x])
  ultimately show ?case unfolding step Let_def by blast
qed

lemma encode_codeword:
  assumes enc: "enc_parity_len enc = P" "enc_k enc = K" "enc_gen_poly enc = g"
    and g: "generator g P" "0 < P" and inp: "bits01 inp" "length inp = K"
  shows "length (dvbs2x_bch_encode enc inp) = K + P" "take K (dvbs2x_bch_encode enc inp) = inp"
    "bits01 (dvbs2x_bch_encode enc inp)"
    "0 < k \<Longrightarrow> k \<le> 24 \<Longrightarrow> (\<Sum>n<K + P. bv (dvbs2x_bch_encode enc inp ! n) * (\<alpha> ^ k) ^ (K + P - 1 - n)) = 0"
proof -
  define l where "l = fold (\<lambda>i l. lfsr_step P g (inp ! i) l) [0..<K] (replicate P 0)"
  have pg: "poly_of g P" and roots: "\<And>k. 0 < k \<Longrightarrow> k \<le> 24 \<Longrightarrow> value_at g (\<alpha> ^ k) = 0"
    using g(1) by (auto simp: generator_def)
  have l: "length l = P" "bits01 l"
    "\<And>\<beta>. value_at g \<beta> = 0 \<Longrightarrow> value_at l \<beta> = (\<Sum>i<K. bv (inp ! i) * \<beta> ^ (P + (K - 1 - i)))"
    using lfsr_loop [OF pg g(2) inp(1), of K] inp(2) unfolding l_def [symmetric] Let_def by auto
  have cw: "dvbs2x_bch_encode enc inp = inp @ map (\<lambda>i. l ! (P - 1 - i)) [0..<P]"
    using inp(2) by (simp add: dvbs2x_bch_encode_def enc l_def Let_def)
  show "length (dvbs2x_bch_encode enc inp) = K + P" "take K (dvbs2x_bch_encode enc inp) = inp"
    using inp(2) by (simp_all add: cw)
  show "bits01 (dvbs2x_bch_encode enc inp)" using inp l(1,2) by (auto simp: cw)
  show "(\<Sum>n<K + P. bv (dvbs2x_bch_encode enc inp ! n) * (\<alpha> ^ k) ^ (K + P - 1 - n)) = 0"
    if "0 < k" "k \<le> 24"
  proof -
    let ?\<beta> = "\<alpha> ^ k"
    have "(\<Sum>n<K + P. bv (dvbs2x_bch_encode enc inp ! n) * ?\<beta> ^ (K + P - 1 - n)) =
      (\<Sum>n<K. bv (inp ! n) * ?\<beta> ^ (P + (K - 1 - n))) + (\<Sum>i<P. bv (l ! (P - 1 - i)) * ?\<beta> ^ (P - 1 - i))"
    proof -
      have split: "{..<K + P} = {..<K} \<union> {K..<K + P}" "{..<K} \<inter> {K..<K + P} = {}" by auto
      have "(\<Sum>n\<in>{K..<K + P}. bv (dvbs2x_bch_encode enc inp ! n) * ?\<beta> ^ (K + P - 1 - n)) =
        (\<Sum>i<P. bv (l ! (P - 1 - i)) * ?\<beta> ^ (P - 1 - i))"
        by (rule sum.reindex_bij_witness [of _ "\<lambda>i. K + i" "\<lambda>n. n - K"])
           (auto simp: cw nth_append inp(2) add.commute)
      moreover have "(\<Sum>n<K. bv (dvbs2x_bch_encode enc inp ! n) * ?\<beta> ^ (K + P - 1 - n)) =
        (\<Sum>n<K. bv (inp ! n) * ?\<beta> ^ (P + (K - 1 - n)))"
      proof (intro sum.cong refl)
        fix n assume "n \<in> {..<K}"
        then have "n < K" "K + P - 1 - n = P + (K - 1 - n)" by auto
        then show "bv (dvbs2x_bch_encode enc inp ! n) * ?\<beta> ^ (K + P - 1 - n) = bv (inp ! n) * ?\<beta> ^ (P + (K - 1 - n))"
          using inp(2) by (simp only: cw nth_append if_True)
      qed
      ultimately show ?thesis unfolding split(1) by (subst sum.union_disjoint) (simp_all only: split(2) finite_lessThan finite_atLeastLessThan)
    qed
    also have "(\<Sum>i<P. bv (l ! (P - 1 - i)) * ?\<beta> ^ (P - 1 - i)) = value_at l ?\<beta>"
      unfolding value_at_def l(1)
      by (rule sum.reindex_bij_witness [of _ "\<lambda>i. P - 1 - i" "\<lambda>i. P - 1 - i"]) auto
    also have "(\<Sum>n<K. bv (inp ! n) * ?\<beta> ^ (P + (K - 1 - n))) = value_at l ?\<beta>" using l(3) [OF roots [OF that]] by simp
    also have "value_at l ?\<beta> + value_at l ?\<beta> = 0" by (rule char_2)
    finally show ?thesis .
  qed
qed

end

end
