(* ===== verification/KeyEquation.thy ===== *)
theory KeyEquation
  imports Complex_Main
begin

text \<open>
  The algebra behind the BCH decoder, over an arbitrary field: polynomials as coefficient functions
  (products of linear factors, the bound on the number of roots, independence of power sums), and the
  invariant of the Berlekamp-Massey iteration, \<open>bm_inv\<close>, with the lemma that bounds its length.
\<close>

section \<open>Coefficient functions\<close>

lemma prod_coeffs:
  fixes A :: "'f::field set"
  assumes "finite A"
  shows "\<exists>q. q (card A) = 1 \<and> (\<forall>j > card A. q j = 0) \<and>
    (\<forall>x. (\<Sum>j\<le>card A. q j * x ^ j) = (\<Prod>a\<in>A. x - a))"
  using assms
proof induction
  case empty
  show ?case by (intro exI [of _ "\<lambda>j. if j = 0 then 1 else 0"]) simp
next
  case (insert a A)
  then obtain q where q: "q (card A) = 1" "\<And>j. j > card A \<Longrightarrow> q j = 0"
    "\<And>x. (\<Sum>j\<le>card A. q j * x ^ j) = (\<Prod>a\<in>A. x - a)" by blast
  let ?d = "card A"
  let ?q = "\<lambda>j. (if j = 0 then 0 else q (j - 1)) - a * q j"
  have "(\<Sum>j\<le>Suc ?d. ?q j * x ^ j) = (\<Prod>a\<in>insert a A. x - a)" for x
  proof -
    have "(\<Sum>j\<le>Suc ?d. ?q j * x ^ j) =
      (\<Sum>j\<le>Suc ?d. (if j = 0 then 0 else q (j - 1)) * x ^ j) - (\<Sum>j\<le>Suc ?d. a * q j * x ^ j)"
      by (simp add: left_diff_distrib sum_subtractf)
    also have "(\<Sum>j\<le>Suc ?d. (if j = 0 then 0 else q (j - 1)) * x ^ j) = x * (\<Sum>j\<le>?d. q j * x ^ j)"
      by (subst sum.atMost_Suc_shift) (simp add: sum_distrib_left mult_ac)
    also have "(\<Sum>j\<le>Suc ?d. a * q j * x ^ j) = a * (\<Sum>j\<le>?d. q j * x ^ j)"
      using q(2) [of "Suc ?d"] by (simp add: sum_distrib_left mult.assoc)
    finally show ?thesis using q(3) insert.hyps by (simp add: left_diff_distrib)
  qed
  then show ?case using q insert.hyps by (intro exI [of _ ?q]) auto
qed

lemma many_roots:
  fixes c :: "nat \<Rightarrow> 'f::idom"
  assumes "finite A" "d < card A" "\<And>a. a \<in> A \<Longrightarrow> (\<Sum>i\<le>d. c i * a ^ i) = 0"
  shows "(\<Sum>i\<le>d. c i * z ^ i) = 0"
  using assms
proof (induction d arbitrary: c A z)
  case 0
  then obtain a where "a \<in> A" by fastforce
  then show ?case using 0(3) by auto
next
  case (Suc d)
  obtain a where a: "a \<in> A" using Suc.prems(2) by fastforce
  obtain b where b: "\<And>z. (\<Sum>i\<le>Suc d. c i * z ^ i) = (z - a) * (\<Sum>i<Suc d. b i * z ^ i)"
    using polyfun_linear_factor_root [OF Suc.prems(3) [OF a]] by blast
  have "(\<Sum>i\<le>d. b i * z ^ i) = 0" for z
  proof (rule Suc.IH [of "A - {a}"])
    show "d < card (A - {a})" using Suc.prems(1,2) a by simp
    fix x assume "x \<in> A - {a}"
    then have "(x - a) * (\<Sum>i\<le>d. b i * x ^ i) = 0"
      using b [of x] Suc.prems(3) [of x] by (simp add: lessThan_Suc_atMost)
    then show "(\<Sum>i\<le>d. b i * x ^ i) = 0" using \<open>x \<in> A - {a}\<close> by simp
  qed (use Suc.prems(1) in simp)
  then show ?case using b [of z] by (simp add: lessThan_Suc_atMost del: sum.atMost_Suc)
qed

lemma power_sums_independent:
  fixes X w :: "'e \<Rightarrow> 'f::field"
  assumes "finite E" "inj_on X E" "\<And>e. e \<in> E \<Longrightarrow> X e \<noteq> 0"
    and zero: "\<And>k. a < k \<Longrightarrow> k \<le> a + card E \<Longrightarrow> (\<Sum>e\<in>E. w e * X e ^ k) = 0"
    and e0: "e0 \<in> E"
  shows "w e0 = 0"
proof -
  let ?A = "X ` (E - {e0})"
  have card: "Suc (card ?A) = card E"
    using assms(1,2) e0 by (simp add: card_image inj_on_subset card_gt_0_iff card_Diff_singleton)
       (metis One_nat_def Suc_pred card_gt_0_iff empty_iff)
  obtain q where q: "\<And>x. (\<Sum>j\<le>card ?A. q j * x ^ j) = (\<Prod>a\<in>?A. x - a)"
    using prod_coeffs [of ?A] assms(1) by auto
  have term0: "(\<Sum>e\<in>E. w e * X e ^ (a + 1 + j)) = 0" if "j \<le> card ?A" for j
    using zero [of "a + 1 + j"] card that by simp
  have "0 = (\<Sum>j\<le>card ?A. q j * (\<Sum>e\<in>E. w e * X e ^ (a + 1 + j)))"
    by (intro sum.neutral [symmetric] ballI) (simp only: term0 atMost_iff mult_zero_right)
  also have "\<dots> = (\<Sum>e\<in>E. \<Sum>j\<le>card ?A. w e * X e ^ (a + 1) * (q j * X e ^ j))"
    unfolding sum_distrib_left by (subst sum.swap) (simp add: power_add mult_ac)
  also have "\<dots> = (\<Sum>e\<in>E. w e * X e ^ (a + 1) * (\<Prod>a\<in>?A. X e - a))"
    by (simp only: q flip: sum_distrib_left)
  also have "\<dots> = (\<Sum>e\<in>{e0}. w e * X e ^ (a + 1) * (\<Prod>a\<in>?A. X e - a))"
    using assms(1) e0 by (intro sum.mono_neutral_right) (auto intro!: prod_zero)
  finally have "w e0 * X e0 ^ (a + 1) * (\<Prod>a\<in>?A. X e0 - a) = 0" by simp
  moreover have "(\<Prod>a\<in>?A. X e0 - a) \<noteq> 0"
    using assms(1,2) e0 by (auto simp: prod_zero_iff inj_on_def)
  ultimately show ?thesis using assms(3) [OF e0] by simp
qed

section \<open>Recurrences\<close>

text \<open>\<open>conv M c S k\<close> is the discrepancy at \<open>k\<close> of the recurrence \<open>c\<close>, whose coefficients are below \<open>M\<close>.\<close>

definition conv :: "nat \<Rightarrow> (nat \<Rightarrow> 'f::field) \<Rightarrow> (nat \<Rightarrow> 'f) \<Rightarrow> nat \<Rightarrow> 'f" where
  "conv M c S k = (\<Sum>i<M. c i * S (k - i))"

text \<open>\<open>generates M c L S a n\<close>: \<open>c\<close> has length \<open>L\<close> and generates \<open>S\<close> at the positions above \<open>L\<close> up to
  but without \<open>n\<close>.\<close>

definition generates :: "nat \<Rightarrow> (nat \<Rightarrow> 'f::field) \<Rightarrow> nat \<Rightarrow> (nat \<Rightarrow> 'f) \<Rightarrow> nat \<Rightarrow> bool" where
  "generates M c L S n \<longleftrightarrow> c 0 = 1 \<and> L < M \<and> (\<forall>i > L. c i = 0) \<and> (\<forall>k. L < k \<and> k < n \<longrightarrow> conv M c S k = 0)"

text \<open>Two recurrences of lengths \<open>L\<close> and \<open>L'\<close> that agree below \<open>n\<close> and not at \<open>n\<close> have \<open>n \<le> L + L'\<close>.\<close>

lemma length_bound:
  assumes c: "generates M c L S n" and "conv M c S n \<noteq> 0"
    and e: "generates M e L' S (Suc n)"
  shows "n \<le> L + L'"
proof (rule ccontr)
  assume "\<not> n \<le> L + L'"
  then have n: "L + L' < n" by simp
  have c': "conv M c S k = 0" if "L < k" "k < n" for k using c that by (auto simp: generates_def)
  have e': "conv M e S k = 0" if "L' < k" "k < Suc n" for k using e that by (auto simp: generates_def)
  have "(\<Sum>i<M. c i * conv M e S (n - i)) = 0"
  proof (rule sum.neutral, rule ballI)
    fix i assume "i \<in> {..<M}"
    show "c i * conv M e S (n - i) = 0"
      using c e' [of "n - i"] n by (cases "i \<le> L") (auto simp: generates_def)
  qed
  moreover have "(\<Sum>i<M. c i * conv M e S (n - i)) = (\<Sum>j<M. e j * conv M c S (n - j))"
    unfolding conv_def sum_distrib_left by (subst sum.swap) (simp add: mult_ac add.commute)
  moreover have "(\<Sum>j<M. e j * conv M c S (n - j)) = (\<Sum>j\<in>{0}. e j * conv M c S (n - j))"
  proof (rule sum.mono_neutral_right)
    show "\<forall>j \<in> {..<M} - {0}. e j * conv M c S (n - j) = 0"
    proof
      fix j assume "j \<in> {..<M} - {0}"
      then show "e j * conv M c S (n - j) = 0"
        using e c' [of "n - j"] n by (cases "j \<le> L'") (auto simp: generates_def)
    qed
  qed (use e in \<open>auto simp: generates_def\<close>)
  ultimately show False using assms(2) e by (simp add: generates_def)
qed

section \<open>The Berlekamp-Massey iteration\<close>

text \<open>Before position \<open>n\<close> is processed, \<open>c\<close> generates \<open>S\<close> below \<open>n\<close>, and \<open>b\<close>, moved up by one, is an
  auxiliary recurrence whose discrepancy at \<open>n\<close> is one.\<close>

definition up1 :: "(nat \<Rightarrow> 'f::field) \<Rightarrow> nat \<Rightarrow> 'f" where
  "up1 b i = (if i = 0 then 0 else b (i - 1))"

definition bm_inv :: "nat \<Rightarrow> (nat \<Rightarrow> 'f::field) \<Rightarrow> nat \<Rightarrow> (nat \<Rightarrow> 'f) \<Rightarrow> (nat \<Rightarrow> 'f) \<Rightarrow> nat \<Rightarrow> bool" where
  "bm_inv M S n c b L \<longleftrightarrow> generates M c L S n \<and> L < n \<and> (\<forall>i. n < L + i \<longrightarrow> up1 b i = 0) \<and>
     (\<forall>k. n < L + k \<and> k \<le> n \<longrightarrow> conv M (up1 b) S k = (if k = n then 1 else 0))"

lemma bm_inv_start: "0 < M \<Longrightarrow> bm_inv M S 1 (\<lambda>i. if i = 0 then 1 else 0) (\<lambda>i. if i = 0 then 1 else 0) 0"
  by (auto simp: bm_inv_def generates_def up1_def)

lemma conv_up1: "n \<le> M \<Longrightarrow> (\<And>i. n \<le> i \<Longrightarrow> b i = 0) \<Longrightarrow> conv (Suc M) (up1 b) S (Suc k) = conv M b S k"
  unfolding conv_def by (subst sum.lessThan_Suc_shift) (simp add: up1_def)

lemma conv_Suc: "c M = 0 \<Longrightarrow> conv (Suc M) c S k = conv M c S k"
  by (simp add: conv_def)

lemma conv_scale: "conv M (\<lambda>i. c i * r) S k = conv M c S k * r"
  unfolding conv_def sum_distrib_right by (simp add: mult_ac)

lemma conv_diff: "conv M (\<lambda>i. c i - d * e i) S k = conv M c S k - d * conv M e S k"
  unfolding conv_def sum_distrib_left sum_subtractf [symmetric] by (simp add: algebra_simps)

text \<open>One step, in the three ways the code takes it.  All coefficients are below \<open>Suc M\<close>.\<close>

lemma conv_up1_Suc:
  assumes "up1 b (Suc M) = 0"
  shows "conv (Suc M) (up1 b) S (Suc k) = conv (Suc M) b S k"
proof -
  have "conv (Suc M) (up1 b) S (Suc k) = (\<Sum>i<M. b i * S (k - i))"
    unfolding conv_def by (subst sum.lessThan_Suc_shift) (simp add: up1_def)
  then show ?thesis using assms by (simp add: conv_def up1_def)
qed

lemma bm_shift:
  assumes inv: "bm_inv (Suc M) S n c b L" and n: "n \<le> M" and new: "generates (Suc M) c' L S (Suc n)"
    and b': "\<And>i. i \<le> M \<Longrightarrow> b' i = up1 b i" "\<And>i. M < i \<Longrightarrow> b' i = 0"
  shows "bm_inv (Suc M) S (Suc n) c' b' L"
proof -
  have zero: "up1 b i = 0" if "n < L + i" for i using inv that by (simp add: bm_inv_def)
  have eq: "b' = up1 b"
  proof
    fix i show "b' i = up1 b i"
      using b' zero [of i] n by (cases "i \<le> M") auto
  qed
  have "up1 (up1 b) i = 0" if "Suc n < L + i" for i
    using zero [of "i - 1"] that by (auto simp: up1_def [of "up1 b"])
  moreover have "conv (Suc M) (up1 (up1 b)) S k = (if k = Suc n then 1 else 0)"
    if k: "Suc n < L + k" "k \<le> Suc n" for k
  proof -
    have "up1 (up1 b) (Suc M) = 0"
      using zero [of M] k n by (simp add: up1_def [of "up1 b"])
    then have "conv (Suc M) (up1 (up1 b)) S (Suc (k - 1)) = conv (Suc M) (up1 b) S (k - 1)"
      by (rule conv_up1_Suc)
    moreover have "0 < k" using k inv by (auto simp: bm_inv_def)
    moreover have "conv (Suc M) (up1 b) S (k - 1) = (if k - 1 = n then 1 else 0)"
      using inv k unfolding bm_inv_def by (metis One_nat_def Suc_diff_1 Suc_le_mono \<open>0 < k\<close> add_Suc_right not_less_eq)
    ultimately show ?thesis by auto
  qed
  ultimately show ?thesis using inv new by (auto simp: bm_inv_def eq)
qed

lemma bm_agree:
  assumes "bm_inv M S n c b L" "conv M c S n = 0"
  shows "generates M c L S (Suc n)"
  using assms by (auto simp: bm_inv_def generates_def less_Suc_eq)

lemma bm_correct_gen:
  assumes inv: "bm_inv (Suc M) S n c b L" and n: "n \<le> M"
    and d: "d = conv (Suc M) c S n" and L': "L \<le> L'" "n \<le> L + L'" "L' \<le> n"
  shows "generates (Suc M) (\<lambda>i. c i - d * up1 b i) L' S (Suc n)"
proof -
  have "conv (Suc M) c S k - d * conv (Suc M) (up1 b) S k = 0" if "L' < k" "k < Suc n" for k
  proof (cases "k = n")
    case True
    then show ?thesis using inv that L' d by (auto simp: bm_inv_def)
  next
    case False
    then show ?thesis using inv that L' by (auto simp: bm_inv_def generates_def)
  qed
  moreover have "up1 b i = 0" "c i = 0" if "L' < i" for i
    using inv that L' by (simp_all add: bm_inv_def generates_def)
  moreover have "c 0 - d * up1 b 0 = 1" "L' < Suc M"
    using inv n L' by (simp_all add: bm_inv_def generates_def up1_def)
  ultimately show ?thesis by (simp add: generates_def conv_diff)
qed

lemma bm_lengthen:
  assumes inv: "bm_inv (Suc M) S n c b L" and n: "n \<le> M"
    and d: "d = conv (Suc M) c S n" "d \<noteq> 0" and L: "2 * L < n"
    and b': "\<And>i. b' i = c i * inverse d"
  shows "bm_inv (Suc M) S (Suc n) (\<lambda>i. c i - d * up1 b i) b' (n - L)"
proof -
  have gen: "generates (Suc M) (\<lambda>i. c i - d * up1 b i) (n - L) S (Suc n)"
    using bm_correct_gen [OF inv n d(1)] L by simp
  have c0: "c i = 0" if "L < i" for i using inv that by (simp add: bm_inv_def generates_def)
  have gen0: "conv (Suc M) c S k = 0" if "L < k" "k < n" for k
    using inv that by (simp add: bm_inv_def generates_def)
  have up: "up1 b' i = 0" if "Suc L < i" for i
    using c0 [of "i - 1"] that by (simp add: up1_def b')
  have "conv (Suc M) (up1 b') S k = (if k = Suc n then 1 else 0)"
    if k: "Suc n < n - L + k" "k \<le> Suc n" for k
  proof -
    have "conv (Suc M) (up1 b') S (Suc (k - 1)) = conv (Suc M) b' S (k - 1)"
      using up [of "Suc M"] L n by (intro conv_up1_Suc) simp
    also have "\<dots> = conv (Suc M) c S (k - 1) * inverse d"
      unfolding conv_scale [symmetric] by (simp only: conv_def b')
    finally have "conv (Suc M) (up1 b') S k = conv (Suc M) c S (k - 1) * inverse d"
      using k by simp
    then show ?thesis
      using gen0 [of "k - 1"] k d L by (cases "k = Suc n") auto
  qed
  then show ?thesis using gen up L by (auto simp: bm_inv_def)
qed

section \<open>Power sums\<close>

text \<open>\<open>S\<close> is the sum of the powers of the locators \<open>X e\<close>; a recurrence that is no longer than the set of
  errors and generates enough of \<open>S\<close> has exactly the inverse locators as roots.\<close>

definition power_sums :: "'e set \<Rightarrow> ('e \<Rightarrow> 'f::field) \<Rightarrow> nat \<Rightarrow> 'f" where
  "power_sums E X k = (\<Sum>e\<in>E. X e ^ k)"

lemma locator_exists:
  assumes "finite E" "card E < M" "inj_on X E"
  shows "\<exists>e. \<forall>n. generates M e (card E) (power_sums E X) n"
proof -
  have card: "card (X ` E) = card E" by (simp add: card_image assms(3))
  obtain q where q: "q (card E) = 1" "\<And>x. (\<Sum>j\<le>card E. q j * x ^ j) = (\<Prod>a\<in>X ` E. x - a)"
    using prod_coeffs [of "X ` E"] assms(1) by (auto simp: card)
  let ?l = "\<lambda>j. if j \<le> card E then q (card E - j) else 0"
  have "conv M ?l (power_sums E X) k = 0" if k: "card E < k" for k
  proof -
    have "conv M ?l (power_sums E X) k = (\<Sum>j\<le>card E. q (card E - j) * power_sums E X (k - j))"
      unfolding conv_def using assms(2) by (intro sum.mono_neutral_cong_right) auto
    also have "\<dots> = (\<Sum>j\<le>card E. q j * power_sums E X (k - (card E - j)))"
      by (rule sum.reindex_bij_witness [of _ "\<lambda>j. card E - j" "\<lambda>j. card E - j"]) auto
    also have "\<dots> = (\<Sum>e\<in>E. \<Sum>j\<le>card E. q j * X e ^ (k - card E) * X e ^ j)"
      unfolding power_sums_def sum_distrib_left
      using k by (subst sum.swap) (auto intro!: sum.cong simp: mult.assoc simp flip: power_add)
    also have "\<dots> = (\<Sum>e\<in>E. X e ^ (k - card E) * (\<Prod>a\<in>X ` E. X e - a))"
      by (simp add: q(2) [symmetric] sum_distrib_left mult_ac)
    also have "\<dots> = 0" using assms(1) by (intro sum.neutral) (auto intro!: prod_zero)
    finally show ?thesis .
  qed
  then have "\<forall>n. generates M ?l (card E) (power_sums E X) n"
    using q(1) assms(2) by (simp add: generates_def)
  then show ?thesis by blast
qed

lemma recurrence_roots:
  assumes "finite E" "inj_on X E" "\<And>e. e \<in> E \<Longrightarrow> X e \<noteq> 0"
    and gen: "generates M c L (power_sums E X) (Suc (2 * t))" and "L \<le> card E" "card E \<le> t"
    and e: "e \<in> E"
  shows "(\<Sum>i\<le>L. c i * inverse (X e) ^ i) = 0"
proof (rule power_sums_independent [OF assms(1-3) _ e, where a = "card E"])
  fix k assume k: "card E < k" "k \<le> card E + card E"
  have "0 = conv M c (power_sums E X) k" using gen k assms(5,6) by (simp add: generates_def)
  also have "\<dots> = (\<Sum>i\<le>L. c i * power_sums E X (k - i))"
    unfolding conv_def using gen by (intro sum.mono_neutral_cong_right) (auto simp: generates_def)
  also have "\<dots> = (\<Sum>e\<in>E. \<Sum>i\<le>L. c i * X e ^ (k - i))"
    unfolding power_sums_def sum_distrib_left by (rule sum.swap)
  also have "\<dots> = (\<Sum>e\<in>E. (\<Sum>i\<le>L. c i * inverse (X e) ^ i) * X e ^ k)"
    unfolding sum_distrib_right
    by (intro sum.cong refl) (use assms(3,5) k in \<open>auto simp: power_diff field_simps\<close>)
  finally show "(\<Sum>e\<in>E. (\<Sum>i\<le>L. c i * inverse (X e) ^ i) * X e ^ k) = 0" by simp
qed

lemma recurrence_length:
  assumes "finite E" "inj_on X E" "\<And>e. e \<in> E \<Longrightarrow> X e \<noteq> 0"
    and gen: "generates M c L (power_sums E X) (Suc (2 * t))" and "L \<le> card E" "card E \<le> t"
  shows "L = card E"
    and "x \<noteq> 0 \<Longrightarrow> (\<Sum>i\<le>L. c i * inverse x ^ i) = 0 \<longleftrightarrow> x \<in> X ` E"
proof -
  let ?R = "(\<lambda>e. inverse (X e)) ` E"
  have roots: "(\<Sum>i\<le>L. c i * a ^ i) = 0" if "a \<in> ?R" for a
    using that by (auto intro: recurrence_roots [OF assms])
  have card: "card ?R = card E" using assms(2) by (intro card_image) (auto simp: inj_on_def)
  have one: "(\<Sum>i\<le>L. c i * 0 ^ i) = 1"
  proof -
    have "(\<Sum>i\<le>L. c i * 0 ^ i) = (\<Sum>i\<in>{0}. c i * 0 ^ i)"
      by (rule sum.mono_neutral_right) auto
    then show ?thesis using gen by (simp add: generates_def)
  qed
  show L: "L = card E"
  proof (rule ccontr)
    assume "L \<noteq> card E"
    then have "L < card ?R" using assms(5) unfolding card by linarith
    have "finite ?R" using assms(1) by simp
    from many_roots [OF this \<open>L < card ?R\<close> roots] have "(\<Sum>i\<le>L. c i * 0 ^ i) = 0" .
    with one show False by simp
  qed
  assume x: "x \<noteq> 0"
  show "(\<Sum>i\<le>L. c i * inverse x ^ i) = 0 \<longleftrightarrow> x \<in> X ` E"
  proof
    assume z: "(\<Sum>i\<le>L. c i * inverse x ^ i) = 0"
    show "x \<in> X ` E"
    proof (rule ccontr)
      assume "x \<notin> X ` E"
      then have "inverse x \<notin> ?R" by auto
      then have "L < card (insert (inverse x) ?R)" using assms(1) unfolding L by (simp add: card)
      then have "(\<Sum>i\<le>L. c i * 0 ^ i) = 0"
        by (rule many_roots [rotated]) (use roots z assms(1) in blast)+
      with one show False by simp
    qed
  next
    assume "x \<in> X ` E"
    then show "(\<Sum>i\<le>L. c i * inverse x ^ i) = 0" using roots [of "inverse x"] by auto
  qed
qed

end
