(* ===== verification/BchDecode.thy ===== *)
theory BchDecode
  imports Dvb_Types Gf2m KeyEquation
begin

text \<open>
  The BCH decoder of \<^verbatim>\<open>src/bch_decode.c\<close>: syndromes, the Berlekamp-Massey iteration on the
  25-element work arrays, the Chien search and the correction.  Inside \<open>gf_code\<close> it is shown to undo
  up to 12 bit errors in any word whose syndromes are zero (\<open>decode_corrects\<close>).
\<close>

section \<open>The decoder\<close>

record dvbs2x_bch_decoder =
  dec_t :: nat
  dec_n :: nat
  dec_k :: nat
  dec_parity_len :: nat
  dec_gf_m :: nat

text \<open>The enumeration has no other value, so the error return is never taken.  The context's
  \<^verbatim>\<open>gen_poly\<close> is neither written nor read by the decoder.\<close>

definition dvbs2x_bch_decoder_init :: "dvbs2x_modcod \<Rightarrow> dvbs2x_bch_decoder" where
  "dvbs2x_bch_decoder_init mc =
     \<lparr>dec_t = mc_bch_t mc, dec_n = mc_n_bch mc, dec_k = mc_k_bch mc,
      dec_parity_len = mc_n_bch mc - mc_k_bch mc,
      dec_gf_m = (case mc_frame_type mc of
                    DVBS2X_FRAME_NORMAL \<Rightarrow> 16
                  | DVBS2X_FRAME_MEDIUM \<Rightarrow> 15
                  | DVBS2X_FRAME_SHORT \<Rightarrow> 14)\<rparr>"

definition BM_LEN :: nat where "BM_LEN = 2 * 12 + 1"

definition bch_syndrome :: "gf_tables \<Rightarrow> nat \<Rightarrow> u8 list \<Rightarrow> nat \<Rightarrow> nat" where
  "bch_syndrome gf len codeword i =
     fold (\<lambda>n s. if codeword ! n \<noteq> 0
                 then gf_add s (exp_table gf ! ((i * (len - 1 - n)) mod gf_n gf)) else s)
       [0..<len] 0"

text \<open>Entry 0 of the syndromes is not used.\<close>

definition bch_syndromes :: "gf_tables \<Rightarrow> nat \<Rightarrow> nat \<Rightarrow> u8 list \<Rightarrow> nat list" where
  "bch_syndromes gf t len codeword = 0 # map (bch_syndrome gf len codeword) [1..<2 * t + 1]"

definition bm_shift_b :: "nat \<Rightarrow> nat list \<Rightarrow> nat list" where
  "bm_shift_b t b = (fold (\<lambda>i b. b[i := b ! (i - 1)]) (rev [1..<2 * t + 1]) b)[0 := 0]"

definition bm_step ::
  "gf_tables \<Rightarrow> nat \<Rightarrow> nat list \<Rightarrow> nat \<Rightarrow> nat list \<times> nat list \<times> nat \<Rightarrow> nat list \<times> nat list \<times> nat" where
  "bm_step gf t syndromes n = (\<lambda>(sigma, b, l).
     let d = fold (\<lambda>i d. gf_add d (gf_mul gf (sigma ! i) (syndromes ! (n - i)))) [1..<l + 1] (syndromes ! n)
     in if d = 0 then (sigma, bm_shift_b t b, l)
        else let sigma_new =
                   fold (\<lambda>i sn. if b ! i \<noteq> 0
                               then sn[i + 1 := gf_add (sn ! (i + 1)) (gf_mul gf d (b ! i))] else sn)
                     [0..<2 * t] sigma
             in if 2 * l \<le> n - 1
                then let d_inv = gf_inv gf d;
                         b = fold (\<lambda>i b. b[i := gf_mul gf (sigma ! i) d_inv]) [0..<2 * t + 1] b
                     in (sigma_new, b, n - l)
                else (sigma_new, bm_shift_b t b, l))"

definition berlekamp_massey :: "gf_tables \<Rightarrow> nat \<Rightarrow> nat list \<Rightarrow> nat list \<times> nat list \<times> nat" where
  "berlekamp_massey gf t syndromes =
     fold (bm_step gf t syndromes) [1..<2 * t + 1]
       ((replicate BM_LEN 0)[0 := 1], (replicate BM_LEN 0)[0 := 1], 0)"

definition chien_eval :: "gf_tables \<Rightarrow> nat list \<Rightarrow> nat \<Rightarrow> nat \<Rightarrow> nat" where
  "chien_eval gf sigma num_errors i =
     fold (\<lambda>k eval. if sigma ! k \<noteq> 0
                    then gf_add eval (exp_table gf ! ((nat (log_table gf ! (sigma ! k)) + k * i) mod gf_n gf))
                    else eval) [1..<num_errors + 1] (sigma ! 0)"

text \<open>The search loop over the remaining exponents, with its \<^verbatim>\<open>continue\<close> and its \<^verbatim>\<open>break\<close>.\<close>

fun chien_search :: "gf_tables \<Rightarrow> nat \<Rightarrow> nat list \<Rightarrow> nat \<Rightarrow> nat list \<Rightarrow> nat list \<Rightarrow> nat list" where
  "chien_search gf len sigma num_errors [] error_locs = error_locs"
| "chien_search gf len sigma num_errors (i # is) error_locs =
     (if chien_eval gf sigma num_errors i = 0
      then let poly_pos = (gf_n gf - i) mod gf_n gf
           in if len \<le> poly_pos then chien_search gf len sigma num_errors is error_locs
              else let error_locs = error_locs @ [len - 1 - poly_pos]
                   in if num_errors \<le> length error_locs then error_locs
                      else chien_search gf len sigma num_errors is error_locs
      else chien_search gf len sigma num_errors is error_locs)"

definition dvbs2x_bch_decode :: "dvbs2x_bch_decoder \<Rightarrow> u8 list \<Rightarrow> int \<times> u8 list" where
  "dvbs2x_bch_decode dec codeword =
     (let gf = gf_init (dec_gf_m dec);
          syndromes = bch_syndromes gf (dec_t dec) (dec_n dec) codeword
      in if \<forall>i \<in> set [1..<2 * dec_t dec + 1]. syndromes ! i = 0 then (0, codeword)
         else let (sigma, b, num_errors) = berlekamp_massey gf (dec_t dec) syndromes
              in if dec_t dec < num_errors then (-1, codeword)
                 else let error_locs = chien_search gf (dec_n dec) sigma num_errors [0..<gf_n gf] []
                      in if length error_locs \<noteq> num_errors then (-1, codeword)
                         else (int num_errors,
                               fold (\<lambda>loc cw. cw[loc := cw ! loc XOR 1]) error_locs codeword))"

section \<open>The loops over the work arrays\<close>

lemma length_fold_update [simp]: "length (fold (\<lambda>i b. b[f i b := g i b]) is b) = length b"
  by (induction "is" arbitrary: b) simp_all

lemma fold_shift_nth:
  "K < length b \<Longrightarrow> i < length b \<Longrightarrow>
   fold (\<lambda>i b. b[i := b ! (i - 1)]) (rev [1..<K + 1]) b ! i = (if 1 \<le> i \<and> i \<le> K then b ! (i - 1) else b ! i)"
proof (induction K arbitrary: b)
  case (Suc K)
  then show ?case by (auto simp: nth_list_update le_Suc_eq)
qed simp

lemma length_bm_shift_b [simp]: "length (bm_shift_b t b) = length b"
  by (simp add: bm_shift_b_def)

lemma bm_shift_b_nth:
  "2 * t < length b \<Longrightarrow> i \<le> 2 * t \<Longrightarrow> bm_shift_b t b ! i = (if i = 0 then 0 else b ! (i - 1))"
proof -
  assume less: "2 * t < length b" "i \<le> 2 * t"
  let ?f = "fold (\<lambda>i b. b[i := b ! (i - 1)]) (rev [1..<2 * t + 1]) b"
  have "length ?f = length b" by (rule length_fold_update)
  moreover have "?f ! i = (if 1 \<le> i \<and> i \<le> 2 * t then b ! (i - 1) else b ! i)"
    using less by (intro fold_shift_nth) simp_all
  ultimately show ?thesis
    unfolding bm_shift_b_def using less nth_list_update_eq [of 0 ?f 0]
    by (cases "i = 0") (simp_all del: upt_Suc length_greater_0_conv)
qed

lemma length_sigma_update:
  "length (fold (\<lambda>i sn. if b ! i \<noteq> 0 then sn[i + 1 := gf_add (sn ! (i + 1)) (gf_mul gf d (b ! i))] else sn) is s) =
     length s"
  by (induction "is" arbitrary: s) simp_all

lemma sigma_update_nth:
  "K < length s \<Longrightarrow> j < length s \<Longrightarrow>
   fold (\<lambda>i sn. if b ! i \<noteq> 0 then sn[i + 1 := gf_add (sn ! (i + 1)) (gf_mul gf d (b ! i))] else sn) [0..<K] s ! j =
     (if 1 \<le> j \<and> j \<le> K then gf_add (s ! j) (gf_mul gf d (b ! (j - 1))) else s ! j)"
proof (induction K)
  case (Suc K)
  define F where
    "F = fold (\<lambda>i sn. if b ! i \<noteq> 0 then sn[i + 1 := gf_add (sn ! (i + 1)) (gf_mul gf d (b ! i))] else sn) [0..<K] s"
  have len: "length F = length s" unfolding F_def by (rule length_sigma_update)
  have ih: "F ! j = (if 1 \<le> j \<and> j \<le> K then gf_add (s ! j) (gf_mul gf d (b ! (j - 1))) else s ! j)"
    using Suc unfolding F_def by simp
  have "fold (\<lambda>i sn. if b ! i \<noteq> 0 then sn[i + 1 := gf_add (sn ! (i + 1)) (gf_mul gf d (b ! i))] else sn) [0..<Suc K] s
    = (if b ! K \<noteq> 0 then F[K + 1 := gf_add (F ! (K + 1)) (gf_mul gf d (b ! K))] else F)"
    by (simp add: F_def)
  then show ?case
    using ih len Suc.prems by (cases "j = Suc K") (auto simp: le_Suc_eq gf_mul_def gf_add_def)
qed simp

lemma fold_assign_nth:
  "K \<le> length b \<Longrightarrow> j < K \<Longrightarrow> fold (\<lambda>i b. b[i := f i]) [0..<K] b ! j = f j"
proof (induction K)
  case (Suc K)
  then show ?case by (auto simp: nth_list_update less_Suc_eq)
qed simp

lemma flip_fold:
  "distinct locs \<Longrightarrow> (\<And>l. l \<in> set locs \<Longrightarrow> l < length cw) \<Longrightarrow>
   length (fold (\<lambda>loc cw. cw[loc := cw ! loc XOR 1]) locs cw) = length cw \<and>
   (\<forall>n < length cw. fold (\<lambda>loc cw. cw[loc := cw ! loc XOR 1]) locs cw ! n =
     (if n \<in> set locs then cw ! n XOR (1 :: u8) else cw ! n))"
proof (induction locs arbitrary: cw)
  case (Cons l locs)
  then show ?case by (simp add: nth_list_update)
qed simp

lemma chien_search_hits:
  "chien_search gf len sigma num is locs =
    take (max num (Suc (length locs))) (locs @ map (\<lambda>i. len - 1 - (gf_n gf - i) mod gf_n gf)
      (filter (\<lambda>i. chien_eval gf sigma num i = 0 \<and> (gf_n gf - i) mod gf_n gf < len) is))"
proof (induction "is" arbitrary: locs)
  case (Cons i "is")
  then show ?case
    by (cases "num \<le> Suc (length locs)") (auto simp: Let_def not_le not_less take_Cons' max_def le_Suc_eq)
qed simp

text \<open>A word with the bits at the positions of \<open>E\<close> inverted.\<close>

definition flip_bits :: "nat set \<Rightarrow> u8 list \<Rightarrow> u8 list" where
  "flip_bits E cw = map (\<lambda>n. if n \<in> E then cw ! n XOR 1 else cw ! n) [0..<length cw]"

lemma length_flip_bits [simp]: "length (flip_bits E cw) = length cw"
  by (simp add: flip_bits_def)

lemma flip_bits_nth: "n < length cw \<Longrightarrow> flip_bits E cw ! n = (if n \<in> E then cw ! n XOR 1 else cw ! n)"
  by (simp add: flip_bits_def)

section \<open>The decoder in the field\<close>

context gf_code
begin

definition arr :: "nat list \<Rightarrow> nat \<Rightarrow> 'f" where
  "arr xs i = (if i < length xs then \<phi> (xs ! i) else 0)"

abbreviation elems :: "nat list \<Rightarrow> bool" where
  "elems xs \<equiv> \<forall>i < length xs. elem (xs ! i)"

lemma elem_0: "elem 0"
  by simp

lemma gf_add_elem: "elem a \<Longrightarrow> elem b \<Longrightarrow> elem (gf_add a b)"
  unfolding gf_add_def by (rule xor_less_exp)

lemma fold_add:
  assumes "elem a" "\<And>x. x \<in> set xs \<Longrightarrow> P x \<Longrightarrow> elem (f x)"
  shows "elem (fold (\<lambda>x s. if P x then gf_add s (f x) else s) xs a) \<and>
    \<phi> (fold (\<lambda>x s. if P x then gf_add s (f x) else s) xs a) =
      \<phi> a + (\<Sum>x\<leftarrow>xs. if P x then \<phi> (f x) else 0)"
  using assms by (induction xs arbitrary: a) (simp_all add: gf_add_elem phi_add add.assoc)

lemma syndrome_value:
  "elem (bch_syndrome (gf_init m) len cw i)"
  "\<phi> (bch_syndrome (gf_init m) len cw i) = (\<Sum>n<len. if cw ! n \<noteq> 0 then (\<alpha> ^ (len - 1 - n)) ^ i else 0)"
proof -
  note v = fold_add [OF elem_0, of "[0..<len]" "\<lambda>n. cw ! n \<noteq> 0"
      "\<lambda>n. exp_table (gf_init m) ! ((i * (len - 1 - n)) mod order)", OF exp_entry_elem]
  show "elem (bch_syndrome (gf_init m) len cw i)"
    using v by (simp only: bch_syndrome_def gf_init_tables(2))
  have pw: "(\<alpha> ^ k) ^ i = \<alpha> ^ (i * k)" for k by (simp only: power_mult [symmetric] mult.commute)
  have "\<phi> (bch_syndrome (gf_init m) len cw i) =
      (\<Sum>n\<leftarrow>[0..<len]. if cw ! n \<noteq> 0 then \<alpha> ^ (i * (len - 1 - n)) else 0)"
    using v by (simp only: bch_syndrome_def gf_init_tables(2) phi_0 add_0 exp_entry)
  then show "\<phi> (bch_syndrome (gf_init m) len cw i) =
      (\<Sum>n<len. if cw ! n \<noteq> 0 then (\<alpha> ^ (len - 1 - n)) ^ i else 0)"
    by (simp only: pw interv_sum_list_conv_sum_set_nat atLeast0LessThan set_upt)
qed

lemma discrepancy_value:
  assumes "elems s" "length s = BM_LEN" "\<And>k. 1 \<le> k \<Longrightarrow> k \<le> 24 \<Longrightarrow> elem (syn ! k) \<and> \<phi> (syn ! k) = S k"
    and gen: "generates BM_LEN (arr s) l S n" and "l < n" "n \<le> 24"
    and d: "d = fold (\<lambda>i d. gf_add d (gf_mul (gf_init m) (s ! i) (syn ! (n - i)))) [1..<l + 1] (syn ! n)"
  shows "elem d" "\<phi> d = conv BM_LEN (arr s) S n"
proof -
  have el: "elem (gf_mul (gf_init m) (s ! i) (syn ! (n - i)))" if "i \<in> set [1..<l + 1]" for i
    using that assms(1-3,5,6) by (intro gf_mul_elem) (auto simp: BM_LEN_def)
  note v = fold_add [of "syn ! n" "[1..<l + 1]" "\<lambda>_. True" "\<lambda>i. gf_mul (gf_init m) (s ! i) (syn ! (n - i))",
      unfolded if_True, OF _ el]
  have n: "elem (syn ! n)" "\<phi> (syn ! n) = S n" using assms(3) [of n] assms(5,6) by auto
  show "elem d" using v [OF n(1)] unfolding d by (rule conjunct1)
  have "\<phi> d = S n + (\<Sum>i\<leftarrow>[1..<l + 1]. \<phi> (gf_mul (gf_init m) (s ! i) (syn ! (n - i))))"
    using v [OF n(1)] unfolding d n(2) by (rule conjunct2)
  also have "(\<Sum>i\<leftarrow>[1..<l + 1]. \<phi> (gf_mul (gf_init m) (s ! i) (syn ! (n - i)))) =
      (\<Sum>i\<in>{1..<l + 1}. arr s i * S (n - i))"
    unfolding interv_sum_list_conv_sum_set_nat set_upt
    using assms(1-3,5,6) by (intro sum.cong refl) (auto simp: arr_def BM_LEN_def phi_mul)
  also have "S n + \<dots> = (\<Sum>i\<in>insert 0 {1..<l + 1}. arr s i * S (n - i))"
    using gen by (simp add: generates_def)
  also have "\<dots> = conv BM_LEN (arr s) S n"
    unfolding conv_def using gen by (intro sum.mono_neutral_left) (auto simp: generates_def)
  finally show "\<phi> d = conv BM_LEN (arr s) S n" .
qed

text \<open>The array contents that the two ways of updating \<open>b\<close> and the update of \<open>sigma\<close> leave.\<close>

lemma arr_shift:
  assumes "elems b" "length b = BM_LEN"
  shows "elems (bm_shift_b 12 b)" "i \<le> 24 \<Longrightarrow> arr (bm_shift_b 12 b) i = up1 (arr b) i"
    "24 < i \<Longrightarrow> arr (bm_shift_b 12 b) i = 0"
  using assms by (auto simp: arr_def up1_def BM_LEN_def bm_shift_b_nth)

lemma arr_sigma_new:
  assumes s: "elems s" "length s = BM_LEN" and b: "elems b" "length b = BM_LEN" "arr b 24 = 0" and d: "elem d"
    and s': "s' = fold (\<lambda>i sn. if b ! i \<noteq> 0 then sn[i + 1 := gf_add (sn ! (i + 1)) (gf_mul (gf_init m) d (b ! i))]
                                else sn) [0..<2 * 12] s"
  shows "elems s'" "length s' = BM_LEN" "arr s' = (\<lambda>i. arr s i - \<phi> d * up1 (arr b) i)"
proof -
  have len: "length s' = BM_LEN" unfolding s' by (simp only: length_sigma_update s(2))
  have nth: "\<And>j. j < BM_LEN \<Longrightarrow> s' ! j = (if 1 \<le> j \<and> j \<le> 24
      then gf_add (s ! j) (gf_mul (gf_init m) d (b ! (j - 1))) else s ! j)"
    using sigma_update_nth [of "2 * 12" s _ b "gf_init m" d] s(2) unfolding s' BM_LEN_def by simp
  show "length s' = BM_LEN" by fact
  have mul: "elem (gf_mul (gf_init m) d (b ! (j - 1)))" if "1 \<le> j" "j \<le> 24" for j
    using that b(1,2) d by (intro gf_mul_elem) (auto simp: BM_LEN_def)
  then show "elems s'"
    using s by (auto simp: len nth gf_add_elem)
  show "arr s' = (\<lambda>i. arr s i - \<phi> d * up1 (arr b) i)"
  proof
    fix i
    show "arr s' i = arr s i - \<phi> d * up1 (arr b) i"
    proof (cases "i < BM_LEN")
      case True
      then show ?thesis
        using s b d mul [of i]
        by (cases "i = 0") (auto simp: arr_def up1_def len nth BM_LEN_def phi_add phi_mul minus_is_plus)
    next
      case False
      then show ?thesis
        using b(3) by (cases "i = 25") (auto simp: arr_def up1_def len s(2) b(2) BM_LEN_def)
    qed
  qed
qed

definition bm_ok :: "(nat \<Rightarrow> 'f) \<Rightarrow> nat \<Rightarrow> nat list \<times> nat list \<times> nat \<Rightarrow> bool" where
  "bm_ok S n = (\<lambda>(s, b, l). length s = BM_LEN \<and> elems s \<and> length b = BM_LEN \<and> elems b \<and>
     bm_inv BM_LEN S n (arr s) (arr b) l)"

lemma bm_step_ok:
  assumes ok: "bm_ok S n (s, b, l)" and n: "n \<le> 24"
    and syn: "\<And>k. 1 \<le> k \<Longrightarrow> k \<le> 24 \<Longrightarrow> elem (syn ! k) \<and> \<phi> (syn ! k) = S k"
    and step: "bm_step (gf_init m) 12 syn n (s, b, l) = (s', b', l')"
  shows "bm_ok S (Suc n) (s', b', l')" "l' = l \<or> conv BM_LEN (arr s) S n \<noteq> 0 \<and> l' = n - l"
proof -
  have s: "elems s" "length s = BM_LEN" and b: "elems b" "length b = BM_LEN"
    and inv: "bm_inv BM_LEN S n (arr s) (arr b) l" using ok by (auto simp: bm_ok_def)
  note inv' = inv [unfolded bm_inv_def]
  have gen: "generates BM_LEN (arr s) l S n" and l: "l < n" using inv' by blast+
  have M: "BM_LEN = Suc 24" by (simp add: BM_LEN_def)
  have b24: "arr b 24 = 0"
  proof -
    have "up1 (arr b) 25 = 0" using inv' n by simp
    then show ?thesis by (simp add: up1_def)
  qed
  define d where "d = fold (\<lambda>i d. gf_add d (gf_mul (gf_init m) (s ! i) (syn ! (n - i)))) [1..<l + 1] (syn ! n)"
  have d: "elem d" "\<phi> d = conv BM_LEN (arr s) S n"
    using discrepancy_value [OF s _ gen l n d_def] syn by blast+
  define sn where "sn = fold (\<lambda>i sn. if b ! i \<noteq> 0
    then sn[i + 1 := gf_add (sn ! (i + 1)) (gf_mul (gf_init m) d (b ! i))] else sn) [0..<2 * 12] s"
  note sn = arr_sigma_new [OF s b b24 d(1) sn_def]
  define bn where "bn = fold (\<lambda>i b. b[i := gf_mul (gf_init m) (s ! i) (gf_inv (gf_init m) d)]) [0..<2 * 12 + 1] b"
  have shift: "length (bm_shift_b 12 b) = BM_LEN" using b(2) by simp
  note arr_b = arr_shift [OF b]
  have step': "(s', b', l') = (if d = 0 then (s, bm_shift_b 12 b, l)
      else if 2 * l \<le> n - 1 then (sn, bn, n - l) else (sn, bm_shift_b 12 b, l))"
    using step unfolding bm_step_def prod.case Let_def d_def [symmetric] sn_def [symmetric] bn_def [symmetric]
    by (auto split: if_splits)
  consider (agree) "d = 0" | (longer) "d \<noteq> 0" "2 * l \<le> n - 1" | (same) "d \<noteq> 0" "\<not> 2 * l \<le> n - 1" by blast
  then have "bm_ok S (Suc n) (s', b', l') \<and> (l' = l \<or> conv BM_LEN (arr s) S n \<noteq> 0 \<and> l' = n - l)"
  proof cases
    case agree
    then have "generates BM_LEN (arr s) l S (Suc n)" using d(2) by (intro bm_agree [OF inv]) simp
    then have "bm_inv BM_LEN S (Suc n) (arr s) (arr (bm_shift_b 12 b)) l"
      using bm_shift [OF inv [unfolded M] n _ arr_b(2,3)] unfolding M by blast
    then show ?thesis using step' agree s shift arr_b(1) by (simp add: bm_ok_def)
  next
    case same
    have "n \<le> l + l" using same(2) l by arith
    from bm_correct_gen [OF inv [unfolded M] n d(2) [unfolded M] order_refl this less_imp_le [OF l]]
    have "generates BM_LEN (arr sn) l S (Suc n)" unfolding sn(3) M .
    then have "bm_inv BM_LEN S (Suc n) (arr sn) (arr (bm_shift_b 12 b)) l"
      using bm_shift [OF inv [unfolded M] n _ arr_b(2,3)] unfolding M by blast
    then show ?thesis using step' same sn(1,2) shift arr_b(1) by (simp add: bm_ok_def)
  next
    case longer
    have len: "length bn = BM_LEN" unfolding bn_def using b(2) by (simp only: length_fold_update)
    have nth: "bn ! i = gf_mul (gf_init m) (s ! i) (gf_inv (gf_init m) d)" if "i < BM_LEN" for i
      unfolding bn_def using that b(2) by (intro fold_assign_nth) (simp_all add: BM_LEN_def)
    have el: "elems bn" using s d(1) by (auto simp: len nth intro!: gf_mul_elem gf_inv_elem)
    have arr: "arr bn i = arr s i * inverse (\<phi> d)" for i
      using s d(1) by (auto simp: arr_def len nth phi_mul phi_inv gf_inv_elem)
    have "\<phi> d \<noteq> 0" using longer(1) d(1) by (simp add: phi_eq_0_iff)
    then have "bm_inv BM_LEN S (Suc n) (arr sn) (arr bn) (n - l)"
      unfolding sn(3) M using longer(2) l by (intro bm_lengthen [OF inv [unfolded M] n d(2) [unfolded M] _ _ arr]) auto
    then show ?thesis
      using step' longer sn(1,2) len el \<open>\<phi> d \<noteq> 0\<close> d(2) by (simp add: bm_ok_def)
  qed
  then show "bm_ok S (Suc n) (s', b', l')" "l' = l \<or> conv BM_LEN (arr s) S n \<noteq> 0 \<and> l' = n - l" by blast+
qed

lemma bm_loop:
  assumes syn: "\<And>k. 1 \<le> k \<Longrightarrow> k \<le> 24 \<Longrightarrow> elem (syn ! k) \<and> \<phi> (syn ! k) = S k"
    and n: "n \<le> 24"
  shows "bm_ok S (Suc n) (fold (bm_step (gf_init m) 12 syn) [1..<n + 1]
      ((replicate BM_LEN 0)[0 := 1], (replicate BM_LEN 0)[0 := 1], 0)) \<and>
    ((\<forall>k. generates BM_LEN e v S k) \<longrightarrow> snd (snd (fold (bm_step (gf_init m) 12 syn) [1..<n + 1]
      ((replicate BM_LEN 0)[0 := 1], (replicate BM_LEN 0)[0 := 1], 0))) \<le> v)"
  using n
proof (induction n)
  case 0
  have "arr ((replicate BM_LEN 0)[0 := 1]) = (\<lambda>i. if i = 0 then 1 else 0)"
    by (rule ext) (auto simp: arr_def BM_LEN_def nth_list_update)
  then show ?case
    using bm_inv_start [of BM_LEN S] elem_1 by (auto simp: bm_ok_def nth_list_update BM_LEN_def)
next
  case (Suc n)
  obtain s b l where st: "fold (bm_step (gf_init m) 12 syn) [1..<n + 1]
      ((replicate BM_LEN 0)[0 := 1], (replicate BM_LEN 0)[0 := 1], 0) = (s, b, l)"
    by (rule prod_cases3)
  obtain s' b' l' where st': "bm_step (gf_init m) 12 syn (Suc n) (s, b, l) = (s', b', l')"
    by (rule prod_cases3)
  have ok: "bm_ok S (Suc n) (s, b, l)" and le: "(\<forall>k. generates BM_LEN e v S k) \<Longrightarrow> l \<le> v"
    using Suc.IH [OF Suc_leD [OF Suc.prems]] unfolding st by auto
  note step = bm_step_ok [OF ok Suc.prems syn st']
  have "l' \<le> v" if "\<forall>k. generates BM_LEN e v S k"
  proof -
    have "generates BM_LEN (arr s) l S (Suc n)" using ok by (simp add: bm_ok_def bm_inv_def)
    then show ?thesis using step(2) le [OF that] length_bound [of BM_LEN "arr s" l S "Suc n" e v] that by auto
  qed
  moreover have "fold (bm_step (gf_init m) 12 syn) [1..<Suc n + 1]
      ((replicate BM_LEN 0)[0 := 1], (replicate BM_LEN 0)[0 := 1], 0) = (s', b', l')"
  proof -
    have "[1..<Suc n + 1] = [1..<n + 1] @ [Suc n]" by simp
    then show ?thesis by (simp only: fold_append st fold_simps comp_def st')
  qed
  ultimately show ?case using step(1) by simp
qed

section \<open>Errors are corrected\<close>

lemma alpha_log:
  assumes "elem a" "a \<noteq> 0"
  shows "\<alpha> ^ nat (log_table (gf_init m) ! a) = \<phi> a"
proof -
  obtain j where j: "j < order" "a = X j 1" by (rule elem_power [OF assms])
  show ?thesis unfolding j(2) gf_init_tables(4) [OF j(1)] nat_int phi_X ..
qed

lemma chien_eval_value:
  assumes "elems s" "length s = BM_LEN" "num \<le> 24"
  shows "chien_eval (gf_init m) s num i = 0 \<longleftrightarrow> (\<Sum>k\<le>num. arr s k * (\<alpha> ^ i) ^ k) = 0"
proof -
  have "elem (s ! 0)" "\<phi> (s ! 0) = arr s 0" using assms(1,2) by (simp_all add: BM_LEN_def arr_def)
  note v = fold_add [OF this(1), of "[1..<num + 1]" "\<lambda>k. s ! k \<noteq> 0"
      "\<lambda>k. exp_table (gf_init m) ! ((nat (log_table (gf_init m) ! (s ! k)) + k * i) mod order)",
      OF exp_entry_elem, folded gf_init_tables(2), folded chien_eval_def, unfolded this(2)]
  have "\<phi> (chien_eval (gf_init m) s num i) = arr s 0 + (\<Sum>k\<leftarrow>[1..<num + 1]. if s ! k \<noteq> 0
    then \<phi> (exp_table (gf_init m) ! ((nat (log_table (gf_init m) ! (s ! k)) + k * i) mod gf_n (gf_init m))) else 0)"
    using v by (rule conjunct2)
  also have "(\<Sum>k\<leftarrow>[1..<num + 1]. if s ! k \<noteq> 0
    then \<phi> (exp_table (gf_init m) ! ((nat (log_table (gf_init m) ! (s ! k)) + k * i) mod gf_n (gf_init m))) else 0)
    = (\<Sum>k\<in>{1..num}. arr s k * (\<alpha> ^ i) ^ k)"
    unfolding interv_sum_list_conv_sum_set_nat set_upt gf_init_tables(2) exp_entry power_add
    using assms
    by (intro sum.cong) (auto simp: arr_def BM_LEN_def alpha_log power_mult [symmetric] mult.commute)
  also have "arr s 0 + \<dots> = (\<Sum>k\<le>num. arr s k * (\<alpha> ^ i) ^ k)"
    by (simp add: atMost_atLeast0 sum.atLeast_Suc_atMost)
  finally show ?thesis using v by (metis phi_eq_0_iff)
qed

text \<open>\<open>position i\<close> is the exponent that the search takes for a root at \<open>i\<close>.\<close>

abbreviation position :: "nat \<Rightarrow> nat" where "position i \<equiv> (order - i) mod order"

lemma position_less: "position i < order"
  using order_bounds(1) by simp

lemma position_position: "i < order \<Longrightarrow> position (position i) = i"
  by (cases "i = 0") simp_all

lemma alpha_position: "i < order \<Longrightarrow> \<alpha> ^ position i = inverse (\<alpha> ^ i)"
proof -
  assume "i < order"
  then have "\<alpha> ^ (order - i) * \<alpha> ^ i = 1" using alpha_order by (simp flip: power_add)
  then show ?thesis unfolding alpha_power_mod
    by (metis inverse_unique mult.commute)
qed

text \<open>Whatever the polynomial, the search returns distinct positions of the word.\<close>

lemma position_inj:
  "inj_on (\<lambda>i. len - 1 - position i) {i. i < order \<and> position i < len}"
proof (rule inj_onI)
  fix i j assume "i \<in> {i. i < order \<and> position i < len}" "j \<in> {i. i < order \<and> position i < len}"
    and eq: "len - 1 - position i = len - 1 - position j"
  then have ij: "i < order" "j < order" "position i < len" "position j < len" by blast+
  with eq have "position i = position j" by linarith
  with ij(1,2) show "i = j" using position_position by metis
qed

lemma chien_search_distinct:
  "distinct (chien_search (gf_init m) len s num [0..<order] [])"
  "l \<in> set (chien_search (gf_init m) len s num [0..<order] []) \<Longrightarrow> l < len"
proof -
  let ?hits = "map (\<lambda>i. len - 1 - position i)
    (filter (\<lambda>i. chien_eval (gf_init m) s num i = 0 \<and> position i < len) [0..<order])"
  have eq: "chien_search (gf_init m) len s num [0..<order] [] = take (max num 1) ?hits"
    unfolding chien_search_hits gf_init_tables(2) by simp
  have "inj_on (\<lambda>i. len - 1 - position i)
      (set (filter (\<lambda>i. chien_eval (gf_init m) s num i = 0 \<and> position i < len) [0..<order]))"
    by (rule inj_on_subset [OF position_inj]) auto
  then have "distinct ?hits" unfolding distinct_map by (simp only: distinct_filter distinct_upt simp_thms)
  then show "distinct (chien_search (gf_init m) len s num [0..<order] [])"
    unfolding eq by (rule distinct_take)
  assume "l \<in> set (chien_search (gf_init m) len s num [0..<order] [])"
  then have "l \<in> set ?hits" unfolding eq by (rule in_set_takeD)
  then obtain i where "position i < len" "l = len - 1 - position i" by auto
  then show "l < len" by linarith
qed

lemma flipped_syndrome:
  assumes "length cw = len" "E \<subseteq> {..<len}" "\<forall>x \<in> set cw. x = 0 \<or> x = 1"
    "bch_syndrome (gf_init m) len cw k = 0"
  shows "\<phi> (bch_syndrome (gf_init m) len (flip_bits E cw) k) = power_sums E (\<lambda>e. \<alpha> ^ (len - 1 - e)) k"
proof -
  let ?a = "\<lambda>n. (\<alpha> ^ (len - 1 - n)) ^ k"
  have "(if flip_bits E cw ! n \<noteq> 0 then ?a n else 0) =
      (if cw ! n \<noteq> 0 then ?a n else 0) + (if n \<in> E then ?a n else 0)" if "n < len" for n
  proof -
    have "cw ! n = 0 \<or> cw ! n = 1" using assms(1,3) that by auto
    then show ?thesis using that assms(1) by (auto simp: flip_bits_nth char_2)
  qed
  then have "\<phi> (bch_syndrome (gf_init m) len (flip_bits E cw) k) =
      (\<Sum>n<len. (if cw ! n \<noteq> 0 then ?a n else 0) + (if n \<in> E then ?a n else 0))"
    unfolding syndrome_value(2) by (intro sum.cong) auto
  also have "\<dots> = (\<Sum>n<len. if n \<in> E then ?a n else 0)"
  proof -
    have z: "(\<Sum>n<len. if cw ! n \<noteq> 0 then ?a n else 0) = 0"
      using syndrome_value(2) [of len cw k] unfolding assms(4) phi_0 by (rule sym)
    show ?thesis unfolding sum.distrib z by (rule add_0)
  qed
  also have "\<dots> = (\<Sum>n\<in>{..<len} \<inter> E. ?a n)" by (rule sum.inter_restrict [symmetric]) simp
  also have "{..<len} \<inter> E = E" using assms(2) by blast
  finally show ?thesis by (simp add: power_sums_def)
qed

lemma chien_locations:
  assumes s: "elems s" "length s = BM_LEN" and len: "len \<le> order"
    and E: "E \<subseteq> {..<len}" "E \<noteq> {}" "card E \<le> 12"
    and gen: "generates BM_LEN (arr s) l (power_sums E (\<lambda>e. \<alpha> ^ (len - 1 - e))) 25" and l: "l \<le> card E"
  shows "l = card E" "distinct (chien_search (gf_init m) len s l [0..<order] [])"
    "set (chien_search (gf_init m) len s l [0..<order] []) = E"
proof -
  let ?X = "\<lambda>e. \<alpha> ^ (len - 1 - e)"
  have fin: "finite E" using E(1) finite_subset by blast
  have inj: "inj_on ?X E"
  proof (rule inj_onI)
    fix e f assume "e \<in> E" "f \<in> E" "?X e = ?X f"
    moreover from this have "len - 1 - e = len - 1 - f"
      using len E(1) by (intro alpha_distinct) force+
    moreover have "e < len" "f < len" using E(1) \<open>e \<in> E\<close> \<open>f \<in> E\<close> by auto
    ultimately show "e = f" by linarith
  qed
  have nz: "?X e \<noteq> 0" for e using alpha_nonzero by simp
  have gen': "generates BM_LEN (arr s) l (power_sums E ?X) (Suc (2 * 12))" using gen by simp
  note roots = recurrence_length [OF fin inj nz gen' l E(3)]
  show "l = card E" by (rule roots(1))
  have "0 < l" using roots(1) E(2) fin by (simp add: card_gt_0_iff)
  let ?P = "\<lambda>i. chien_eval (gf_init m) s l i = 0 \<and> position i < len"
  let ?hits = "map (\<lambda>i. len - 1 - position i) (filter ?P [0..<order])"
  have hit: "?P i \<longleftrightarrow> position i < len \<and> len - 1 - position i \<in> E" if i: "i < order" for i
  proof -
    have "chien_eval (gf_init m) s l i = 0 \<longleftrightarrow> \<alpha> ^ position i \<in> ?X ` E"
    proof -
      have inv: "inverse (\<alpha> ^ position i) = \<alpha> ^ i" by (simp only: alpha_position [OF i] inverse_inverse_eq)
      have "\<alpha> ^ position i \<noteq> 0" by (rule power_not_zero [OF alpha_nonzero])
      from roots(2) [OF this] show ?thesis
        using chien_eval_value [OF s, of l i] l E(3) unfolding inv by (simp only: order_trans)
    qed
    also have "\<dots> \<longleftrightarrow> (\<exists>e\<in>E. position i = len - 1 - e)"
    proof
      assume "\<alpha> ^ position i \<in> ?X ` E"
      then obtain e where "e \<in> E" "\<alpha> ^ position i = ?X e" by auto
      moreover from this have "position i = len - 1 - e"
        using len E(1) position_less by (intro alpha_distinct) auto
      ultimately show "\<exists>e\<in>E. position i = len - 1 - e" by blast
    qed auto
    finally show ?thesis using E(1) by force
  qed
  have set: "set ?hits = E"
  proof (intro equalityI subsetI)
    fix e assume "e \<in> set ?hits"
    then show "e \<in> E" using hit by auto
  next
    fix e assume e: "e \<in> E"
    have less: "e < len" "len - 1 - e < order" using e E(1) len by force+
    obtain i where i: "i < order" "position i = len - 1 - e"
      using position_position [OF less(2)] position_less by blast
    have undo: "len - 1 - (len - 1 - e) = e" using less(1) by arith
    have "position i < len \<and> len - 1 - position i \<in> E" unfolding i(2) undo using e less(1) by simp
    then have "?P i" by (rule iffD2 [OF hit [OF i(1)]])
    then have "i \<in> set (filter ?P [0..<order])" using i(1) by simp
    then have "len - 1 - position i \<in> set ?hits" unfolding set_map by (rule imageI)
    then show "e \<in> set ?hits" unfolding i(2) undo .
  qed
  have dist: "distinct ?hits"
  proof -
    have "inj_on (\<lambda>i. len - 1 - position i) (set (filter ?P [0..<order]))"
      by (rule inj_on_subset [OF position_inj]) auto
    then show ?thesis unfolding distinct_map by (simp only: distinct_filter distinct_upt simp_thms)
  qed
  have "chien_search (gf_init m) len s l [0..<order] [] = take l ?hits"
  proof -
    have "max l (Suc (length ([] :: nat list))) = l" using \<open>0 < l\<close> by simp
    then show ?thesis by (simp only: chien_search_hits gf_init_tables(2) append_Nil)
  qed
  also have "length ?hits = l" using distinct_card [OF dist] set roots(1) by simp
  then have "take l ?hits = ?hits" by simp
  finally have eq: "chien_search (gf_init m) len s l [0..<order] [] = ?hits" .
  show "distinct (chien_search (gf_init m) len s l [0..<order] [])" unfolding eq by (rule dist)
  show "set (chien_search (gf_init m) len s l [0..<order] []) = E" unfolding eq by (rule set)
qed

theorem decode_corrects:
  assumes dec: "dec_t dec = 12" "dec_n dec = len" "dec_gf_m dec = m" and len: "len \<le> order"
    and cw: "length cw = len" "\<forall>x \<in> set cw. x = 0 \<or> x = 1"
      "\<And>k. 1 \<le> k \<Longrightarrow> k \<le> 24 \<Longrightarrow> bch_syndrome (gf_init m) len cw k = 0"
    and E: "E \<subseteq> {..<len}" "card E \<le> 12"
  shows "dvbs2x_bch_decode dec (flip_bits E cw) = (int (card E), cw)"
proof -
  let ?X = "\<lambda>e. \<alpha> ^ (len - 1 - e)" and ?rec = "flip_bits E cw"
  define syn where "syn = bch_syndromes (gf_init m) 12 len ?rec"
  have fin: "finite E" using E(1) finite_subset by blast
  have syn: "elem (syn ! k) \<and> \<phi> (syn ! k) = power_sums E ?X k" if "1 \<le> k" "k \<le> 24" for k
  proof -
    have "syn ! k = bch_syndrome (gf_init m) len ?rec k"
      using that by (simp add: syn_def bch_syndromes_def nth_Cons' del: upt_Suc)
    then show ?thesis
      using flipped_syndrome [OF cw(1) E(1) cw(2) cw(3) [OF that]] syndrome_value(1) by simp
  qed
  show ?thesis
  proof (cases "E = {}")
    case True
    have "flip_bits {} cw = cw" by (rule nth_equalityI) (simp_all add: flip_bits_nth)
    moreover have "\<forall>k \<in> set [1..<2 * 12 + 1]. syn ! k = 0"
    proof
      fix k :: nat assume "k \<in> set [1..<2 * 12 + 1]"
      then have "1 \<le> k" "k \<le> 24" by auto
      then have "elem (syn ! k)" "\<phi> (syn ! k) = 0" using syn [of k] True by (auto simp: power_sums_def)
      then show "syn ! k = 0" by (simp add: phi_eq_0_iff)
    qed
    then have "dvbs2x_bch_decode dec ?rec = (0, ?rec)"
      unfolding dvbs2x_bch_decode_def Let_def dec syn_def [symmetric] by (rule if_P)
    ultimately show ?thesis using True by simp
  next
    case False
    have inj: "inj_on ?X E"
    proof (rule inj_onI)
      fix e f assume ef: "e \<in> E" "f \<in> E" "?X e = ?X f"
      have less: "e < len" "f < len" using E(1) ef by auto
      have "len - 1 - e = len - 1 - f" using len less by (intro alpha_distinct [OF _ _ ef(3)]) linarith+
      then show "e = f" using less by linarith
    qed
    have nz: "\<not> (\<forall>k \<in> set [1..<2 * 12 + 1]. syn ! k = 0)"
    proof
      assume no: "\<forall>k \<in> set [1..<2 * 12 + 1]. syn ! k = 0"
      have "(\<Sum>e\<in>E. 1 * ?X e ^ k) = 0" if "0 < k" "k \<le> 0 + card E" for k
        using syn [of k] no that E(2) by (simp add: power_sums_def)
      moreover obtain e0 where "e0 \<in> E" using False by blast
      ultimately have "(1 :: 'f) = 0"
        using power_sums_independent [OF fin inj, where w = "\<lambda>_. 1" and a = 0] alpha_nonzero by simp
      then show False by simp
    qed
    obtain s b l where st: "berlekamp_massey (gf_init m) 12 syn = (s, b, l)"
      by (rule prod_cases3)
    obtain e where e: "\<forall>n. generates BM_LEN e (card E) (power_sums E ?X) n"
      using locator_exists [OF fin _ inj, of BM_LEN] E(2) by (auto simp: BM_LEN_def)
    have "bm_ok (power_sums E ?X) 25 (s, b, l) \<and> l \<le> card E"
      using bm_loop [of syn "power_sums E ?X" 24 e "card E", OF syn order_refl] e st
      unfolding berlekamp_massey_def by (simp del: upt_Suc)
    then have ok: "elems s" "length s = BM_LEN" "generates BM_LEN (arr s) l (power_sums E ?X) 25" "l \<le> card E"
      by (auto simp: bm_ok_def bm_inv_def)
    note loc = chien_locations [OF ok(1,2) len E(1) False E(2) ok(3,4)]
    let ?locs = "chien_search (gf_init m) len s l [0..<order] []"
    have "length ?locs = l" using distinct_card [OF loc(2)] loc(1,3) by simp
    moreover have "\<not> 12 < l" using loc(1) E(2) by simp
    ultimately have dec_eq: "dvbs2x_bch_decode dec ?rec =
        (int l, fold (\<lambda>loc cw. cw[loc := cw ! loc XOR 1]) ?locs ?rec)"
      unfolding dvbs2x_bch_decode_def Let_def dec syn_def [symmetric] st gf_init_tables(2) prod.case if_not_P [OF nz]
      by (simp only: if_False simp_thms)
    have "fold (\<lambda>loc cw. cw[loc := cw ! loc XOR 1]) ?locs ?rec = cw"
    proof -
      have "l < length ?rec" if "l \<in> set ?locs" for l using that E(1) cw(1) unfolding loc(3) by auto
      note flip = flip_fold [OF loc(2) this, unfolded loc(3)]
      show ?thesis
        by (intro nth_equalityI) (use flip in \<open>simp_all add: flip_bits_nth xor.assoc\<close>)
    qed
    then show ?thesis using dec_eq loc(1) by simp
  qed
qed

lemma decode_bounded:
  assumes dec: "dec_t dec = 12" "dec_n dec = len" "dec_gf_m dec = m" and w: "length w = len"
  shows "dvbs2x_bch_decode dec w = (-1, w) \<or>
    (\<exists>E. E \<subseteq> {..<len} \<and> card E \<le> 12 \<and> dvbs2x_bch_decode dec w = (int (card E), flip_bits E w))"
proof -
  define syn where "syn = bch_syndromes (gf_init m) 12 len w"
  obtain s b l where st: "berlekamp_massey (gf_init m) 12 syn = (s, b, l)" by (rule prod_cases3)
  let ?locs = "chien_search (gf_init m) len s l [0..<order] []"
  note flip = flip_fold [OF chien_search_distinct(1), of len s l w, unfolded w, OF chien_search_distinct(2)]
  have eq: "dvbs2x_bch_decode dec w = (if \<forall>i \<in> set [1..<2 * 12 + 1]. syn ! i = 0 then (0, w)
      else if 12 < l then (-1, w) else if length ?locs \<noteq> l then (-1, w)
      else (int l, fold (\<lambda>loc cw. cw[loc := cw ! loc XOR 1]) ?locs w))"
    unfolding dvbs2x_bch_decode_def Let_def dec syn_def [symmetric] st gf_init_tables(2) prod.case ..
  have none: "flip_bits {} w = w" by (rule nth_equalityI) (simp_all add: flip_bits_nth)
  have some: "fold (\<lambda>loc cw. cw[loc := cw ! loc XOR 1]) ?locs w = flip_bits (set ?locs) w"
    by (rule nth_equalityI) (use flip w in \<open>simp_all add: flip_bits_nth\<close>)
  consider "dvbs2x_bch_decode dec w = (0, w)" | "dvbs2x_bch_decode dec w = (-1, w)"
    | "l \<le> 12" "length ?locs = l" "dvbs2x_bch_decode dec w = (int l, flip_bits (set ?locs) w)"
  proof -
    have three: "x = (if P then a else if Q then b else if R then b else c) \<Longrightarrow>
      x = a \<or> x = b \<or> (\<not> Q \<and> \<not> R \<and> x = c)" for x a b c :: "int \<times> u8 list" and P Q R by auto
    from three [OF eq [unfolded some]] show ?thesis using that unfolding not_less not_not by blast
  qed
  then show ?thesis
  proof cases
    case 1
    then show ?thesis using none by (intro disjI2 exI [of _ "{}"]) simp
  next
    case 3
    have "card (set ?locs) = l" using distinct_card [OF chien_search_distinct(1)] 3(2) by simp
    moreover have "set ?locs \<subseteq> {..<len}" using chien_search_distinct(2) by auto
    ultimately show ?thesis using 3 by (intro disjI2 exI [of _ "set ?locs"]) simp
  qed simp
qed

end

end
