(* ===== verification/Bch.thy ===== *)
theory Bch
  imports BchEncode BchDecode
begin

text \<open>
  The BCH encoder and decoder together: for each frame type the elimination, the roots and the degrees
  are computed on bit lists, and the results of \<open>BchEncode\<close> and \<open>BchDecode\<close> are instantiated with
  the three fields.
\<close>

section \<open>The three generators\<close>

abbreviation fuel17 :: "nat list" where
  "fuel17 \<equiv> [1, 2, 3, 4, 5, 6, 7, 8, 9, 10, 11, 12, 13, 14, 15, 16, 17]"

abbreviation odds :: "nat list" where
  "odds \<equiv> [1, 3, 5, 7, 9, 11, 13, 15, 17, 19, 21, 23]"

lemma upt_1_25: "[1..<25] = [1, 2, 3, 4, 5, 6, 7, 8, 9, 10, 11, 12, 13, 14, 15, 16, 17, 18, 19, 20, 21, 22, 23, 24]"
  by (simp add: upt_conv_Cons)

lemma roots_of_orbits:
  "rootsL fuel17 (2 ^ 14 - 1) [1..<25] [] = Some odds"
  "rootsL fuel17 (2 ^ 15 - 1) [1..<25] [] = Some odds"
  "rootsL fuel17 (2 ^ 16 - 1) [1..<25] [] = Some odds"
  unfolding upt_1_25 by simp_all

lemma odd_le_24: "odd (k :: nat) \<Longrightarrow> k \<le> 24 \<Longrightarrow> k \<in> set odds"
proof -
  assume "odd k" "k \<le> 24"
  then obtain j where "k = 2 * j + 1" "j < 12" by (auto elim!: oddE)
  then have "k \<in> (\<lambda>j. 2 * j + 1) ` set [0..<12]" by auto
  then show ?thesis by (simp add: upt_rec)
qed

lemma min_ok_14: "list_all (\<lambda>k. minL (replicate 14 None) (powL (bits_of 14 0x402B) k 15 (bits_of 14 1)) 0 = Some 14) odds"
  unfolding bits_of_14 by code_simp

lemma min_ok_15: "list_all (\<lambda>k. minL (replicate 15 None) (powL (bits_of 15 0x802D) k 16 (bits_of 15 1)) 0 = Some 15) odds"
  unfolding bits_of_15 by code_simp

lemma min_ok_16: "list_all (\<lambda>k. minL (replicate 16 None) (powL (bits_of 16 0x1002D) k 17 (bits_of 16 1)) 0 = Some 16) odds"
  unfolding bits_of_16 by code_simp

lemma min_polys:
  "\<forall>k \<in> set odds. code14.min_ok k" "\<forall>k \<in> set odds. code15.min_ok k" "\<forall>k \<in> set odds. code16.min_ok k"
  using min_ok_14 min_ok_15 min_ok_16
  by (simp_all only: list_all_iff code14.min_ok_def code15.min_ok_def code16.min_ok_def) simp_all

section \<open>Encoder and decoder together\<close>

text \<open>What the chain relies on: encoding is systematic, and decoding undoes up to 12 inverted bits.\<close>

definition bch_codec_ok :: "dvbs2x_modcod \<Rightarrow> dvbs2x_bch_encoder \<Rightarrow> bool" where
  "bch_codec_ok mc enc \<longleftrightarrow> (\<forall>msg. length msg = mc_k_bch mc \<and> set msg \<subseteq> {0, 1} \<longrightarrow>
     length (dvbs2x_bch_encode enc msg) = mc_n_bch mc \<and>
     take (mc_k_bch mc) (dvbs2x_bch_encode enc msg) = msg \<and>
     set (dvbs2x_bch_encode enc msg) \<subseteq> {0, 1} \<and>
     (\<forall>E. E \<subseteq> {..<mc_n_bch mc} \<and> card E \<le> 12 \<longrightarrow>
        dvbs2x_bch_decode (dvbs2x_bch_decoder_init mc) (flip_bits E (dvbs2x_bch_encode enc msg)) =
          (int (card E), dvbs2x_bch_encode enc msg)))"

context gf_code
begin

lemma codec_ok:
  assumes m: "frame_gf_m (mc_frame_type mc) = m" "mc_bch_t mc = 12"
      "mc_n_bch mc = mc_k_bch mc + 12 * m" "mc_n_bch mc \<le> order" "0 < mc_k_bch mc"
    and roots: "rootsL fuel17 order [1..<25] [] = Some odds" "\<forall>k \<in> set odds. min_ok k"
  shows "\<exists>enc. dvbs2x_bch_encoder_init True enc0 mc = Some (0, enc) \<and> enc_k enc = mc_k_bch mc \<and>
    enc_n enc = mc_n_bch mc \<and> enc_parity_len enc = 12 * m \<and> bch_codec_ok mc enc"
proof -
  have "24 < order" using m(3-5) m_bounds(1) by linarith
  then obtain g where g: "generator g (12 * m)" "dvbs2x_bch_encoder_init True enc0 mc =
      Some (0, \<lparr>enc_t = 12, enc_n = mc_n_bch mc, enc_k = mc_k_bch mc, enc_parity_len = 12 * m,
                enc_gf_m = m, enc_gen_poly = g\<rparr>)"
    using encoder_init [OF m(1,2) _ roots(1) _ roots(2) odd_le_24] m(3) by auto
  let ?enc = "\<lparr>enc_t = 12, enc_n = mc_n_bch mc, enc_k = mc_k_bch mc, enc_parity_len = 12 * m,
                enc_gf_m = m, enc_gen_poly = g\<rparr>"
  have dec: "dec_t (dvbs2x_bch_decoder_init mc) = 12" "dec_n (dvbs2x_bch_decoder_init mc) = mc_n_bch mc"
    "dec_gf_m (dvbs2x_bch_decoder_init mc) = m"
    using m(1,2) by (simp_all add: dvbs2x_bch_decoder_init_def frame_gf_m_def)
  have main: "length (dvbs2x_bch_encode ?enc msg) = mc_n_bch mc \<and>
     take (mc_k_bch mc) (dvbs2x_bch_encode ?enc msg) = msg \<and> set (dvbs2x_bch_encode ?enc msg) \<subseteq> {0, 1} \<and>
     (\<forall>E. E \<subseteq> {..<mc_n_bch mc} \<and> card E \<le> 12 \<longrightarrow>
        dvbs2x_bch_decode (dvbs2x_bch_decoder_init mc) (flip_bits E (dvbs2x_bch_encode ?enc msg)) =
          (int (card E), dvbs2x_bch_encode ?enc msg))"
    if msg: "length msg = mc_k_bch mc" "set msg \<subseteq> {0, 1}" for msg
  proof -
    let ?cw = "dvbs2x_bch_encode ?enc msg"
    have P: "0 < 12 * m" using m_bounds(1) by simp
    have m01: "bits01 msg" using msg(2) by auto
    note cw = encode_codeword [of ?enc "12 * m" "mc_k_bch mc" g, simplified, OF g(1) _ m01 msg(1)]
    have m0: "m \<noteq> 0" using m_bounds(1) by simp
    have len: "length ?cw = mc_n_bch mc" using cw(1) m0 m(3) by simp
    have syn: "bch_syndrome (gf_init m) (mc_n_bch mc) ?cw k = 0" if "1 \<le> k" "k \<le> 24" for k
    proof -
      have pw: "(\<alpha> ^ a) ^ b = (\<alpha> ^ b) ^ a" for a b by (simp only: power_mult [symmetric] mult.commute)
      have "\<phi> (bch_syndrome (gf_init m) (mc_n_bch mc) ?cw k) =
          (\<Sum>n<mc_n_bch mc. bv (?cw ! n) * (\<alpha> ^ k) ^ (mc_n_bch mc - 1 - n))"
        unfolding syndrome_value(2) pw [of k] by (intro sum.cong) (simp_all add: bv_def)
      also have "\<dots> = 0" using cw(4) [of k] that m0 m(3) by simp
      finally show ?thesis using phi_eq_0_iff [OF syndrome_value(1)] by simp
    qed
    have c01: "bits01 ?cw" using cw(3) m0 by simp
    have sys: "take (mc_k_bch mc) ?cw = msg" using cw(2) m0 by simp
    show ?thesis
    proof (intro conjI allI impI)
      show "length ?cw = mc_n_bch mc" "take (mc_k_bch mc) ?cw = msg" by fact+
      show "set ?cw \<subseteq> {0, 1}"
      proof
        fix x assume "x \<in> set ?cw"
        with c01 have "x = 0 \<or> x = 1" by (rule bspec)
        then show "x \<in> {0, 1}" by (simp only: insert_iff empty_iff simp_thms)
      qed
      show "dvbs2x_bch_decode (dvbs2x_bch_decoder_init mc) (flip_bits E ?cw) = (int (card E), ?cw)"
        if "E \<subseteq> {..<mc_n_bch mc} \<and> card E \<le> 12" for E
        by (rule decode_corrects [OF dec m(4) len c01 syn conjunct1 [OF that] conjunct2 [OF that]])
    qed
  qed
  have "bch_codec_ok mc ?enc"
    unfolding bch_codec_ok_def by (intro allI impI, erule conjE, rule main)
  then show ?thesis using g(2) by (intro exI [of _ ?enc]) simp
qed

end

lemma table_frame:
  assumes "mc \<in> set vlsnr_modcod_table"
  shows "mc_bch_t mc = 12" "mc_n_bch mc = mc_k_bch mc + 12 * frame_gf_m (mc_frame_type mc)"
    "mc_n_bch mc \<le> 2 ^ frame_gf_m (mc_frame_type mc) - 1" "0 < mc_k_bch mc"
  using modcod_cases [OF assms]
  by (elim disjE; simp add: modcod_defs frame_gf_m_def)+

lemma bch_codec:
  assumes mc: "mc \<in> set vlsnr_modcod_table"
  shows "\<exists>enc. dvbs2x_bch_encoder_init True enc0 mc = Some (0, enc) \<and> enc_k enc = mc_k_bch mc \<and>
    enc_n enc = mc_n_bch mc \<and> enc_parity_len enc = 12 * frame_gf_m (mc_frame_type mc) \<and> bch_codec_ok mc enc"
proof (cases "mc_frame_type mc")
  case DVBS2X_FRAME_NORMAL
  then have m: "frame_gf_m (mc_frame_type mc) = 16" by (simp add: frame_gf_m_def)
  show ?thesis
    using code16.codec_ok [OF m _ _ _ _ roots_of_orbits(3) min_polys(3)] table_frame [OF mc] unfolding m by blast
next
  case DVBS2X_FRAME_MEDIUM
  then have m: "frame_gf_m (mc_frame_type mc) = 15" by (simp add: frame_gf_m_def)
  show ?thesis
    using code15.codec_ok [OF m _ _ _ _ roots_of_orbits(2) min_polys(2)] table_frame [OF mc] unfolding m by blast
next
  case DVBS2X_FRAME_SHORT
  then have m: "frame_gf_m (mc_frame_type mc) = 14" by (simp add: frame_gf_m_def)
  show ?thesis
    using code14.codec_ok [OF m _ _ _ _ roots_of_orbits(1) min_polys(1)] table_frame [OF mc] unfolding m by blast
qed

section \<open>Properties\<close>

text \<open>C17: The encoder's initialisation ends for every MODCOD: the marking loop over the conjugates of a
  root stops, the twelve minimal polynomials multiply to a generator of exactly \<open>n_bch - k_bch\<close>
  degrees, and the return value is 0 unless the allocation fails.\<close>

theorem bch_encoder_init_terminates:
  assumes "dvbs2x_vlsnr_get_modcod idx = Some mc"
  shows "\<exists>enc. dvbs2x_bch_encoder_init alloc enc0 mc = Some (if alloc then 0 else -1, enc) \<and>
    enc_parity_len enc = mc_n_bch mc - mc_k_bch mc"
proof (cases alloc)
  case True
  then show ?thesis
    using bch_codec [OF get_modcod_set [OF assms], of enc0] table_frame(2) [OF get_modcod_set [OF assms]] by auto
next
  case False
  then show ?thesis by (simp add: dvbs2x_bch_encoder_init_def Let_def)
qed

theorem bch_encoder_init_terminates_witness:
  "dvbs2x_bch_encoder_init True (undefined\<lparr>enc_t := 0\<rparr>) modcod_9 \<noteq> None"
proof -
  have "dvbs2x_vlsnr_get_modcod 9 = Some modcod_9"
    by (simp add: dvbs2x_vlsnr_get_modcod_def vlsnr_modcod_table_def const_defs)
  from bch_encoder_init_terminates [OF this, of True "undefined\<lparr>enc_t := 0\<rparr>"] show ?thesis by auto
qed

text \<open>C2: The decoder corrects every pattern of up to 12 bit errors: decoding an encoded message in which
  the bits at the positions of \<open>E\<close> are inverted returns the number of errors and restores the
  codeword, whose first \<open>k_bch\<close> bits are the message.  (Syndromes, Berlekamp-Massey, Chien search
  and the tables of the field are the code's.)\<close>

theorem bch_corrects_errors:
  assumes "dvbs2x_vlsnr_get_modcod idx = Some mc"
    "dvbs2x_bch_encoder_init alloc enc0 mc = Some (0, enc)"
    "length msg = mc_k_bch mc" "set msg \<subseteq> {0, 1}" "E \<subseteq> {..<mc_n_bch mc}" "card E \<le> 12"
  shows "dvbs2x_bch_decode (dvbs2x_bch_decoder_init mc) (flip_bits E (dvbs2x_bch_encode enc msg)) =
      (int (card E), dvbs2x_bch_encode enc msg) \<and>
    length (dvbs2x_bch_encode enc msg) = mc_n_bch mc \<and>
    take (mc_k_bch mc) (dvbs2x_bch_encode enc msg) = msg"
proof -
  have alloc: "alloc" using assms(2) by (cases alloc) (simp_all add: dvbs2x_bch_encoder_init_def Let_def)
  obtain enc' where "dvbs2x_bch_encoder_init True enc0 mc = Some (0, enc')" "bch_codec_ok mc enc'"
    using bch_codec [OF get_modcod_set [OF assms(1)]] by blast
  then have "bch_codec_ok mc enc" using assms(2) alloc by simp
  then show ?thesis using assms(3-6) unfolding bch_codec_ok_def by blast
qed

theorem bch_corrects_errors_witness:
  "\<exists>enc. dvbs2x_bch_encoder_init True (undefined\<lparr>enc_t := 0\<rparr>) modcod_9 = Some (0, enc) \<and>
     fst (dvbs2x_bch_decode (dvbs2x_bch_decoder_init modcod_9)
       (flip_bits {0, 7, 5399} (dvbs2x_bch_encode enc (replicate 5232 1)))) = 3"
proof -
  have mc: "dvbs2x_vlsnr_get_modcod 9 = Some modcod_9"
    by (simp add: dvbs2x_vlsnr_get_modcod_def vlsnr_modcod_table_def const_defs)
  obtain enc where enc: "dvbs2x_bch_encoder_init True (undefined\<lparr>enc_t := 0\<rparr>) modcod_9 = Some (0, enc)"
    using bch_codec [OF get_modcod_set [OF mc]] by blast
  have "mc_k_bch modcod_9 = 5232" "mc_n_bch modcod_9 = 5400" by (simp_all add: modcod_9_def)
  with bch_corrects_errors [OF mc enc, of "replicate 5232 1" "{0, 7, 5399}"] enc show ?thesis by simp
qed

text \<open>C18: For any received word the decoder either gives up, returns -1 and leaves the word alone, or
  inverts at most 12 bits at distinct positions inside the word and returns their number: the
  writes stay within the word and within the array of 12 locations.\<close>

theorem bch_decode_bounded:
  assumes "dvbs2x_vlsnr_get_modcod idx = Some mc" "length w = mc_n_bch mc"
  shows "dvbs2x_bch_decode (dvbs2x_bch_decoder_init mc) w = (-1, w) \<or>
    (\<exists>E. E \<subseteq> {..<mc_n_bch mc} \<and> card E \<le> 12 \<and>
       dvbs2x_bch_decode (dvbs2x_bch_decoder_init mc) w = (int (card E), flip_bits E w))"
proof -
  have t: "mc_bch_t mc = 12" by (rule table_frame(1) [OF get_modcod_set [OF assms(1)]])
  show ?thesis
  proof (cases "mc_frame_type mc")
    case DVBS2X_FRAME_NORMAL
    then show ?thesis using t assms(2) by (intro code16.decode_bounded) (simp_all add: dvbs2x_bch_decoder_init_def)
  next
    case DVBS2X_FRAME_MEDIUM
    then show ?thesis using t assms(2) by (intro code15.decode_bounded) (simp_all add: dvbs2x_bch_decoder_init_def)
  next
    case DVBS2X_FRAME_SHORT
    then show ?thesis using t assms(2) by (intro code14.decode_bounded) (simp_all add: dvbs2x_bch_decoder_init_def)
  qed
qed

theorem bch_decode_bounded_witness:
  "fst (dvbs2x_bch_decode (dvbs2x_bch_decoder_init modcod_9) (replicate 5400 1)) \<le> 12"
proof -
  have "dvbs2x_vlsnr_get_modcod 9 = Some modcod_9"
    by (simp add: dvbs2x_vlsnr_get_modcod_def vlsnr_modcod_table_def const_defs)
  moreover have "mc_n_bch modcod_9 = 5400" by (simp add: modcod_9_def)
  ultimately show ?thesis using bch_decode_bounded [of 9 modcod_9 "replicate 5400 1"] by auto
qed

end
