(* ===== verification/WhHeader.thy ===== *)
theory WhHeader
  imports Modcod
begin

text \<open>
  \<^verbatim>\<open>src/vlsnr_header_gen.c\<close>: the 900-symbol VL-SNR header that tells the receiver which MODCOD a
  frame has.  A chip (\<^verbatim>\<open>int8_t\<close>, 1 or -1) is an \<open>int\<close>.  The header's Walsh-Hadamard part is the
  16 x 56 base matrix with the rows kept or inverted by the MODCOD's sign row; the lemmas show that
  the sign rows are orthogonal, so the headers are, and what the receiver's correlator measures on
  a header with unknown gain and phase.
\<close>

section \<open>The tables\<close>

definition VLSNR_ROWS :: nat where "VLSNR_ROWS = 16"
definition VLSNR_COLS :: nat where "VLSNR_COLS = 56"

definition vlsnr_base_matrix :: "u8 list list" where
  "vlsnr_base_matrix =
    [
     [0xFB, 0xF2, 0x3E, 0x83, 0x7F, 0x9B, 0xC4],
     [0x98, 0x70, 0x8E, 0x0B, 0x39, 0x34, 0x5E],
     [0xF6, 0xA2, 0xC9, 0xFE, 0x1B, 0x17, 0x37],
     [0x84, 0x18, 0xD9, 0x5A, 0x6F, 0x99, 0x7A],
     [0x7B, 0x7D, 0x7B, 0x3E, 0x9F, 0xC9, 0xEA],
     [0x5E, 0x78, 0xBA, 0x03, 0xA6, 0xD5, 0x1A],
     [0x27, 0x9C, 0xC2, 0x65, 0x43, 0xEC, 0xD0],
     [0x34, 0x2B, 0x04, 0x98, 0xBF, 0x3D, 0x7D],
     [0xAD, 0xD0, 0x36, 0xE9, 0xD5, 0x31, 0x2F],
     [0x10, 0x61, 0xC6, 0xDF, 0x82, 0x62, 0x37],
     [0x72, 0xD3, 0xE0, 0x90, 0x73, 0x84, 0xC7],
     [0x3B, 0xD5, 0xAC, 0xEE, 0x25, 0xE2, 0xC9],
     [0x59, 0x08, 0x7D, 0x82, 0x61, 0x5A, 0xDA],
     [0xE9, 0xAF, 0x01, 0x72, 0xCF, 0x9D, 0xA7],
     [0x3F, 0x48, 0x35, 0xA4, 0x06, 0x3F, 0x07],
     [0x23, 0xC9, 0xAE, 0xEC, 0xF2, 0xED, 0x41]
    ]"

text \<open>A sign row of Table 18b, read off as four hexadecimal digits: a set bit is \<^verbatim>\<open>-1\<close>.\<close>

definition wh_sign :: "bool \<Rightarrow> int" where
  "wh_sign b = (if b then -1 else 1)"

definition vlsnr_wh_signs :: "int list list" where
  "vlsnr_wh_signs =
    [
     map wh_sign (nibbles [0, 0, 0, 0]),
     map wh_sign (nibbles [5, 5, 5, 5]),
     map wh_sign (nibbles [3, 3, 3, 3]),
     map wh_sign (nibbles [6, 6, 6, 6]),
     map wh_sign (nibbles [0, 15, 0, 15]),
     map wh_sign (nibbles [6, 9, 6, 9]),
     map wh_sign (nibbles [3, 3, 12, 12]),
     map wh_sign (nibbles [6, 6, 9, 9]),
     map wh_sign (nibbles [0, 15, 15, 0]),
     map wh_sign (nibbles [3, 12, 3, 12]),
     map wh_sign (nibbles [5, 10, 5, 10]),
     map wh_sign (nibbles [15, 15, 0, 0]),
     map wh_sign (nibbles [5, 5, 10, 10]),
     map wh_sign (nibbles [5, 10, 10, 5]),
     map wh_sign (nibbles [3, 12, 12, 3]),
     map wh_sign (nibbles [6, 9, 9, 6])
    ]"

definition modcod_to_annex_i :: "nat list" where
  "modcod_to_annex_i = [0, 1, 2, 3, 4, 5, 9, 10, 11]"

section \<open>Header generation\<close>

definition vlsnr_generate_pattern :: "nat \<Rightarrow> int list" where
  "vlsnr_generate_pattern annex_idx =
     (let annex_idx = (if 16 \<le> annex_idx then 0 else annex_idx);
          signs = vlsnr_wh_signs ! annex_idx
      in concat (map (\<lambda>row. map (\<lambda>col.
           let byte_idx = col div 8;
               bit_idx = 7 - (col mod 8);
               bit = drop_bit bit_idx (vlsnr_base_matrix ! row ! byte_idx) AND 1
           in (if bit \<noteq> 0 then -1 else 1) * signs ! row) [0..<VLSNR_COLS]) [0..<VLSNR_ROWS]))"

definition chips_to_symbols :: "int list \<Rightarrow> nat \<Rightarrow> dvbs2x_complex list" where
  "chips_to_symbols chips sym_offset =
     (let r = 0.70710678118654752440
      in map (\<lambda>n. let b = chips ! n < 0; idx = sym_offset + n
              in if even idx
                 then \<lparr>re_i = (if b then - r else r), im_q = (if b then - r else r)\<rparr>
                 else \<lparr>re_i = (if b then r else - r), im_q = (if b then - r else r)\<rparr>)
           [0..<length chips])"

text \<open>The header is written into the caller's array; for an index outside the nine MODCODs the
  function returns before it writes anything.\<close>

definition dvbs2x_vlsnr_header_generate ::
  "dvbs2x_modcod \<Rightarrow> dvbs2x_complex list \<Rightarrow> dvbs2x_complex list" where
  "dvbs2x_vlsnr_header_generate mc symbols =
     (if mc_index mc < 1 \<or> DVBS2X_VLSNR_NUM_MODCODS < mc_index mc then symbols
      else
        let annex_idx = modcod_to_annex_i ! (mc_index mc - 1);
            chips = [1, 1] @ vlsnr_generate_pattern annex_idx @ [1, 1]
        in overwrite 0 (chips_to_symbols chips 0) symbols)"

definition dvbs2x_wh_generate :: "nat \<Rightarrow> int list" where
  "dvbs2x_wh_generate index = vlsnr_generate_pattern index"

text \<open>The receiver's reference symbols, one row per MODCOD.\<close>

definition do_sync_init :: "dvbs2x_complex list list" where
  "do_sync_init =
     map (\<lambda>mc. let aidx = modcod_to_annex_i ! mc
               in chips_to_symbols (vlsnr_generate_pattern aidx) 0) [0..<DVBS2X_VLSNR_NUM_MODCODS]"

text \<open>The correlation of one segment in \<^verbatim>\<open>dvbs2x_vlsnr_header_sync_mode\<close>: the sums
  \<^verbatim>\<open>si\<close> and \<^verbatim>\<open>sq\<close> over \<^verbatim>\<open>n\<close> from \<open>seg_start\<close> to before \<open>seg_end\<close>.\<close>

definition segment_corr ::
  "dvbs2x_complex list \<Rightarrow> nat \<Rightarrow> dvbs2x_complex list \<Rightarrow> nat \<Rightarrow> nat \<Rightarrow> real \<times> real" where
  "segment_corr symbols pos rf seg_start seg_end =
     foldl (\<lambda>(si, sq) n.
         let ri = re_i (symbols ! (pos + n)); rq = im_q (symbols ! (pos + n))
         in (si + (ri * re_i (rf ! n) + rq * im_q (rf ! n)),
             sq + (rq * re_i (rf ! n) - ri * im_q (rf ! n))))
       (0, 0) [seg_start..<seg_end]"

section \<open>Closed forms\<close>

lemma concat_rows_upt:
  "concat (map (\<lambda>i. map (f i) [0..<n]) [0..<m]) = map (\<lambda>k. f (k div n) (k mod n)) [0..<m * n]"
proof (induction m)
  case (Suc m)
  have "[0..<Suc m * n] = [0..<m * n] @ map (\<lambda>c. c + m * n) [0..<n]"
    unfolding map_add_upt by (metis add.commute le0 mult_Suc upt_add_eq_append)
  moreover have "map (\<lambda>k. f (k div n) (k mod n)) (map (\<lambda>c. c + m * n) [0..<n]) = map (f m) [0..<n]"
    by simp
  ultimately show ?case using Suc.IH by simp
qed simp

definition base_chip :: "nat \<Rightarrow> int" where
  "base_chip k =
     (if drop_bit (7 - (k mod 56) mod 8) (vlsnr_base_matrix ! (k div 56) ! ((k mod 56) div 8)) AND 1 \<noteq> 0
      then -1 else 1)"

lemma base_chip_square: "base_chip k * base_chip k = 1"
  by (simp add: base_chip_def)

lemma pattern_chips:
  "a < 16 \<Longrightarrow>
   vlsnr_generate_pattern a = map (\<lambda>k. base_chip k * vlsnr_wh_signs ! a ! (k div 56)) [0..<896]"
  unfolding vlsnr_generate_pattern_def Let_def VLSNR_ROWS_def VLSNR_COLS_def concat_rows_upt
    base_chip_def by simp

lemma length_pattern [simp, lens]: "length (vlsnr_generate_pattern a) = 896"
  unfolding vlsnr_generate_pattern_def Let_def VLSNR_ROWS_def VLSNR_COLS_def concat_rows_upt by simp

text \<open>The sign rows are orthogonal.\<close>

definition sign_dot :: "nat \<Rightarrow> nat \<Rightarrow> int" where
  "sign_dot a b = sum_list (map2 (*) (vlsnr_wh_signs ! a) (vlsnr_wh_signs ! b))"

lemma sign_dot_table:
  "list_all (\<lambda>a. list_all (\<lambda>b. sign_dot a b = (if a = b then 16 else 0)) [0..<16]) [0..<16]"
  by code_simp

lemma sign_dot: "a < 16 \<Longrightarrow> b < 16 \<Longrightarrow> sign_dot a b = (if a = b then 16 else 0)"
  using sign_dot_table by (simp add: list_all_iff)

lemma length_signs: "a < 16 \<Longrightarrow> length (vlsnr_wh_signs ! a) = 16"
proof -
  have "list_all (\<lambda>a. length (vlsnr_wh_signs ! a) = 16) [0..<16]" by code_simp
  then show "a < 16 \<Longrightarrow> ?thesis" by (simp add: list_all_iff)
qed

lemma signs_square: "a < 16 \<Longrightarrow> i < 16 \<Longrightarrow> vlsnr_wh_signs ! a ! i * vlsnr_wh_signs ! a ! i = 1"
proof -
  have "list_all (\<lambda>a. list_all (\<lambda>i. vlsnr_wh_signs ! a ! i * vlsnr_wh_signs ! a ! i = 1) [0..<16]) [0..<16]"
    by code_simp
  then show "a < 16 \<Longrightarrow> i < 16 \<Longrightarrow> ?thesis" by (simp add: list_all_iff)
qed

lemma sum_rows: "(\<Sum>k<m * n. h (k div n)) = int n * (\<Sum>i<m. h i)" for h :: "nat \<Rightarrow> int"
proof (cases "n = 0")
  case False
  then show ?thesis
  proof (induction m)
    case (Suc m)
    have "(\<Sum>k<Suc m * n. h (k div n)) = (\<Sum>k<m * n. h (k div n)) + (\<Sum>k = m * n..<m * n + n. h (k div n))"
      by (simp add: sum.lessThan_Suc add.commute lessThan_atLeast0 sum.atLeastLessThan_concat)
    also have "(\<Sum>k = m * n..<m * n + n. h (k div n)) = (\<Sum>k = m * n..<m * n + n. h m)"
      by (intro sum.cong refl arg_cong [where f = h]) (auto intro!: div_nat_eqI simp: mult.commute [of n])
    finally show ?case using Suc by (simp add: algebra_simps)
  qed simp
qed simp

lemma pattern_dot:
  assumes "a < 16" "b < 16"
  shows "(\<Sum>n<896. vlsnr_generate_pattern a ! n * vlsnr_generate_pattern b ! n)
           = (if a = b then 896 else 0)"
proof -
  let ?h = "\<lambda>i. vlsnr_wh_signs ! a ! i * vlsnr_wh_signs ! b ! i"
  have "(\<Sum>n<896. vlsnr_generate_pattern a ! n * vlsnr_generate_pattern b ! n)
          = (\<Sum>n<16 * 56. (base_chip n * base_chip n) * ?h (n div 56))"
    by (intro sum.cong) (simp_all add: pattern_chips assms ac_simps)
  also have "\<dots> = int 56 * (\<Sum>i<16. ?h i)"
    unfolding base_chip_square mult_1 by (rule sum_rows)
  also have "(\<Sum>i<16. ?h i) = sign_dot a b"
    by (simp add: sign_dot_def sum_list_sum_nth length_signs assms atLeast0LessThan)
  finally show ?thesis by (simp add: sign_dot assms)
qed

lemma pattern_square:
  "a < 16 \<Longrightarrow> n < 896 \<Longrightarrow> vlsnr_generate_pattern a ! n * vlsnr_generate_pattern a ! n = 1"
proof -
  assume a: "a < 16" and n: "n < 896"
  have "vlsnr_generate_pattern a ! n * vlsnr_generate_pattern a ! n =
    (base_chip n * base_chip n) * (vlsnr_wh_signs ! a ! (n div 56) * vlsnr_wh_signs ! a ! (n div 56))"
    using a n by (simp add: pattern_chips ac_simps)
  also have "\<dots> = 1" using a n by (simp add: base_chip_square signs_square less_mult_imp_div_less)
  finally show ?thesis .
qed

section \<open>Symbols and correlation\<close>

definition wh_amp :: real where "wh_amp = 0.70710678118654752440"

lemma length_chips_to_symbols [simp, lens]: "length (chips_to_symbols chips off) = length chips"
  by (simp add: chips_to_symbols_def Let_def)

lemma unit_chip: "c * c = 1 \<Longrightarrow> c = 1 \<or> c = -1" for c :: int
  by (simp add: zmult_eq_1_iff)

lemma nth_chips_to_symbols:
  assumes "n < length chips" "chips ! n * chips ! n = 1"
  shows "re_i (chips_to_symbols chips off ! n) =
           (if even (off + n) then wh_amp else - wh_amp) * of_int (chips ! n)"
    and "im_q (chips_to_symbols chips off ! n) = wh_amp * of_int (chips ! n)"
  using unit_chip [OF assms(2)] assms(1)
  by (auto simp: chips_to_symbols_def Let_def wh_amp_def)

text \<open>A flat channel with complex gain \<open>gi + j * gq\<close>.\<close>

definition channel_gain :: "real \<Rightarrow> real \<Rightarrow> dvbs2x_complex \<Rightarrow> dvbs2x_complex" where
  "channel_gain gi gq s =
     \<lparr>re_i = gi * re_i s - gq * im_q s, im_q = gi * im_q s + gq * re_i s\<rparr>"

lemma foldl_pair_sum:
  "foldl (\<lambda>(x, y) n. (x + f n, y + g n)) (x0, y0) ns =
     (x0 + sum_list (map f ns), y0 + sum_list (map g ns))" for x0 y0 :: real
  by (induction ns arbitrary: x0 y0) simp_all

lemma segment_corr_sum:
  "segment_corr symbols pos rf s e =
     ((\<Sum>n = s..<e. re_i (symbols ! (pos + n)) * re_i (rf ! n) + im_q (symbols ! (pos + n)) * im_q (rf ! n)),
      (\<Sum>n = s..<e. im_q (symbols ! (pos + n)) * re_i (rf ! n) - re_i (symbols ! (pos + n)) * im_q (rf ! n)))"
  unfolding segment_corr_def Let_def foldl_pair_sum
  by (simp add: interv_sum_list_conv_sum_set_nat)

text \<open>What one symbol of a header contributes to its correlation with another header.\<close>

lemma segment_corr_chips:
  fixes c d :: "int list"
  assumes sym: "\<And>n. n < e \<Longrightarrow> symbols ! (pos + n) = channel_gain gi gq (chips_to_symbols c offc ! (k + n))"
    and par: "even (offc + k)" and e: "k + e \<le> length c" "e \<le> length d"
    and c: "\<And>n. n < e \<Longrightarrow> c ! (k + n) * c ! (k + n) = 1" and d: "\<And>n. n < e \<Longrightarrow> d ! n * d ! n = 1"
  shows "segment_corr symbols pos (chips_to_symbols d 0) s e =
     (2 * wh_amp\<^sup>2 * gi * of_int (\<Sum>n = s..<e. c ! (k + n) * d ! n),
      2 * wh_amp\<^sup>2 * gq * of_int (\<Sum>n = s..<e. c ! (k + n) * d ! n))"
proof -
  have ev: "even (offc + (k + n)) = even n" for n using par by auto
  let ?s = "\<lambda>n. symbols ! (pos + n)" and ?r = "\<lambda>n. chips_to_symbols d 0 ! n"
  have re: "re_i (?s n) * re_i (?r n) + im_q (?s n) * im_q (?r n)
              = 2 * wh_amp\<^sup>2 * gi * of_int (c ! (k + n) * d ! n)"
    and im: "im_q (?s n) * re_i (?r n) - re_i (?s n) * im_q (?r n)
              = 2 * wh_amp\<^sup>2 * gq * of_int (c ! (k + n) * d ! n)" if n: "n < e" for n
  proof -
    have lens: "k + n < length c" "n < length d" using n e by simp_all
    note sc = nth_chips_to_symbols [OF lens(1) c [OF n], of offc]
      nth_chips_to_symbols [OF lens(2) d [OF n], of 0]
    show "re_i (?s n) * re_i (?r n) + im_q (?s n) * im_q (?r n)
              = 2 * wh_amp\<^sup>2 * gi * of_int (c ! (k + n) * d ! n)"
      unfolding sym [OF n] channel_gain_def sc ev add_0
      by (cases "even n") (simp_all add: power2_eq_square algebra_simps)
    show "im_q (?s n) * re_i (?r n) - re_i (?s n) * im_q (?r n)
              = 2 * wh_amp\<^sup>2 * gq * of_int (c ! (k + n) * d ! n)"
      unfolding sym [OF n] channel_gain_def sc ev add_0
      by (cases "even n") (simp_all add: power2_eq_square algebra_simps)
  qed
  show ?thesis
    unfolding segment_corr_sum of_int_sum sum_distrib_left
    by (intro arg_cong2 [where f = Pair] sum.cong refl) (simp_all only: re im atLeastLessThan_iff)
qed

lemma annex_table:
  "list_all (\<lambda>i. modcod_to_annex_i ! i < 16) [0..<9]" "distinct modcod_to_annex_i"
  by code_simp+

lemma annex_less: "i < 9 \<Longrightarrow> modcod_to_annex_i ! i < 16"
  using annex_table(1) by (simp add: list_all_iff)

lemma annex_inj: "i < 9 \<Longrightarrow> j < 9 \<Longrightarrow> modcod_to_annex_i ! i = modcod_to_annex_i ! j \<longleftrightarrow> i = j"
  using annex_table(2) by (intro nth_eq_iff_index_eq) (simp_all add: modcod_to_annex_i_def)

lemma get_modcod_index:
  "dvbs2x_vlsnr_get_modcod i = Some mc \<Longrightarrow> mc_index mc = i \<and> 1 \<le> i \<and> i \<le> 9"
  using get_modcod_ok [of i mc]
  by (auto simp: dvbs2x_vlsnr_get_modcod_def const_defs split: if_splits)

lemma header_symbols:
  assumes "dvbs2x_vlsnr_get_modcod i = Some mc" "length buf = DVBS2X_VLSNR_HDR_LEN"
  shows "dvbs2x_vlsnr_header_generate mc buf =
     chips_to_symbols ([1, 1] @ vlsnr_generate_pattern (modcod_to_annex_i ! (i - 1)) @ [1, 1]) 0"
  using get_modcod_index [OF assms(1)] assms(2)
  by (simp add: dvbs2x_vlsnr_header_generate_def Let_def const_defs overwrite_def)

lemma length_header_generate [simp, lens]:
  "length buf = DVBS2X_VLSNR_HDR_LEN \<Longrightarrow>
   length (dvbs2x_vlsnr_header_generate mc buf) = DVBS2X_VLSNR_HDR_LEN"
  by (simp add: dvbs2x_vlsnr_header_generate_def Let_def const_defs)

lemma nth_sync_ref:
  "j < 9 \<Longrightarrow> do_sync_init ! j = chips_to_symbols (vlsnr_generate_pattern (modcod_to_annex_i ! j)) 0"
  by (simp add: do_sync_init_def Let_def const_defs)

text \<open>Correlating header \<open>i\<close>, received through a flat channel, with the reference of MODCOD
  \<open>j\<close> gives the gain times the sum of the chip products.\<close>

lemma header_corr:
  assumes i: "dvbs2x_vlsnr_get_modcod i = Some mc" and j: "1 \<le> j" "j \<le> 9"
    and buf: "length buf = DVBS2X_VLSNR_HDR_LEN" and e: "e \<le> 896"
    and a: "a = modcod_to_annex_i ! (i - 1)" and b: "b = modcod_to_annex_i ! (j - 1)"
  shows "segment_corr (map (channel_gain gi gq) (dvbs2x_vlsnr_header_generate mc buf)) 2
           (do_sync_init ! (j - 1)) s e =
     (2 * wh_amp\<^sup>2 * gi * of_int (\<Sum>n = s..<e. vlsnr_generate_pattern a ! n * vlsnr_generate_pattern b ! n),
      2 * wh_amp\<^sup>2 * gq * of_int (\<Sum>n = s..<e. vlsnr_generate_pattern a ! n * vlsnr_generate_pattern b ! n))"
proof -
  have ab: "a < 16" "b < 16"
    using get_modcod_index [OF i] j by (auto simp: a b annex_less)
  let ?c = "[1, 1] @ vlsnr_generate_pattern a @ [1, 1]"
  have nth: "?c ! (2 + n) = vlsnr_generate_pattern a ! n" if "n < 896" for n
    using that by (simp add: nth_append)
  have "segment_corr (map (channel_gain gi gq) (chips_to_symbols ?c 0)) 2
          (chips_to_symbols (vlsnr_generate_pattern b) 0) s e =
     (2 * wh_amp\<^sup>2 * gi * of_int (\<Sum>n = s..<e. ?c ! (2 + n) * vlsnr_generate_pattern b ! n),
      2 * wh_amp\<^sup>2 * gq * of_int (\<Sum>n = s..<e. ?c ! (2 + n) * vlsnr_generate_pattern b ! n))"
    using e ab by (intro segment_corr_chips [where k = 2 and offc = 0]) (simp_all add: nth_append pattern_square)
  moreover have "(\<Sum>n = s..<e. ?c ! (2 + n) * vlsnr_generate_pattern b ! n) =
      (\<Sum>n = s..<e. vlsnr_generate_pattern a ! n * vlsnr_generate_pattern b ! n)"
    using e by (intro sum.cong refl arg_cong2 [where f = "(*)"] nth) simp
  moreover have "j - 1 < 9" using j by simp
  ultimately show ?thesis
    by (simp only: header_symbols [OF i buf] nth_sync_ref a b)
qed

section \<open>Properties\<close>

text \<open>C13: the headers of the nine MODCODs are told apart by the receiver's correlator.  A header
  received through any flat channel gives, on every segment of the reference of its own MODCOD,
  the channel gain times the energy of the segment (so segments add up in phase whatever the
  phase is), and over the whole reference of any other MODCOD exactly zero.\<close>

theorem vlsnr_headers_orthogonal:
  assumes "dvbs2x_vlsnr_get_modcod i = Some mc" "1 \<le> j" "j \<le> 9"
    and "length buf = DVBS2X_VLSNR_HDR_LEN" "s \<le> e" "e \<le> DVBS2X_VLSNR_WH_LEN"
  shows "segment_corr (map (channel_gain gi gq) (dvbs2x_vlsnr_header_generate mc buf)) 2
           (do_sync_init ! (i - 1)) s e =
         (2 * wh_amp\<^sup>2 * gi * real (e - s), 2 * wh_amp\<^sup>2 * gq * real (e - s)) \<and>
     (i \<noteq> j \<longrightarrow>
       segment_corr (map (channel_gain gi gq) (dvbs2x_vlsnr_header_generate mc buf)) 2
         (do_sync_init ! (j - 1)) 0 DVBS2X_VLSNR_WH_LEN = (0, 0))"
proof -
  have i: "1 \<le> i" "i \<le> 9" using get_modcod_index [OF assms(1)] by simp_all
  have e: "e \<le> 896" using assms(6) by (simp add: const_defs)
  have ai: "modcod_to_annex_i ! (i - 1) < 16" and aj: "modcod_to_annex_i ! (j - 1) < 16"
    using i assms by (simp_all add: annex_less)
  have "(\<Sum>n = s..<e. vlsnr_generate_pattern (modcod_to_annex_i ! (i - 1)) ! n *
           vlsnr_generate_pattern (modcod_to_annex_i ! (i - 1)) ! n) = (\<Sum>n = s..<e. 1)"
    using e ai by (intro sum.cong refl) (simp add: pattern_square)
  then have own: "real_of_int (\<Sum>n = s..<e. vlsnr_generate_pattern (modcod_to_annex_i ! (i - 1)) ! n *
           vlsnr_generate_pattern (modcod_to_annex_i ! (i - 1)) ! n) = real (e - s)"
    by simp
  have other: "(\<Sum>n = 0..<896. vlsnr_generate_pattern (modcod_to_annex_i ! (i - 1)) ! n *
           vlsnr_generate_pattern (modcod_to_annex_i ! (j - 1)) ! n) = 0" if "i \<noteq> j"
  proof -
    have "modcod_to_annex_i ! (i - 1) \<noteq> modcod_to_annex_i ! (j - 1)"
      using that i assms(2,3) by (subst annex_inj) auto
    then show ?thesis
      using pattern_dot [OF ai aj] by (simp only: atLeast0LessThan if_False)
  qed
  note corr = header_corr [OF assms(1) _ _ assms(4) _ refl refl, of _ _ gi gq]
  show ?thesis
    unfolding const_defs corr [OF i e] corr [OF assms(2,3) le_refl] own
    by (intro conjI refl impI, drule other) (simp only: of_int_0 mult_zero_right)
qed

lemma vlsnr_headers_orthogonal_witness:
  "segment_corr (map (channel_gain 3 (-2))
       (dvbs2x_vlsnr_header_generate modcod_4 (replicate 900 \<lparr>re_i = 0, im_q = 0\<rparr>))) 2
     (do_sync_init ! (4 - 1)) 128 256 = (2 * wh_amp\<^sup>2 * 3 * 128, 2 * wh_amp\<^sup>2 * (-2) * 128) \<and>
   segment_corr (map (channel_gain 3 (-2))
       (dvbs2x_vlsnr_header_generate modcod_4 (replicate 900 \<lparr>re_i = 0, im_q = 0\<rparr>))) 2
     (do_sync_init ! (7 - 1)) 0 DVBS2X_VLSNR_WH_LEN = (0, 0)"
proof -
  have "dvbs2x_vlsnr_get_modcod 4 = Some modcod_4"
    by (simp add: dvbs2x_vlsnr_get_modcod_def const_defs vlsnr_modcod_table_def)
  from vlsnr_headers_orthogonal [OF this, of 7 "replicate 900 \<lparr>re_i = 0, im_q = 0\<rparr>" 128 256 3 "-2"]
  show ?thesis by (simp add: DVBS2X_VLSNR_HDR_LEN_def DVBS2X_VLSNR_WH_LEN_def del: diff_Suc_1)
qed

end
