(* ===== verification/RrcFilter.thy ===== *)
theory RrcFilter
  imports Dvb_Types
begin

text \<open>
  The root raised cosine filter of \<^verbatim>\<open>src/filter.c\<close>: the taps, and the two routines that run
  samples through the double-length delay line.  A \<^verbatim>\<open>double\<close> is a real number.  The lemmas show
  that the delay line holds the latest samples in order wherever its write pointer is, so
  that a filter just initialised or reset computes the convolution with its taps.
\<close>

section \<open>State and taps\<close>

definition DVBS2X_FILTER_MAX_TAPS :: nat where "DVBS2X_FILTER_MAX_TAPS = 256"

text \<open>\<^verbatim>\<open>M_PI\<close>, the double nearest to the circle number, is that number in exact arithmetic.\<close>

definition M_PI :: real where "M_PI = pi"

record dvbs2x_rrc_filter =
  flt_coeffs :: "real list"
  flt_delay_i :: "real list"
  flt_delay_q :: "real list"
  flt_num_taps :: nat
  flt_sps :: nat
  flt_rolloff :: real
  flt_delay_idx :: nat

definition rrc_impulse :: "real \<Rightarrow> real \<Rightarrow> real" where
  "rrc_impulse t rolloff =
     (let r = rolloff
      in if \<bar>t\<bar> < 1 / 10 ^ 10 then 1 - r + 4 * r / M_PI
         else
           let four_r_t = 4 * r * t
           in if \<bar>\<bar>t\<bar> - 1 / (4 * r)\<bar> < 1 / 10 ^ 10
              then r / sqrt 2 * ((1 + 2 / M_PI) * sin (M_PI / (4 * r)) +
                                 (1 - 2 / M_PI) * cos (M_PI / (4 * r)))
              else
                let num = sin (M_PI * t * (1 - r)) + four_r_t * cos (M_PI * t * (1 + r));
                    den = M_PI * t * (1 - four_r_t * four_r_t)
                in if \<bar>den\<bar> < 1 / 10 ^ 15 then 0 else num / den)"

text \<open>\<^verbatim>\<open>None\<close> for the filter is the null pointer; an error leaves the filter alone.\<close>

definition dvbs2x_rrc_filter_init ::
  "dvbs2x_rrc_filter option \<Rightarrow> real \<Rightarrow> nat \<Rightarrow> nat \<Rightarrow> int \<times> dvbs2x_rrc_filter option" where
  "dvbs2x_rrc_filter_init flt rolloff sps flt_span =
     (case flt of
        None \<Rightarrow> (-1, None)
      | Some f \<Rightarrow>
          if sps < 2 \<or> flt_span = 0 \<or> rolloff < 0.05 \<or> 0.35 < rolloff \<or>
             (DVBS2X_FILTER_MAX_TAPS - 1) div 2 div sps < flt_span
          then (-1, Some f)
          else
            let num_taps = 2 * flt_span * sps + 1
            in if DVBS2X_FILTER_MAX_TAPS < num_taps then (-1, Some f)
               else
                 let taps = map (\<lambda>i. rrc_impulse ((real i - real (num_taps - 1) / 2) / real sps) rolloff)
                              [0..<num_taps];
                     energy = fold (\<lambda>c e. e + c * c) taps 0;
                     norm = 1 / sqrt energy
                 in (0, Some (f\<lparr>flt_num_taps := num_taps, flt_sps := sps, flt_rolloff := rolloff,
                                flt_delay_idx := 0,
                                flt_coeffs := overwrite 0 (map (\<lambda>c. c * norm) taps) (flt_coeffs f),
                                flt_delay_i := replicate (DVBS2X_FILTER_MAX_TAPS * 2) 0,
                                flt_delay_q := replicate (DVBS2X_FILTER_MAX_TAPS * 2) 0\<rparr>)))"

definition dvbs2x_rrc_filter_reset :: "dvbs2x_rrc_filter \<Rightarrow> dvbs2x_rrc_filter" where
  "dvbs2x_rrc_filter_reset flt =
     flt\<lparr>flt_delay_i := replicate (DVBS2X_FILTER_MAX_TAPS * 2) 0,
         flt_delay_q := replicate (DVBS2X_FILTER_MAX_TAPS * 2) 0, flt_delay_idx := 0\<rparr>"

section \<open>Filtering\<close>

text \<open>One of the two delay lines: the sample is written to both halves, then the taps are applied to
  the window that starts after it.\<close>

definition line_write :: "nat \<Rightarrow> nat \<Rightarrow> real \<Rightarrow> real list \<Rightarrow> real list" where
  "line_write nt idx x d = d[idx := x, idx + nt := x]"

definition line_sum :: "nat \<Rightarrow> nat \<Rightarrow> real list \<Rightarrow> real list \<Rightarrow> real" where
  "line_sum nt idx c d =
     (let di = (\<lambda>k. d ! (idx + 1 + k))
      in fold (\<lambda>k s. s + (di (nt - 1 - k) + di k) * c ! k) [0..<nt div 2] 0 +
         di (nt div 2) * c ! (nt div 2))"

definition filter_one ::
  "dvbs2x_rrc_filter \<Rightarrow> dvbs2x_complex \<Rightarrow> dvbs2x_complex \<times> dvbs2x_rrc_filter" where
  "filter_one flt x =
     (let idx = flt_delay_idx flt;
          nt = flt_num_taps flt;
          delay_i = line_write nt idx (re_i x) (flt_delay_i flt);
          delay_q = line_write nt idx (im_q x) (flt_delay_q flt);
          si = line_sum nt idx (flt_coeffs flt) delay_i;
          sq = line_sum nt idx (flt_coeffs flt) delay_q;
          idx' = (if nt \<le> idx + 1 then 0 else idx + 1)
      in (\<lparr>re_i = si, im_q = sq\<rparr>,
          flt\<lparr>flt_delay_i := delay_i, flt_delay_q := delay_q, flt_delay_idx := idx'\<rparr>))"

text \<open>The samples written for a run of input samples, and the filter after it.\<close>

fun filter_run ::
  "dvbs2x_rrc_filter \<Rightarrow> dvbs2x_complex list \<Rightarrow> dvbs2x_complex list \<times> dvbs2x_rrc_filter" where
  "filter_run flt [] = ([], flt)"
| "filter_run flt (x # xs) =
     (let (y, flt') = filter_one flt x; (ys, flt'') = filter_run flt' xs in (y # ys, flt''))"

definition zero_symbol :: dvbs2x_complex where
  "zero_symbol = \<lparr>re_i = 0, im_q = 0\<rparr>"

text \<open>The inner loop over \<open>s\<close> feeds the symbol first and zeros after it.\<close>

fun dvbs2x_rrc_upsample ::
  "dvbs2x_rrc_filter \<Rightarrow> dvbs2x_complex list \<Rightarrow> dvbs2x_complex list \<times> dvbs2x_rrc_filter" where
  "dvbs2x_rrc_upsample flt [] = ([], flt)"
| "dvbs2x_rrc_upsample flt (x # xs) =
     (let (ys, flt') = filter_run flt (map (\<lambda>s. if s = 0 then x else zero_symbol) [0..<flt_sps flt]);
          (zs, flt'') = dvbs2x_rrc_upsample flt' xs
      in (ys @ zs, flt''))"

definition dvbs2x_rrc_filter_apply ::
  "dvbs2x_rrc_filter \<Rightarrow> dvbs2x_complex list \<Rightarrow> dvbs2x_complex list \<times> dvbs2x_rrc_filter" where
  "dvbs2x_rrc_filter_apply flt input = filter_run flt input"

section \<open>The delay line\<close>

definition line_ok :: "nat \<Rightarrow> real list \<Rightarrow> bool" where
  "line_ok nt d \<longleftrightarrow> 2 * nt \<le> length d \<and> (\<forall>i < nt. d ! (i + nt) = d ! i)"

text \<open>The sample that was written \<open>k\<close> steps before the latest one.\<close>

definition recent :: "nat \<Rightarrow> nat \<Rightarrow> real list \<Rightarrow> nat \<Rightarrow> real" where
  "recent nt idx d k = d ! (idx + nt - 1 - k)"

abbreviation next_idx :: "nat \<Rightarrow> nat \<Rightarrow> nat" where
  "next_idx nt idx \<equiv> (if nt \<le> idx + 1 then 0 else idx + 1)"

lemma line_write_ok: "line_ok nt d \<Longrightarrow> idx < nt \<Longrightarrow> line_ok nt (line_write nt idx x d)"
  by (auto simp: line_ok_def line_write_def nth_list_update)

lemma line_write_recent:
  assumes "line_ok nt d" "idx < nt" "k < nt"
  shows "recent nt (next_idx nt idx) (line_write nt idx x d) k =
    (if k = 0 then x else recent nt idx d (k - 1))"
proof (cases "nt \<le> idx + 1")
  case False
  then show ?thesis
    using assms by (auto simp: recent_def line_write_def line_ok_def nth_list_update)
next
  case True
  then have idx: "nt = idx + 1" using assms(2) by simp
  have "d ! (idx - k) = d ! (idx + nt - k)" if "0 < k"
  proof -
    have "idx - k < nt" "idx - k + nt = idx + nt - k" using assms(3) idx that by auto
    then show ?thesis using assms(1) unfolding line_ok_def by metis
  qed
  then show ?thesis
    using assms idx by (auto simp: recent_def line_write_def line_ok_def nth_list_update)
qed

lemma line_window:
  assumes "line_ok nt d" "idx < nt" "k < nt"
  shows "line_write nt idx x d ! (idx + nt - k) = recent nt (next_idx nt idx) (line_write nt idx x d) k"
proof -
  have w: "line_ok nt (line_write nt idx x d)" by (rule line_write_ok [OF assms(1,2)])
  show ?thesis
  proof (cases "nt \<le> idx + 1")
    case True
    then have "idx + nt - k = (nt - 1 - k) + nt" "nt - 1 - k < nt" using assms by auto
    then show ?thesis using w True by (auto simp: recent_def line_ok_def)
  qed (simp add: recent_def)
qed

lemma fold_add_sum: "fold (\<lambda>k s. s + f k) ks s = s + sum_list (map f ks)" for s :: real
  by (induction ks arbitrary: s) simp_all

lemma symmetric_sum:
  fixes c h :: "nat \<Rightarrow> real"
  assumes "n = 2 * m + 1" "\<And>k. k < n \<Longrightarrow> c (n - 1 - k) = c k"
  shows "(\<Sum>k<m. (h k + h (n - 1 - k)) * c k) + h m * c m = (\<Sum>k<n. c k * h k)"
proof -
  have "(\<Sum>k<n. c k * h k) = (\<Sum>k<m. c k * h k) + (\<Sum>k = m..<n. c k * h k)"
    using assms(1) by (simp add: lessThan_atLeast0 sum.atLeastLessThan_concat)
  also have "(\<Sum>k = m..<n. c k * h k) = c m * h m + (\<Sum>k = Suc m..<n. c k * h k)"
    using assms(1) by (simp add: sum.atLeast_Suc_lessThan)
  also have "(\<Sum>k = Suc m..<n. c k * h k) = (\<Sum>k<m. c (n - 1 - k) * h (n - 1 - k))"
    by (rule sum.reindex_bij_witness [where i = "\<lambda>k. n - 1 - k" and j = "\<lambda>k. n - 1 - k"])
       (use assms(1) in auto)
  also have "\<dots> = (\<Sum>k<m. c k * h (n - 1 - k))"
    using assms by (intro sum.cong) auto
  finally show ?thesis by (simp add: distrib_left sum.distrib mult.commute [of _ "c _"])
qed

text \<open>With an odd number of symmetric taps the folded sum is the whole dot product.\<close>

definition taps_ok :: "nat \<Rightarrow> real list \<Rightarrow> bool" where
  "taps_ok nt c \<longleftrightarrow> odd nt \<and> (\<forall>k < nt. c ! (nt - 1 - k) = c ! k)"

lemma line_sum_dot:
  assumes "line_ok nt d" "idx < nt" "taps_ok nt c"
  shows "line_sum nt idx c (line_write nt idx x d) =
    (\<Sum>k<nt. c ! k * recent nt (next_idx nt idx) (line_write nt idx x d) k)"
proof -
  let ?d = "line_write nt idx x d" and ?m = "nt div 2"
  let ?h = "recent nt (next_idx nt idx) ?d"
  have m: "nt = 2 * ?m + 1" using assms(3) by (simp add: taps_ok_def)
  have w: "?d ! (idx + 1 + j) = ?h (nt - 1 - j)" if "j < nt" for j
  proof -
    have "idx + nt - (nt - 1 - j) = idx + 1 + j" using that by simp
    then show ?thesis using line_window [OF assms(1,2), of "nt - 1 - j" x] that by simp
  qed
  have mirror: "nt - 1 - (nt - 1 - k) = k" "nt - 1 - k < nt" "k < nt" if "k < ?m" for k
    using that m by linarith+
  have mid: "nt - 1 - ?m = ?m" "?m < nt" using m by linarith+
  have "line_sum nt idx c ?d = (\<Sum>k<?m. (?h k + ?h (nt - 1 - k)) * c ! k) + ?h ?m * c ! ?m"
  proof -
    have "?d ! (idx + 1 + (nt - 1 - k)) = ?h k" "?d ! (idx + 1 + k) = ?h (nt - 1 - k)" if "k < ?m" for k
      using w [of "nt - 1 - k"] w [of k] mirror [OF that] by simp_all
    then have "(\<Sum>k<?m. (?d ! (idx + 1 + (nt - 1 - k)) + ?d ! (idx + 1 + k)) * c ! k) =
      (\<Sum>k<?m. (?h k + ?h (nt - 1 - k)) * c ! k)"
      by (intro sum.cong refl) (simp only: lessThan_iff)
    then show ?thesis
      unfolding line_sum_def Let_def fold_add_sum w [OF mid(2)] mid(1)
      by (simp only: interv_sum_list_conv_sum_set_nat set_upt atLeast0LessThan add_0)
  qed
  also have "\<dots> = (\<Sum>k<nt. c ! k * ?h k)"
    by (rule symmetric_sum [OF m]) (use assms(3) in \<open>simp add: taps_ok_def\<close>)
  finally show ?thesis .
qed

text \<open>What a filter that has seen the samples \<open>past\<close> (latest first, zeros before them) keeps.\<close>

definition past_sample :: "real list \<Rightarrow> nat \<Rightarrow> real" where
  "past_sample past k = (if k < length past then past ! k else 0)"

definition filter_ok :: "dvbs2x_complex list \<Rightarrow> dvbs2x_rrc_filter \<Rightarrow> bool" where
  "filter_ok past flt \<longleftrightarrow>
     (let nt = flt_num_taps flt; idx = flt_delay_idx flt
      in idx < nt \<and> taps_ok nt (flt_coeffs flt) \<and>
         line_ok nt (flt_delay_i flt) \<and> line_ok nt (flt_delay_q flt) \<and>
         (\<forall>k < nt. recent nt idx (flt_delay_i flt) k = past_sample (map re_i past) k) \<and>
         (\<forall>k < nt. recent nt idx (flt_delay_q flt) k = past_sample (map im_q past) k))"

definition fir :: "dvbs2x_rrc_filter \<Rightarrow> real list \<Rightarrow> real" where
  "fir flt past = (\<Sum>k < flt_num_taps flt. flt_coeffs flt ! k * past_sample past k)"

lemma past_sample_Cons: "past_sample (x # past) k = (if k = 0 then x else past_sample past (k - 1))"
  by (cases k) (simp_all add: past_sample_def)

lemma filter_one_ok:
  assumes "filter_ok past flt"
  shows "filter_ok (x # past) (snd (filter_one flt x)) \<and>
    fst (filter_one flt x) =
      \<lparr>re_i = fir flt (map re_i (x # past)), im_q = fir flt (map im_q (x # past))\<rparr> \<and>
    flt_num_taps (snd (filter_one flt x)) = flt_num_taps flt \<and>
    flt_coeffs (snd (filter_one flt x)) = flt_coeffs flt \<and>
    flt_sps (snd (filter_one flt x)) = flt_sps flt"
proof -
  let ?nt = "flt_num_taps flt" and ?idx = "flt_delay_idx flt"
  have f: "?idx < ?nt" "taps_ok ?nt (flt_coeffs flt)"
    "line_ok ?nt (flt_delay_i flt)" "line_ok ?nt (flt_delay_q flt)"
    "\<And>k. k < ?nt \<Longrightarrow> recent ?nt ?idx (flt_delay_i flt) k = past_sample (map re_i past) k"
    "\<And>k. k < ?nt \<Longrightarrow> recent ?nt ?idx (flt_delay_q flt) k = past_sample (map im_q past) k"
    using assms by (simp_all add: filter_ok_def Let_def)
  have i: "recent ?nt (next_idx ?nt ?idx) (line_write ?nt ?idx (re_i x) (flt_delay_i flt)) k =
      past_sample (map re_i (x # past)) k" if "k < ?nt" for k
    using line_write_recent [OF f(3,1) that] f(5) [of "k - 1"] that by (simp add: past_sample_Cons)
  have q: "recent ?nt (next_idx ?nt ?idx) (line_write ?nt ?idx (im_q x) (flt_delay_q flt)) k =
      past_sample (map im_q (x # past)) k" if "k < ?nt" for k
    using line_write_recent [OF f(4,1) that] f(6) [of "k - 1"] that by (simp add: past_sample_Cons)
  have next_less: "next_idx ?nt ?idx < ?nt" using f(1) by auto
  have "filter_ok (x # past) (snd (filter_one flt x))"
    unfolding filter_ok_def Let_def filter_one_def
    using next_less f(2) line_write_ok [OF f(3,1)] line_write_ok [OF f(4,1)] i q by simp
  moreover have "fst (filter_one flt x) =
      \<lparr>re_i = fir flt (map re_i (x # past)), im_q = fir flt (map im_q (x # past))\<rparr>"
    unfolding filter_one_def Let_def line_sum_dot [OF f(3,1,2)] line_sum_dot [OF f(4,1,2)] fir_def
      fst_conv
    by (intro arg_cong2 [where f = "\<lambda>a b. \<lparr>re_i = a, im_q = b\<rparr>"] sum.cong refl)
       (simp_all only: i q lessThan_iff)
  ultimately show ?thesis by (simp add: filter_one_def Let_def)
qed

text \<open>A run computes the convolution, and keeps the invariant.\<close>

lemma filter_run_ok:
  "filter_ok past flt \<Longrightarrow>
     filter_ok (rev xs @ past) (snd (filter_run flt xs)) \<and>
     fst (filter_run flt xs) =
       map (\<lambda>n. \<lparr>re_i = fir flt (map re_i (rev (take (Suc n) xs) @ past)),
                  im_q = fir flt (map im_q (rev (take (Suc n) xs) @ past))\<rparr>) [0..<length xs] \<and>
     flt_num_taps (snd (filter_run flt xs)) = flt_num_taps flt \<and>
     flt_coeffs (snd (filter_run flt xs)) = flt_coeffs flt \<and>
     flt_sps (snd (filter_run flt xs)) = flt_sps flt"
proof (induction xs arbitrary: past flt)
  case (Cons x xs)
  note one = filter_one_ok [OF Cons.prems, of x]
  have fir_eq: "fir (snd (filter_one flt x)) = fir flt" using one by (simp add: fir_def fun_eq_iff)
  have IH: "filter_ok (rev xs @ x # past) (snd (filter_run (snd (filter_one flt x)) xs)) \<and>
     fst (filter_run (snd (filter_one flt x)) xs) =
       map (\<lambda>n. \<lparr>re_i = fir flt (map re_i (rev (take (Suc n) xs) @ x # past)),
                  im_q = fir flt (map im_q (rev (take (Suc n) xs) @ x # past))\<rparr>) [0..<length xs] \<and>
     flt_num_taps (snd (filter_run (snd (filter_one flt x)) xs)) = flt_num_taps flt \<and>
     flt_coeffs (snd (filter_run (snd (filter_one flt x)) xs)) = flt_coeffs flt \<and>
     flt_sps (snd (filter_run (snd (filter_one flt x)) xs)) = flt_sps flt"
    using Cons.IH [of "x # past" "snd (filter_one flt x)"] one by (simp add: fir_eq)
  then show ?case
    using one by (simp add: split_beta map_upt_Suc del: upt_Suc)
qed simp

lemma filter_run_append:
  "filter_run flt (xs @ ys) =
     (let (us, flt') = filter_run flt xs; (vs, flt'') = filter_run flt' ys in (us @ vs, flt''))"
  by (induction xs arbitrary: flt) (simp_all add: split_beta)

definition zero_stuffed :: "nat \<Rightarrow> dvbs2x_complex list \<Rightarrow> dvbs2x_complex list" where
  "zero_stuffed sps xs =
     concat (map (\<lambda>x. map (\<lambda>s. if s = 0 then x else zero_symbol) [0..<sps]) xs)"

text \<open>Upsampling is filtering the symbols with zeros between them.\<close>

lemma upsample_run:
  "filter_ok past flt \<Longrightarrow> dvbs2x_rrc_upsample flt xs = filter_run flt (zero_stuffed (flt_sps flt) xs)"
proof (induction xs arbitrary: past flt)
  case (Cons x xs)
  let ?z = "map (\<lambda>s. if s = 0 then x else zero_symbol) [0..<flt_sps flt]"
  have r: "filter_ok (rev ?z @ past) (snd (filter_run flt ?z))"
    "flt_sps (snd (filter_run flt ?z)) = flt_sps flt"
    using filter_run_ok [OF Cons.prems, of ?z] by blast+
  then show ?case
    using Cons.IH [OF r(1)] by (simp add: zero_stuffed_def filter_run_append split_beta)
qed (simp add: zero_stuffed_def)

lemma length_zero_stuffed: "length (zero_stuffed sps xs) = length xs * sps"
  by (induction xs) (simp_all add: zero_stuffed_def)

section \<open>The taps\<close>

lemma rrc_impulse_even: "rrc_impulse (- t) r = rrc_impulse t r"
  by (simp add: rrc_impulse_def Let_def minus_divide_left del: divide_minus_left)

lemma line_ok_zero: "2 * nt \<le> n \<Longrightarrow> line_ok nt (replicate n 0)"
  by (simp add: line_ok_def)

lemma recent_zero: "idx + nt \<le> n \<Longrightarrow> k < nt \<Longrightarrow> recent nt idx (replicate n 0) k = 0"
  by (simp add: recent_def)

lemma fold_energy: "fold (\<lambda>c e. e + c * c) cs e = e + (\<Sum>k<length cs. (cs ! k)\<^sup>2)" for e :: real
proof (induction cs arbitrary: e)
  case (Cons c cs)
  have "(\<Sum>k<Suc (length cs). ((c # cs) ! k)\<^sup>2) = c\<^sup>2 + (\<Sum>k<length cs. (cs ! k)\<^sup>2)"
    by (simp only: sum.lessThan_Suc_shift nth_Cons_0 nth_Cons_Suc)
  then show ?case using Cons by (simp add: power2_eq_square)
qed simp

lemma rrc_filter_init_ok:
  assumes "dvbs2x_rrc_filter_init (Some f) rolloff sps sp = (0, Some flt)"
    "length (flt_coeffs f) = DVBS2X_FILTER_MAX_TAPS"
  shows "filter_ok [] flt" "flt_num_taps flt = 2 * sp * sps + 1" "flt_num_taps flt \<le> DVBS2X_FILTER_MAX_TAPS"
    "flt_sps flt = sps" "(\<Sum>k < flt_num_taps flt. (flt_coeffs flt ! k)\<^sup>2) = 1"
proof -
  define nt where "nt = 2 * sp * sps + 1"
  define tm where "tm = (\<lambda>i. (real i - real (nt - 1) / 2) / real sps)"
  define taps where "taps = map (\<lambda>i. rrc_impulse (tm i) rolloff) [0..<nt]"
  define nrm where "nrm = 1 / sqrt (fold (\<lambda>c e. e + c * c) taps 0)"
  have g: "2 \<le> sps" "0 < sp" "0.05 \<le> rolloff" "rolloff \<le> 0.35" "nt \<le> 256"
    and flt: "flt = f\<lparr>flt_num_taps := nt, flt_sps := sps, flt_rolloff := rolloff, flt_delay_idx := 0,
       flt_coeffs := overwrite 0 (map (\<lambda>c. c * nrm) taps) (flt_coeffs f),
       flt_delay_i := replicate 512 0, flt_delay_q := replicate 512 0\<rparr>"
    using assms(1)
    by (auto simp: dvbs2x_rrc_filter_init_def Let_def DVBS2X_FILTER_MAX_TAPS_def nt_def tm_def taps_def
        nrm_def not_less split: if_splits)
  have len: "length taps = nt" by (simp add: taps_def)
  have taps: "taps ! k = rrc_impulse (tm k) rolloff" if "k < nt" for k
    using that by (simp only: taps_def nth_map_upt0)
  have c: "flt_coeffs flt ! k = taps ! k * nrm" if "k < nt" for k
    using that assms(2) g(5) len by (simp add: flt nth_overwrite DVBS2X_FILTER_MAX_TAPS_def)
  have sym: "flt_coeffs flt ! (nt - 1 - k) = flt_coeffs flt ! k" if "k < nt" for k
  proof -
    have "tm (nt - 1 - k) = - tm k"
      using that g(1) by (simp add: tm_def of_nat_diff field_simps)
    then show ?thesis using that by (simp add: c taps rrc_impulse_even)
  qed
  let ?e = "\<Sum>k<nt. (taps ! k)\<^sup>2"
  have "0 < taps ! (sp * sps)"
  proof -
    have "tm (sp * sps) = 0" "sp * sps < nt" by (simp_all add: tm_def nt_def)
    then show ?thesis using g(3,4) by (simp add: taps rrc_impulse_def M_PI_def add_pos_nonneg)
  qed
  then have "0 < (taps ! (sp * sps))\<^sup>2" by simp
  also have "\<dots> \<le> ?e" by (rule member_le_sum) (simp_all add: nt_def)
  finally have e: "0 < ?e" .
  have "nrm = 1 / sqrt ?e" by (simp add: nrm_def fold_energy len)
  then have n2: "nrm\<^sup>2 = 1 / ?e" using e by (simp add: power_divide)
  have "(\<Sum>k<nt. (flt_coeffs flt ! k)\<^sup>2) = (\<Sum>k<nt. (taps ! k)\<^sup>2 * nrm\<^sup>2)"
    by (intro sum.cong refl) (simp add: c power_mult_distrib)
  also have "\<dots> = ?e * nrm\<^sup>2" by (simp only: sum_distrib_right)
  also have "\<dots> = 1" using e by (simp add: n2)
  finally show "(\<Sum>k < flt_num_taps flt. (flt_coeffs flt ! k)\<^sup>2) = 1" by (simp add: flt)
  show "flt_num_taps flt = 2 * sp * sps + 1" "flt_num_taps flt \<le> DVBS2X_FILTER_MAX_TAPS"
    "flt_sps flt = sps"
    using g(5) by (simp_all add: flt nt_def DVBS2X_FILTER_MAX_TAPS_def)
  have nt: "flt_num_taps flt = nt" "flt_delay_idx flt = 0" by (simp_all add: flt)
  have "taps_ok nt (flt_coeffs flt)" using sym by (simp add: taps_ok_def nt_def)
  then show "filter_ok [] flt"
    using g(5) nt_def unfolding filter_ok_def Let_def nt
    by (simp add: flt line_ok_zero recent_zero past_sample_def)
qed

lemma filter_reset_ok:
  assumes "filter_ok past flt" "flt_num_taps flt \<le> DVBS2X_FILTER_MAX_TAPS"
  shows "filter_ok [] (dvbs2x_rrc_filter_reset flt)"
  using assms unfolding filter_ok_def Let_def dvbs2x_rrc_filter_reset_def DVBS2X_FILTER_MAX_TAPS_def
  by (simp add: line_ok_zero recent_zero past_sample_def)

section \<open>Properties\<close>

text \<open>C36: an initialised filter has unit energy, and after a reset (from any state its use leads to)
  it computes, at every sample, the convolution of its taps with the input so far; the transmit
  side does the same with \<open>sps - 1\<close> zeros after each symbol.  The folding of symmetric taps
  and the wrapped write pointer of the delay line are invisible.\<close>

theorem rrc_filter_convolves:
  assumes "dvbs2x_rrc_filter_init (Some f) rolloff sps sp = (0, Some flt0)"
    "length (flt_coeffs f) = DVBS2X_FILTER_MAX_TAPS"
    "flt = dvbs2x_rrc_filter_reset (snd (filter_run flt0 before))"
  shows "(\<Sum>k < flt_num_taps flt. (flt_coeffs flt ! k)\<^sup>2) = 1 \<and>
    fst (dvbs2x_rrc_filter_apply flt input) =
      map (\<lambda>n. \<lparr>re_i = fir flt (map re_i (rev (take (Suc n) input))),
                 im_q = fir flt (map im_q (rev (take (Suc n) input)))\<rparr>) [0..<length input] \<and>
    fst (dvbs2x_rrc_upsample flt input) =
      fst (dvbs2x_rrc_filter_apply flt (zero_stuffed sps input)) \<and>
    length (fst (dvbs2x_rrc_upsample flt input)) = length input * sps"
proof -
  note f0 = rrc_filter_init_ok [OF assms(1,2)]
  note run = filter_run_ok [OF f0(1), of before]
  have ok: "filter_ok [] flt" 
    unfolding assms(3) using run f0(3) by (intro filter_reset_ok) auto
  have same: "flt_coeffs flt = flt_coeffs flt0" "flt_num_taps flt = flt_num_taps flt0" "flt_sps flt = sps"
    using run f0(4) by (simp_all add: assms(3) dvbs2x_rrc_filter_reset_def)
  show ?thesis
    using f0(5) filter_run_ok [OF ok] upsample_run [OF ok]
    by (simp add: same dvbs2x_rrc_filter_apply_def length_zero_stuffed)
qed

theorem rrc_filter_convolves_witness:
  "\<exists>flt0. dvbs2x_rrc_filter_init (Some \<lparr>flt_coeffs = replicate 256 0, flt_delay_i = [], flt_delay_q = [],
       flt_num_taps = 0, flt_sps = 0, flt_rolloff = 0, flt_delay_idx = 7\<rparr>) 0.2 4 16 = (0, Some flt0) \<and>
     (let flt = dvbs2x_rrc_filter_reset (snd (filter_run flt0 [zero_symbol])) in
      length (fst (dvbs2x_rrc_upsample flt [zero_symbol, zero_symbol])) = 8)"
proof -
  let ?f = "\<lparr>flt_coeffs = replicate 256 0, flt_delay_i = [], flt_delay_q = [],
       flt_num_taps = 0, flt_sps = 0, flt_rolloff = 0, flt_delay_idx = 7\<rparr>"
  obtain flt0 where f: "dvbs2x_rrc_filter_init (Some ?f) 0.2 4 16 = (0, Some flt0)"
    by (simp add: dvbs2x_rrc_filter_init_def Let_def DVBS2X_FILTER_MAX_TAPS_def)
  then show ?thesis
    using rrc_filter_convolves [OF f _ refl, of "[zero_symbol]" "[zero_symbol, zero_symbol]"]
    by (auto simp: Let_def DVBS2X_FILTER_MAX_TAPS_def simp del: dvbs2x_rrc_upsample.simps filter_run.simps)
qed

end
