(* ===== verification/Modulator.thy ===== *)
theory Modulator
  imports BbFrame Bch Ldpc Mapper Layout Scrambler PlHeader WhHeader RrcFilter
begin

text \<open>
  The transmit chain of \<^verbatim>\<open>src/modulator_top.c\<close>: the modulator context, its initialisation, the
  assembly of a PL frame at symbol rate (BCH, LDPC, shortening and puncturing, mapping, headers,
  pilots, scrambling), and the layer that adds pulse shaping.  Every call of a component is a call
  of that component's definition.  A null pointer is \<open>None\<close>; \<open>alloc n\<close> says whether
  \<^verbatim>\<open>malloc(n)\<close> succeeds; an output array is passed in with its contents and returned
  updated.  A function's result has its status (\<open>None\<close> is \<^verbatim>\<open>DVBS2X_OK\<close>), the output
  array, the length stored through the length pointer, and the context.
\<close>

section \<open>Context\<close>

definition DVBS2X_GOLD_CODE_MAX :: nat where "DVBS2X_GOLD_CODE_MAX = 262141"

record dvbs2x_mod_cfg =
  cfg_modcod :: "dvbs2x_modcod option"
  cfg_rolloff :: real
  cfg_sps :: nat
  cfg_pl_scrambling_idx :: nat

record dvbs2x_modulator =
  mod_cfg :: dvbs2x_mod_cfg
  mod_bb_ctx :: bb_frame_ctx
  mod_bch_enc :: dvbs2x_bch_encoder
  mod_ldpc_enc :: dvbs2x_ldpc_encoder
  mod_scrambler :: dvbs2x_scrambler
  mod_tx_filter :: dvbs2x_rrc_filter

text \<open>The context after \<^verbatim>\<open>memset(mod, 0, sizeof(*mod))\<close>.\<close>

definition filter_zero :: dvbs2x_rrc_filter where
  "filter_zero =
     \<lparr>flt_coeffs = replicate DVBS2X_FILTER_MAX_TAPS 0,
      flt_delay_i = replicate (DVBS2X_FILTER_MAX_TAPS * 2) 0,
      flt_delay_q = replicate (DVBS2X_FILTER_MAX_TAPS * 2) 0,
      flt_num_taps = 0, flt_sps = 0, flt_rolloff = 0, flt_delay_idx = 0\<rparr>"

definition modulator_zero :: dvbs2x_modulator where
  "modulator_zero =
     \<lparr>mod_cfg = \<lparr>cfg_modcod = None, cfg_rolloff = 0, cfg_sps = 0, cfg_pl_scrambling_idx = 0\<rparr>,
      mod_bb_ctx = \<lparr>ctx_k_bch = 0, ctx_stream_type = 0, ctx_upl = 0, ctx_dfl = 0, ctx_ro = 0\<rparr>,
      mod_bch_enc = \<lparr>enc_t = 0, enc_n = 0, enc_k = 0, enc_parity_len = 0, enc_gf_m = 0,
                     enc_gen_poly = replicate (DVBS2X_BCH_MAX_PARITY + 1) 0\<rparr>,
      mod_ldpc_enc = \<lparr>enc_code = \<lparr>code_n = 0, code_k = 0, code_q = 0, code_num_groups = 0,
                                   code_table = []\<rparr>,
                      enc_xp = 0, enc_p_period = 0, enc_xs = 0\<rparr>,
      mod_scrambler = \<lparr>x_reg = 0, y_reg = 0, gold_idx = 0\<rparr>,
      mod_tx_filter = filter_zero\<rparr>"

text \<open>The outer \<open>None\<close> would be an initialisation that does not return (the BCH encoder's marking
  loop); \<open>modulator_init_spec\<close> excludes it.\<close>

definition dvbs2x_modulator_init ::
  "(nat \<Rightarrow> bool) \<Rightarrow> dvbs2x_modulator option \<Rightarrow> nat \<Rightarrow> real \<Rightarrow> nat \<Rightarrow> nat \<Rightarrow>
   (dvbs2x_error option \<times> dvbs2x_modulator option) option" where
  "dvbs2x_modulator_init alloc mod_p modcod_idx rolloff sps pl_scrambling_idx =
     (case mod_p of
        None \<Rightarrow> Some (Some ERR_PARAM, None)
      | Some _ \<Rightarrow>
          (case dvbs2x_vlsnr_get_modcod modcod_idx of
             None \<Rightarrow> Some (Some ERR_PARAM, Some modulator_zero)
           | Some mc \<Rightarrow>
               if sps < 2 \<or> rolloff < 0.05 \<or> 0.35 < rolloff \<or> DVBS2X_GOLD_CODE_MAX < pl_scrambling_idx
               then Some (Some ERR_PARAM, Some modulator_zero)
               else
                 let m = modulator_zero\<lparr>
                       mod_cfg := \<lparr>cfg_modcod = Some mc, cfg_rolloff = rolloff, cfg_sps = sps,
                                   cfg_pl_scrambling_idx = pl_scrambling_idx\<rparr>,
                       mod_bb_ctx := dvbs2x_bb_frame_init mc DVBS2X_STREAM_GS\<rparr>
                 in (case dvbs2x_bch_encoder_init
                       (alloc (2 * (2 ^ frame_gf_m (mc_frame_type mc) - 1) * 4)) (mod_bch_enc m) mc of
                       None \<Rightarrow> None
                     | Some (ret, bch) \<Rightarrow>
                         let m = m\<lparr>mod_bch_enc := bch\<rparr>
                         in if ret < 0 then Some (Some ERR_PARAM, Some m)
                            else
                              (case dvbs2x_ldpc_encoder_init mc of
                                 None \<Rightarrow> Some (Some ERR_PARAM, Some m)
                               | Some ldpc \<Rightarrow>
                                   let m = m\<lparr>mod_ldpc_enc := ldpc,
                                             mod_scrambler := dvbs2x_scrambler_init pl_scrambling_idx\<rparr>;
                                       (ret, flt) = dvbs2x_rrc_filter_init (Some (mod_tx_filter m))
                                                      rolloff sps 16;
                                       m = m\<lparr>mod_tx_filter := the flt\<rparr>
                                   in if ret < 0 then Some (Some ERR_PARAM, Some m)
                                      else Some (None, Some m)))))"

section \<open>Shortening and puncturing\<close>

text \<open>The loop over the parity bits: \<^verbatim>\<open>p_idx\<close> counts the positions punctured so far.\<close>

definition punctured_next :: "dvbs2x_modcod \<Rightarrow> nat \<Rightarrow> nat \<Rightarrow> bool" where
  "punctured_next mc p_idx i \<longleftrightarrow>
     0 < mc_xp mc \<and> p_idx < mc_xp mc \<and> i = p_idx * mc_p_period mc"

fun puncture_loop :: "dvbs2x_modcod \<Rightarrow> u8 list \<Rightarrow> nat list \<Rightarrow> nat \<Rightarrow> u8 list" where
  "puncture_loop mc cw [] p_idx = []"
| "puncture_loop mc cw (i # is) p_idx =
     (if punctured_next mc p_idx i then puncture_loop mc cw is (p_idx + 1)
      else cw ! (mc_k_ldpc mc + i) # puncture_loop mc cw is p_idx)"

definition shorten_puncture :: "dvbs2x_modcod \<Rightarrow> u8 list \<Rightarrow> u8 list" where
  "shorten_puncture mc cw =
     map (\<lambda>i. cw ! i) [mc_xs mc..<mc_k_ldpc mc] @
     puncture_loop mc cw [0..<mc_fec_len mc - mc_k_ldpc mc] 0"

section \<open>The PL frame\<close>

record modulate_result =
  mr_status :: "dvbs2x_error option"
  mr_output :: "dvbs2x_complex list"
  mr_len :: "nat option"
  mr_mod :: "dvbs2x_modulator option"

text \<open>The mapping of the coded bits: the symbols, or \<open>None\<close> when an allocation fails
  (\<^verbatim>\<open>sizeof(struct dvbs2x_complex)\<close> is 16).\<close>

definition map_coded_bits ::
  "(nat \<Rightarrow> bool) \<Rightarrow> dvbs2x_modcod \<Rightarrow> nat \<Rightarrow> u8 list \<Rightarrow> dvbs2x_complex list option" where
  "map_coded_bits alloc mc tx_coded tx_bits =
     (if mc_modulation mc = DVBS2X_MOD_QPSK then
        let num_tx_sym = tx_coded div 2
        in if \<not> alloc (num_tx_sym * 16) then None
           else Some (dvbs2x_mod_qpsk tx_bits num_tx_sym)
      else if mc_has_spread mc then
        let num_tx_sym = tx_coded * 2
        in if \<not> alloc num_tx_sym \<or> \<not> alloc (num_tx_sym * 16) then None
           else Some (dvbs2x_mod_pi2bpsk (dvbs2x_mod_spread_bits tx_bits tx_coded) num_tx_sym)
      else
        let num_tx_sym = tx_coded
        in if \<not> alloc (num_tx_sym * 16) then None
           else Some (dvbs2x_mod_pi2bpsk tx_bits num_tx_sym))"

definition dvbs2x_modulate_bbframe_symbols_ex ::
  "(nat \<Rightarrow> bool) \<Rightarrow> dvbs2x_modulator option \<Rightarrow> u8 list option \<Rightarrow> dvbs2x_complex list option \<Rightarrow>
   nat \<Rightarrow> bool \<Rightarrow> modulate_result" where
  "dvbs2x_modulate_bbframe_symbols_ex alloc mod_p bbframe_p symbols_p symbol_capacity sym_len_ok =
     (let old = (case symbols_p of None \<Rightarrow> [] | Some s \<Rightarrow> s);
          fail = (\<lambda>e n. \<lparr>mr_status = Some e, mr_output = old, mr_len = n, mr_mod = mod_p\<rparr>)
      in if \<not> sym_len_ok then fail ERR_PARAM None
         else case (mod_p, bbframe_p, symbols_p) of
           (Some md, Some bbframe, Some symbols) \<Rightarrow>
             (case cfg_modcod (mod_cfg md) of
                None \<Rightarrow> fail ERR_PARAM (Some 0)
              | Some mc \<Rightarrow>
                  let hdr_len = DVBS2X_PLHEADER_LEN + DVBS2X_VLSNR_HDR_LEN;
                      tx_coded = dvbs2x_tx_coded_bits mc
                  in if \<not> alloc (mc_n_bch mc) \<or> \<not> alloc (mc_k_ldpc mc) \<or> \<not> alloc (mc_fec_len mc) \<or>
                        \<not> alloc tx_coded
                     then fail ERR_NOMEM (Some 0)
                     else
                       let bch_out = dvbs2x_bch_encode (mod_bch_enc md) bbframe;
                           ldpc_info = replicate (mc_xs mc) 0 @ take (mc_n_bch mc) bch_out;
                           ldpc_cw = dvbs2x_ldpc_encode (mod_ldpc_enc md) ldpc_info;
                           tx_bits = shorten_puncture mc ldpc_cw
                       in (case dvbs2x_vlsnr_build_layout alloc mc of
                             Inl _ \<Rightarrow> fail ERR_NOMEM (Some 0)
                           | Inr lay \<Rightarrow>
                               (case map_coded_bits alloc mc tx_coded tx_bits of
                                  None \<Rightarrow> fail ERR_NOMEM (Some 0)
                                | Some tx_sym \<Rightarrow>
                                    if length tx_sym \<noteq> lay_num_data lay then fail ERR_PARAM (Some 0)
                                    else
                                      let sym_len = hdr_len + lay_field_len lay
                                      in if symbol_capacity < sym_len then fail ERR_SHORT (Some sym_len)
                                         else
                                           let s = overwrite 0 (dvbs2x_plheader_generate (mc_pls_code mc)) symbols;
                                               s = take DVBS2X_PLHEADER_LEN s @
                                                   dvbs2x_vlsnr_header_generate mc (drop DVBS2X_PLHEADER_LEN s);
                                               s = overwrite hdr_len (fst (dvbs2x_pilot_insert tx_sym lay)) s;
                                               scr = dvbs2x_scrambler_reset (mod_scrambler md);
                                               scr = dvbs2x_scrambler_seek scr DVBS2X_VLSNR_HDR_LEN;
                                               (field, scr) = dvbs2x_scramble_field scr (drop hdr_len s)
                                                 (lay_field_len lay) (lay_is_pilot lay)
                                                 (mc_modulation mc = DVBS2X_MOD_QPSK)
                                           in \<lparr>mr_status = None, mr_output = take hdr_len s @ field,
                                               mr_len = Some sym_len,
                                               mr_mod = Some (md\<lparr>mod_scrambler := scr\<rparr>)\<rparr>)))
         | _ \<Rightarrow> fail ERR_PARAM (Some 0))"

text \<open>\<^verbatim>\<open>bbframe\<close> is fresh memory; building a frame writes every bit of it, so its first contents
  do not matter.\<close>

definition dvbs2x_modulate_symbols_ex ::
  "(nat \<Rightarrow> bool) \<Rightarrow> dvbs2x_modulator option \<Rightarrow> u8 list option \<Rightarrow> nat \<Rightarrow> dvbs2x_complex list option \<Rightarrow>
   nat \<Rightarrow> bool \<Rightarrow> modulate_result" where
  "dvbs2x_modulate_symbols_ex alloc mod_p user_data_p user_len symbols_p symbol_capacity sym_len_ok =
     (let old = (case symbols_p of None \<Rightarrow> [] | Some s \<Rightarrow> s);
          fail = (\<lambda>e n m. \<lparr>mr_status = Some e, mr_output = old, mr_len = n, mr_mod = m\<rparr>)
      in if \<not> sym_len_ok then fail ERR_PARAM None mod_p
         else case (mod_p, user_data_p, symbols_p) of
           (Some md, Some user_data, Some symbols) \<Rightarrow>
             (case cfg_modcod (mod_cfg md) of
                None \<Rightarrow> fail ERR_PARAM (Some 0) mod_p
              | Some mc \<Rightarrow>
                  if unat (ctx_dfl (mod_bb_ctx md)) < user_len then fail ERR_PARAM (Some 0) mod_p
                  else if \<not> alloc (mc_k_bch mc) then fail ERR_NOMEM (Some 0) mod_p
                  else
                    let md = md\<lparr>mod_bb_ctx := mod_bb_ctx md
                               \<lparr>ctx_ro := dvbs2x_ro_from_rolloff (cfg_rolloff (mod_cfg md))\<rparr>\<rparr>
                    in (case dvbs2x_bb_frame_build (Some (mod_bb_ctx md)) (Some user_data) user_len
                          (Some (replicate (mc_k_bch mc) 0)) of
                          Inl e \<Rightarrow> fail e (Some 0) (Some md)
                        | Inr bbframe \<Rightarrow>
                            dvbs2x_modulate_bbframe_symbols_ex alloc (Some md) (Some bbframe) (Some symbols)
                              symbol_capacity True))
         | _ \<Rightarrow> fail ERR_PARAM (Some 0) mod_p)"

definition dvbs2x_modulate_symbols ::
  "(nat \<Rightarrow> bool) \<Rightarrow> dvbs2x_modulator option \<Rightarrow> u8 list option \<Rightarrow> nat \<Rightarrow> dvbs2x_complex list option \<Rightarrow>
   bool \<Rightarrow> modulate_result" where
  "dvbs2x_modulate_symbols alloc mod_p user_data_p user_len symbols_p sym_len_ok =
     dvbs2x_modulate_symbols_ex alloc mod_p user_data_p user_len symbols_p UINT_MAX sym_len_ok"

section \<open>Pulse shaping\<close>

definition dvbs2x_modulate_ex ::
  "(nat \<Rightarrow> bool) \<Rightarrow> dvbs2x_modulator option \<Rightarrow> u8 list option \<Rightarrow> nat \<Rightarrow> dvbs2x_complex list option \<Rightarrow>
   nat \<Rightarrow> bool \<Rightarrow> modulate_result" where
  "dvbs2x_modulate_ex alloc mod_p user_data_p user_len output_p output_capacity out_len_ok =
     (let old = (case output_p of None \<Rightarrow> [] | Some s \<Rightarrow> s);
          fail = (\<lambda>e n m. \<lparr>mr_status = Some e, mr_output = old, mr_len = n, mr_mod = m\<rparr>)
      in if \<not> out_len_ok then fail ERR_PARAM None mod_p
         else case (mod_p, user_data_p, output_p) of
           (Some md, Some user_data, Some output) \<Rightarrow>
             (case cfg_modcod (mod_cfg md) of
                None \<Rightarrow> fail ERR_PARAM (Some 0) mod_p
              | Some mc \<Rightarrow>
                  if unat (ctx_dfl (mod_bb_ctx md)) < user_len then fail ERR_PARAM (Some 0) mod_p
                  else
                    let frame_cap = DVBS2X_PLHEADER_LEN + DVBS2X_VLSNR_HDR_LEN +
                          dvbs2x_tx_coded_bits mc * 2 + dvbs2x_tx_coded_bits mc div 2 + 128
                    in if \<not> alloc (frame_cap * 16) then fail ERR_NOMEM (Some 0) mod_p
                       else
                         let r = dvbs2x_modulate_symbols_ex alloc mod_p (Some user_data) user_len
                               (Some (replicate frame_cap zero_symbol)) frame_cap True
                         in (case (mr_status r, mr_len r, mr_mod r) of
                               (None, Some frame_len, Some md) \<Rightarrow>
                                 let sps = cfg_sps (mod_cfg md)
                                 in if UINT_MAX div sps < frame_len then fail ERR_PARAM (Some 0) (Some md)
                                    else if output_capacity < frame_len * sps
                                    then fail ERR_SHORT (Some (frame_len * sps)) (Some md)
                                    else
                                      let (samples, flt) =
                                            dvbs2x_rrc_upsample (dvbs2x_rrc_filter_reset (mod_tx_filter md))
                                              (take frame_len (mr_output r))
                                      in \<lparr>mr_status = None, mr_output = overwrite 0 samples output,
                                          mr_len = Some (length samples),
                                          mr_mod = Some (md\<lparr>mod_tx_filter := flt\<rparr>)\<rparr>
                             | (Some e, _, m) \<Rightarrow> fail e (Some 0) m
                             | (_, _, m) \<Rightarrow> fail ERR_PARAM (Some 0) m))
         | _ \<Rightarrow> fail ERR_PARAM (Some 0) mod_p)"

definition dvbs2x_modulate ::
  "(nat \<Rightarrow> bool) \<Rightarrow> dvbs2x_modulator option \<Rightarrow> u8 list option \<Rightarrow> nat \<Rightarrow> dvbs2x_complex list option \<Rightarrow>
   bool \<Rightarrow> modulate_result" where
  "dvbs2x_modulate alloc mod_p user_data_p user_len output_p out_len_ok =
     dvbs2x_modulate_ex alloc mod_p user_data_p user_len output_p UINT_MAX out_len_ok"

section \<open>Puncturing\<close>

definition punctured :: "dvbs2x_modcod \<Rightarrow> nat \<Rightarrow> bool" where
  "punctured mc i \<longleftrightarrow> (\<exists>p < mc_xp mc. i = p * mc_p_period mc)"

text \<open>What the counter of the loop means at position \<open>i\<close>.\<close>

definition punct_inv :: "dvbs2x_modcod \<Rightarrow> nat \<Rightarrow> nat \<Rightarrow> bool" where
  "punct_inv mc p i \<longleftrightarrow>
     (\<forall>p' < p. p' * mc_p_period mc < i) \<and> (p < mc_xp mc \<longrightarrow> i \<le> p * mc_p_period mc)"

lemma punct_inv_start: "punct_inv mc 0 0"
  by (simp add: punct_inv_def)

lemma punct_inv_step:
  assumes "punct_inv mc p i" "0 < mc_p_period mc"
  shows "punctured_next mc p i = punctured mc i"
    "punctured mc i \<Longrightarrow> punct_inv mc (p + 1) (i + 1)" "\<not> punctured mc i \<Longrightarrow> punct_inv mc p (i + 1)"
proof -
  show eq: "punctured_next mc p i = punctured mc i"
  proof
    assume "punctured mc i"
    then obtain p' where p': "p' < mc_xp mc" "i = p' * mc_p_period mc" by (auto simp: punctured_def)
    then have "p \<le> p'" using assms(1) by (meson leI less_irrefl punct_inv_def)
    moreover have "p' * mc_p_period mc \<le> p * mc_p_period mc"
      using assms(1) p' \<open>p \<le> p'\<close> by (simp add: punct_inv_def)
    then have "p' \<le> p" using assms(2) by simp
    ultimately show "punctured_next mc p i" using p' by (simp add: punctured_next_def)
  qed (auto simp: punctured_next_def punctured_def)
  show "punct_inv mc (p + 1) (i + 1)" if "punctured mc i"
    using that assms eq by (auto simp: punct_inv_def punctured_next_def less_Suc_eq intro: less_SucI)
  show "punct_inv mc p (i + 1)" if "\<not> punctured mc i"
    using that assms(1) eq by (fastforce simp: punct_inv_def punctured_next_def)
qed

lemma puncture_loop_filter:
  "punct_inv mc p i \<Longrightarrow> 0 < mc_p_period mc \<Longrightarrow>
   puncture_loop mc cw [i..<n] p =
     map (\<lambda>i. cw ! (mc_k_ldpc mc + i)) (filter (\<lambda>i. \<not> punctured mc i) [i..<n])"
proof (induction "n - i" arbitrary: i p)
  case (Suc d)
  then have "[i..<n] = i # [i + 1..<n]" by (simp add: upt_conv_Cons)
  moreover have "d = n - (i + 1)" using Suc.hyps(2) by simp
  ultimately show ?case
    using Suc.hyps(1) [of "i + 1"] punct_inv_step [OF Suc.prems] Suc.prems(2)
    by (cases "punctured mc i") simp_all
qed simp

lemma card_punctured:
  assumes "0 < mc_p_period mc" "(mc_xp mc - 1) * mc_p_period mc < n"
  shows "length (filter (punctured mc) [0..<n]) = mc_xp mc"
proof -
  have "p * mc_p_period mc < n" if "p < mc_xp mc" for p
  proof -
    have "p * mc_p_period mc \<le> (mc_xp mc - 1) * mc_p_period mc" using that by (intro mult_le_mono1) simp
    then show ?thesis using assms(2) by linarith
  qed
  then have "{i. i < n \<and> punctured mc i} = (\<lambda>p. p * mc_p_period mc) ` {..<mc_xp mc}"
    by (auto simp: punctured_def)
  moreover have "inj_on (\<lambda>p. p * mc_p_period mc) {..<mc_xp mc}" using assms(1) by (auto simp: inj_on_def)
  moreover have "length (filter (punctured mc) [0..<n]) = card {i. i < n \<and> punctured mc i}"
    by (simp add: length_filter_conv_card cong: conj_cong)
  ultimately show ?thesis by (simp add: card_image)
qed

lemma punctured_isolated: "2 \<le> mc_p_period mc \<Longrightarrow> punctured mc i \<Longrightarrow> \<not> punctured mc (Suc i)"
proof
  assume "2 \<le> mc_p_period mc" "punctured mc i" "punctured mc (Suc i)"
  then have "Suc i mod mc_p_period mc = 0" "i mod mc_p_period mc = 0" by (auto simp: punctured_def)
  with \<open>2 \<le> mc_p_period mc\<close> show False by (simp add: mod_Suc)
qed

lemma table_chain:
  assumes "mc \<in> set vlsnr_modcod_table"
  shows "mc_k_ldpc mc = mc_xs mc + mc_n_bch mc" "mc_k_ldpc mc \<le> mc_fec_len mc"
    "8 \<le> mc_p_period mc" "(mc_xp mc - 1) * mc_p_period mc < mc_fec_len mc - mc_k_ldpc mc"
    "mc_xp mc \<le> mc_fec_len mc - mc_k_ldpc mc"
    "dvbs2x_tx_coded_bits mc = mc_n_bch mc + (mc_fec_len mc - mc_k_ldpc mc - mc_xp mc)"
    "even (dvbs2x_tx_coded_bits mc)" "mc_modulation mc = DVBS2X_MOD_QPSK \<longrightarrow> \<not> mc_has_spread mc"
    "0 < mc_k_bch mc"
  using modcod_cases [OF assms]
  by (elim disjE; simp add: modcod_defs dvbs2x_tx_coded_bits_def)+

lemma length_shorten_puncture:
  assumes "mc \<in> set vlsnr_modcod_table"
  shows "length (shorten_puncture mc cw) = dvbs2x_tx_coded_bits mc"
proof -
  note t = table_chain [OF assms]
  let ?m = "mc_fec_len mc - mc_k_ldpc mc"
  have p: "0 < mc_p_period mc" using t(3) by simp
  have "length (filter (\<lambda>i. \<not> punctured mc i) [0..<?m]) = ?m - mc_xp mc"
    using card_punctured [OF p t(4)] sum_length_filter_compl [of "punctured mc" "[0..<?m]"] by simp
  then show ?thesis
    using t by (simp add: shorten_puncture_def puncture_loop_filter [OF punct_inv_start p])
qed

section \<open>The modulator's invariant\<close>

text \<open>What an initialised modulator for \<open>mc\<close> keeps: the codecs of the MODCOD, a BB context that only
  its roll-off code may change, and a transmit filter in step with the configuration.\<close>

definition modulator_ready :: "dvbs2x_modcod \<Rightarrow> nat \<Rightarrow> dvbs2x_modulator \<Rightarrow> bool" where
  "modulator_ready mc code md \<longleftrightarrow>
     mc \<in> set vlsnr_modcod_table \<and> cfg_modcod (mod_cfg md) = Some mc \<and>
     (\<exists>ro. mod_bb_ctx md = (dvbs2x_bb_frame_init mc DVBS2X_STREAM_GS)\<lparr>ctx_ro := ro\<rparr>) \<and>
     bch_codec_ok mc (mod_bch_enc md) \<and> dvbs2x_ldpc_encoder_init mc = Some (mod_ldpc_enc md) \<and>
     gold_idx (mod_scrambler md) = code \<and>
     (\<exists>past. filter_ok past (mod_tx_filter md)) \<and>
     flt_num_taps (mod_tx_filter md) \<le> DVBS2X_FILTER_MAX_TAPS \<and>
     flt_sps (mod_tx_filter md) = cfg_sps (mod_cfg md) \<and> 2 \<le> cfg_sps (mod_cfg md) \<and> cfg_sps (mod_cfg md) \<le> 7"

lemma rrc_init_status:
  "length (flt_coeffs f) = DVBS2X_FILTER_MAX_TAPS \<Longrightarrow> 2 \<le> sps \<Longrightarrow> 0.05 \<le> rolloff \<Longrightarrow> rolloff \<le> 0.35 \<Longrightarrow>
   \<exists>flt. dvbs2x_rrc_filter_init (Some f) rolloff sps 16 = (if sps \<le> 7 then 0 else -1, Some flt)"
proof -
  assume a: "2 \<le> sps" "0.05 \<le> rolloff" "rolloff \<le> 0.35"
  have "(127 div sps < 16) = (7 < sps)" if "2 \<le> sps"
    using that by (auto simp: div_less_iff_less_mult)
  then show ?thesis
    using a by (auto simp: dvbs2x_rrc_filter_init_def Let_def DVBS2X_FILTER_MAX_TAPS_def)
qed

text \<open>The initialisation: when it succeeds, and that it then establishes the invariant.\<close>

definition init_accepts :: "(nat \<Rightarrow> bool) \<Rightarrow> nat \<Rightarrow> real \<Rightarrow> nat \<Rightarrow> nat \<Rightarrow> bool" where
  "init_accepts alloc idx rolloff sps code \<longleftrightarrow>
     (case dvbs2x_vlsnr_get_modcod idx of
        None \<Rightarrow> False
      | Some mc \<Rightarrow> 2 \<le> sps \<and> sps \<le> 7 \<and> 0.05 \<le> rolloff \<and> rolloff \<le> 0.35 \<and> code \<le> DVBS2X_GOLD_CODE_MAX \<and>
          alloc (2 * (2 ^ frame_gf_m (mc_frame_type mc) - 1) * 4))"

lemma modulator_init_cases:
  "\<exists>st md. dvbs2x_modulator_init alloc (Some m0) idx rolloff sps code = Some (st, Some md) \<and>
     st = (if init_accepts alloc idx rolloff sps code then None else Some ERR_PARAM) \<and>
     (st = None \<longrightarrow> modulator_ready (the (dvbs2x_vlsnr_get_modcod idx)) code md \<and>
        cfg_sps (mod_cfg md) = sps \<and> cfg_rolloff (mod_cfg md) = rolloff)"
proof (cases "dvbs2x_vlsnr_get_modcod idx")
  case None
  then show ?thesis by (simp add: dvbs2x_modulator_init_def init_accepts_def)
next
  case (Some mc)
  have mc: "mc \<in> set vlsnr_modcod_table" by (rule get_modcod_set [OF Some])
  show ?thesis
  proof (cases "sps < 2 \<or> rolloff < 0.05 \<or> 0.35 < rolloff \<or> DVBS2X_GOLD_CODE_MAX < code")
    case True
    then have "\<not> init_accepts alloc idx rolloff sps code" by (auto simp: init_accepts_def Some)
    then show ?thesis using True by (simp add: dvbs2x_modulator_init_def Some del: not_less)
  next
    case range: False
    let ?al = "alloc (2 * (2 ^ frame_gf_m (mc_frame_type mc) - 1) * 4)"
    let ?enc0 = "mod_bch_enc modulator_zero"
    have acc: "init_accepts alloc idx rolloff sps code \<longleftrightarrow> ?al \<and> sps \<le> 7"
      using range by (auto simp: init_accepts_def Some)
    obtain ldpc where ldpc: "dvbs2x_ldpc_encoder_init mc = Some ldpc"
      by (rule encoder_init_ok [OF mc])
    have len: "length (flt_coeffs filter_zero) = DVBS2X_FILTER_MAX_TAPS" by (simp add: filter_zero_def)
    obtain flt where flt: "dvbs2x_rrc_filter_init (Some filter_zero) rolloff sps 16 =
        (if sps \<le> 7 then 0 else -1, Some flt)"
      using rrc_init_status [OF len] range by (meson not_less)
    show ?thesis
    proof (cases ?al)
      case False
      then have "\<exists>enc. dvbs2x_bch_encoder_init ?al ?enc0 mc = Some (-1, enc)"
        by (simp add: dvbs2x_bch_encoder_init_def Let_def)
      then show ?thesis
        using range False acc by (auto simp: dvbs2x_modulator_init_def Some Let_def)
    next
      case True
      obtain bch where bch: "dvbs2x_bch_encoder_init True ?enc0 mc = Some (0, bch)" "bch_codec_ok mc bch"
        using bch_codec [OF mc] by blast
      have "dvbs2x_modulator_init alloc (Some m0) idx rolloff sps code =
        Some (if sps \<le> 7 then None else Some ERR_PARAM,
          Some (modulator_zero\<lparr>mod_cfg := \<lparr>cfg_modcod = Some mc, cfg_rolloff = rolloff, cfg_sps = sps,
                                   cfg_pl_scrambling_idx = code\<rparr>,
                       mod_bb_ctx := dvbs2x_bb_frame_init mc DVBS2X_STREAM_GS,
                       mod_bch_enc := bch, mod_ldpc_enc := ldpc,
                       mod_scrambler := dvbs2x_scrambler_init code, mod_tx_filter := flt\<rparr>))"
        using range True bch(1) ldpc flt
        by (simp add: dvbs2x_modulator_init_def Some Let_def modulator_zero_def split: prod.splits)
      moreover have "filter_ok [] flt \<and> flt_num_taps flt \<le> DVBS2X_FILTER_MAX_TAPS \<and> flt_sps flt = sps"
        if "sps \<le> 7" using rrc_filter_init_ok [OF _ len, of rolloff sps 16 flt] flt that by simp
      ultimately show ?thesis
        using True acc mc bch(2) ldpc range
        by (auto simp: modulator_ready_def dvbs2x_scrambler_init_def dvbs2x_bb_frame_init_def Some)
    qed
  qed
qed

section \<open>What a frame is\<close>

text \<open>The coded bits of a BB frame, the symbols of the data field before and after scrambling.\<close>

definition ldpc_information :: "dvbs2x_modcod \<Rightarrow> dvbs2x_bch_encoder \<Rightarrow> u8 list \<Rightarrow> u8 list" where
  "ldpc_information mc bch bbframe = replicate (mc_xs mc) 0 @ dvbs2x_bch_encode bch bbframe"

definition coded_bits :: "dvbs2x_modcod \<Rightarrow> dvbs2x_bch_encoder \<Rightarrow> dvbs2x_ldpc_encoder \<Rightarrow> u8 list \<Rightarrow> u8 list" where
  "coded_bits mc bch ldpc bbframe =
     shorten_puncture mc (dvbs2x_ldpc_encode ldpc (ldpc_information mc bch bbframe))"

definition mapped_symbols :: "dvbs2x_modcod \<Rightarrow> u8 list \<Rightarrow> dvbs2x_complex list" where
  "mapped_symbols mc bits = the (map_coded_bits (\<lambda>_. True) mc (dvbs2x_tx_coded_bits mc) bits)"

definition field_scrambler :: "nat \<Rightarrow> dvbs2x_scrambler" where
  "field_scrambler code = dvbs2x_scrambler_seek (dvbs2x_scrambler_init code) DVBS2X_VLSNR_HDR_LEN"

lemma map_coded_bits_mapped:
  "map_coded_bits alloc mc (dvbs2x_tx_coded_bits mc) bits = Some tx \<Longrightarrow> tx = mapped_symbols mc bits"
  by (auto simp: map_coded_bits_def mapped_symbols_def Let_def split: if_splits)

lemma length_mapped_symbols:
  assumes "mc \<in> set vlsnr_modcod_table"
  shows "length (mapped_symbols mc bits) = data_symbols mc"
  using table_chain(8) [OF assms]
  by (auto simp: mapped_symbols_def map_coded_bits_def data_symbols_def Let_def)

end
