(* ===== verification/PlFrame.thy ===== *)
theory PlFrame
  imports Modulator
begin

text \<open>
  What the transmit chain of theory \<open>Modulator\<close> produces: \<open>pl_frame\<close> is the PL frame as a function
  of the coded bits, every outcome of the symbol-rate routines is one of three (the frame,
  a capacity error with the length needed, an allocation error), and every call keeps the
  invariant \<open>modulator_ready\<close> that the initialisation establishes.
\<close>

section \<open>The writes of a frame\<close>

lemma gold_idx_scramble_field:
  "gold_idx (snd (dvbs2x_scramble_field scr xs n p q)) = gold_idx scr"
proof -
  have "gold_idx (((\<lambda>s. snd (dvbs2x_scrambler_next_rn s)) ^^ k) s) = gold_idx s" for k s
    by (induction k) (simp_all add: dvbs2x_scrambler_next_rn_def Let_def)
  then show ?thesis by (simp add: dvbs2x_scramble_field_def split_beta snd_stream_mapi)
qed

lemma gold_idx_seek: "gold_idx (dvbs2x_scrambler_seek scr n) = gold_idx scr"
  unfolding dvbs2x_scrambler_seek_def
  by (induction n) (simp_all add: dvbs2x_scrambler_next_rn_def Let_def)

lemma scramble_field_append:
  "length field = n \<Longrightarrow>
   dvbs2x_scramble_field scr (field @ rest) n p q =
     (fst (dvbs2x_scramble_field scr field n p q) @ rest, snd (dvbs2x_scramble_field scr field n p q))"
  by (simp add: dvbs2x_scramble_field_def split_beta)

lemma header_generate_append:
  "length xs = DVBS2X_VLSNR_HDR_LEN \<Longrightarrow>
   dvbs2x_vlsnr_header_generate mc (xs @ ys) = dvbs2x_vlsnr_header_generate mc xs @ ys"
  by (simp add: dvbs2x_vlsnr_header_generate_def Let_def overwrite_def const_defs)

definition frame_layout :: "dvbs2x_modcod \<Rightarrow> dvbs2x_vlsnr_layout" where
  "frame_layout mc = projr (dvbs2x_vlsnr_build_layout (\<lambda>_. True) mc)"

text \<open>The data field before scrambling, and the whole frame.\<close>

definition data_field :: "dvbs2x_modcod \<Rightarrow> u8 list \<Rightarrow> dvbs2x_complex list" where
  "data_field mc bits = fst (dvbs2x_pilot_insert (mapped_symbols mc bits) (frame_layout mc))"

definition scrambled_field :: "dvbs2x_modcod \<Rightarrow> nat \<Rightarrow> u8 list \<Rightarrow> dvbs2x_complex list" where
  "scrambled_field mc code bits =
     fst (dvbs2x_scramble_field (field_scrambler code) (data_field mc bits) (lay_field_len (frame_layout mc))
       (lay_is_pilot (frame_layout mc)) (mc_modulation mc = DVBS2X_MOD_QPSK))"

definition pl_frame :: "dvbs2x_modcod \<Rightarrow> nat \<Rightarrow> u8 list \<Rightarrow> dvbs2x_complex list" where
  "pl_frame mc code bits =
     dvbs2x_plheader_generate (mc_pls_code mc) @
     dvbs2x_vlsnr_header_generate mc (replicate DVBS2X_VLSNR_HDR_LEN zero_symbol) @
     scrambled_field mc code bits"

lemma frame_layout_fields:
  assumes "mc \<in> set vlsnr_modcod_table"
  obtains m where "lay_is_pilot (frame_layout mc) = Some m" "length m = lay_field_len (frame_layout mc)"
    "data_positions m = data_symbols mc" "lay_num_data (frame_layout mc) = data_symbols mc"
    "lay_field_len (frame_layout mc) = (if mc_set mc = DVBS2X_VLSNR_SET1 then 32292 else 15696)"
proof -
  obtain m where "dvbs2x_vlsnr_build_layout (\<lambda>_. True) mc = Inr \<lparr>lay_field_len = length m,
      lay_num_data = data_symbols mc, lay_num_pilot = length m - data_symbols mc, lay_is_pilot = Some m\<rparr>"
    "data_positions m = data_symbols mc"
    "length m = (if mc_set mc = DVBS2X_VLSNR_SET1 then 32292 else 15696)"
    by (rule layout_of_modcod [OF assms, of "\<lambda>_. True"]) simp_all
  then show ?thesis by (intro that [of m]) (simp_all add: frame_layout_def)
qed

lemma build_layout_alloc:
  "dvbs2x_vlsnr_build_layout alloc mc =
     (if alloc (layout_alloc (data_symbols mc)) then Inr (frame_layout mc) else Inl ERR_NOMEM)"
proof -
  obtain L where "dvbs2x_vlsnr_build_layout a mc =
    (if \<not> a (layout_alloc (data_symbols mc)) then Inl ERR_NOMEM else Inr L)" for a
    unfolding dvbs2x_vlsnr_build_layout_def data_symbols_def Let_def prod.case_eq_if by blast
  then show ?thesis by (simp add: frame_layout_def)
qed

lemma length_data_field:
  assumes "mc \<in> set vlsnr_modcod_table"
  shows "length (data_field mc bits) = lay_field_len (frame_layout mc)"
  by (rule frame_layout_fields [OF assms]) (simp add: data_field_def dvbs2x_pilot_insert_def)

lemma length_scrambled_field:
  assumes "mc \<in> set vlsnr_modcod_table"
  shows "length (scrambled_field mc code bits) = lay_field_len (frame_layout mc)"
  by (simp add: scrambled_field_def length_data_field [OF assms])

lemma length_plheader [simp, lens]: "length (dvbs2x_plheader_generate code) = DVBS2X_PLHEADER_LEN"
  by (simp add: dvbs2x_plheader_generate_def Let_def)

lemma length_pl_frame:
  assumes "mc \<in> set vlsnr_modcod_table"
  shows "length (pl_frame mc code bits) = 990 + lay_field_len (frame_layout mc)"
  by (simp add: pl_frame_def length_scrambled_field [OF assms]) (simp add: const_defs)

lemma table_header:
  assumes "mc \<in> set vlsnr_modcod_table" "length buf = DVBS2X_VLSNR_HDR_LEN"
  shows "dvbs2x_vlsnr_header_generate mc buf =
    dvbs2x_vlsnr_header_generate mc (replicate DVBS2X_VLSNR_HDR_LEN zero_symbol)"
proof -
  have "1 \<le> mc_index mc \<and> mc_index mc \<le> 9"
    using modcod_cases [OF assms(1)] by (elim disjE; simp add: modcod_defs)
  then show ?thesis
    using assms(2) by (simp add: dvbs2x_vlsnr_header_generate_def Let_def overwrite_def const_defs)
qed

text \<open>The writes of the frame routine into the caller's array.\<close>

lemma frame_writes:
  assumes mc: "mc \<in> set vlsnr_modcod_table"
    and len: "length (pl_frame mc code bits) \<le> length symbols"
    and s1: "s1 = overwrite 0 (dvbs2x_plheader_generate (mc_pls_code mc)) symbols"
    and s2: "s2 = take DVBS2X_PLHEADER_LEN s1 @ dvbs2x_vlsnr_header_generate mc (drop DVBS2X_PLHEADER_LEN s1)"
    and s3: "s3 = overwrite 990 (data_field mc bits) s2"
    and f: "dvbs2x_scramble_field (field_scrambler code) (drop 990 s3) (lay_field_len (frame_layout mc))
       (lay_is_pilot (frame_layout mc)) (mc_modulation mc = DVBS2X_MOD_QPSK) = (field, scr)"
  shows "take 990 s3 @ field = overwrite 0 (pl_frame mc code bits) symbols" "gold_idx scr = code"
proof -
  let ?h = "dvbs2x_vlsnr_header_generate mc (replicate DVBS2X_VLSNR_HDR_LEN zero_symbol)"
  let ?p = "dvbs2x_plheader_generate (mc_pls_code mc)" and ?fl = "lay_field_len (frame_layout mc)"
  note lens = length_pl_frame [OF mc] length_data_field [OF mc] length_scrambled_field [OF mc]
  have n: "990 + ?fl \<le> length symbols" using len by (simp add: lens)
  have plen: "length ?p = 90" "length ?h = 900" by (simp_all add: const_defs)
  have s1': "s1 = ?p @ take 900 (drop 90 symbols) @ drop 990 symbols"
    using append_take_drop_id [of 900 "drop 90 symbols"]
    by (simp add: s1 overwrite_def DVBS2X_PLHEADER_LEN_def del: append_take_drop_id)
  have "dvbs2x_vlsnr_header_generate mc (drop 90 s1) = ?h @ drop 990 symbols"
    using n table_header [OF mc, of "take 900 (drop 90 symbols)"]
    by (simp add: s1' plen header_generate_append const_defs)
  then have s2': "s2 = ?p @ ?h @ drop 990 symbols"
    by (simp add: s2 s1' plen DVBS2X_PLHEADER_LEN_def)
  have s3': "s3 = (?p @ ?h) @ data_field mc bits @ drop (990 + ?fl) symbols"
    using n by (simp add: s3 s2' overwrite_def plen lens add.commute [of ?fl] del: length_plheader length_header_generate)
  have "drop 990 s3 = data_field mc bits @ drop (990 + ?fl) symbols" "take 990 s3 = ?p @ ?h"
    using plen by (simp_all add: s3')
  moreover have "(field, scr) = (scrambled_field mc code bits @ drop (990 + ?fl) symbols,
      snd (dvbs2x_scramble_field (field_scrambler code) (data_field mc bits) ?fl
        (lay_is_pilot (frame_layout mc)) (mc_modulation mc = DVBS2X_MOD_QPSK)))"
    using f unfolding \<open>drop 990 s3 = _\<close> scramble_field_append [OF lens(2)] scrambled_field_def by simp
  ultimately show "take 990 s3 @ field = overwrite 0 (pl_frame mc code bits) symbols" "gold_idx scr = code"
    by (simp_all add: overwrite_def lens pl_frame_def [symmetric] gold_idx_scramble_field
        field_scrambler_def gold_idx_seek dvbs2x_scrambler_init_def flip: append_assoc)
       (simp add: pl_frame_def)
qed

lemma ready_scrambler:
  "modulator_ready mc code md \<Longrightarrow> gold_idx scr = code \<Longrightarrow> modulator_ready mc code (md\<lparr>mod_scrambler := scr\<rparr>)"
  by (simp add: modulator_ready_def)

text \<open>The outcomes of the frame routine on a ready modulator.\<close>

lemma bbframe_result:
  assumes rdy: "modulator_ready mc code md" and cap: "cap \<le> length symbols"
    and bb: "length bbframe = mc_k_bch mc" "set bbframe \<subseteq> {0, 1}"
    and bits: "bits = coded_bits mc (mod_bch_enc md) (mod_ldpc_enc md) bbframe"
    and flen: "flen = 990 + lay_field_len (frame_layout mc)"
    and r: "r = dvbs2x_modulate_bbframe_symbols_ex alloc (Some md) (Some bbframe) (Some symbols) cap True"
  obtains scr where "gold_idx scr = code" "flen \<le> cap"
      "r = \<lparr>mr_status = None, mr_output = overwrite 0 (pl_frame mc code bits) symbols, mr_len = Some flen,
        mr_mod = Some (md\<lparr>mod_scrambler := scr\<rparr>)\<rparr>"
  | "cap < flen" "r = \<lparr>mr_status = Some ERR_SHORT, mr_output = symbols, mr_len = Some flen, mr_mod = Some md\<rparr>"
  | "\<not> (\<forall>n. alloc n)" "r = \<lparr>mr_status = Some ERR_NOMEM, mr_output = symbols, mr_len = Some 0, mr_mod = Some md\<rparr>"
proof -
  have mc: "mc \<in> set vlsnr_modcod_table" and md: "cfg_modcod (mod_cfg md) = Some mc"
    "gold_idx (mod_scrambler md) = code"
    using rdy by (simp_all add: modulator_ready_def)
  have "length (dvbs2x_bch_encode (mod_bch_enc md) bbframe) = mc_n_bch mc"
    using rdy bb by (simp add: modulator_ready_def bch_codec_ok_def)
  then have info: "replicate (mc_xs mc) 0 @ take (mc_n_bch mc) (dvbs2x_bch_encode (mod_bch_enc md) bbframe) =
      ldpc_information mc (mod_bch_enc md) bbframe"
    by (simp add: ldpc_information_def)
  let ?mem = "\<not> alloc (mc_n_bch mc) \<or> \<not> alloc (mc_k_ldpc mc) \<or> \<not> alloc (mc_fec_len mc) \<or>
      \<not> alloc (dvbs2x_tx_coded_bits mc)"
  let ?nomem = "\<lparr>mr_status = Some ERR_NOMEM, mr_output = symbols, mr_len = Some 0, mr_mod = Some md\<rparr>"
  have scr0: "dvbs2x_scrambler_seek (dvbs2x_scrambler_reset (mod_scrambler md)) DVBS2X_VLSNR_HDR_LEN = field_scrambler code"
    by (simp add: field_scrambler_def dvbs2x_scrambler_reset_def md(2))
  have fl: "DVBS2X_PLHEADER_LEN + DVBS2X_VLSNR_HDR_LEN + lay_field_len (frame_layout mc) = flen"
    by (simp add: flen const_defs)
  have hdr: "DVBS2X_PLHEADER_LEN + DVBS2X_VLSNR_HDR_LEN = 990" by (simp add: const_defs)
  note unf = r [unfolded dvbs2x_modulate_bbframe_symbols_ex_def Let_def prod.case option.case md(1) info
      build_layout_alloc simp_thms if_True if_False not_True_eq_False coded_bits_def [symmetric] bits [symmetric] scr0 fl]
  consider (mem) "?mem \<or> \<not> alloc (layout_alloc (data_symbols mc)) \<or>
        map_coded_bits alloc mc (dvbs2x_tx_coded_bits mc) bits = None"
    | (ok) "\<not> ?mem" "alloc (layout_alloc (data_symbols mc))"
        "map_coded_bits alloc mc (dvbs2x_tx_coded_bits mc) bits = Some (mapped_symbols mc bits)"
    using map_coded_bits_mapped by (cases "map_coded_bits alloc mc (dvbs2x_tx_coded_bits mc) bits") auto
  then show ?thesis
  proof cases
    case mem
    have "map_coded_bits alloc mc (dvbs2x_tx_coded_bits mc) bits \<noteq> None" if "\<forall>n. alloc n"
      using that by (simp add: map_coded_bits_def Let_def)
    then have "\<not> (\<forall>n. alloc n)" using mem by auto
    moreover have "r = ?nomem"
      unfolding unf using mem by (cases ?mem; cases "alloc (layout_alloc (data_symbols mc))") simp_all
    ultimately show ?thesis by (rule that(3))
  next
    case ok
    have "lay_num_data (frame_layout mc) = data_symbols mc" by (rule frame_layout_fields [OF mc])
    then have num: "(length (mapped_symbols mc bits) \<noteq> lay_num_data (frame_layout mc)) = False"
      by (simp add: length_mapped_symbols [OF mc])
    have mem: "?mem = False" "alloc (layout_alloc (data_symbols mc)) = True" using ok by simp_all
    note unf' = unf [unfolded mem if_False ok(3) option.case if_True sum.case num fl]
    show ?thesis
    proof (cases "cap < flen")
      case True
      show ?thesis by (rule that(2)) (use True in \<open>simp_all add: unf'\<close>)
    next
      case False
      define s1 where "s1 = overwrite 0 (dvbs2x_plheader_generate (mc_pls_code mc)) symbols"
      define s2 where "s2 = take DVBS2X_PLHEADER_LEN s1 @ dvbs2x_vlsnr_header_generate mc (drop DVBS2X_PLHEADER_LEN s1)"
      define s3 where "s3 = overwrite 990 (data_field mc bits) s2"
      obtain field scr where f: "dvbs2x_scramble_field (field_scrambler code) (drop 990 s3)
         (lay_field_len (frame_layout mc)) (lay_is_pilot (frame_layout mc)) (mc_modulation mc = DVBS2X_MOD_QPSK) =
         (field, scr)" by (rule prod.exhaust)
      have "length (pl_frame mc code bits) \<le> length symbols"
        using False cap by (simp add: length_pl_frame [OF mc] flen)
      note w = frame_writes [OF mc this s1_def s2_def s3_def f]
      have "r = \<lparr>mr_status = None, mr_output = take 990 s3 @ field, mr_len = Some flen,
          mr_mod = Some (md\<lparr>mod_scrambler := scr\<rparr>)\<rparr>"
        unfolding unf' hdr data_field_def [symmetric] s1_def [symmetric] s2_def [symmetric] s3_def [symmetric] f
        using False by simp
      then show ?thesis using w False by (intro that(1) [of scr]) simp_all
    qed
  qed
qed

section \<open>From user bits to a frame\<close>

text \<open>The BB frame of \<open>n\<close> user bits.\<close>

definition user_frame :: "dvbs2x_modcod \<Rightarrow> u8 \<Rightarrow> u8 list \<Rightarrow> nat \<Rightarrow> u8 list" where
  "user_frame mc ro data n =
     projr (dvbs2x_bb_frame_build (Some ((dvbs2x_bb_frame_init mc DVBS2X_STREAM_GS)\<lparr>ctx_ro := ro\<rparr>))
       (Some data) n (Some (replicate (mc_k_bch mc) 0)))"

lemma bb_scramble_bits: "set xs \<subseteq> {0, 1} \<Longrightarrow> set (bb_scramble xs (length xs)) \<subseteq> {0, 1}"
proof (rule subsetI)
  fix b assume xs: "set xs \<subseteq> {0, 1}" and "b \<in> set (bb_scramble xs (length xs))"
  then obtain j where j: "j < length xs" "b = bb_scramble xs (length xs) ! j"
    by (auto simp: in_set_conv_nth)
  let ?x = "fst (bb_prbs_next (((\<lambda>s. snd (bb_prbs_next s)) ^^ j) BB_PRBS_INIT))"
  have "?x = 0 \<or> ?x = 1"
    by (simp add: bb_prbs_next_def Let_def and_one_eq mod_2_eq_odd)
  moreover have "xs ! j = 0 \<or> xs ! j = 1" using xs j(1) nth_mem by fastforce
  moreover have "b = xs ! j XOR ?x" using j by (simp add: bb_scramble_nth)
  ultimately show "b \<in> {0, 1}" by (elim disjE) simp_all
qed

lemma user_frame_built:
  assumes mc: "mc \<in> set vlsnr_modcod_table" and n: "n \<le> mc_k_bch mc - 80" "n \<le> length data"
    and data: "set data \<subseteq> {0, 1}"
  shows "dvbs2x_bb_frame_build (Some ((dvbs2x_bb_frame_init mc DVBS2X_STREAM_GS)\<lparr>ctx_ro := ro\<rparr>))
      (Some data) n (Some (replicate (mc_k_bch mc) 0)) = Inr (user_frame mc ro data n)"
    "length (user_frame mc ro data n) = mc_k_bch mc" "set (user_frame mc ro data n) \<subseteq> {0, 1}"
proof -
  have wf: "modcod_wf mc" by (rule table_modcod_wf [OF mc])
  let ?f = "bytes_bits (bb_header_bytes (0x70 OR (ro AND 3)) n 0 0 0) @ take n data @
            replicate (mc_k_bch mc - 80 - n) 0"
  note b = build_ok [OF wf n length_replicate, of ro 0]
  then show built: "dvbs2x_bb_frame_build (Some ((dvbs2x_bb_frame_init mc DVBS2X_STREAM_GS)\<lparr>ctx_ro := ro\<rparr>))
      (Some data) n (Some (replicate (mc_k_bch mc) 0)) = Inr (user_frame mc ro data n)"
    by (simp add: user_frame_def)
  have len: "length ?f = mc_k_bch mc" using n modcod_wf_k_bch [OF wf] by simp
  have u: "user_frame mc ro data n = bb_scramble ?f (length ?f)" 
    using b unfolding len user_frame_def by (simp only: sum.sel)
  show "length (user_frame mc ro data n) = mc_k_bch mc" by (simp only: u length_bb_scramble len)
  have "set (bytes_bits h) \<subseteq> {0, 1}" for h
    using byte_bits_in_01 by (auto simp: bytes_bits_def)
  then have "set ?f \<subseteq> {0, 1}" using data by (auto dest: in_set_takeD)
  from bb_scramble_bits [OF this] show "set (user_frame mc ro data n) \<subseteq> {0, 1}" by (simp only: u)
qed

definition user_bits :: "dvbs2x_modcod \<Rightarrow> dvbs2x_modulator \<Rightarrow> u8 list \<Rightarrow> nat \<Rightarrow> u8 list" where
  "user_bits mc md data n =
     coded_bits mc (mod_bch_enc md) (mod_ldpc_enc md)
       (user_frame mc (dvbs2x_ro_from_rolloff (cfg_rolloff (mod_cfg md))) data n)"

text \<open>The outcomes of the symbol-rate routine on a ready modulator.\<close>

lemma symbols_result:
  assumes rdy: "modulator_ready mc code md" and cap: "cap \<le> length symbols"
    and n: "n \<le> mc_k_bch mc - 80" "n \<le> length data" "set data \<subseteq> {0, 1}"
    and flen: "flen = 990 + lay_field_len (frame_layout mc)"
    and r: "r = dvbs2x_modulate_symbols_ex alloc (Some md) (Some data) n (Some symbols) cap True"
  obtains md' where "modulator_ready mc code md'" "flen \<le> cap"
      "mod_tx_filter md' = mod_tx_filter md" "mod_cfg md' = mod_cfg md"
      "r = \<lparr>mr_status = None, mr_output = overwrite 0 (pl_frame mc code (user_bits mc md data n)) symbols,
        mr_len = Some flen, mr_mod = Some md'\<rparr>"
  | md' where "modulator_ready mc code md'" "mod_cfg md' = mod_cfg md" "cap < flen"
      "r = \<lparr>mr_status = Some ERR_SHORT, mr_output = symbols, mr_len = Some flen, mr_mod = Some md'\<rparr>"
  | md' where "modulator_ready mc code md'" "mod_cfg md' = mod_cfg md" "\<not> (\<forall>n. alloc n)"
      "r = \<lparr>mr_status = Some ERR_NOMEM, mr_output = symbols, mr_len = Some 0, mr_mod = Some md'\<rparr>"
proof -
  have mc: "mc \<in> set vlsnr_modcod_table" and md: "cfg_modcod (mod_cfg md) = Some mc"
    using rdy by (simp_all add: modulator_ready_def)
  obtain ro0 where ctx: "mod_bb_ctx md = (dvbs2x_bb_frame_init mc DVBS2X_STREAM_GS)\<lparr>ctx_ro := ro0\<rparr>"
    using rdy by (auto simp: modulator_ready_def)
  have dfl: "unat (ctx_dfl (dvbs2x_bb_frame_init mc DVBS2X_STREAM_GS)) = mc_k_bch mc - 80"
    by (rule init_dfl [OF table_modcod_wf [OF mc]])
  let ?ro = "dvbs2x_ro_from_rolloff (cfg_rolloff (mod_cfg md))"
  let ?md = "md\<lparr>mod_bb_ctx := (dvbs2x_bb_frame_init mc DVBS2X_STREAM_GS)\<lparr>ctx_ro := ?ro\<rparr>\<rparr>"
  have rdy': "modulator_ready mc code ?md" using rdy by (auto simp: modulator_ready_def)
  note uf = user_frame_built [OF mc n, of ?ro]
  have r': "r = (if \<not> alloc (mc_k_bch mc)
      then \<lparr>mr_status = Some ERR_NOMEM, mr_output = symbols, mr_len = Some 0, mr_mod = Some md\<rparr>
      else dvbs2x_modulate_bbframe_symbols_ex alloc (Some ?md) (Some (user_frame mc ?ro data n)) (Some symbols) cap True)"
    using n(1) uf(1) unfolding r
    by (simp add: dvbs2x_modulate_symbols_ex_def Let_def md dfl ctx)
  show ?thesis
  proof (cases "alloc (mc_k_bch mc)")
    case False
    then show ?thesis using that(3) [OF rdy refl] r' by auto
  next
    case True
    then have r'': "r = dvbs2x_modulate_bbframe_symbols_ex alloc (Some ?md) (Some (user_frame mc ?ro data n)) (Some symbols) cap True"
      by (simp add: r')
    have bits: "user_bits mc md data n = coded_bits mc (mod_bch_enc ?md) (mod_ldpc_enc ?md) (user_frame mc ?ro data n)"
      by (simp add: user_bits_def)
    from rdy' cap uf(2,3) bits flen r'' show ?thesis
    proof (cases rule: bbframe_result)
      case (1 scr)
      show ?thesis
        by (rule that(1) [OF ready_scrambler [OF rdy' 1(1)] 1(2)]) (use 1(3) in simp_all)
    next
      case 2
      show ?thesis by (rule that(2) [OF rdy' _ 2(1)]) (use 2(2) in simp_all)
    next
      case 3
      show ?thesis by (rule that(3) [OF rdy' _ 3(1)]) (use 3(2) in simp_all)
    qed
  qed
qed

section \<open>Every call keeps the invariant\<close>

definition kept :: "dvbs2x_modulator \<Rightarrow> dvbs2x_modulator option \<Rightarrow> bool" where
  "kept md m \<longleftrightarrow>
     (\<exists>scr. gold_idx scr = gold_idx (mod_scrambler md) \<and> m = Some (md\<lparr>mod_scrambler := scr\<rparr>))"

lemma kept_same: "kept md (Some md)"
  unfolding kept_def by (intro exI [of _ "mod_scrambler md"]) simp

lemma kept_scrambled:
  assumes "dvbs2x_scramble_field (dvbs2x_scrambler_seek (dvbs2x_scrambler_reset (mod_scrambler md)) k) xs n p q = (f, scr)"
  shows "kept md (Some (md\<lparr>mod_scrambler := scr\<rparr>))"
proof -
  have "gold_idx scr = gold_idx (mod_scrambler md)"
    using gold_idx_scramble_field [of "dvbs2x_scrambler_seek (dvbs2x_scrambler_reset (mod_scrambler md)) k" xs n p q] assms
    by (simp add: gold_idx_seek dvbs2x_scrambler_reset_def dvbs2x_scrambler_init_def)
  then show ?thesis by (auto simp: kept_def)
qed

lemma bbframe_keeps:
  "kept md (mr_mod (dvbs2x_modulate_bbframe_symbols_ex alloc (Some md) bb sy cap ok))"
  unfolding dvbs2x_modulate_bbframe_symbols_ex_def Let_def
  by (cases ok; cases bb; cases sy)
     (auto simp: kept_same intro: kept_scrambled split: option.split sum.split prod.split)

lemma symbols_keeps:
  assumes "modulator_ready mc code md"
  shows "\<exists>md'. mr_mod (dvbs2x_modulate_symbols_ex alloc (Some md) ud n sy cap ok) = Some md' \<and> modulator_ready mc code md'"
proof -
  let ?md = "md\<lparr>mod_bb_ctx := mod_bb_ctx md\<lparr>ctx_ro := dvbs2x_ro_from_rolloff (cfg_rolloff (mod_cfg md))\<rparr>\<rparr>"
  have rdy: "modulator_ready mc code ?md" using assms by (auto simp: modulator_ready_def)
  have "\<exists>md'. mr_mod (dvbs2x_modulate_bbframe_symbols_ex alloc (Some ?md) bb sy cap ok) = Some md' \<and>
      modulator_ready mc code md'" for bb sy ok
    using bbframe_keeps [of ?md alloc bb sy cap ok] ready_scrambler [OF rdy] rdy
    unfolding kept_def by (auto simp: modulator_ready_def)
  then show ?thesis
    using assms rdy unfolding dvbs2x_modulate_symbols_ex_def Let_def
    by (cases ok; cases ud; cases sy) (simp_all split: option.split sum.split)
qed

lemma upsample_keeps:
  assumes "modulator_ready mc code md"
    "dvbs2x_rrc_upsample (dvbs2x_rrc_filter_reset (mod_tx_filter md)) xs = (samples, flt)"
  shows "modulator_ready mc code (md\<lparr>mod_tx_filter := flt\<rparr>)"
proof -
  let ?f = "dvbs2x_rrc_filter_reset (mod_tx_filter md)"
  have f: "filter_ok [] ?f"
    using assms(1) by (auto simp: modulator_ready_def intro: filter_reset_ok)
  have same: "flt_num_taps ?f = flt_num_taps (mod_tx_filter md)" "flt_sps ?f = flt_sps (mod_tx_filter md)"
    by (simp_all add: dvbs2x_rrc_filter_reset_def)
  have "flt = snd (filter_run ?f (zero_stuffed (flt_sps ?f) xs))"
    using assms(2) upsample_run [OF f, of xs] by simp
  then show ?thesis
    using filter_run_ok [OF f, of "zero_stuffed (flt_sps ?f) xs"] assms(1)
    by (auto simp: modulator_ready_def same)
qed

lemma modulate_keeps:
  assumes "modulator_ready mc code md"
  shows "\<exists>md'. mr_mod (dvbs2x_modulate_ex alloc (Some md) ud n out cap ok) = Some md' \<and> modulator_ready mc code md'"
proof -
  have sym: "\<exists>md'. mr_mod (dvbs2x_modulate_symbols_ex alloc (Some md) (Some d) n sy c ok') = Some md' \<and>
      modulator_ready mc code md'" for d sy c ok'
    by (rule symbols_keeps [OF assms])
  show ?thesis
  proof (cases "ok \<and> ud \<noteq> None \<and> out \<noteq> None \<and> cfg_modcod (mod_cfg md) \<noteq> None")
    case False
    then show ?thesis
      using assms unfolding dvbs2x_modulate_ex_def Let_def
      by (cases ok; cases ud; cases out) (simp_all split: option.split)
  next
    case True
    then obtain d o' mc' where a: "ok" "ud = Some d" "out = Some o'" "cfg_modcod (mod_cfg md) = Some mc'" by auto
    define cp where "cp = DVBS2X_PLHEADER_LEN + DVBS2X_VLSNR_HDR_LEN +
                          dvbs2x_tx_coded_bits mc' * 2 + dvbs2x_tx_coded_bits mc' div 2 + 128"
    define r where "r = dvbs2x_modulate_symbols_ex alloc (Some md) (Some d) n (Some (replicate cp zero_symbol)) cp True"
    obtain md' where md': "mr_mod r = Some md'" "modulator_ready mc code md'"
      using sym unfolding r_def by blast
    obtain samples flt where up: "dvbs2x_rrc_upsample (dvbs2x_rrc_filter_reset (mod_tx_filter md'))
        (take (the (mr_len r)) (mr_output r)) = (samples, flt)" by (rule prod.exhaust)
    show ?thesis
      using assms md' upsample_keeps [OF md'(2) up] up
      unfolding dvbs2x_modulate_ex_def Let_def a prod.case option.case cp_def [symmetric] r_def [symmetric] md'(1)
      by (auto split: option.split)
  qed
qed

section \<open>Properties\<close>

text \<open>C16: initialising a modulator always returns.  It succeeds exactly for a MODCOD index of 1 to
  9, 2 to 7 samples per symbol (more would not fit the filter), a roll-off of 0.05 to 0.35, a Gold
  code number in range and enough memory; every other call, a null context included, is
  rejected with \<^verbatim>\<open>DVBS2X_ERR_PARAM\<close>.\<close>

theorem modulator_init_spec:
  "\<exists>st md. dvbs2x_modulator_init alloc mod_p idx rolloff sps code = Some (st, md) \<and>
     st = (if mod_p \<noteq> None \<and> init_accepts alloc idx rolloff sps code then None else Some ERR_PARAM) \<and>
     (md = None) = (mod_p = None)"
proof (cases mod_p)
  case None
  then show ?thesis by (simp add: dvbs2x_modulator_init_def)
next
  case (Some m0)
  then show ?thesis
    using modulator_init_cases [of alloc m0 idx rolloff sps code] by auto
qed

text \<open>The states that calls with any arguments, failing calls included, lead to.\<close>

inductive modulator_reaches :: "dvbs2x_modulator \<Rightarrow> dvbs2x_modulator \<Rightarrow> bool" for md0 where
  start: "modulator_reaches md0 md0"
| samples: "modulator_reaches md0 md \<Longrightarrow> mr_mod (dvbs2x_modulate_ex alloc (Some md) ud n out cap ok) = Some md' \<Longrightarrow>
     modulator_reaches md0 md'"
| symbols: "modulator_reaches md0 md \<Longrightarrow>
     mr_mod (dvbs2x_modulate_symbols_ex alloc (Some md) ud n sy cap ok) = Some md' \<Longrightarrow> modulator_reaches md0 md'"
| bbframe: "modulator_reaches md0 md \<Longrightarrow>
     mr_mod (dvbs2x_modulate_bbframe_symbols_ex alloc (Some md) bb sy cap ok) = Some md' \<Longrightarrow> modulator_reaches md0 md'"


lemma init_9:
  obtains md where "dvbs2x_modulator_init (\<lambda>_. True) (Some modulator_zero) 9 0.2 4 5 = Some (None, Some md)"
    "modulator_ready modcod_9 5 md" "cfg_sps (mod_cfg md) = 4"
proof -
  have mc: "dvbs2x_vlsnr_get_modcod 9 = Some modcod_9"
    by (simp add: dvbs2x_vlsnr_get_modcod_def vlsnr_modcod_table_def const_defs)
  have "init_accepts (\<lambda>_. True) 9 0.2 4 5"
    by (simp add: init_accepts_def mc DVBS2X_GOLD_CODE_MAX_def)
  then show ?thesis
    using modulator_init_cases [of "\<lambda>_. True" modulator_zero 9 "0.2" 4 5] mc that by auto
qed


text \<open>C3: on an initialised modulator, and with enough memory, modulating any user bits that fit
  the data field succeeds exactly when the output has room for \<open>sps\<close> samples of each symbol of
  the frame, and reports that number either way: the internal symbol buffer is always large
  enough.  The samples are the PL frame (headers, then the scrambled data field with its pilots)
  convolved with the filter's taps.\<close>

theorem modulate_spec:
  assumes "modulator_ready mc code md" "\<And>n. alloc n"
    and "n \<le> mc_k_bch mc - 80" "n \<le> length data" "set data \<subseteq> {0, 1}" "cap \<le> length out"
    and "frame = pl_frame mc code (user_bits mc md data n)"
    and "sps = cfg_sps (mod_cfg md)" "flt = dvbs2x_rrc_filter_reset (mod_tx_filter md)"
    and "r = dvbs2x_modulate_ex alloc (Some md) (Some data) n (Some out) cap True"
  shows "length frame = (if mc_set mc = DVBS2X_VLSNR_SET1 then DVBS2X_VLSNR_FRAME_LONG
             else DVBS2X_VLSNR_FRAME_SHORT) \<and>
    mr_len r = Some (length frame * sps) \<and>
    (if cap < length frame * sps then mr_status r = Some ERR_SHORT \<and> mr_output r = out
     else mr_status r = None \<and>
       mr_output r = overwrite 0
         (map (\<lambda>j. \<lparr>re_i = fir flt (map re_i (rev (take (Suc j) (zero_stuffed sps frame)))),
                     im_q = fir flt (map im_q (rev (take (Suc j) (zero_stuffed sps frame))))\<rparr>)
            [0..<length frame * sps]) out)"
proof -
  have mc: "mc \<in> set vlsnr_modcod_table" and cfg: "cfg_modcod (mod_cfg md) = Some mc"
    and sps: "2 \<le> sps" "sps \<le> 7" "flt_sps flt = sps"
    using assms(1) by (simp_all add: modulator_ready_def assms(8,9) dvbs2x_rrc_filter_reset_def)
  obtain ro0 where ctx: "mod_bb_ctx md = (dvbs2x_bb_frame_init mc DVBS2X_STREAM_GS)\<lparr>ctx_ro := ro0\<rparr>"
    using assms(1) by (auto simp: modulator_ready_def)
  have dfl: "unat (ctx_dfl (mod_bb_ctx md)) = mc_k_bch mc - 80"
    using init_dfl [OF table_modcod_wf [OF mc]] by (simp add: ctx)
  have fl: "lay_field_len (frame_layout mc) = (if mc_set mc = DVBS2X_VLSNR_SET1 then 32292 else 15696)"
    by (rule frame_layout_fields [OF mc])
  have len: "length frame = 990 + lay_field_len (frame_layout mc)" by (simp add: assms(7) length_pl_frame [OF mc])
  define cp where "cp = DVBS2X_PLHEADER_LEN + DVBS2X_VLSNR_HDR_LEN +
      dvbs2x_tx_coded_bits mc * 2 + dvbs2x_tx_coded_bits mc div 2 + 128"
  have cp: "990 + lay_field_len (frame_layout mc) \<le> cp"
    using modcod_cases [OF mc] unfolding cp_def fl
    by (elim disjE) (simp_all add: modcod_defs dvbs2x_tx_coded_bits_def const_defs)
  define r1 where "r1 = dvbs2x_modulate_symbols_ex alloc (Some md) (Some data) n (Some (replicate cp zero_symbol)) cp True"
  obtain md' where md': "mod_tx_filter md' = mod_tx_filter md" "mod_cfg md' = mod_cfg md"
    "r1 = \<lparr>mr_status = None, mr_output = overwrite 0 frame (replicate cp zero_symbol),
           mr_len = Some (length frame), mr_mod = Some md'\<rparr>"
  proof (rule symbols_result [OF assms(1) _ assms(3,4,5) refl r1_def])
    show "cp \<le> length (replicate cp zero_symbol)" by simp
  qed (use that cp assms(2,7) len in \<open>auto simp: not_less\<close>)
  have ok: "filter_ok [] flt"
    using assms(1) by (auto simp: modulator_ready_def assms(9) intro: filter_reset_ok)
  obtain samples flt' where up: "dvbs2x_rrc_upsample flt frame = (samples, flt')" by (rule prod.exhaust)
  have samples: "samples = map (\<lambda>j. \<lparr>re_i = fir flt (map re_i (rev (take (Suc j) (zero_stuffed sps frame)))),
                     im_q = fir flt (map im_q (rev (take (Suc j) (zero_stuffed sps frame))))\<rparr>)
            [0..<length frame * sps]"
  proof -
    have "samples = fst (filter_run flt (zero_stuffed sps frame))"
      using upsample_run [OF ok, of frame] up sps(3) by (metis fst_conv)
    then show ?thesis
      using filter_run_ok [OF ok, of "zero_stuffed sps frame"] by (simp add: length_zero_stuffed)
  qed
  have small: "length frame \<le> UINT_MAX div sps"
  proof -
    have "length frame * sps \<le> 33282 * 7" using len fl sps by (intro mult_le_mono) auto
    then show ?thesis using sps by (simp add: less_eq_div_iff_mult_less_eq UINT_MAX_def)
  qed
  have taken: "take (length frame) (overwrite 0 frame (replicate cp zero_symbol)) = frame"
    by (simp add: overwrite_def)
  have "r = (if cap < length frame * sps
      then \<lparr>mr_status = Some ERR_SHORT, mr_output = out, mr_len = Some (length frame * sps), mr_mod = Some md'\<rparr>
      else \<lparr>mr_status = None, mr_output = overwrite 0 samples out, mr_len = Some (length samples),
             mr_mod = Some (md'\<lparr>mod_tx_filter := flt'\<rparr>)\<rparr>)"
    using assms(2,3) small up
    unfolding assms(10) dvbs2x_modulate_ex_def Let_def
    by (simp add: cfg dfl cp_def [symmetric] r1_def [symmetric] md' taken assms(8,9) [symmetric])
  then show ?thesis
    using len fl samples by (simp add: const_defs)
qed

theorem modulate_spec_witness:
  "\<exists>md. dvbs2x_modulator_init (\<lambda>_. True) (Some modulator_zero) 9 0.2 4 5 = Some (None, Some md) \<and>
     (let r = dvbs2x_modulate_ex (\<lambda>_. True) (Some md) (Some [1, 0, 1]) 3 (Some []) 0 True
      in mr_status r = Some ERR_SHORT \<and> mr_len r = Some 66744)"
proof -
  obtain md where md: "dvbs2x_modulator_init (\<lambda>_. True) (Some modulator_zero) 9 0.2 4 5 = Some (None, Some md)"
    "modulator_ready modcod_9 5 md" "cfg_sps (mod_cfg md) = 4" by (rule init_9)
  have "mc_set modcod_9 = DVBS2X_VLSNR_SET2" "mc_k_bch modcod_9 = 5232" by (simp_all add: modcod_9_def)
  obtain F where F: "F = pl_frame modcod_9 5 (user_bits modcod_9 md [1, 0, 1] 3)" by blast
  note spec = modulate_spec [OF md(2) _ _ _ _ _ F refl refl refl, where alloc = "\<lambda>_. True" and cap = 0 and out = "[]"]
  have "length F = 16686"
    using spec \<open>mc_set modcod_9 = _\<close> \<open>mc_k_bch modcod_9 = _\<close> by (simp add: const_defs)
  moreover from this have "F \<noteq> []" by auto
  ultimately show ?thesis
    using spec md(1) \<open>mc_k_bch modcod_9 = _\<close>
    by (intro exI [of _ md]) (simp add: Let_def md(3))
qed

end
