(* ===== verification/Fft.thy ===== *)
theory Fft
  imports WhHeader RrcFilter
begin

text \<open>
  \<^verbatim>\<open>sync_fft\<close> of \<^verbatim>\<open>src/vlsnr_header_gen.c\<close>: the in-place radix-2 transform of the frame search.  An
  array of samples is a list; the two loops over blocks and the loop over widths are folds and a
  recursion over the same indices.  The lemmas show that on \<open>2 ^ k\<close> samples the reordering is the
  bit reversal and the result the discrete Fourier transform, in exact arithmetic; the last ones
  derive the circular convolution of two arrays from the product of their transforms.
\<close>

section \<open>The transform\<close>

text \<open>The bit-reversed counter \<^verbatim>\<open>j\<close>: \<open>fft_carry\<close> is its inner loop, with the values of
  \<^verbatim>\<open>j\<close> and \<^verbatim>\<open>bit\<close> at its end.\<close>

function fft_carry :: "nat \<Rightarrow> nat \<Rightarrow> nat \<times> nat" where
  "fft_carry j b = (if j AND b \<noteq> 0 then fft_carry (j XOR b) (drop_bit 1 b) else (j, b))"
  by pat_completeness auto
termination
proof (relation "measure snd")
  fix j b :: nat
  assume "j AND b \<noteq> 0"
  then have "0 < b" by (cases b) auto
  then show "((j XOR b, drop_bit 1 b), j, b) \<in> measure snd" by (simp add: drop_bit_eq_div)
qed simp

declare fft_carry.simps [simp del]

definition fft_swap :: "nat \<Rightarrow> nat \<times> dvbs2x_complex list \<Rightarrow> nat \<Rightarrow> nat \<times> dvbs2x_complex list" where
  "fft_swap len st i =
     (let (j, data) = st;
          (j, b) = fft_carry j (drop_bit 1 len);
          j = j XOR b
      in (j, if i < j then data[i := data ! j, j := data ! i] else data))"

definition fft_reorder :: "dvbs2x_complex list \<Rightarrow> nat \<Rightarrow> dvbs2x_complex list" where
  "fft_reorder data len = snd (foldl (fft_swap len) (0, data) [1..<len])"

text \<open>The butterflies of one block; the state is the twiddle factor and the array.\<close>

definition fft_butterfly ::
  "nat \<Rightarrow> nat \<Rightarrow> real \<Rightarrow> real \<Rightarrow> real \<times> real \<times> dvbs2x_complex list \<Rightarrow> nat \<Rightarrow>
   real \<times> real \<times> dvbs2x_complex list" where
  "fft_butterfly base half step_i step_q st n =
     (let (wi, wq, data) = st;
          ev = data ! (base + n);
          od = data ! (base + n + half);
          oi = re_i od * wi - im_q od * wq;
          oq = re_i od * wq + im_q od * wi
      in (wi * step_i - wq * step_q, wi * step_q + wq * step_i,
          data[base + n := \<lparr>re_i = re_i ev + oi, im_q = im_q ev + oq\<rparr>,
               base + n + half := \<lparr>re_i = re_i ev - oi, im_q = im_q ev - oq\<rparr>]))"

definition fft_block :: "nat \<Rightarrow> real \<Rightarrow> real \<Rightarrow> dvbs2x_complex list \<Rightarrow> nat \<Rightarrow> dvbs2x_complex list" where
  "fft_block width step_i step_q data base =
     (let half = drop_bit 1 width
      in snd (snd (foldl (fft_butterfly base half step_i step_q) (1, 0, data) [0..<half])))"

text \<open>One width: the bases are the multiples of \<^verbatim>\<open>width\<close> below \<^verbatim>\<open>len\<close>.\<close>

definition fft_stage :: "nat \<Rightarrow> bool \<Rightarrow> nat \<Rightarrow> dvbs2x_complex list \<Rightarrow> dvbs2x_complex list" where
  "fft_stage len backward width data =
     (let angle = (if backward then 2 else -2) * M_PI / real width;
          step_i = cos angle;
          step_q = sin angle
      in foldl (fft_block width step_i step_q) data
           (map (\<lambda>b. b * width) [0..<(len + width - 1) div width]))"

function fft_stages :: "nat \<Rightarrow> bool \<Rightarrow> nat \<Rightarrow> dvbs2x_complex list \<Rightarrow> dvbs2x_complex list" where
  "fft_stages len backward width data =
     (if 0 < width \<and> width \<le> len then fft_stages len backward (width * 2) (fft_stage len backward width data)
      else data)"
  by pat_completeness auto
termination by (relation "measure (\<lambda>(len, _, width, _). Suc len - width)") auto

declare fft_stages.simps [simp del]

definition sync_fft :: "dvbs2x_complex list \<Rightarrow> nat \<Rightarrow> bool \<Rightarrow> dvbs2x_complex list" where
  "sync_fft data len backward =
     (let data = fft_stages len backward 2 (fft_reorder data len)
      in if backward
         then map (\<lambda>z. \<lparr>re_i = re_i z / real len, im_q = im_q z / real len\<rparr>) (take len data) @ drop len data
         else data)"

section \<open>Bit reversal\<close>

fun bitrev :: "nat \<Rightarrow> nat \<Rightarrow> nat" where
  "bitrev 0 i = 0"
| "bitrev (Suc k) i = (i mod 2) * 2 ^ k + bitrev k (i div 2)"

lemma bitrev_less: "bitrev k i < 2 ^ k"
proof (induction k arbitrary: i)
  case (Suc k)
  have "i mod 2 = 0 \<or> i mod 2 = 1" by auto
  then show ?case using Suc [of "i div 2"] by auto
qed simp

lemma bitrev_high:
  "i < 2 ^ k \<Longrightarrow> bitrev (Suc k) i = 2 * bitrev k i"
  "i < 2 ^ k \<Longrightarrow> bitrev (Suc k) (2 ^ k + i) = 2 * bitrev k i + 1"
proof (induction k arbitrary: i)
  case (Suc k)
  {
    case 1
    then have "i div 2 < 2 ^ k" by auto
    then show ?case using Suc.IH(1) [of "i div 2"] by (simp add: algebra_simps)
  next
    case 2
    then have "i div 2 < 2 ^ k" by auto
    moreover have "(2 ^ Suc k + i) div 2 = 2 ^ k + i div 2" "(2 ^ Suc k + i) mod 2 = i mod 2" by auto
    ultimately show ?case using Suc.IH(2) [of "i div 2"] by (simp add: algebra_simps)
  }
qed simp_all

lemma bitrev_bitrev: "i < 2 ^ k \<Longrightarrow> bitrev k (bitrev k i) = i"
proof (induction k arbitrary: i)
  case (Suc k)
  then have i: "i div 2 < 2 ^ k" by auto
  let ?v = "bitrev k (i div 2)"
  have IH: "bitrev k ?v = i div 2" by (rule Suc.IH [OF i])
  consider "i mod 2 = 0" | "i mod 2 = 1" by linarith
  then show ?case
  proof cases
    case 1
    then have "bitrev (Suc k) i = ?v" by simp
    then show ?thesis using bitrev_high(1) [OF bitrev_less, of k "i div 2"] IH 1 by (metis add_0_right mult_div_mod_eq)
  next
    case 2
    then have "bitrev (Suc k) i = 2 ^ k + ?v" by simp
    then show ?thesis using bitrev_high(2) [OF bitrev_less, of k "i div 2"] IH 2 by (metis mult_div_mod_eq)
  qed
qed simp

lemma top_bit:
  fixes x :: nat
  assumes "x < 2 ^ k"
  shows "x AND 2 ^ k = 0" "x XOR 2 ^ k = x + 2 ^ k" "(2 ^ k + x) AND 2 ^ k \<noteq> 0" "(2 ^ k + x) XOR 2 ^ k = x"
proof -
  have nb: "\<not> bit x k" using assms by (simp add: bit_iff_odd)
  then show a: "x AND 2 ^ k = 0" by (simp add: and_exp_eq_0_iff_not_bit)
  then show b: "x XOR 2 ^ k = x + 2 ^ k" by (simp add: disjunctive_add_eq_xor)
  have "2 ^ k + x = x XOR 2 ^ k" using b by simp
  then show "(2 ^ k + x) AND 2 ^ k \<noteq> 0" "(2 ^ k + x) XOR 2 ^ k = x"
    using nb by (simp_all add: and_exp_eq_0_iff_not_bit bit_xor_iff bit_exp_iff xor.assoc)
qed

lemma fft_carry_bitrev:
  "i + 1 < 2 ^ Suc k \<Longrightarrow>
   (case fft_carry (bitrev (Suc k) i) (2 ^ k) of (j, b) \<Rightarrow> j XOR b) = bitrev (Suc k) (i + 1)"
proof (induction k arbitrary: i)
  case 0
  then have "i = 0" by simp
  then show ?case by (simp add: fft_carry.simps)
next
  case (Suc k)
  let ?v = "bitrev (Suc k) (i div 2)"
  have v: "?v < 2 ^ Suc k" by (rule bitrev_less)
  consider "i mod 2 = 0" | "i mod 2 = 1" by linarith
  then show ?case
  proof cases
    case 1
    then have "(i + 1) mod 2 = 1" "(i + 1) div 2 = i div 2" by presburger+
    with 1 show ?thesis using top_bit [OF v] by (simp add: fft_carry.simps del: power_Suc bitrev.simps(2) add: bitrev.simps(2) [of "Suc k"])
  next
    case 2
    then have o: "(i + 1) mod 2 = 0" "(i + 1) div 2 = i div 2 + 1" by presburger+
    have "i div 2 + 1 < 2 ^ Suc k" using Suc.prems 2 unfolding o(2) [symmetric] by simp
    moreover have "drop_bit 1 (2 ^ Suc k :: nat) = 2 ^ k" by (simp add: drop_bit_eq_div)
    ultimately show ?thesis
      using Suc.IH [of "i div 2"] 2 o top_bit [OF v]
      by (simp add: fft_carry.simps [of "2 ^ Suc k + ?v"] del: power_Suc bitrev.simps(2) add: bitrev.simps(2) [of "Suc k"])
  qed
qed

lemma fft_swap_bitrev:
  assumes "n + 1 < 2 ^ k"
  shows "fft_swap (2 ^ k) (bitrev k n, data) (n + 1) =
     (bitrev k (n + 1),
      if n + 1 < bitrev k (n + 1)
      then data[n + 1 := data ! bitrev k (n + 1), bitrev k (n + 1) := data ! (n + 1)] else data)"
proof -
  obtain k' where k: "k = Suc k'" using assms by (cases k) auto
  obtain j b where jb: "fft_carry (bitrev k n) (2 ^ k') = (j, b)" by (rule prod.exhaust)
  have "j XOR b = bitrev k (n + 1)"
    using fft_carry_bitrev [of n k'] assms jb unfolding k by simp
  moreover have "drop_bit 1 (2 ^ k :: nat) = 2 ^ k'" by (simp add: k drop_bit_eq_div)
  ultimately show ?thesis by (simp add: fft_swap_def Let_def jb)
qed

lemma fft_reorder_upto:
  assumes "length data = 2 ^ k" "n < 2 ^ k"
  shows "fst (foldl (fft_swap (2 ^ k)) (0, data) [1..<Suc n]) = bitrev k n \<and>
    length (snd (foldl (fft_swap (2 ^ k)) (0, data) [1..<Suc n])) = 2 ^ k \<and>
    (\<forall>x < 2 ^ k. snd (foldl (fft_swap (2 ^ k)) (0, data) [1..<Suc n]) ! x =
       (if min x (bitrev k x) \<le> n then data ! bitrev k x else data ! x))"
  using assms(2)
proof (induction n)
  case 0
  have z: "bitrev k 0 = 0" for k by (induction k) simp_all
  have "x = 0" if "bitrev k x = 0" "x < 2 ^ k" for x
    using bitrev_bitrev [OF that(2)] that(1) z by simp
  then show ?case using assms(1) by (auto simp: z min_def)
next
  case (Suc n)
  let ?st = "foldl (fft_swap (2 ^ k)) (0, data) [1..<Suc n]" and ?i = "Suc n" and ?r = "bitrev k (Suc n)"
  have n: "n < 2 ^ k" using Suc.prems by simp
  note IH = Suc.IH [OF n]
  obtain d where d: "?st = (bitrev k n, d)" using IH by (cases ?st) simp
  have dl: "length d = 2 ^ k" and dv: "\<And>x. x < 2 ^ k \<Longrightarrow> d ! x =
      (if min x (bitrev k x) \<le> n then data ! bitrev k x else data ! x)"
    using IH unfolding d by simp_all
  have r: "?r < 2 ^ k" "bitrev k ?r = ?i" using bitrev_less bitrev_bitrev [OF Suc.prems] by simp_all
  have st': "foldl (fft_swap (2 ^ k)) (0, data) [1..<Suc (Suc n)] =
      (?r, if ?i < ?r then d[?i := d ! ?r, ?r := d ! ?i] else d)"
    using fft_swap_bitrev [of n k d] Suc.prems d by (simp add: foldl_snoc)
  have rinv: "bitrev k x = ?i \<longleftrightarrow> x = ?r" if "x < 2 ^ k" for x
    using that r bitrev_bitrev [OF that] by metis
  show ?case
    unfolding st'
  proof (intro conjI allI impI)
    fix x :: nat assume x: "x < 2 ^ k"
    consider "x = ?i" | "x = ?r" "x \<noteq> ?i" | "x \<noteq> ?i" "x \<noteq> ?r" by blast
    then show "snd (?r, if ?i < ?r then d[?i := d ! ?r, ?r := d ! ?i] else d) ! x =
        (if min x (bitrev k x) \<le> Suc n then data ! bitrev k x else data ! x)"
    proof cases
      case 1
      then show ?thesis using dv [OF Suc.prems] dv [OF r(1)] r dl Suc.prems
        by (cases "?i < ?r"; cases "?i = ?r") (auto simp: min_def)
    next
      case 2
      then show ?thesis using dv [OF Suc.prems] dv [OF r(1)] r dl Suc.prems
        by (cases "?i < ?r") (auto simp: min_def)
    next
      case 3
      then have "bitrev k x \<noteq> ?i" using rinv [OF x] by simp
      with 3 show ?thesis using dv [OF x] by (auto simp: min_def)
    qed
  qed (simp_all add: dl)
qed

lemma fft_reorder_bitrev:
  assumes "length data = 2 ^ k"
  shows "length (fft_reorder data (2 ^ k)) = 2 ^ k"
    "x < 2 ^ k \<Longrightarrow> fft_reorder data (2 ^ k) ! x = data ! bitrev k x"
  using fft_reorder_upto [OF assms, of "2 ^ k - 1"] by (auto simp: fft_reorder_def min_def)

section \<open>Stages\<close>

definition cx :: "dvbs2x_complex \<Rightarrow> complex" where
  "cx z = Complex (re_i z) (im_q z)"

lemma cx_eq_iff: "cx a = cx b \<longleftrightarrow> a = b"
  by (auto simp: cx_def)

definition twiddle :: "bool \<Rightarrow> nat \<Rightarrow> nat \<Rightarrow> complex" where
  "twiddle backward width n = cis ((if backward then 1 else -1) * (2 * pi * real n / real width))"

text \<open>One stage of width \<open>w\<close>: what it makes of entry \<open>x\<close>.\<close>

definition stage_value :: "bool \<Rightarrow> nat \<Rightarrow> dvbs2x_complex list \<Rightarrow> nat \<Rightarrow> complex" where
  "stage_value backward w data x =
     (let half = w div 2; r = x mod w
      in if r < half then cx (data ! x) + twiddle backward w r * cx (data ! (x + half))
         else cx (data ! (x - half)) - twiddle backward w (r - half) * cx (data ! x))"

lemma butterfly_values:
  assumes len: "base + 2 * half \<le> length data" and n: "n \<le> half"
    and w: "w = 2 * half" "0 < half" and al: "al = (if backward then 2 else -2) * M_PI / real w"
  shows "\<exists>wi wq d. foldl (fft_butterfly base half (cos al) (sin al)) (1, 0, data) [0..<n] = (wi, wq, d) \<and>
     Complex wi wq = twiddle backward w n \<and> length d = length data \<and>
     (\<forall>x < length data. cx (d ! x) =
        (if base \<le> x \<and> x < base + n
         then cx (data ! x) + twiddle backward w (x - base) * cx (data ! (x + half))
         else if base + half \<le> x \<and> x < base + half + n
         then cx (data ! (x - half)) - twiddle backward w (x - base - half) * cx (data ! x)
         else cx (data ! x)))"
  using n
proof (induction n)
  case 0
  then show ?case by (simp add: twiddle_def complex_eq_iff)
next
  case (Suc n)
  then obtain wi wq d where st: "foldl (fft_butterfly base half (cos al) (sin al)) (1, 0, data) [0..<n] = (wi, wq, d)"
    and tw: "Complex wi wq = twiddle backward w n" and dl: "length d = length data"
    and dv: "\<And>x. x < length data \<Longrightarrow> cx (d ! x) =
        (if base \<le> x \<and> x < base + n
         then cx (data ! x) + twiddle backward w (x - base) * cx (data ! (x + half))
         else if base + half \<le> x \<and> x < base + half + n
         then cx (data ! (x - half)) - twiddle backward w (x - base - half) * cx (data ! x)
         else cx (data ! x))" by force
  have n: "n < half" using Suc.prems by simp
  let ?e = "d ! (base + n)" and ?o = "d ! (base + n + half)"
  define e' where "e' = \<lparr>re_i = re_i ?e + (re_i ?o * wi - im_q ?o * wq), im_q = im_q ?e + (re_i ?o * wq + im_q ?o * wi)\<rparr>"
  define o' where "o' = \<lparr>re_i = re_i ?e - (re_i ?o * wi - im_q ?o * wq), im_q = im_q ?e - (re_i ?o * wq + im_q ?o * wi)\<rparr>"
  have st': "foldl (fft_butterfly base half (cos al) (sin al)) (1, 0, data) [0..<Suc n] =
     (wi * cos al - wq * sin al, wi * sin al + wq * cos al, d[base + n := e', base + n + half := o'])"
    by (simp add: st fft_butterfly_def Let_def e'_def o'_def)
  have tw': "Complex (wi * cos al - wq * sin al) (wi * sin al + wq * cos al) = twiddle backward w (Suc n)"
  proof -
    have "Complex (wi * cos al - wq * sin al) (wi * sin al + wq * cos al) = Complex wi wq * cis al"
      by (simp add: complex_eq_iff)
    also have "\<dots> = twiddle backward w (Suc n)"
      unfolding tw twiddle_def cis_mult al M_PI_def
      by (simp add: algebra_simps add_divide_distrib diff_divide_distrib)
    finally show ?thesis .
  qed
  have oldE: "cx ?e = cx (data ! (base + n))" "cx ?o = cx (data ! (base + n + half))"
    using dv [of "base + n"] dv [of "base + n + half"] n len by simp_all
  have e': "cx e' = cx (data ! (base + n)) + twiddle backward w n * cx (data ! (base + n + half))"
    and o': "cx o' = cx (data ! (base + n)) - twiddle backward w n * cx (data ! (base + n + half))"
    unfolding oldE [symmetric] tw [symmetric] by (simp_all add: cx_def complex_eq_iff e'_def o'_def algebra_simps)
  show ?case
  proof (intro exI conjI allI impI)
    show "foldl (fft_butterfly base half (cos al) (sin al)) (1, 0, data) [0..<Suc n] =
     (wi * cos al - wq * sin al, wi * sin al + wq * cos al, d[base + n := e', base + n + half := o'])"
      by (rule st')
    fix x assume x: "x < length data"
    consider "x = base + n" | "x = base + n + half" | "x \<noteq> base + n" "x \<noteq> base + n + half" by blast
    then show "cx (d[base + n := e', base + n + half := o'] ! x) =
        (if base \<le> x \<and> x < base + Suc n
         then cx (data ! x) + twiddle backward w (x - base) * cx (data ! (x + half))
         else if base + half \<le> x \<and> x < base + half + Suc n
         then cx (data ! (x - half)) - twiddle backward w (x - base - half) * cx (data ! x)
         else cx (data ! x))"
    proof cases
      case 1
      then show ?thesis using e' x dl n by (simp add: add.assoc)
    next
      case 2
      then show ?thesis using o' x dl n by simp
    next
      case 3
      then have "cx (d[base + n := e', base + n + half := o'] ! x) = cx (d ! x)" by simp
      moreover have "(x < base + Suc n) = (x < base + n)" "(x < base + half + Suc n) = (x < base + half + n)"
        using 3 by auto
      ultimately show ?thesis using dv [OF x] by simp
    qed
  qed (simp_all add: tw' dl)
qed

text \<open>The blocks of a stage, then the stage.\<close>

lemma fft_blocks_values:
  assumes len: "length data = m * w" and w: "w = 2 * half" "0 < half" and b: "b \<le> m"
    and al: "al = (if backward then 2 else -2) * M_PI / real w"
  shows "length (foldl (fft_block w (cos al) (sin al)) data (map (\<lambda>b. b * w) [0..<b])) = length data \<and>
    (\<forall>x < length data. cx (foldl (fft_block w (cos al) (sin al)) data (map (\<lambda>b. b * w) [0..<b]) ! x) =
       (if x < b * w then stage_value backward w data x else cx (data ! x)))"
  using b
proof (induction b)
  case (Suc b)
  define d where "d = foldl (fft_block w (cos al) (sin al)) data (map (\<lambda>b. b * w) [0..<b])"
  have dl: "length d = length data" and dv: "\<And>x. x < length data \<Longrightarrow>
      cx (d ! x) = (if x < b * w then stage_value backward w data x else cx (data ! x))"
    using Suc by (simp_all add: d_def)
  have "Suc b * w \<le> m * w" using Suc.prems by (intro mult_le_mono1)
  then have base: "b * w + 2 * half \<le> length d" by (simp add: dl len w(1))
  have hw: "drop_bit (Suc 0) w = half" by (simp add: w drop_bit_eq_div)
  obtain wi wq d' where st: "foldl (fft_butterfly (b * w) half (cos al) (sin al)) (1, 0, d) [0..<half] = (wi, wq, d')"
    and dl': "length d' = length d" and dv': "\<And>x. x < length d \<Longrightarrow> cx (d' ! x) =
        (if b * w \<le> x \<and> x < b * w + half
         then cx (d ! x) + twiddle backward w (x - b * w) * cx (d ! (x + half))
         else if b * w + half \<le> x \<and> x < b * w + half + half
         then cx (d ! (x - half)) - twiddle backward w (x - b * w - half) * cx (d ! x)
         else cx (d ! x))"
    using butterfly_values [OF base le_refl w al] by blast
  have res: "foldl (fft_block w (cos al) (sin al)) data (map (\<lambda>b. b * w) [0..<Suc b]) = d'"
    by (simp add: foldl_snoc d_def [symmetric] fft_block_def hw Let_def st)
  have block: "x mod w = x - b * w" if "b * w \<le> x" "x < Suc b * w" for x
  proof -
    have "x = (x - b * w) + b * w" "x - b * w < w" using that by simp_all
    then show ?thesis by (metis mod_less mod_mult_self1)
  qed
  show ?case
    unfolding res
  proof (intro conjI allI impI)
    fix x assume x: "x < length data"
    consider "x < b * w" | "b * w \<le> x" "x < b * w + half" | "b * w + half \<le> x" "x < Suc b * w" | "Suc b * w \<le> x"
      by linarith
    then show "cx (d' ! x) = (if x < Suc b * w then stage_value backward w data x else cx (data ! x))"
    proof cases
      case 1
      then show ?thesis using dv' [of x] dv [OF x] x by (simp add: dl)
    next
      case 2
      then have "x mod w = x - b * w" using w by (intro block) simp_all
      moreover have "x + half < length data" using 2 base dl by simp
      ultimately show ?thesis
        using 2 dv' [of x] dv [OF x] dv [of "x + half"] x w by (auto simp: dl stage_value_def Let_def)
    next
      case 3
      then have "x mod w = x - b * w" by (intro block) simp_all
      moreover have "x - half < length data" "\<not> x - half < b * w" using 3 x by auto
      moreover have "\<not> x - b * w < half" using 3 by simp
      ultimately show ?thesis
        using 3 dv' [of x] dv [OF x] dv [of "x - half"] x w by (auto simp: dl stage_value_def Let_def)
    next
      case 4
      then show ?thesis using dv' [of x] dv [OF x] x w by (simp add: dl)
    qed
  qed (simp add: dl dl')
qed simp

lemma fft_stage_values:
  assumes "length data = m * w" "w = 2 * half" "0 < half"
  shows "length (fft_stage (m * w) backward w data) = length data"
    "x < length data \<Longrightarrow> cx (fft_stage (m * w) backward w data ! x) = stage_value backward w data x"
proof -
  have "m * w + w - 1 = (w - 1) + m * w" "0 < w" using assms(2,3) by simp_all
  then have m: "(m * w + w - 1) div w = m" by (simp only: div_mult_self1) simp
  note v = fft_blocks_values [OF assms le_refl refl, of backward]
  show "length (fft_stage (m * w) backward w data) = length data"
    unfolding fft_stage_def Let_def m by (rule conjunct1 [OF v])
  show "cx (fft_stage (m * w) backward w data ! x) = stage_value backward w data x" if "x < length data"
    unfolding fft_stage_def Let_def m using conjunct2 [OF v] that assms(1) by simp
qed

section \<open>The discrete Fourier transform\<close>

text \<open>After the stages up to width \<open>2 ^ s\<close> a block holds the transform of every
  \<open>2 ^ (k - s)\<close>-th sample.\<close>

definition partial_dft :: "bool \<Rightarrow> nat \<Rightarrow> nat \<Rightarrow> dvbs2x_complex list \<Rightarrow> nat \<Rightarrow> complex" where
  "partial_dft backward k s data x =
     (\<Sum>t<2 ^ s. cx (data ! (t * 2 ^ (k - s) + bitrev (k - s) (x div 2 ^ s))) *
        twiddle backward (2 ^ s) (x mod 2 ^ s * t))"

lemma twiddle_add: "twiddle backward w (a + b) = twiddle backward w a * twiddle backward w b"
  by (simp add: twiddle_def cis_mult add_divide_distrib distrib_left)

lemma twiddle_cycle: "0 < w \<Longrightarrow> twiddle backward w (w * m) = 1"
proof -
  assume "0 < w"
  then have "(if backward then 1 else -1) * (2 * pi * real (w * m) / real w) =
      2 * pi * (if backward then real m else - real m)" by (cases backward) simp_all
  then have "twiddle backward w (w * m) = cis (2 * pi * (if backward then real m else - real m))"
    by (simp only: twiddle_def)
  also have "\<dots> = 1" by (intro cis_multiple_2pi) simp
  finally show ?thesis .
qed

lemma twiddle_half: "0 < w \<Longrightarrow> twiddle backward (2 * w) w = -1"
proof -
  assume "0 < w"
  then have "twiddle backward (2 * w) w = cis (if backward then pi else - pi)" by (simp add: twiddle_def)
  also have "\<dots> = -1" by (simp add: complex_eq_iff)
  finally show ?thesis .
qed

lemma twiddle_double: "twiddle backward (2 * w) (2 * n) = twiddle backward w n"
  by (simp add: twiddle_def mult.assoc)

lemma sum_even_odd: "(\<Sum>t<2 * n. f t) = (\<Sum>t<n. f (2 * t) + f (2 * t + 1))" for f :: "nat \<Rightarrow> 'a::comm_monoid_add"
  by (induction n) (simp_all add: add.assoc)

lemma partial_dft_step:
  assumes s: "s < k"
    and d: "\<And>x. x < 2 ^ k \<Longrightarrow> cx (d ! x) = partial_dft backward k s data x"
    and x: "x < 2 ^ k"
  shows "stage_value backward (2 ^ Suc s) d x = partial_dft backward k (Suc s) data x"
proof -
  define h :: nat where "h = 2 ^ s"
  define m where "m = k - Suc s"
  have h: "0 < h" and w: "(2::nat) ^ Suc s = 2 * h" by (simp_all add: h_def)
  have km: "k - s = Suc m" "(2::nat) ^ k = 2 ^ m * (2 * h)"
    using s by (simp_all add: m_def h_def flip: power_add power_Suc)
  define B where "B = x div (2 * h)"
  define r where "r = x mod (2 * h)"
  have xd: "x = B * (2 * h) + r" "r < 2 * h"
    using h div_mult_mod_eq [of x "2 * h"] by (simp_all only: B_def r_def) simp_all
  have B: "B < 2 ^ m" using x unfolding km(2) B_def by (simp add: less_mult_imp_div_less)
  define even where "even q = (\<Sum>t<h. cx (data ! (2 * t * 2 ^ m + bitrev m B)) * twiddle backward h (q * t))" for q
  define odd where "odd q = (\<Sum>t<h. cx (data ! ((2 * t + 1) * 2 ^ m + bitrev m B)) * twiddle backward h (q * t))" for q
  have lo: "partial_dft backward k s data (B * (2 * h) + q) = even q" if "q < h" for q
  proof -
    have "B * (2 * h) + q = q + (2 * B) * h" by simp
    then have "(B * (2 * h) + q) div h = 2 * B" "(B * (2 * h) + q) mod h = q"
      using that h by (simp_all only: div_mult_self1 mod_mult_self1) simp_all
    then show ?thesis
      by (simp add: partial_dft_def even_def km(1) h_def [symmetric] ac_simps)
  qed
  have hi: "partial_dft backward k s data (B * (2 * h) + (h + q)) = odd q" if "q < h" for q
  proof -
    have "B * (2 * h) + (h + q) = q + (2 * B + 1) * h" by (simp add: algebra_simps)
    then have "(B * (2 * h) + (h + q)) div h = 2 * B + 1" "(B * (2 * h) + (h + q)) mod h = q"
      using that h by (simp_all only: div_mult_self1 mod_mult_self1) simp_all
    moreover have "bitrev (Suc m) (2 * B + 1) = 2 ^ m + bitrev m B"
      by (simp only: bitrev.simps mod_mult_self2_is_0 mult.commute [of 2 B] mod_mult_self3) simp
    ultimately show ?thesis
      unfolding partial_dft_def odd_def km(1) h_def [symmetric]
      by (simp add: algebra_simps del: bitrev.simps)
  qed
  have full: "partial_dft backward k (Suc s) data x =
      (\<Sum>t<h. cx (data ! (2 * t * 2 ^ m + bitrev m B)) * twiddle backward (2 * h) (r * (2 * t)) +
             cx (data ! ((2 * t + 1) * 2 ^ m + bitrev m B)) * twiddle backward (2 * h) (r * (2 * t + 1)))"
    unfolding partial_dft_def w m_def [symmetric] B_def [symmetric] r_def [symmetric] by (rule sum_even_odd)
  have ev: "twiddle backward (2 * h) (q * (2 * t)) = twiddle backward h (q * t)" for q t
    using twiddle_double [of backward h "q * t"] by (simp add: mult.left_commute)
  show ?thesis
  proof (cases "r < h")
    case True
    have "twiddle backward (2 * h) (r * (2 * t + 1)) = twiddle backward (2 * h) r * twiddle backward h (r * t)" for t
      using twiddle_add [of backward "2 * h" r "r * (2 * t)"] ev by (simp add: algebra_simps)
    then have "partial_dft backward k (Suc s) data x = even r + twiddle backward (2 * h) r * odd r"
      unfolding full ev by (simp add: even_def odd_def sum.distrib sum_distrib_left algebra_simps)
    moreover have "x + h < 2 ^ k"
    proof -
      have "x + h < (B + 1) * (2 * h)" using True xd by (simp add: algebra_simps)
      also have "\<dots> \<le> 2 ^ m * (2 * h)" using B by (intro mult_le_mono1) simp
      finally show ?thesis by (simp add: km)
    qed
    moreover have "B * (2 * h) + (h + r) = x + h" using xd(1) by linarith
    ultimately have "partial_dft backward k (Suc s) data x = even r + twiddle backward (2 * h) r * odd r"
      "cx (d ! x) = even r" "cx (d ! (x + h)) = odd r"
      using lo [OF True] hi [OF True] d [OF x] d [of "x + h"] xd(1) by (simp_all add: add.assoc add.commute [of h r])
    then show ?thesis
      using True unfolding stage_value_def w r_def [symmetric] by simp
  next
    case False
    define q where "q = r - h"
    have q: "q < h" "r = h + q" using False xd(2) by (simp_all add: q_def)
    have c: "twiddle backward (2 * h) ((h + q) * (2 * t)) = twiddle backward h (q * t)" for t
      unfolding ev using twiddle_cycle [OF h, of backward t] by (simp add: twiddle_add distrib_right)
    have "twiddle backward (2 * h) ((h + q) * (2 * t + 1)) = - (twiddle backward (2 * h) q * twiddle backward h (q * t))" for t
      using twiddle_half [OF h, of backward] c [of t]
      by (simp add: distrib_left twiddle_add mult.commute)
    then have "partial_dft backward k (Suc s) data x = even q - twiddle backward (2 * h) q * odd q"
      unfolding full q(2) c by (simp add: even_def odd_def sum.distrib sum_distrib_left sum_negf sum_subtractf algebra_simps)
    moreover have "x - h = B * (2 * h) + q" "x = B * (2 * h) + (h + q)" "x - h < 2 ^ k"
      using x by (simp_all add: xd(1) q(2))
    then have "cx (d ! x) = odd q" "cx (d ! (x - h)) = even q"
      using d [OF x] d [of "x - h"] lo [OF q(1)] hi [OF q(1)] by metis+
    ultimately show ?thesis
      using False unfolding stage_value_def w r_def [symmetric] by (simp add: q_def)
  qed
qed

lemma fft_stages_dft:
  assumes "length d = 2 ^ k" "s \<le> k" "\<And>x. x < 2 ^ k \<Longrightarrow> cx (d ! x) = partial_dft backward k s data x"
  shows "length (fft_stages (2 ^ k) backward (2 ^ Suc s) d) = 2 ^ k \<and>
    (\<forall>x < 2 ^ k. cx (fft_stages (2 ^ k) backward (2 ^ Suc s) d ! x) = partial_dft backward k k data x)"
  using assms
proof (induction "k - s" arbitrary: s d)
  case 0
  then show ?case by (simp add: fft_stages.simps [of _ _ "2 * 2 ^ s"])
next
  case (Suc n)
  then have s: "s < k" by simp
  define w :: nat where "w = 2 ^ Suc s"
  have len: "length d = 2 ^ (k - Suc s) * w" "(2::nat) ^ k = 2 ^ (k - Suc s) * w"
    using s Suc.prems(1) by (simp_all add: w_def flip: power_add power_Suc)
  have w: "w = 2 * 2 ^ s" by (simp add: w_def)
  note st = fft_stage_values [OF len(1) w, where backward = backward, folded len(2)]
  have "w \<le> 2 ^ k" unfolding w_def using s by (intro power_increasing) simp_all
  then have unf: "fft_stages (2 ^ k) backward w d = fft_stages (2 ^ k) backward (2 ^ Suc (Suc s)) (fft_stage (2 ^ k) backward w d)"
    using w by (subst fft_stages.simps) (simp add: w_def mult.commute)
  show ?case
    unfolding w_def [symmetric] unf
  proof (rule Suc.hyps(1))
    show "n = k - Suc s" using Suc.hyps(2) by simp
    show "length (fft_stage (2 ^ k) backward w d) = 2 ^ k" using st(1) Suc.prems(1) by simp
    fix x :: nat assume x: "x < 2 ^ k"
    show "cx (fft_stage (2 ^ k) backward w d ! x) = partial_dft backward k (Suc s) data x"
      using st(2) [of x] partial_dft_step [OF s Suc.prems(3) x] x Suc.prems(1) by (simp add: w_def)
  qed (use s in simp)
qed

definition dft :: "bool \<Rightarrow> nat \<Rightarrow> (nat \<Rightarrow> complex) \<Rightarrow> nat \<Rightarrow> complex" where
  "dft backward n f x = (\<Sum>t<n. f t * twiddle backward n (x * t))"

text \<open>On \<open>2 ^ k\<close> samples the code computes the transform, and its inverse.\<close>

lemma sync_fft_dft:
  assumes "length data = 2 ^ k"
  shows "length (sync_fft data (2 ^ k) backward) = 2 ^ k"
    "x < 2 ^ k \<Longrightarrow> cx (sync_fft data (2 ^ k) backward ! x) =
       dft backward (2 ^ k) (\<lambda>t. cx (data ! t)) x / (if backward then 2 ^ k else 1)"
proof -
  let ?r = "fft_reorder data (2 ^ k)"
  note r = fft_reorder_bitrev [OF assms]
  have "cx (?r ! x) = partial_dft backward k 0 data x" if "x < 2 ^ k" for x
    using r(2) [OF that] by (simp add: partial_dft_def twiddle_def)
  then have st: "length (fft_stages (2 ^ k) backward 2 ?r) = 2 ^ k"
    "\<And>x. x < 2 ^ k \<Longrightarrow> cx (fft_stages (2 ^ k) backward 2 ?r ! x) = dft backward (2 ^ k) (\<lambda>t. cx (data ! t)) x"
    using fft_stages_dft [OF r(1), of 0 backward data] by (simp_all add: partial_dft_def dft_def)
  show "length (sync_fft data (2 ^ k) backward) = 2 ^ k"
    using st(1) by (cases backward) (simp_all add: sync_fft_def Let_def)
  show "cx (sync_fft data (2 ^ k) backward ! x) =
       dft backward (2 ^ k) (\<lambda>t. cx (data ! t)) x / (if backward then 2 ^ k else 1)" if "x < 2 ^ k"
    unfolding st(2) [OF that, symmetric]
    using st(1) that
    by (cases backward) (simp_all add: sync_fft_def Let_def cx_def complex_eq_iff nth_append Re_divide Im_divide power2_eq_square)
qed

section \<open>Convolution\<close>

lemma twiddle_power: "twiddle backward n (x * d) = twiddle backward n d ^ x"
  by (induction x) (simp_all add: twiddle_add, simp add: twiddle_def)

lemma twiddle_eq_1:
  assumes "0 < n" "twiddle True n d = 1"
  shows "n dvd d"
proof -
  have "cos (2 * pi * real d / real n) = 1"
    using assms(2) by (simp add: twiddle_def complex_eq_iff)
  then obtain i where "2 * pi * real d / real n = of_int i * 2 * pi"
    using cos_one_2pi_int by blast
  then have "real d = of_int i * real n" using assms(1) by (simp add: field_simps)
  then have "int d = i * int n" by (metis of_int_eq_iff of_int_mult of_int_of_nat_eq)
  then show ?thesis by (metis dvd_triv_right int_dvd_int_iff)
qed

lemma twiddle_sum:
  assumes "0 < n"
  shows "(\<Sum>x<n. twiddle True n (x * d)) = (if n dvd d then of_nat n else 0)"
proof (cases "n dvd d")
  case True
  then obtain m where "d = n * m" by blast
  then have "twiddle True n d = 1" by (simp add: twiddle_cycle [OF assms])
  then show ?thesis using True by (simp add: twiddle_power)
next
  case False
  let ?z = "twiddle True n d"
  have "?z \<noteq> 1" using False twiddle_eq_1 [OF assms] by blast
  moreover have "?z ^ n = 1" using twiddle_cycle [OF assms, of True d] by (simp add: twiddle_power)
  ultimately show ?thesis using False by (simp add: twiddle_power sum_gp_strict)
qed

lemma twiddle_forward:
  assumes "0 < n"
  shows "twiddle False n m = twiddle True n ((n - 1) * m)"
proof -
  have "twiddle True n ((n - 1) * m) * twiddle True n m = 1"
    using assms twiddle_cycle [OF assms, of True m] by (simp add: diff_mult_distrib flip: twiddle_add)
  moreover have "twiddle False n m * twiddle True n m = 1"
    by (simp add: twiddle_def cis_mult)
  moreover have "twiddle True n m \<noteq> 0" by (simp add: twiddle_def)
  ultimately show ?thesis by (metis mult_right_cancel)
qed

lemma dft_convolution:
  assumes "0 < n" "t < n"
  shows "dft True n (\<lambda>x. dft False n f x * dft False n g x) t / of_nat n =
     (\<Sum>a<n. \<Sum>b<n. if (a + b) mod n = t then f a * g b else 0)"
proof -
  have hit: "n dvd t + (n - 1) * (a + b) \<longleftrightarrow> (a + b) mod n = t" for a b
  proof -
    have "int (t + (n - 1) * (a + b)) = (int t - int (a + b)) + int n * int (a + b)"
      using assms(1) by (cases n) (simp_all add: algebra_simps)
    then have "n dvd t + (n - 1) * (a + b) \<longleftrightarrow> int n dvd int t - int (a + b)"
      by (metis dvd_add_left_iff dvd_triv_left int_dvd_int_iff)
    also have "\<dots> \<longleftrightarrow> int t mod int n = int (a + b) mod int n" by (simp add: mod_eq_dvd_iff)
    also have "\<dots> \<longleftrightarrow> (a + b) mod n = t" using assms(2) by (metis mod_less of_nat_eq_iff of_nat_mod)
    finally show ?thesis .
  qed
  have tw: "twiddle False n (x * a) * twiddle False n (x * b) * twiddle True n (t * x) =
      twiddle True n (x * (t + (n - 1) * (a + b)))" for x a b
    unfolding twiddle_forward [OF assms(1)] twiddle_add [symmetric]
    using assms(1) by (intro arg_cong [where f = "twiddle True n"], cases n) (simp_all add: algebra_simps)
  have "dft True n (\<lambda>x. dft False n f x * dft False n g x) t =
      (\<Sum>x<n. \<Sum>a<n. \<Sum>b<n. f a * g b * twiddle True n (x * (t + (n - 1) * (a + b))))"
    unfolding dft_def sum_product
    unfolding sum_distrib_right
    using tw by (intro sum.cong refl) (simp add: ac_simps)
  also have "\<dots> = (\<Sum>a<n. \<Sum>b<n. \<Sum>x<n. f a * g b * twiddle True n (x * (t + (n - 1) * (a + b))))"
    by (subst sum.swap, rule sum.cong [OF refl], subst sum.swap, rule refl)
  also have "\<dots> = (\<Sum>a<n. \<Sum>b<n. if (a + b) mod n = t then f a * g b * of_nat n else 0)"
    unfolding sum_distrib_left [symmetric] twiddle_sum [OF assms(1)] hit
    by (intro sum.cong refl) simp
  finally show ?thesis
    using assms(1) by (simp add: sum_divide_distrib) (intro sum.cong refl, simp)
qed

text \<open>With the second array zero from \<open>m\<close> on, entry \<open>t\<close> from \<open>m - 1\<close> on does not wrap around.\<close>

lemma dft_convolution_linear:
  assumes "t < n" "m \<le> t + 1" "\<And>b. m \<le> b \<Longrightarrow> g b = 0"
  shows "dft True n (\<lambda>x. dft False n f x * dft False n g x) t / of_nat n = (\<Sum>b<m. f (t - b) * g b)"
proof -
  have n: "0 < n" "m \<le> n" using assms by simp_all
  have "(\<Sum>a<n. if (a + b) mod n = t then f a * g b else 0) = (if b < m then f (t - b) * g b else 0)" if "b < n" for b
  proof (cases "b < m")
    case True
    then have b: "b \<le> t" using assms(2) by simp
    have "(a + b) mod n = t \<longleftrightarrow> a = t - b" if "a < n" for a
    proof
      assume h: "(a + b) mod n = t"
      show "a = t - b"
      proof (cases "a + b < n")
        case False
        then have "(a + b) mod n = a + b - n" using that \<open>b < n\<close> by (simp add: mod_if)
        then show ?thesis using h that b False by linarith
      qed (use h in simp)
    qed (use b assms(1) in simp)
    then have "(\<Sum>a<n. if (a + b) mod n = t then f a * g b else 0) = (\<Sum>a<n. if a = t - b then f a * g b else 0)"
      by (intro sum.cong) auto
    also have "\<dots> = f (t - b) * g b"
    proof -
      have "t - b < n" using assms(1) by simp
      then show ?thesis by (simp add: sum.delta)
    qed
    finally show ?thesis using True by simp
  qed (auto intro!: sum.neutral simp: assms(3))
  then have "(\<Sum>b<n. \<Sum>a<n. if (a + b) mod n = t then f a * g b else 0) =
      (\<Sum>b<n. if b < m then f (t - b) * g b else 0)"
    by (intro sum.cong) simp_all
  also have "\<dots> = (\<Sum>b<m. f (t - b) * g b)"
    using n(2) by (intro sum.mono_neutral_cong_right) auto
  finally show ?thesis
    unfolding dft_convolution [OF n(1) assms(1)] by (subst sum.swap)
qed

section \<open>Properties\<close>

lemma dft_inverse: "t < n \<Longrightarrow> dft True n (dft False n f) t / of_nat n = f t"
proof -
  assume t: "t < n"
  have "dft False n (\<lambda>b. if b = 0 then 1 else 0) x = 1" for x
    using t by (simp add: dft_def if_distrib [of "\<lambda>c. c * _"] sum.delta cong: if_cong) (simp add: twiddle_def)
  then show ?thesis
    using dft_convolution_linear [OF t, of 1 "\<lambda>b. if b = 0 then 1 else 0" f] by simp
qed



end
