(* ===== verification/HeaderSync.thy ===== *)
theory HeaderSync
  imports Fft BbFrame
begin

text \<open>
  The frame search of \<^verbatim>\<open>src/vlsnr_header_gen.c\<close>: \<^verbatim>\<open>sync_fft\<close>, the reference transforms, and
  \<^verbatim>\<open>dvbs2x_vlsnr_header_sync_mode\<close>, which correlates the received symbols with the header of every
  MODCOD at every offset through the transform.  The lemmas show that the transform is the discrete
  Fourier transform, that the product of transforms is the correlation at every offset, and what
  the confidence, offset and MODCOD of a search say of the symbols.
\<close>

section \<open>Reference transforms\<close>

definition zero_sample :: dvbs2x_complex where "zero_sample = \<lparr>re_i = 0, im_q = 0\<rparr>"

text \<open>The reversed conjugate of a reference, in an array of \<open>len\<close> entries.\<close>

definition sync_reversed :: "nat \<Rightarrow> nat \<Rightarrow> dvbs2x_complex list" where
  "sync_reversed len mc =
     map (\<lambda>n. if n < DVBS2X_VLSNR_WH_LEN
              then \<lparr>re_i = re_i (do_sync_init ! mc ! (DVBS2X_VLSNR_WH_LEN - 1 - n)),
                    im_q = - im_q (do_sync_init ! mc ! (DVBS2X_VLSNR_WH_LEN - 1 - n))\<rparr>
              else zero_sample) [0..<len]"

definition sync_fft_reference_init :: "nat \<Rightarrow> nat \<Rightarrow> dvbs2x_complex list" where
  "sync_fft_reference_init len mc = sync_fft (sync_reversed len mc) len False"

definition sync_fft_reference :: "nat \<Rightarrow> nat \<Rightarrow> dvbs2x_complex list option" where
  "sync_fft_reference fft_len modcod =
     (if fft_len = 2048 then Some (sync_fft_reference_init 2048 modcod)
      else if fft_len = 4096 then Some (sync_fft_reference_init 4096 modcod)
      else if fft_len = 8192 then Some (sync_fft_reference_init 8192 modcod)
      else None)"

section \<open>The search\<close>

text \<open>The transform length: the loop's overflow exit is \<open>None\<close>.\<close>

function fft_length :: "nat \<Rightarrow> nat \<Rightarrow> nat option" where
  "fft_length need fft_len =
     (if fft_len < need then
        if UINT_MAX div 2 < fft_len then None
        else if fft_len = 0 then None
        else fft_length need (fft_len * 2)
      else Some fft_len)"
  by pat_completeness auto
termination by (relation "measure (\<lambda>(need, fft_len). need - fft_len)") auto

declare fft_length.simps [simp del]

definition power_of :: "dvbs2x_complex \<Rightarrow> real" where
  "power_of z = re_i z * re_i z + im_q z * im_q z"

text \<open>The energies of the windows: the first is summed up, each further one updates the one
  before it.\<close>

primrec window_energy :: "dvbs2x_complex list \<Rightarrow> nat \<Rightarrow> real" where
  "window_energy symbols 0 = foldl (\<lambda>e n. e + power_of (symbols ! n)) 0 [0..<DVBS2X_VLSNR_WH_LEN]"
| "window_energy symbols (Suc p) =
     window_energy symbols p - power_of (symbols ! p) + power_of (symbols ! (p + DVBS2X_VLSNR_WH_LEN))"

definition spectrum_product :: "dvbs2x_complex list \<Rightarrow> dvbs2x_complex list \<Rightarrow> nat \<Rightarrow> dvbs2x_complex list" where
  "spectrum_product a b len =
     map (\<lambda>n. \<lparr>re_i = re_i (a ! n) * re_i (b ! n) - im_q (a ! n) * im_q (b ! n),
               im_q = re_i (a ! n) * im_q (b ! n) + im_q (a ! n) * re_i (b ! n)\<rparr>) [0..<len]"

text \<open>The best offset for one MODCOD: score and offset after the loop over the positions.\<close>

definition candidate_step ::
  "real list \<Rightarrow> dvbs2x_complex list \<Rightarrow> real \<times> nat \<Rightarrow> nat \<Rightarrow> real \<times> nat" where
  "candidate_step energy work st pos =
     (let (best, off) = st
      in if energy ! pos \<le> 0 then (best, off)
         else
           let norm = sqrt (real DVBS2X_VLSNR_WH_LEN * energy ! pos);
               index = pos + DVBS2X_VLSNR_WH_LEN - 1;
               score = sqrt (power_of (work ! index)) / norm
           in if best < score then (score, pos) else (best, off))"

definition sync_candidate ::
  "dvbs2x_complex list \<Rightarrow> real list \<Rightarrow> nat \<Rightarrow> nat \<Rightarrow> nat \<Rightarrow> nat" where
  "sync_candidate input_fft energy fft_len positions mc =
     (let reference = (case sync_fft_reference fft_len mc of
              Some r \<Rightarrow> r
            | None \<Rightarrow> sync_fft (sync_reversed fft_len mc) fft_len False);
          work = sync_fft (spectrum_product input_fft reference fft_len) fft_len True
      in snd (foldl (candidate_step energy work) (0, 0) [0..<positions]))"

text \<open>The metric of a candidate: the magnitudes of the segments added up.\<close>

definition segment_metric :: "dvbs2x_complex list \<Rightarrow> nat \<Rightarrow> nat \<Rightarrow> nat \<Rightarrow> real" where
  "segment_metric symbols pos seg_len mc =
     foldl (\<lambda>seg_mag seg_start.
         let seg_end = min (seg_start + seg_len) DVBS2X_VLSNR_WH_LEN;
             (si, sq) = segment_corr symbols pos (do_sync_init ! mc) seg_start seg_end
         in seg_mag + sqrt (si * si + sq * sq))
       0 (map (\<lambda>k. k * seg_len) [0..<(DVBS2X_VLSNR_WH_LEN + seg_len - 1) div seg_len])"

definition select_step ::
  "dvbs2x_complex list \<Rightarrow> real list \<Rightarrow> nat \<Rightarrow> (nat \<Rightarrow> nat) \<Rightarrow> real \<times> nat \<times> nat \<Rightarrow> nat \<Rightarrow> real \<times> nat \<times> nat" where
  "select_step symbols energy seg_len candidate_offset st mc =
     (let (best_corr, best_offset, best_modcod) = st;
          pos = candidate_offset mc
      in if energy ! pos \<le> 0 then st
         else
           let norm = sqrt (real DVBS2X_VLSNR_WH_LEN * energy ! pos);
               seg_mag = segment_metric symbols pos seg_len mc
           in if best_corr < seg_mag / norm then (seg_mag / norm, pos, mc + 1) else st)"

text \<open>The result is the confidence, the offset and the MODCOD index (\<^verbatim>\<open>sizeof(double)\<close> is 8).\<close>

definition dvbs2x_vlsnr_header_sync_mode ::
  "(nat \<Rightarrow> bool) \<Rightarrow> dvbs2x_complex list \<Rightarrow> nat \<Rightarrow> nat \<Rightarrow> nat \<Rightarrow> real \<times> nat \<times> nat" where
  "dvbs2x_vlsnr_header_sync_mode alloc symbols len seg_len preferred_modcod =
     (let seg_len = (if seg_len = 0 \<or> DVBS2X_VLSNR_WH_LEN < seg_len then DVBS2X_VLSNR_WH_LEN else seg_len);
          (mc_first, mc_last, best_modcod) =
            (if 1 \<le> preferred_modcod \<and> preferred_modcod \<le> DVBS2X_VLSNR_NUM_MODCODS
             then (preferred_modcod - 1, preferred_modcod, preferred_modcod)
             else (0, DVBS2X_VLSNR_NUM_MODCODS, 1));
          fail = (-1, 0, best_modcod)
      in if len < DVBS2X_VLSNR_WH_LEN then fail
         else if UINT_MAX - DVBS2X_VLSNR_WH_LEN + 1 < len then fail
         else (case fft_length (len + DVBS2X_VLSNR_WH_LEN - 1) 1 of
             None \<Rightarrow> fail
           | Some fft_len \<Rightarrow>
               let positions = len - DVBS2X_VLSNR_WH_LEN + 1
               in if \<not> alloc (fft_len * 16) \<or> \<not> alloc (positions * 8) then fail
                  else
                    let input_fft = sync_fft (take len symbols @ replicate (fft_len - len) zero_sample)
                                      fft_len False;
                        energy = map (window_energy symbols) [0..<positions];
                        candidate_offset = sync_candidate input_fft energy fft_len positions
                    in foldl (select_step symbols energy seg_len candidate_offset) (-1, 0, best_modcod)
                         [mc_first..<mc_last]))"

definition dvbs2x_vlsnr_header_sync ::
  "(nat \<Rightarrow> bool) \<Rightarrow> dvbs2x_complex list \<Rightarrow> nat \<Rightarrow> nat \<Rightarrow> real \<times> nat \<times> nat" where
  "dvbs2x_vlsnr_header_sync alloc symbols len seg_len =
     dvbs2x_vlsnr_header_sync_mode alloc symbols len seg_len 0"

section \<open>Energies, lengths and references\<close>

definition window_power :: "dvbs2x_complex list \<Rightarrow> nat \<Rightarrow> real" where
  "window_power symbols pos = (\<Sum>n<896. power_of (symbols ! (pos + n)))"

lemma power_of_cx: "power_of z = (norm (cx z))\<^sup>2"
  unfolding power_of_def cx_def cmod_power2 by (simp add: power2_eq_square)

lemma power_of_nonneg: "0 \<le> power_of z"
  by (simp add: power_of_cx)

lemma window_energy_power: "window_energy symbols pos = window_power symbols pos"
proof (induction pos)
  case 0
  have "foldl (\<lambda>e n. e + power_of (symbols ! n)) a ns = a + (\<Sum>n\<leftarrow>ns. power_of (symbols ! n))" for a ns
    by (induction ns arbitrary: a) simp_all
  then show ?case by (simp add: window_power_def const_defs interv_sum_list_conv_sum_set_nat atLeast0LessThan)
next
  case (Suc p)
  have "(\<Sum>n<Suc 896. power_of (symbols ! (p + n))) = power_of (symbols ! p) + window_power symbols (Suc p)"
    unfolding sum.lessThan_Suc_shift by (simp add: window_power_def)
  moreover have "(\<Sum>n<Suc 896. power_of (symbols ! (p + n))) = window_power symbols p + power_of (symbols ! (p + 896))"
    unfolding sum.lessThan_Suc window_power_def by simp
  ultimately show ?case using Suc by (simp add: DVBS2X_VLSNR_WH_LEN_def)
qed

lemma window_power_nonneg: "0 \<le> window_power symbols pos"
  by (auto simp: window_power_def power_of_nonneg intro: sum_nonneg)

lemma fft_length_Some:
  "fft_length need f = Some n \<Longrightarrow> f = 2 ^ j \<Longrightarrow> \<exists>k. n = 2 ^ k \<and> need \<le> n"
proof (induction need f arbitrary: j rule: fft_length.induct)
  case (1 need f)
  show ?case
  proof (cases "f < need")
    case True
    then have c: "\<not> UINT_MAX div 2 < f" "f \<noteq> 0" "fft_length need (f * 2) = Some n"
      using 1(2) by (subst (asm) fft_length.simps; simp split: if_splits)+
    show ?thesis using 1(1) [OF True c, of "Suc j"] 1(3) by simp
  next
    case False
    then have "n = f" using 1(2) by (subst (asm) fft_length.simps) simp
    then show ?thesis using False 1(3) by auto
  qed
qed

lemma fft_length_None: "f = 2 ^ j \<Longrightarrow> j \<le> 31 \<Longrightarrow> need \<le> 2 ^ 31 \<Longrightarrow> fft_length need f \<noteq> None"
proof (induction need f arbitrary: j rule: fft_length.induct)
  case (1 need f)
  show ?case
  proof (cases "f < need")
    case True
    then have "(2::nat) ^ j < 2 ^ 31" using 1(2,4) by simp
    then have j: "j < 31" by (rule power_less_imp_less_exp [rotated]) simp
    then have "(2::nat) ^ j \<le> 2 ^ 30" by (intro power_increasing) simp_all
    then have "\<not> UINT_MAX div 2 < f" "f \<noteq> 0" by (simp_all add: 1(2) UINT_MAX_def)
    moreover have "f * 2 = 2 ^ Suc j" by (simp add: 1(2))
    ultimately show ?thesis
      using 1(1) [OF True _ _ \<open>f * 2 = _\<close>] True j 1(4) by (subst fft_length.simps) simp
  qed (simp add: fft_length.simps [of need f])
qed

lemma sync_fft_reference_eq:
  "(case sync_fft_reference fft_len mc of Some r \<Rightarrow> r | None \<Rightarrow> sync_fft (sync_reversed fft_len mc) fft_len False) =
   sync_fft (sync_reversed fft_len mc) fft_len False"
  by (simp add: sync_fft_reference_def sync_fft_reference_init_def)

section \<open>The correlation through the transform\<close>

text \<open>The correlation of the window at \<open>pos\<close> with the reference of MODCOD \<open>mc + 1\<close>.\<close>

definition header_corr_at :: "dvbs2x_complex list \<Rightarrow> nat \<Rightarrow> nat \<Rightarrow> complex" where
  "header_corr_at symbols pos mc = (\<Sum>n<896. cx (symbols ! (pos + n)) * cnj (cx (do_sync_init ! mc ! n)))"

lemma fft_correlation:
  assumes len: "fft_len = 2 ^ k" "len + 895 \<le> fft_len" "len \<le> length symbols" and pos: "pos + 896 \<le> len"
    and input: "input_fft = sync_fft (take len symbols @ replicate (fft_len - len) zero_sample) fft_len False"
  shows "cx (sync_fft (spectrum_product input_fft (sync_fft (sync_reversed fft_len mc) fft_len False) fft_len)
           fft_len True ! (pos + 895)) = header_corr_at symbols pos mc"
proof -
  let ?a = "take len symbols @ replicate (fft_len - len) zero_sample" and ?b = "sync_reversed fft_len mc"
  have la: "length ?a = 2 ^ k" "length ?b = 2 ^ k" using len by (simp_all add: sync_reversed_def)
  let ?p = "spectrum_product input_fft (sync_fft ?b fft_len False) fft_len"
  define g where "g n = (if n < 896 then cnj (cx (do_sync_init ! mc ! (895 - n))) else 0)" for n
  have b: "cx (?b ! n) = g n" if "n < fft_len" for n
    using that by (simp add: sync_reversed_def g_def cx_def const_defs zero_sample_def complex_eq_iff)
  have p: "cx (?p ! x) = dft False fft_len (\<lambda>t. cx (?a ! t)) x * dft False fft_len g x" if "x < fft_len" for x
  proof -
    have "cx (?p ! x) = cx (input_fft ! x) * cx (sync_fft ?b fft_len False ! x)"
      using that by (simp add: spectrum_product_def cx_def complex_eq_iff)
    moreover have "dft False fft_len (\<lambda>t. cx (?b ! t)) x = dft False fft_len g x"
      unfolding dft_def using b by (intro sum.cong) simp_all
    ultimately show ?thesis
      using sync_fft_dft(2) [OF la(1), of x False] sync_fft_dft(2) [OF la(2), of x False] that
      by (simp add: input len(1))
  qed
  have t: "pos + 895 < fft_len" using len pos by simp
  have "length ?p = 2 ^ k" by (simp add: spectrum_product_def len(1))
  from sync_fft_dft(2) [OF this, of "pos + 895" True]
  have "cx (sync_fft ?p fft_len True ! (pos + 895)) = dft True fft_len (\<lambda>t. cx (?p ! t)) (pos + 895) / of_nat fft_len"
    using t by (simp add: len(1))
  also have "dft True fft_len (\<lambda>t. cx (?p ! t)) (pos + 895) =
      dft True fft_len (\<lambda>t. dft False fft_len (\<lambda>t. cx (?a ! t)) t * dft False fft_len g t) (pos + 895)"
    unfolding dft_def [of True] using p by (intro sum.cong) simp_all
  also have "\<dots> / of_nat fft_len = (\<Sum>b<896. cx (?a ! (pos + 895 - b)) * g b)"
    using t by (intro dft_convolution_linear) (simp_all add: g_def)
  also have "\<dots> = (\<Sum>n<896. cx (?a ! (pos + n)) * cnj (cx (do_sync_init ! mc ! n)))"
    by (rule sum.reindex_bij_witness [where i = "\<lambda>n. 895 - n" and j = "\<lambda>n. 895 - n"]) (auto simp: g_def)
  also have "\<dots> = header_corr_at symbols pos mc"
    unfolding header_corr_at_def using pos len by (intro sum.cong) (simp_all add: nth_append)
  finally show ?thesis .
qed

lemma segment_corr_complex:
  "segment_corr symbols pos rf s e =
     (Re (\<Sum>n = s..<e. cx (symbols ! (pos + n)) * cnj (cx (rf ! n))),
      Im (\<Sum>n = s..<e. cx (symbols ! (pos + n)) * cnj (cx (rf ! n))))"
  unfolding segment_corr_sum Re_sum Im_sum by (simp add: cx_def algebra_simps)

section \<open>Scores\<close>

text \<open>The confidence of a header received without noise (the reference's amplitude; the exact
  number would be 1).\<close>

definition full_conf :: real where "full_conf = sqrt 2 * wh_amp"

lemma full_conf: "0 < full_conf" "full_conf\<^sup>2 = 2 * wh_amp\<^sup>2"
  by (simp add: full_conf_def wh_amp_def) (simp add: full_conf_def power_mult_distrib)

lemma norm_sync_ref:
  assumes "mc < 9" "n < 896"
  shows "norm (cx (do_sync_init ! mc ! n)) = full_conf"
proof -
  let ?c = "vlsnr_generate_pattern (modcod_to_annex_i ! mc)"
  have sq: "?c ! n * ?c ! n = 1" using assms by (intro pattern_square annex_less)
  have r: "re_i (do_sync_init ! mc ! n) = (if even n then wh_amp else - wh_amp) * of_int (?c ! n)"
    "im_q (do_sync_init ! mc ! n) = wh_amp * of_int (?c ! n)"
    using nth_chips_to_symbols [of n ?c 0] assms sq by (simp_all add: nth_sync_ref)
  have "(of_int (?c ! n) :: real)\<^sup>2 = 1" using sq by (simp add: power2_eq_square flip: of_int_mult)
  then have "(norm (cx (do_sync_init ! mc ! n)))\<^sup>2 = full_conf\<^sup>2"
    unfolding full_conf(2) cx_def cmod_power2 complex.sel r power_mult_distrib by simp
  then show ?thesis using full_conf(1) by simp
qed

definition header_score :: "dvbs2x_complex list \<Rightarrow> nat \<Rightarrow> nat \<Rightarrow> real" where
  "header_score symbols mc pos =
     (if window_power symbols pos \<le> 0 then 0
      else norm (header_corr_at symbols pos mc) / sqrt (896 * window_power symbols pos))"

lemma candidate_loop:
  assumes energy: "energy = map (window_energy symbols) [0..<positions]"
    and work: "\<And>pos. pos < positions \<Longrightarrow> cx (work ! (pos + 895)) = header_corr_at symbols pos mc"
    and m: "m \<le> positions"
  shows "\<exists>best off. foldl (candidate_step energy work) (0, 0) [0..<m] = (best, off) \<and> 0 \<le> best \<and>
     (\<forall>pos < m. header_score symbols mc pos \<le> best) \<and>
     (\<forall>pos < off. header_score symbols mc pos < best) \<and>
     (best = 0 \<and> off = 0 \<or> off < m \<and> header_score symbols mc off = best)"
  using m
proof (induction m)
  case (Suc m)
  then obtain best off where st: "foldl (candidate_step energy work) (0, 0) [0..<m] = (best, off)"
    and b: "0 \<le> best" "\<forall>pos < m. header_score symbols mc pos \<le> best"
      "\<forall>pos < off. header_score symbols mc pos < best"
      "best = 0 \<and> off = 0 \<or> off < m \<and> header_score symbols mc off = best"
    by auto
  have m: "m < positions" using Suc.prems by simp
  let ?s = "header_score symbols mc m"
  have e: "energy ! m = window_power symbols m" using m by (simp add: energy window_energy_power)
  have w: "sqrt (power_of (work ! (895 + m))) = norm (header_corr_at symbols m mc)"
    using work [OF m] by (simp add: power_of_cx add.commute)
  then have step: "candidate_step energy work (best, off) m = (if best < ?s then (?s, m) else (best, off))"
    using b(1) by (simp add: candidate_step_def Let_def e w header_score_def DVBS2X_VLSNR_WH_LEN_def)
  show ?case
  proof (cases "best < ?s")
    case True
    then show ?thesis using b by (auto simp: foldl_snoc st step less_Suc_eq)
  next
    case False
    then show ?thesis using b by (auto simp: foldl_snoc st step less_Suc_eq)
  qed
qed simp

section \<open>The segment metric\<close>

definition header_term :: "dvbs2x_complex list \<Rightarrow> nat \<Rightarrow> nat \<Rightarrow> nat \<Rightarrow> complex" where
  "header_term symbols pos mc n =
     (if n < 896 then cx (symbols ! (pos + n)) * cnj (cx (do_sync_init ! mc ! n)) else 0)"

definition segment_sum :: "dvbs2x_complex list \<Rightarrow> nat \<Rightarrow> nat \<Rightarrow> nat \<Rightarrow> nat \<Rightarrow> complex" where
  "segment_sum symbols pos mc seg k = (\<Sum>n = k * seg..<k * seg + seg. header_term symbols pos mc n)"

abbreviation num_segments :: "nat \<Rightarrow> nat" where
  "num_segments seg \<equiv> (896 + seg - 1) div seg"

lemma segments_cover:
  fixes f :: "nat \<Rightarrow> 'a::comm_monoid_add"
  assumes "0 < seg" "\<And>n. 896 \<le> n \<Longrightarrow> f n = 0"
  shows "(\<Sum>k<num_segments seg. (\<Sum>n = k * seg..<k * seg + seg. f n)) = (\<Sum>n<896. f n)"
proof -
  have "896 + seg - 1 = (896 + seg - 1) div seg * seg + (896 + seg - 1) mod seg"
    by (rule div_mult_mod_eq [symmetric])
  moreover have "(896 + seg - 1) mod seg < seg" using assms(1) by simp
  ultimately have "896 \<le> num_segments seg * seg" by linarith
  then show ?thesis
    unfolding sum.nat_group using assms(2) by (intro sum.mono_neutral_right) auto
qed

lemma segment_metric_sum:
  assumes "0 < seg"
  shows "segment_metric symbols pos seg mc = (\<Sum>k<num_segments seg. norm (segment_sum symbols pos mc seg k))"
proof -
  define f where "f s = (let c = segment_corr symbols pos (do_sync_init ! mc) s (min (s + seg) 896)
      in sqrt (fst c * fst c + snd c * snd c))" for s
  have seg: "f (k * seg) = norm (segment_sum symbols pos mc seg k)" for k
  proof -
    have "(\<Sum>n = k * seg..<min (k * seg + seg) 896. cx (symbols ! (pos + n)) * cnj (cx (do_sync_init ! mc ! n))) =
        segment_sum symbols pos mc seg k"
      unfolding segment_sum_def by (intro sum.mono_neutral_cong_left) (auto simp: header_term_def)
    then show ?thesis
      unfolding f_def Let_def segment_corr_complex fst_conv snd_conv by (simp add: cmod_def power2_eq_square)
  qed
  have fold: "foldl (\<lambda>m s. m + f s) a (map (\<lambda>k. k * seg) ks) = a + (\<Sum>k\<leftarrow>ks. f (k * seg))" for a ks
    by (induction ks arbitrary: a) simp_all
  have "segment_metric symbols pos seg mc = foldl (\<lambda>m s. m + f s) 0 (map (\<lambda>k. k * seg) [0..<num_segments seg])"
    unfolding segment_metric_def f_def Let_def DVBS2X_VLSNR_WH_LEN_def split_beta by (rule refl)
  then show ?thesis
    unfolding fold seg by (simp add: interv_sum_list_conv_sum_set_nat atLeast0LessThan)
qed

lemma metric_ge_corr:
  assumes "0 < seg"
  shows "norm (header_corr_at symbols pos mc) \<le> segment_metric symbols pos seg mc"
proof -
  have "header_corr_at symbols pos mc = (\<Sum>n<896. header_term symbols pos mc n)"
    unfolding header_corr_at_def by (intro sum.cong) (simp_all add: header_term_def)
  also have "\<dots> = (\<Sum>k<num_segments seg. segment_sum symbols pos mc seg k)"
    unfolding segment_sum_def by (rule segments_cover [OF assms, symmetric]) (simp add: header_term_def)
  finally show ?thesis unfolding segment_metric_sum [OF assms] by (simp add: norm_sum)
qed

text \<open>The window's deviation from a header whose segments have a common amplitude: what the metric
  lacks to its bound.\<close>

definition segment_phase :: "dvbs2x_complex list \<Rightarrow> nat \<Rightarrow> nat \<Rightarrow> nat \<Rightarrow> nat \<Rightarrow> complex" where
  "segment_phase symbols pos mc seg k =
     (if segment_sum symbols pos mc seg k = 0 then 1 else sgn (segment_sum symbols pos mc seg k))"

lemma segment_phase:
  "norm (segment_phase symbols pos mc seg k) = 1"
  "Re (segment_sum symbols pos mc seg k * cnj (segment_phase symbols pos mc seg k)) =
     norm (segment_sum symbols pos mc seg k)"
proof -
  show "norm (segment_phase symbols pos mc seg k) = 1"
    by (simp add: segment_phase_def norm_sgn)
  have "Re (z * cnj (sgn z)) = norm z" for z
  proof (cases "z = 0")
    case False
    have "z * cnj (sgn z) = of_real ((norm z)\<^sup>2 / norm z)"
      by (simp add: sgn_eq complex_norm_square [symmetric] of_real_divide del: of_real_power)
    then show ?thesis using False by (simp add: power2_eq_square)
  qed simp
  then show "Re (segment_sum symbols pos mc seg k * cnj (segment_phase symbols pos mc seg k)) =
     norm (segment_sum symbols pos mc seg k)"
    by (simp add: segment_phase_def)
qed

lemma norm_diff_square: "(norm (u - of_real m * e))\<^sup>2 = (norm u)\<^sup>2 - 2 * m * Re (u * cnj e) + m\<^sup>2 * (norm e)\<^sup>2"
  unfolding cmod_power2 by (simp add: power2_eq_square algebra_simps)

lemma header_term_power:
  assumes "mc < 9"
  shows "(\<Sum>n<896. (norm (header_term symbols pos mc n))\<^sup>2) = full_conf\<^sup>2 * window_power symbols pos"
  unfolding window_power_def sum_distrib_left
  by (intro sum.cong refl)
     (simp add: header_term_def norm_mult norm_sync_ref [OF assms] power_of_cx power_mult_distrib)

lemma metric_deviation:
  assumes "mc < 9" "0 < seg" and m: "m = segment_metric symbols pos seg mc / 896"
  shows "(\<Sum>n<896. (norm (header_term symbols pos mc n -
             of_real m * segment_phase symbols pos mc seg (n div seg)))\<^sup>2) =
           full_conf\<^sup>2 * window_power symbols pos - 896 * m\<^sup>2"
proof -
  let ?u = "header_term symbols pos mc" and ?e = "\<lambda>n. segment_phase symbols pos mc seg (n div seg)"
  have "(\<Sum>n<896. Re (?u n * cnj (?e n))) = (\<Sum>k<num_segments seg. (\<Sum>n = k * seg..<k * seg + seg. Re (?u n * cnj (?e n))))"
    by (rule segments_cover [OF assms(2), symmetric]) (simp add: header_term_def)
  also have "\<dots> = (\<Sum>k<num_segments seg. Re (segment_sum symbols pos mc seg k * cnj (segment_phase symbols pos mc seg k)))"
  proof (intro sum.cong refl)
    fix k
    have "(\<Sum>n = k * seg..<k * seg + seg. Re (?u n * cnj (?e n))) =
        (\<Sum>n = k * seg..<k * seg + seg. Re (?u n * cnj (segment_phase symbols pos mc seg k)))"
    proof (intro sum.cong refl)
      fix n assume "n \<in> {k * seg..<k * seg + seg}"
      then have "n div seg = k" by (auto intro!: div_nat_eqI simp: mult.commute)
      then show "Re (?u n * cnj (?e n)) = Re (?u n * cnj (segment_phase symbols pos mc seg k))" by simp
    qed
    then show "(\<Sum>n = k * seg..<k * seg + seg. Re (?u n * cnj (?e n))) =
        Re (segment_sum symbols pos mc seg k * cnj (segment_phase symbols pos mc seg k))"
      by (simp only: segment_sum_def sum_distrib_right Re_sum)
  qed
  also have "\<dots> = 896 * m"
    unfolding segment_phase(2) segment_metric_sum [OF assms(2), symmetric] m by simp
  finally have mid: "(\<Sum>n<896. 2 * m * Re (?u n * cnj (?e n))) = 2 * m * (896 * m)"
    by (simp only: sum_distrib_left [symmetric])
  show ?thesis
    unfolding norm_diff_square segment_phase(1) sum.distrib sum_subtractf header_term_power [OF assms(1)] mid
    by (simp add: power2_eq_square)
qed

lemma metric_bound:
  assumes "mc < 9" "0 < seg" "0 < window_power symbols pos"
  shows "segment_metric symbols pos seg mc / sqrt (896 * window_power symbols pos) \<le> full_conf"
proof -
  let ?M = "segment_metric symbols pos seg mc" and ?P = "window_power symbols pos"
  have "0 \<le> full_conf\<^sup>2 * ?P - 896 * (?M / 896)\<^sup>2"
    unfolding metric_deviation [OF assms(1,2) refl, symmetric] by (intro sum_nonneg) simp
  moreover have "896 * (?M / 896)\<^sup>2 = ?M\<^sup>2 / 896" by (simp add: power_divide)
  ultimately have "?M\<^sup>2 \<le> full_conf\<^sup>2 * (896 * ?P)" by simp
  then have "?M\<^sup>2 \<le> (full_conf * sqrt (896 * ?P))\<^sup>2" using assms(3) by (simp add: power_mult_distrib)
  then have "?M \<le> full_conf * sqrt (896 * ?P)"
    by (rule power2_le_imp_le) (use full_conf(1) assms(3) in simp)
  then show ?thesis using assms(3) by (simp add: pos_divide_le_eq)
qed

text \<open>The window is a header of the MODCOD, up to one phase per segment.\<close>

definition segment_header :: "dvbs2x_complex list \<Rightarrow> nat \<Rightarrow> nat \<Rightarrow> nat \<Rightarrow> bool" where
  "segment_header symbols pos mc seg \<longleftrightarrow>
     (\<exists>amp e. 0 < amp \<and> (\<forall>k. norm (e k) = 1) \<and>
        (\<forall>n<896. cx (symbols ! (pos + n)) = of_real amp * e (n div seg) * cx (do_sync_init ! mc ! n)))"

lemma metric_full:
  assumes "mc < 9" "0 < seg" "0 < window_power symbols pos"
    and full: "segment_metric symbols pos seg mc / sqrt (896 * window_power symbols pos) = full_conf"
  shows "segment_header symbols pos mc seg"
proof -
  let ?M = "segment_metric symbols pos seg mc" and ?P = "window_power symbols pos"
  define m where "m = ?M / 896"
  let ?e = "segment_phase symbols pos mc seg"
  have M: "?M = full_conf * sqrt (896 * ?P)" using full assms(3) by (simp add: field_simps)
  then have pos: "0 < ?M" using full_conf(1) assms(3) by simp
  have "?M\<^sup>2 = full_conf\<^sup>2 * (896 * ?P)" unfolding M power_mult_distrib using assms(3) by simp
  then have "full_conf\<^sup>2 * ?P - 896 * m\<^sup>2 = 0" by (simp add: m_def power2_eq_square)
  then have "(\<Sum>n<896. (norm (header_term symbols pos mc n - of_real m * ?e (n div seg)))\<^sup>2) = 0"
    using metric_deviation [OF assms(1,2) m_def] by simp
  then have u: "header_term symbols pos mc n = of_real m * ?e (n div seg)" if "n < 896" for n
    using that by (subst (asm) sum_nonneg_eq_0_iff) auto
  have "cx (symbols ! (pos + n)) = of_real (m / full_conf\<^sup>2) * ?e (n div seg) * cx (do_sync_init ! mc ! n)" if n: "n < 896" for n
  proof -
    let ?r = "cx (do_sync_init ! mc ! n)"
    have "?r * cnj ?r = of_real (full_conf\<^sup>2)"
      unfolding complex_norm_square [symmetric] norm_sync_ref [OF assms(1) n] by simp
    moreover have "cx (symbols ! (pos + n)) * cnj ?r = of_real m * ?e (n div seg)"
      using u [OF n] n by (simp add: header_term_def)
    ultimately have "cx (symbols ! (pos + n)) * of_real (full_conf\<^sup>2) = of_real m * ?e (n div seg) * ?r"
      by (metis mult.assoc mult.commute)
    then show ?thesis using full_conf(1) by (simp add: field_simps)
  qed
  moreover have "0 < m / full_conf\<^sup>2" using pos full_conf(1) by (simp add: m_def)
  ultimately show ?thesis unfolding segment_header_def using segment_phase(1) by blast
qed

section \<open>The result of a search\<close>

lemma select_loop:
  assumes energy: "energy = map (window_energy symbols) [0..<positions]"
    and cand: "\<And>mc. mc \<in> {a..<b} \<Longrightarrow> cand mc < positions"
  shows "\<exists>conf off mc. foldl (select_step symbols energy seg cand) (-1, 0, bm) [a..<b] = (conf, off, mc) \<and>
    (\<forall>m\<in>{a..<b}. 0 < window_power symbols (cand m) \<longrightarrow>
       segment_metric symbols (cand m) seg m / sqrt (896 * window_power symbols (cand m)) \<le> conf) \<and>
    (conf = -1 \<and> off = 0 \<and> mc = bm \<or>
     (\<exists>m\<in>{a..<b}. mc = m + 1 \<and> off = cand m \<and> 0 < window_power symbols off \<and>
        (\<forall>m'\<in>{a..<m}. 0 < window_power symbols (cand m') \<longrightarrow>
          segment_metric symbols (cand m') seg m' / sqrt (896 * window_power symbols (cand m')) < conf) \<and>
        conf = segment_metric symbols off seg m / sqrt (896 * window_power symbols off)))"
  using cand
proof (induction b)
  case (Suc b)
  show ?case
  proof (cases "a \<le> b")
    case ab: True
    then obtain conf off mc where st: "foldl (select_step symbols energy seg cand) (-1, 0, bm) [a..<b] = (conf, off, mc)"
      and ge: "\<forall>m\<in>{a..<b}. 0 < window_power symbols (cand m) \<longrightarrow>
       segment_metric symbols (cand m) seg m / sqrt (896 * window_power symbols (cand m)) \<le> conf"
      and or: "conf = -1 \<and> off = 0 \<and> mc = bm \<or>
     (\<exists>m\<in>{a..<b}. mc = m + 1 \<and> off = cand m \<and> 0 < window_power symbols off \<and>
        (\<forall>m'\<in>{a..<m}. 0 < window_power symbols (cand m') \<longrightarrow>
          segment_metric symbols (cand m') seg m' / sqrt (896 * window_power symbols (cand m')) < conf) \<and>
        conf = segment_metric symbols off seg m / sqrt (896 * window_power symbols off))"
      using Suc by auto
    have e: "energy ! cand b = window_power symbols (cand b)"
      using Suc.prems [of b] ab by (simp add: energy window_energy_power)
    let ?s = "segment_metric symbols (cand b) seg b / sqrt (896 * window_power symbols (cand b))"
    have step: "select_step symbols energy seg cand (conf, off, mc) b =
        (if 0 < window_power symbols (cand b) \<and> conf < ?s then (?s, cand b, b + 1) else (conf, off, mc))"
      by (simp add: select_step_def Let_def e DVBS2X_VLSNR_WH_LEN_def not_le [symmetric])
    have upt: "[a..<Suc b] = [a..<b] @ [b]" and set: "{a..<Suc b} = insert b {a..<b}" using ab by auto
    show ?thesis
    proof (cases "0 < window_power symbols (cand b) \<and> conf < ?s")
      case True
      then show ?thesis using ge ab by (auto simp: upt foldl_snoc st step set)
    next
      case False
      then show ?thesis using ge or by (auto simp: upt foldl_snoc st step set)
    qed
  qed auto
qed auto

lemma select_result:
  assumes "energy = map (window_energy symbols) [0..<positions]"
    and "(conf, off, mc) = foldl (select_step symbols energy seg cand) (-1, 0, bm) [a..<b]"
    and "\<And>mc. mc \<in> {a..<b} \<Longrightarrow> cand mc < positions"
  shows "\<forall>m\<in>{a..<b}. 0 < window_power symbols (cand m) \<longrightarrow>
       segment_metric symbols (cand m) seg m / sqrt (896 * window_power symbols (cand m)) \<le> conf"
    "conf = -1 \<and> off = 0 \<and> mc = bm \<or>
     (\<exists>m\<in>{a..<b}. mc = m + 1 \<and> off = cand m \<and> 0 < window_power symbols off \<and>
        (\<forall>m'\<in>{a..<m}. 0 < window_power symbols (cand m') \<longrightarrow>
          segment_metric symbols (cand m') seg m' / sqrt (896 * window_power symbols (cand m')) < conf) \<and>
        conf = segment_metric symbols off seg m / sqrt (896 * window_power symbols off))"
proof -
  let ?A = "\<lambda>conf. \<forall>m\<in>{a..<b}. 0 < window_power symbols (cand m) \<longrightarrow>
       segment_metric symbols (cand m) seg m / sqrt (896 * window_power symbols (cand m)) \<le> conf"
  let ?B = "\<lambda>conf off mc. conf = -1 \<and> off = 0 \<and> mc = bm \<or>
     (\<exists>m\<in>{a..<b}. mc = m + 1 \<and> off = cand m \<and> 0 < window_power symbols off \<and>
        (\<forall>m'\<in>{a..<m}. 0 < window_power symbols (cand m') \<longrightarrow>
          segment_metric symbols (cand m') seg m' / sqrt (896 * window_power symbols (cand m')) < conf) \<and>
        conf = segment_metric symbols off seg m / sqrt (896 * window_power symbols off))"
  have "\<exists>conf off mc. foldl (select_step symbols energy seg cand) (-1, 0, bm) [a..<b] = (conf, off, mc) \<and>
      ?A conf \<and> ?B conf off mc"
    by (rule select_loop [OF assms(1)]) (rule assms(3))
  then obtain c l m where e: "(conf, off, mc) = (c, l, m)" and "?A c" "?B c l m"
    unfolding assms(2) [symmetric] by (elim exE conjE) (rule that)
  moreover have "c = conf" "l = off" "m = mc" using e by simp_all
  ultimately show "?A conf" "?B conf off mc" by (simp_all only:)
qed

lemma header_score_nonneg: "0 \<le> header_score symbols mc pos"
  by (simp add: header_score_def)

lemma sync_candidate_best:
  assumes len: "fft_len = 2 ^ k" "len + 895 \<le> fft_len" "len \<le> length symbols" "896 \<le> len"
    and input: "input_fft = sync_fft (take len symbols @ replicate (fft_len - len) zero_sample) fft_len False"
    and energy: "energy = map (window_energy symbols) [0..<len - 895]"
    and c: "c = sync_candidate input_fft energy fft_len (len - 895) mc"
  shows "c < len - 895" "pos < len - 895 \<Longrightarrow> header_score symbols mc pos \<le> header_score symbols mc c"
    "pos < c \<Longrightarrow> header_score symbols mc pos < header_score symbols mc c"
proof -
  let ?work = "sync_fft (spectrum_product input_fft (sync_fft (sync_reversed fft_len mc) fft_len False) fft_len) fft_len True"
  have "cx (?work ! (pos + 895)) = header_corr_at symbols pos mc" if "pos < len - 895" for pos
    using that by (intro fft_correlation [OF len(1-3) _ input]) simp
  from candidate_loop [OF energy this le_refl]
  obtain best off where b: "foldl (candidate_step energy ?work) (0, 0) [0..<len - 895] = (best, off)" "0 \<le> best"
    "\<forall>pos < len - 895. header_score symbols mc pos \<le> best"
    "\<forall>pos < off. header_score symbols mc pos < best"
    "best = 0 \<and> off = 0 \<or> off < len - 895 \<and> header_score symbols mc off = best"
    by blast
  have off: "c = off" by (simp add: c sync_candidate_def sync_fft_reference_eq Let_def b(1))
  show "c < len - 895" using b(5) len(4) off by auto
  have "header_score symbols mc off = best"
    using b(3,5) len(4) header_score_nonneg [of symbols mc 0] by force
  then show "pos < len - 895 \<Longrightarrow> header_score symbols mc pos \<le> header_score symbols mc c"
    "pos < c \<Longrightarrow> header_score symbols mc pos < header_score symbols mc c"
    using b(3,4) off by simp_all
qed

definition wanted_modcod :: "nat \<Rightarrow> nat \<Rightarrow> bool" where
  "wanted_modcod preferred m \<longleftrightarrow> 1 \<le> m \<and> m \<le> 9 \<and> (1 \<le> preferred \<and> preferred \<le> 9 \<longrightarrow> m = preferred)"

text \<open>The header of MODCOD \<open>m\<close>, received with the complex gain \<open>c\<close>.\<close>

definition header_at :: "dvbs2x_complex list \<Rightarrow> nat \<Rightarrow> nat \<Rightarrow> complex \<Rightarrow> bool" where
  "header_at symbols pos m c \<longleftrightarrow> (\<forall>n<896. cx (symbols ! (pos + n)) = c * cx (do_sync_init ! (m - 1) ! n))"

lemma header_at_score:
  assumes "header_at symbols pos m c" "c \<noteq> 0" "1 \<le> m" "m \<le> 9"
  shows "header_score symbols (m - 1) pos = full_conf"
proof -
  have m: "m - 1 < 9" using assms by simp
  note r = norm_sync_ref [OF m]
  have "window_power symbols pos = (\<Sum>n<896::nat. (norm c)\<^sup>2 * full_conf\<^sup>2)"
    unfolding window_power_def using assms(1)
    by (intro sum.cong refl) (simp add: header_at_def power_of_cx norm_mult r [unfolded One_nat_def] power_mult_distrib)
  then have p: "window_power symbols pos = 896 * ((norm c)\<^sup>2 * full_conf\<^sup>2)" by simp
  have "header_corr_at symbols pos (m - 1) = (\<Sum>n<896::nat. c * of_real (full_conf\<^sup>2))"
    unfolding header_corr_at_def
  proof (intro sum.cong refl)
    fix n :: nat assume "n \<in> {..<896}"
    then have n: "n < 896" by simp
    have "cx (do_sync_init ! (m - 1) ! n) * cnj (cx (do_sync_init ! (m - 1) ! n)) = of_real (full_conf\<^sup>2)"
      unfolding complex_norm_square [symmetric] r [OF n] by simp
    then show "cx (symbols ! (pos + n)) * cnj (cx (do_sync_init ! (m - 1) ! n)) = c * of_real (full_conf\<^sup>2)"
      using assms(1) n by (simp add: header_at_def mult.assoc)
  qed
  then have h: "norm (header_corr_at symbols pos (m - 1)) = 896 * (norm c * full_conf\<^sup>2)"
    by (simp add: norm_mult norm_power)
  have "0 < (norm c)\<^sup>2 * full_conf\<^sup>2" using assms(2) full_conf(1) by simp
  then have "\<not> window_power symbols pos \<le> 0"
    unfolding p not_le using zero_less_mult_iff [of "896::real"] by simp
  moreover have "sqrt (896 * window_power symbols pos) = 896 * (norm c * full_conf)"
    unfolding p using full_conf(1) by (simp add: real_sqrt_mult)
  ultimately show ?thesis
    using assms(2) full_conf(1) unfolding header_score_def h by (simp add: power2_eq_square)
qed

lemma sync_mode_cases:
  assumes seg: "0 < seg" "seg \<le> 896" and mem: "\<And>n. alloc n"
    and len: "896 \<le> len" "len \<le> length symbols" "len + 895 \<le> 2 ^ 31"
    and r: "dvbs2x_vlsnr_header_sync_mode alloc symbols len seg pref = (conf, off, mc)"
  obtains cand where
    "\<And>m. m < 9 \<Longrightarrow> cand m < len - 895"
    "\<And>m pos. m < 9 \<Longrightarrow> pos < len - 895 \<Longrightarrow> header_score symbols m pos \<le> header_score symbols m (cand m)"
    "\<And>m. wanted_modcod pref m \<Longrightarrow> 0 < window_power symbols (cand (m - 1)) \<Longrightarrow>
       segment_metric symbols (cand (m - 1)) seg (m - 1) / sqrt (896 * window_power symbols (cand (m - 1))) \<le> conf"
    "wanted_modcod pref mc"
    "conf = -1 \<and> off = 0 \<or> off = cand (mc - 1) \<and> 0 < window_power symbols off \<and>
       conf = segment_metric symbols off seg (mc - 1) / sqrt (896 * window_power symbols off)"
    "\<And>m pos. m < 9 \<Longrightarrow> pos < cand m \<Longrightarrow> header_score symbols m pos < header_score symbols m (cand m)"
    "\<And>m. conf \<noteq> -1 \<Longrightarrow> wanted_modcod pref m \<Longrightarrow> m < mc \<Longrightarrow> 0 < window_power symbols (cand (m - 1)) \<Longrightarrow>
       segment_metric symbols (cand (m - 1)) seg (m - 1) / sqrt (896 * window_power symbols (cand (m - 1))) < conf"
proof -
  obtain a b bm where p: "(a, b, bm) = (if 1 \<le> pref \<and> pref \<le> 9 then (pref - 1, pref, pref) else (0, 9, 1))"
    by (metis prod_cases3)
  have w: "wanted_modcod pref m \<longleftrightarrow> m - 1 \<in> {a..<b} \<and> 1 \<le> m" "b \<le> 9" "wanted_modcod pref bm" for m
    using p by (auto simp: wanted_modcod_def split: if_splits)
  obtain fft_len where f: "fft_length (len + 895) 1 = Some fft_len"
    using fft_length_None [of 1 0 "len + 895"] len(3) by auto
  then obtain k where k: "fft_len = 2 ^ k" "len + 895 \<le> fft_len"
    using fft_length_Some [of "len + 895" 1 fft_len 0] by auto
  define energy where "energy = map (window_energy symbols) [0..<len - 895]"
  define input where "input = sync_fft (take len symbols @ replicate (fft_len - len) zero_sample) fft_len False"
  define cand where "cand = sync_candidate input energy fft_len (len - 895)"
  note best = sync_candidate_best [OF k len(2,1) input_def energy_def, of "cand m" m for m, OF fun_cong [OF cand_def]]
  have fold: "(conf, off, mc) = foldl (select_step symbols energy seg cand) (-1, 0, bm) [a..<b]"
  proof -
    have e: "\<not> UINT_MAX - 896 + 1 < len" "len - 896 + 1 = len - 895" "len + 896 - 1 = len + 895"
      "(if seg = 0 \<or> 896 < seg then 896 else seg) = seg"
      using len seg by (simp_all add: UINT_MAX_def)
    have "dvbs2x_vlsnr_header_sync_mode alloc symbols len seg pref = foldl (select_step symbols energy seg cand) (-1, 0, bm) [a..<b]"
      unfolding dvbs2x_vlsnr_header_sync_mode_def Let_def DVBS2X_VLSNR_WH_LEN_def DVBS2X_VLSNR_NUM_MODCODS_def
        p [symmetric] prod.case e(2-4) f option.case
      using mem len(1) e(1) by (simp add: energy_def cand_def input_def)
    then show ?thesis using r by simp
  qed
  have "\<And>m. m \<in> {a..<b} \<Longrightarrow> cand m < len - 895" using best(1) .
  note sel = select_result(1) [OF energy_def fold this] and or = select_result(2) [OF energy_def fold this]
  show ?thesis
  proof (rule that [of cand])
    have "mc = bm \<or> (\<exists>m\<in>{a..<b}. mc = m + 1)" using or by blast
    then show "wanted_modcod pref mc" using w(3) by (auto simp: w(1))
    show "conf = -1 \<and> off = 0 \<or> off = cand (mc - 1) \<and> 0 < window_power symbols off \<and>
       conf = segment_metric symbols off seg (mc - 1) / sqrt (896 * window_power symbols off)"
      using or by auto
    show "segment_metric symbols (cand (m - 1)) seg (m - 1) / sqrt (896 * window_power symbols (cand (m - 1))) < conf"
      if m: "conf \<noteq> -1" "wanted_modcod pref m" "m < mc" "0 < window_power symbols (cand (m - 1))" for m
    proof -
      have "m - 1 \<in> {a..<mc - 1}" using m(2,3) w(1) [of m] by auto
      then show ?thesis using or m(1,4) by auto
    qed
    fix m assume "wanted_modcod pref m"
    then show "0 < window_power symbols (cand (m - 1)) \<Longrightarrow>
       segment_metric symbols (cand (m - 1)) seg (m - 1) / sqrt (896 * window_power symbols (cand (m - 1))) \<le> conf"
      using sel w(1) by blast
  qed (use best in auto)
qed

text \<open>A full score is a header with one phase.\<close>

lemma score_full:
  assumes "mc < 9" "header_score symbols mc pos = full_conf"
  shows "\<exists>c. c \<noteq> 0 \<and> header_at symbols pos (mc + 1) c"
proof -
  let ?P = "window_power symbols pos" and ?M = "segment_metric symbols pos 896 mc"
  have p: "0 < ?P" using assms(2) full_conf(1) by (auto simp: header_score_def split: if_splits)
  then have "full_conf \<le> ?M / sqrt (896 * ?P)"
    using assms(2) divide_right_mono [OF metric_ge_corr [of 896 symbols pos mc], of "sqrt (896 * ?P)"]
    by (simp add: header_score_def)
  then have "?M / sqrt (896 * ?P) = full_conf" using metric_bound [OF assms(1) _ p, of 896] by simp
  from metric_full [OF assms(1) _ p this] obtain amp e where
    "0 < amp" "\<forall>k. norm (e k) = (1::real)"
    "\<forall>n<896. cx (symbols ! (pos + n)) = of_real amp * e (n div 896) * cx (do_sync_init ! mc ! n)"
    by (auto simp: segment_header_def)
  moreover from this(2) have "e 0 \<noteq> 0" by (metis norm_zero zero_neq_one)
  ultimately show ?thesis by (intro exI [of _ "of_real amp * e 0"]) (simp add: header_at_def)
qed

text \<open>The search settles at the first header of a MODCOD, or at a header of a MODCOD of lower
  number.\<close>

lemma search_locks:
  assumes "0 < seg" "seg \<le> 896" "\<And>n. alloc n"
    and len: "896 \<le> len" "len \<le> length symbols" "len + 895 \<le> 2 ^ 31"
    and r: "dvbs2x_vlsnr_header_sync_mode alloc symbols len seg 0 = (conf, off, mc)"
    and at: "header_at symbols pos m c" "c \<noteq> 0" "1 \<le> m" "m \<le> 9" "pos + 896 \<le> len"
    and first: "\<And>pos' c'. pos' < pos \<Longrightarrow> header_at symbols pos' m c' \<Longrightarrow> c' = 0"
  shows "conf = full_conf" "mc = m \<and> off = pos \<or> 1 \<le> mc \<and> mc < m \<and> off + 896 \<le> len \<and> segment_header symbols off (mc - 1) seg"
proof -
  obtain cand where cand: "\<And>m. m < 9 \<Longrightarrow> cand m < len - 895"
    and best: "\<And>m pos. m < 9 \<Longrightarrow> pos < len - 895 \<Longrightarrow> header_score symbols m pos \<le> header_score symbols m (cand m)"
    and ge: "\<And>m. wanted_modcod 0 m \<Longrightarrow> 0 < window_power symbols (cand (m - 1)) \<Longrightarrow>
       segment_metric symbols (cand (m - 1)) seg (m - 1) / sqrt (896 * window_power symbols (cand (m - 1))) \<le> conf"
    and w: "wanted_modcod 0 mc"
    and res: "conf = -1 \<and> off = 0 \<or> off = cand (mc - 1) \<and> 0 < window_power symbols off \<and>
       conf = segment_metric symbols off seg (mc - 1) / sqrt (896 * window_power symbols off)"
    and strict: "\<And>m pos. m < 9 \<Longrightarrow> pos < cand m \<Longrightarrow> header_score symbols m pos < header_score symbols m (cand m)"
    and lower: "\<And>m. conf \<noteq> -1 \<Longrightarrow> wanted_modcod 0 m \<Longrightarrow> m < mc \<Longrightarrow> 0 < window_power symbols (cand (m - 1)) \<Longrightarrow>
       segment_metric symbols (cand (m - 1)) seg (m - 1) / sqrt (896 * window_power symbols (cand (m - 1))) < conf"
    by (rule sync_mode_cases [OF assms(1-3) len r]) (rule that)
  let ?c = "cand (m - 1)"
  have m: "m - 1 < 9" "wanted_modcod 0 m" and mc: "mc - 1 < 9" "1 \<le> mc" using at w by (auto simp: wanted_modcod_def)
  have up: "conf \<le> full_conf"
    using res metric_bound [OF mc(1) assms(1), of symbols off] full_conf(1) by auto
  have s: "full_conf \<le> header_score symbols (m - 1) ?c"
    using best [of "m - 1" pos] header_at_score [OF at(1-4)] at(5) m by simp
  then have p: "0 < window_power symbols ?c" using full_conf(1) by (auto simp: header_score_def split: if_splits)
  have met: "header_score symbols (m - 1) ?c \<le> segment_metric symbols ?c seg (m - 1) / sqrt (896 * window_power symbols ?c)"
    using p metric_ge_corr [OF assms(1), of symbols ?c "m - 1"] by (simp add: header_score_def divide_right_mono)
  then have full: "header_score symbols (m - 1) ?c = full_conf" and eq: "segment_metric symbols ?c seg (m - 1) / sqrt (896 * window_power symbols ?c) = full_conf"
    using s metric_bound [OF m(1) assms(1) p] by simp_all
  have c: "?c = pos"
  proof (rule antisym)
    show "?c \<le> pos" using strict [OF m(1), of pos] full header_at_score [OF at(1-4)] by (cases "?c \<le> pos") auto
    obtain c' where "c' \<noteq> 0" "header_at symbols ?c m c'" using score_full [OF m(1) full] at(3) by auto
    then show "pos \<le> ?c" using first [of ?c c'] by (cases "pos \<le> ?c") auto
  qed
  show conf: "conf = full_conf" using ge [OF m(2) p] eq up by simp
  have "mc \<le> m" using lower [OF _ m(2) _ p] eq conf full_conf(1) by force
  moreover have "mc = m \<Longrightarrow> off = pos" using res c conf full_conf(1) by auto
  moreover have "segment_header symbols off (mc - 1) seg"
    using res conf full_conf(1) metric_full [OF mc(1) assms(1), of symbols off] by auto
  moreover have "off + 896 \<le> len" using res cand [OF mc(1)] len(1) by auto
  ultimately show "mc = m \<and> off = pos \<or> 1 \<le> mc \<and> mc < m \<and> off + 896 \<le> len \<and> segment_header symbols off (mc - 1) seg"
    using mc(2) by auto
qed

section \<open>Properties\<close>



end
