(* ===== verification/FrameStart.thy ===== *)
theory FrameStart
  imports HeaderSync
begin

text \<open>
  Where the frame search settles in a frame: no window that starts before the header, over the PL header's
  symbols, is the header of the same MODCOD, because the header is not a multiple of itself shifted by up
  to 92 symbols.
\<close>

text \<open>Two positions, two apart and each pair within one row, where the base chips and the shifted base
  chips differ in their relation.\<close>

definition shift_differs :: "nat \<Rightarrow> nat \<Rightarrow> bool" where
  "shift_differs d n \<longleftrightarrow>
     n div 56 = (n + 2) div 56 \<and> (n - d) div 56 = (n + 2 - d) div 56 \<and>
     base_chip n * base_chip (n - d) \<noteq> base_chip (n + 2) * base_chip (n + 2 - d)"

lemma shift_differs_table: "list_all (\<lambda>d. list_ex (shift_differs d) [d..<d + 40]) [1..<93]"
  by code_simp

lemma sync_ref_chip:
  assumes "1 \<le> m" "m \<le> 9" "n < 896"
  shows "cx (do_sync_init ! (m - 1) ! n) =
    of_int (vlsnr_generate_pattern (modcod_to_annex_i ! (m - 1)) ! n) * Complex (if even n then wh_amp else - wh_amp) wh_amp"
proof -
  have "modcod_to_annex_i ! (m - 1) < 16" using assms by (intro annex_less) simp
  from pattern_square [OF this assms(3)] show ?thesis
    using nth_chips_to_symbols [of n "vlsnr_generate_pattern (modcod_to_annex_i ! (m - 1))" 0] assms
    by (simp add: nth_sync_ref cx_def complex_eq_iff)
qed

lemma header_not_shifted:
  assumes at: "header_at symbols pos m c" "c \<noteq> 0" "1 \<le> m" "m \<le> 9"
    and pos': "pos' < pos" "pos \<le> pos' + 92" and at': "header_at symbols pos' m c'"
  shows "c' = 0"
proof (rule ccontr)
  define d where "d = pos - pos'"
  define a where "a = modcod_to_annex_i ! (m - 1)"
  let ?s = "\<lambda>n. vlsnr_generate_pattern a ! n"
  let ?r = "\<lambda>n. Complex (if even n then wh_amp else - wh_amp) wh_amp"
  have d: "1 \<le> d" "d < 93" "pos = pos' + d" using pos' by (simp_all add: d_def)
  have a: "a < 16" unfolding a_def using assms by (intro annex_less) simp
  obtain n where n: "d \<le> n" "n < d + 40" "shift_differs d n"
    using shift_differs_table d(1,2) unfolding list_all_iff list_ex_iff by (metis atLeastLessThan_iff set_upt)
  have row: "?s k = base_chip k * vlsnr_wh_signs ! a ! (k div 56)" if "k < 896" for k
    using that by (simp add: pattern_chips [OF a])
  have s1: "?s n * ?s (n - d) \<noteq> ?s (n + 2) * ?s (n + 2 - d)"
  proof -
    let ?u = "vlsnr_wh_signs ! a ! (n div 56) * vlsnr_wh_signs ! a ! ((n - d) div 56)"
    have "(n - d) div 56 < 16" "n div 56 < 16" using n d by auto
    then have "vlsnr_wh_signs ! a ! (n div 56) \<noteq> 0" "vlsnr_wh_signs ! a ! ((n - d) div 56) \<noteq> 0"
      using signs_square [OF a, of "n div 56"] signs_square [OF a, of "(n - d) div 56"] by auto
    then have u: "?u \<noteq> 0" by simp
    have "?s n * ?s (n - d) = base_chip n * base_chip (n - d) * ?u"
      "?s (n + 2) * ?s (n + 2 - d) = base_chip (n + 2) * base_chip (n + 2 - d) * ?u"
      using n d by (simp_all add: row shift_differs_def)
    then show ?thesis using u n(3) by (simp add: shift_differs_def)
  qed
  have e: "c' * (of_int (?s k) * ?r k) = c * (of_int (?s (k - d)) * ?r (k - d))" if "d \<le> k" "k < 896" for k
  proof -
    have "cx (symbols ! (pos' + k)) = c' * cx (do_sync_init ! (m - 1) ! k)"
      using at' that by (simp add: header_at_def)
    moreover have "cx (symbols ! (pos + (k - d))) = c * cx (do_sync_init ! (m - 1) ! (k - d))"
      using at(1) that by (simp only: header_at_def)
    moreover have "pos + (k - d) = pos' + k" using that d by simp
    ultimately have "c' * cx (do_sync_init ! (m - 1) ! k) = c * cx (do_sync_init ! (m - 1) ! (k - d))" by (simp only:)
    then show ?thesis
      unfolding a_def using that sync_ref_chip [OF at(3,4), of k] sync_ref_chip [OF at(3,4), of "k - d"] by (simp only:)
  qed
  have sq: "of_int (?s k) * of_int (?s k) = (1 :: complex)" if "k < 896" for k
    using pattern_square [OF a that] by (metis of_int_1 of_int_mult)
  have q: "c' * ?r k = of_int (?s k * ?s (k - d)) * (c * ?r (k - d))" if "d \<le> k" "k < 896" for k
  proof -
    have "c' * ?r k = (of_int (?s k) * of_int (?s k)) * (c' * ?r k)" using that sq by simp
    also have "\<dots> = of_int (?s k) * (c' * (of_int (?s k) * ?r k))" by (simp only: mult_ac)
    also have "\<dots> = of_int (?s k * ?s (k - d)) * (c * ?r (k - d))" by (simp only: e [OF that] of_int_mult mult_ac)
    finally show ?thesis .
  qed
  have "?r (n + 2) = ?r n" "?r (n + 2 - d) = ?r (n - d)" using n(1) by simp_all
  then have "of_int (?s n * ?s (n - d)) * (c * ?r (n - d)) = of_int (?s (n + 2) * ?s (n + 2 - d)) * (c * ?r (n - d))"
    using q [of n] q [of "n + 2"] n d by simp
  moreover have "?r (n - d) \<noteq> 0" by (simp only: complex_eq_iff complex.sel zero_complex.sel) (simp add: wh_amp_def)
  then have "c * ?r (n - d) \<noteq> 0" using at(2) by simp
  ultimately have "?s n * ?s (n - d) = ?s (n + 2) * ?s (n + 2 - d)" by (simp only: mult_cancel_right of_int_eq_iff) blast
  then show False using s1 by simp
qed

end
