(* ===== verification/Carrier.thy ===== *)
theory Carrier
  imports HeaderSync Layout
begin

text \<open>
  Carrier recovery of \<^verbatim>\<open>src/demodulator_top.c\<close> and the multi-frame frequency control of
  \<^verbatim>\<open>src/sync_afc.c\<close>, over exact reals: the rotation of a span of symbols, the blind estimate before
  the frame search, the level, noise and frequency estimates from the header, and the phase line
  fitted through the header and the pilot blocks.  \<^verbatim>\<open>atan2\<close> is the argument of a complex number, in
  the half-open interval from \<open>- pi\<close>, with 0 for 0.  The lemmas show what each stage does to symbols
  without noise: a carrier offset below an eighth of the symbol rate is removed before the search,
  and the phase after it.
\<close>

section \<open>Rotation\<close>

definition atan2 :: "real \<Rightarrow> real \<Rightarrow> real" where
  "atan2 y x = Arg (Complex x y)"

definition DEROTATE_REANCHOR :: nat where "DEROTATE_REANCHOR = 256"

definition derotate_step ::
  "nat \<Rightarrow> real \<Rightarrow> real \<Rightarrow> real \<times> real \<times> dvbs2x_complex list \<Rightarrow> nat \<Rightarrow> real \<times> real \<times> dvbs2x_complex list" where
  "derotate_step base step phi st n =
     (let (c, s, syms) = st;
          step_c = cos step; step_s = sin step;
          r = syms ! (base + n);
          syms = syms[base + n := \<lparr>re_i = re_i r * c + im_q r * s, im_q = im_q r * c - re_i r * s\<rparr>];
          next_c = c * step_c - s * step_s;
          next_s = s * step_c + c * step_s
      in if (n + 1) mod DEROTATE_REANCHOR = 0
         then let angle = step * real (n + 1) + phi in (cos angle, sin angle, syms)
         else (next_c, next_s, syms))"

definition derotate :: "dvbs2x_complex list \<Rightarrow> nat \<Rightarrow> nat \<Rightarrow> real \<Rightarrow> real \<Rightarrow> dvbs2x_complex list" where
  "derotate syms base slen f phi =
     snd (snd (foldl (derotate_step base (2 * M_PI * f) phi) (cos phi, sin phi, syms) [0..<slen]))"

section \<open>Blind carrier estimate\<close>

definition fourth_power :: "dvbs2x_complex \<Rightarrow> real \<times> real" where
  "fourth_power sample =
     (let power = re_i sample * re_i sample + im_q sample * im_q sample
      in if power \<le> 1 / 10 ^ 12 then (0, 0)
         else
           let i = re_i sample / sqrt power;
               q = im_q sample / sqrt power;
               r2 = i * i - q * q;
               i2 = 2 * i * q
           in (r2 * r2 - i2 * i2, 2 * r2 * i2))"

text \<open>The products of neighbours: the state is the sum and the previous fourth power.\<close>

definition blind_step ::
  "dvbs2x_complex list \<Rightarrow> (real \<times> real) \<times> real \<times> real \<Rightarrow> nat \<Rightarrow> (real \<times> real) \<times> real \<times> real" where
  "blind_step symbols st n =
     (let ((corr_i, corr_q), prev_i, prev_q) = st;
          (cur_i, cur_q) = fourth_power (symbols ! n)
      in ((corr_i + (cur_i * prev_i + cur_q * prev_q), corr_q + (cur_q * prev_i - cur_i * prev_q)),
          cur_i, cur_q))"

definition coarse_blind_carrier :: "dvbs2x_complex list \<Rightarrow> nat \<Rightarrow> dvbs2x_complex list" where
  "coarse_blind_carrier symbols len =
     (if len < 2 then symbols
      else
        let ((corr_i, corr_q), _) =
              foldl (blind_step symbols) ((0, 0), fourth_power (symbols ! 0)) [1..<len];
            coherence = sqrt (corr_i * corr_i + corr_q * corr_q) / real (len - 1)
        in if coherence < 0.2 then symbols
           else derotate symbols 0 len (atan2 corr_q corr_i / (8 * M_PI)) 0)"

section \<open>Estimates from the header\<close>

text \<open>A received symbol times the conjugate of its reference.\<close>

definition ref_product :: "dvbs2x_complex \<Rightarrow> dvbs2x_complex \<Rightarrow> dvbs2x_complex" where
  "ref_product r w =
     \<lparr>re_i = re_i r * re_i w + im_q r * im_q w, im_q = im_q r * re_i w - re_i r * im_q w\<rparr>"

definition LR_LAGS :: nat where "LR_LAGS = 128"
definition COARSE_MIN_ESN0 :: real where "COARSE_MIN_ESN0 = 4"
definition SYNC_SEG_LEN :: nat where "SYNC_SEG_LEN = 128"

definition lag_sum :: "dvbs2x_complex list \<Rightarrow> nat \<Rightarrow> nat \<Rightarrow> real \<times> real" where
  "lag_sum z n m =
     foldl (\<lambda>(ri, rq) k. (ri + (re_i (z ! k) * re_i (z ! (k - m)) + im_q (z ! k) * im_q (z ! (k - m))),
                          rq + (im_q (z ! k) * re_i (z ! (k - m)) - re_i (z ! k) * im_q (z ! (k - m)))))
       (0, 0) [m..<n]"

definition lr_freq :: "dvbs2x_complex list \<Rightarrow> nat \<Rightarrow> real" where
  "lr_freq z n =
     (let (si, sq) = foldl (\<lambda>(si, sq) m. let (ri, rq) = lag_sum z n m
                            in (si + ri / real (n - m), sq + rq / real (n - m)))
                       (0, 0) [1..<min (LR_LAGS + 1) n]
      in atan2 sq si / (M_PI * real (LR_LAGS + 1)))"

definition estimate_noise_var ::
  "dvbs2x_complex list \<Rightarrow> nat \<Rightarrow> dvbs2x_complex list \<Rightarrow> real" where
  "estimate_noise_var syms wh_start wh_ref =
     (let z = (\<lambda>n. ref_product (syms ! (wh_start + n)) (wh_ref ! n));
          (acc, cnt) = foldl (\<lambda>(acc, cnt) n.
              if 2 \<le> n then
                let di = re_i (z n) - 2 * re_i (z (n - 1)) + re_i (z (n - 2));
                    dq = im_q (z n) - 2 * im_q (z (n - 1)) + im_q (z (n - 2))
                in (acc + (di * di + dq * dq), cnt + 1)
              else (acc, cnt)) (0, 0 :: nat) [0..<DVBS2X_VLSNR_WH_LEN]
      in if cnt = 0 then 1 else acc / real cnt / 12)"

definition normalize_input_level ::
  "dvbs2x_complex list \<Rightarrow> nat \<Rightarrow> nat \<Rightarrow> dvbs2x_complex list \<Rightarrow> dvbs2x_complex list" where
  "normalize_input_level syms len wh_start wh_ref =
     (let magnitude = foldl (\<lambda>magnitude start.
              let stop = min (start + SYNC_SEG_LEN) DVBS2X_VLSNR_WH_LEN;
                  (si, sq) = foldl (\<lambda>(si, sq) n.
                      let p = ref_product (syms ! (wh_start + n)) (wh_ref ! n) in (si + re_i p, sq + im_q p))
                    (0, 0) [start..<stop]
              in magnitude + sqrt (si * si + sq * sq))
            0 (map (\<lambda>k. k * SYNC_SEG_LEN) [0..<(DVBS2X_VLSNR_WH_LEN + SYNC_SEG_LEN - 1) div SYNC_SEG_LEN]);
          magnitude = magnitude / real DVBS2X_VLSNR_WH_LEN
      in if magnitude \<le> 0 \<or> (0.25 \<le> magnitude \<and> magnitude \<le> 4) then syms
         else
           let scale = 1 / magnitude
           in map (\<lambda>s. \<lparr>re_i = re_i s * scale, im_q = im_q s * scale\<rparr>) (take len syms) @ drop len syms)"

text \<open>\<open>alloc_ok\<close>: the temporary array could be allocated.\<close>

definition coarse_freq_recover ::
  "bool \<Rightarrow> dvbs2x_complex list \<Rightarrow> nat \<Rightarrow> nat \<Rightarrow> dvbs2x_complex list \<Rightarrow> real \<Rightarrow> dvbs2x_complex list" where
  "coarse_freq_recover alloc_ok syms wh_start slen wh_ref esn0_db =
     (if esn0_db < COARSE_MIN_ESN0 \<or> \<not> alloc_ok then syms
      else
        let z = map (\<lambda>n. ref_product (syms ! (wh_start + n)) (wh_ref ! n)) [0..<DVBS2X_VLSNR_WH_LEN];
            (ri, rq) = lag_sum z DVBS2X_VLSNR_WH_LEN 1;
            f1 = atan2 rq ri / (2 * M_PI);
            z = map (\<lambda>n. let a = -2 * M_PI * f1 * real n; c = cos a; s = sin a
                         in \<lparr>re_i = re_i (z ! n) * c - im_q (z ! n) * s,
                             im_q = re_i (z ! n) * s + im_q (z ! n) * c\<rparr>) [0..<DVBS2X_VLSNR_WH_LEN];
            f2 = lr_freq z DVBS2X_VLSNR_WH_LEN
        in derotate syms wh_start slen (f1 + f2) 0)"

section \<open>Residual tracking\<close>

record fit_sums =
  fit_sw :: real
  fit_swp :: real
  fit_swt :: real
  fit_swpp :: real
  fit_swpt :: real

definition fit_add :: "real \<Rightarrow> real \<Rightarrow> real \<Rightarrow> fit_sums \<Rightarrow> fit_sums" where
  "fit_add pos phv wv s =
     \<lparr>fit_sw = fit_sw s + wv, fit_swp = fit_swp s + wv * pos, fit_swt = fit_swt s + wv * phv,
      fit_swpp = fit_swpp s + wv * pos * pos, fit_swpt = fit_swpt s + wv * pos * phv\<rparr>"

lemma nat_ceiling_step: "1 / 2 < x \<Longrightarrow> nat \<lceil>x - 1\<rceil> < nat \<lceil>x\<rceil>" for x :: real
  by simp

text \<open>The two unwrapping loops.\<close>

function unwrap_down :: "real \<Rightarrow> real \<Rightarrow> real" where
  "unwrap_down prev_ph phv = (if M_PI < phv - prev_ph then unwrap_down prev_ph (phv - 2 * M_PI) else phv)"
  by pat_completeness auto
termination
proof (relation "measure (\<lambda>(prev_ph, phv). nat \<lceil>(phv - prev_ph) / (2 * pi)\<rceil>)")
  fix prev_ph phv :: real
  assume "M_PI < phv - prev_ph"
  then have "1 / 2 < (phv - prev_ph) / (2 * pi)" by (simp add: M_PI_def field_simps)
  moreover have "(phv - 2 * M_PI - prev_ph) / (2 * pi) = (phv - prev_ph) / (2 * pi) - 1"
    by (simp add: M_PI_def field_simps)
  ultimately show "((prev_ph, phv - 2 * M_PI), prev_ph, phv) \<in> measure (\<lambda>(prev_ph, phv). nat \<lceil>(phv - prev_ph) / (2 * pi)\<rceil>)"
    by (simp only: in_measure prod.case nat_ceiling_step)
qed simp

function unwrap_up :: "real \<Rightarrow> real \<Rightarrow> real" where
  "unwrap_up prev_ph phv = (if phv - prev_ph < - M_PI then unwrap_up prev_ph (phv + 2 * M_PI) else phv)"
  by pat_completeness auto
termination
proof (relation "measure (\<lambda>(prev_ph, phv). nat \<lceil>(prev_ph - phv) / (2 * pi)\<rceil>)")
  fix prev_ph phv :: real
  assume "phv - prev_ph < - M_PI"
  then have "1 / 2 < (prev_ph - phv) / (2 * pi)" by (simp add: M_PI_def field_simps)
  moreover have "(prev_ph - (phv + 2 * M_PI)) / (2 * pi) = (prev_ph - phv) / (2 * pi) - 1"
    by (simp add: M_PI_def field_simps)
  ultimately show "((prev_ph, phv + 2 * M_PI), prev_ph, phv) \<in> measure (\<lambda>(prev_ph, phv). nat \<lceil>(prev_ph - phv) / (2 * pi)\<rceil>)"
    by (simp only: in_measure prod.case nat_ceiling_step)
qed simp

declare unwrap_down.simps [simp del] unwrap_up.simps [simp del]

definition M_SQRT1_2_D :: real where "M_SQRT1_2_D = 0.70710678118654752440"

text \<open>The length of the pilot block that starts at \<open>i\<close>.\<close>

definition pilot_block :: "u8 list \<Rightarrow> nat \<Rightarrow> nat \<Rightarrow> nat" where
  "pilot_block is_pilot field_len i =
     Suc (length (takeWhile (\<lambda>p. p \<noteq> 0) (drop (Suc i) (take field_len is_pilot))))"

text \<open>The loop over the field: the sums and the previous phase.\<close>

function track_loop ::
  "dvbs2x_complex list \<Rightarrow> nat \<Rightarrow> u8 list \<Rightarrow> nat \<Rightarrow> nat \<Rightarrow> fit_sums \<times> real \<Rightarrow> fit_sums \<times> real" where
  "track_loop syms data_start is_pilot field_len i st =
     (if field_len \<le> i then st
      else if is_pilot ! i = 0 then track_loop syms data_start is_pilot field_len (i + 1) st
      else
        let (fs, prev_ph) = st;
            blk = pilot_block is_pilot field_len i;
            (ci, cq) = foldl (\<lambda>(ci, cq) b.
                let r = syms ! (data_start + i + b)
                in (ci + (re_i r + im_q r) * M_SQRT1_2_D, cq + (im_q r - re_i r) * M_SQRT1_2_D))
              (0, 0) [0..<blk];
            pos = real DVBS2X_VLSNR_WH_LEN + real i + real (blk - 1) / 2;
            phv = unwrap_up prev_ph (unwrap_down prev_ph (atan2 cq ci))
        in track_loop syms data_start is_pilot field_len (i + blk) (fit_add pos phv (real blk) fs, phv))"
  by pat_completeness auto
termination
  by (relation "measure (\<lambda>(_, _, _, field_len, i, _). field_len - i)") (auto simp: pilot_block_def)

declare track_loop.simps [simp del]

definition header_phase :: "dvbs2x_complex list \<Rightarrow> nat \<Rightarrow> dvbs2x_complex list \<Rightarrow> real" where
  "header_phase syms wh_start wh_ref =
     (let (ci, cq) = foldl (\<lambda>(ci, cq) n.
            let p = ref_product (syms ! (wh_start + n)) (wh_ref ! n) in (ci + re_i p, cq + im_q p))
          (0, 0) [0..<DVBS2X_VLSNR_WH_LEN]
      in atan2 cq ci)"

definition residual_carrier_track ::
  "dvbs2x_complex list \<Rightarrow> nat \<Rightarrow> dvbs2x_vlsnr_layout \<Rightarrow> dvbs2x_complex list \<Rightarrow> dvbs2x_complex list" where
  "residual_carrier_track syms wh_start lay wh_ref =
     (let data_start = wh_start + DVBS2X_VLSNR_WH_LEN + 2;
          phv = header_phase syms wh_start wh_ref;
          fs = fit_add (real (DVBS2X_VLSNR_WH_LEN - 1) / 2) phv (real DVBS2X_VLSNR_WH_LEN)
                   \<lparr>fit_sw = 0, fit_swp = 0, fit_swt = 0, fit_swpp = 0, fit_swpt = 0\<rparr>;
          (fs, _) = track_loop syms data_start (the (lay_is_pilot lay)) (lay_field_len lay) 0 (fs, phv);
          denom = fit_sw fs * fit_swpp fs - fit_swp fs * fit_swp fs;
          (a, b) = (if \<bar>denom\<bar> < 1 / 10 ^ 9 then (0, fit_swt fs / fit_sw fs)
                    else
                      let a = (fit_sw fs * fit_swpt fs - fit_swp fs * fit_swt fs) / denom
                      in (a, (fit_swt fs - a * fit_swp fs) / fit_sw fs))
      in derotate syms data_start (lay_field_len lay) (a / (2 * M_PI)) (a * real DVBS2X_VLSNR_WH_LEN + b))"

section \<open>Multi-frame frequency control\<close>

definition AFC_LOCK_FRAMES :: nat where "AFC_LOCK_FRAMES = 3"
definition AFC_CONSISTENT_TOL :: real where "AFC_CONSISTENT_TOL = 1.5 / 10 ^ 4"
definition AFC_MAX_STEP :: real where "AFC_MAX_STEP = 2 / 10 ^ 4"

record dvbs2x_afc =
  afc_freq_est :: real
  afc_acc_i :: real
  afc_acc_q :: real
  afc_frames :: nat
  afc_locked :: bool
  afc_alpha :: real
  afc_raw_prev :: real
  afc_consistent :: nat

definition dvbs2x_afc_init :: "real \<Rightarrow> dvbs2x_afc" where
  "dvbs2x_afc_init alpha =
     \<lparr>afc_freq_est = 0, afc_acc_i = 0, afc_acc_q = 0, afc_frames = 0, afc_locked = False,
      afc_alpha = alpha, afc_raw_prev = 0, afc_consistent = 0\<rparr>"

text \<open>The frequency of one header from the product of neighbours; the frame counter wraps at 32
  bits.\<close>

definition afc_raw :: "dvbs2x_complex list \<Rightarrow> nat \<Rightarrow> dvbs2x_complex list \<Rightarrow> real" where
  "afc_raw syms wh_start wh_ref =
     (let z = map (\<lambda>n. ref_product (syms ! (wh_start + n)) (wh_ref ! n)) [0..<DVBS2X_VLSNR_WH_LEN];
          (ri, rq) = lag_sum z DVBS2X_VLSNR_WH_LEN 1
      in atan2 rq ri / (2 * M_PI))"

definition dvbs2x_afc_update ::
  "dvbs2x_afc \<Rightarrow> dvbs2x_complex list \<Rightarrow> nat \<Rightarrow> dvbs2x_complex list \<Rightarrow> dvbs2x_afc" where
  "dvbs2x_afc_update afc syms wh_start wh_ref =
     (let f_raw = afc_raw syms wh_start wh_ref;
          afc = afc\<lparr>afc_frames := (afc_frames afc + 1) mod 2 ^ 32\<rparr>;
          afc = (if 1 < afc_frames afc \<and> \<bar>f_raw - afc_raw_prev afc\<bar> < AFC_CONSISTENT_TOL
                 then if afc_consistent afc < AFC_LOCK_FRAMES
                      then afc\<lparr>afc_consistent := afc_consistent afc + 1\<rparr> else afc
                 else afc\<lparr>afc_consistent := 0\<rparr>);
          afc = afc\<lparr>afc_raw_prev := f_raw\<rparr>
      in if AFC_LOCK_FRAMES \<le> afc_consistent afc
         then
           let step = (if AFC_MAX_STEP < f_raw then AFC_MAX_STEP
                       else if f_raw < - AFC_MAX_STEP then - AFC_MAX_STEP else f_raw)
           in afc\<lparr>afc_locked := True, afc_freq_est := afc_freq_est afc + step\<rparr>
         else afc\<lparr>afc_locked := False\<rparr>)"

section \<open>What the rotation does\<close>

lemma derotate_loop:
  assumes "base + n \<le> length syms"
  shows "\<exists>c s d. foldl (derotate_step base step phi) (cos phi, sin phi, syms) [0..<n] = (c, s, d) \<and>
     Complex c s = cis (step * real n + phi) \<and> length d = length syms \<and>
     (\<forall>x < length syms. cx (d ! x) =
        (if base \<le> x \<and> x < base + n then cx (syms ! x) * cis (- (step * real (x - base) + phi)) else cx (syms ! x)))"
  using assms
proof (induction n)
  case (Suc n)
  then obtain c s d where st: "foldl (derotate_step base step phi) (cos phi, sin phi, syms) [0..<n] = (c, s, d)"
    and cs: "Complex c s = cis (step * real n + phi)" and dl: "length d = length syms"
    and dv: "\<And>x. x < length syms \<Longrightarrow> cx (d ! x) =
        (if base \<le> x \<and> x < base + n then cx (syms ! x) * cis (- (step * real (x - base) + phi)) else cx (syms ! x))"
    by auto
  define r where "r = \<lparr>re_i = re_i (d ! (base + n)) * c + im_q (d ! (base + n)) * s,
     im_q = im_q (d ! (base + n)) * c - re_i (d ! (base + n)) * s\<rparr>"
  obtain c' s' where st': "foldl (derotate_step base step phi) (cos phi, sin phi, syms) [0..<Suc n] =
      (c', s', d[base + n := r])" and cs': "Complex c' s' = cis (step * real (Suc n) + phi)"
  proof (cases "(n + 1) mod DEROTATE_REANCHOR = 0")
    case True
    then show ?thesis
      by (intro that) (simp_all add: st derotate_step_def Let_def r_def cis.ctr)
  next
    case False
    have "Complex (c * cos step - s * sin step) (s * cos step + c * sin step) = Complex c s * cis step"
      by (simp add: complex_eq_iff)
    also have "\<dots> = cis (step * real (Suc n) + phi)" unfolding cs cis_mult by (simp add: algebra_simps)
    finally show ?thesis using False by (intro that) (simp_all add: st derotate_step_def Let_def r_def)
  qed
  have "cx r = cx (d ! (base + n)) * cnj (Complex c s)"
    by (simp add: cx_def r_def complex_eq_iff algebra_simps)
  also have "\<dots> = cx (syms ! (base + n)) * cis (- (step * real n + phi))"
    using dv [of "base + n"] Suc.prems unfolding cs cis_cnj by simp
  finally have r: "cx r = cx (syms ! (base + n)) * cis (- (step * real n + phi))" .
  show ?case
  proof (intro exI conjI allI impI)
    show "foldl (derotate_step base step phi) (cos phi, sin phi, syms) [0..<Suc n] = (c', s', d[base + n := r])" by (rule st')
    fix x assume x: "x < length syms"
    show "cx (d[base + n := r] ! x) =
        (if base \<le> x \<and> x < base + Suc n then cx (syms ! x) * cis (- (step * real (x - base) + phi)) else cx (syms ! x))"
      using r dv [OF x] x dl by (cases "x = base + n") auto
  qed (simp_all add: cs' dl)
qed (auto simp: cis.ctr)

lemma derotate_values:
  assumes "base + slen \<le> length syms"
  shows "length (derotate syms base slen f phi) = length syms"
    "x < length syms \<Longrightarrow> cx (derotate syms base slen f phi ! x) =
       (if base \<le> x \<and> x < base + slen then cx (syms ! x) * cis (- (2 * pi * f * real (x - base) + phi))
        else cx (syms ! x))"
  using derotate_loop [OF assms, of "2 * M_PI * f" phi] by (auto simp: derotate_def M_PI_def)

lemma derotate_0: "base + slen \<le> length syms \<Longrightarrow> derotate syms base slen 0 0 = syms"
  using derotate_values [where base = base and slen = slen and syms = syms and f = 0 and phi = 0]
  by (intro nth_equalityI) (simp_all add: cx_eq_iff [symmetric])

section \<open>The blind estimate without noise\<close>

definition pair_cx :: "real \<times> real \<Rightarrow> complex" where
  "pair_cx p = Complex (fst p) (snd p)"

lemma fourth_power_sgn:
  assumes "1 / 10 ^ 12 < power_of z"
  shows "pair_cx (fourth_power z) = sgn (cx z) ^ 4"
proof -
  let ?p = "re_i z * re_i z + im_q z * im_q z"
  have p: "1 / 10 ^ 12 < ?p" using assms by (simp add: power_of_def)
  define i q where "i = re_i z / sqrt ?p" and "q = im_q z / sqrt ?p"
  have "sgn (cx z) = Complex i q"
    by (simp add: sgn_eq cx_def cmod_def complex_eq_iff Re_divide_of_real Im_divide_of_real i_def q_def power2_eq_square)
  moreover have "Complex i q ^ 4 = Complex ((i * i - q * q) * (i * i - q * q) - 2 * i * q * (2 * i * q)) (2 * (i * i - q * q) * (2 * i * q))"
    by (simp add: numeral_eq_Suc complex_eq_iff algebra_simps)
  ultimately show ?thesis
    using p unfolding fourth_power_def Let_def i_def [symmetric] q_def [symmetric] by (simp add: pair_cx_def)
qed

text \<open>Symbols of the QPSK grid, of any amplitude.\<close>

definition diagonal :: "dvbs2x_complex \<Rightarrow> bool" where
  "diagonal z \<longleftrightarrow> \<bar>re_i z\<bar> = \<bar>im_q z\<bar> \<and> re_i z \<noteq> 0"

lemma diagonal_fourth: "diagonal z \<Longrightarrow> sgn (cx z) ^ 4 = -1"
proof -
  assume d: "diagonal z"
  define x where "x = re_i z"
  have x: "x \<noteq> 0" and i: "im_q z = x \<or> im_q z = - x" using d by (auto simp: diagonal_def x_def abs_eq_iff)
  have "cx z ^ 4 = - of_real (4 * x ^ 4)"
    using i by (auto simp: cx_def x_def [symmetric] complex_eq_iff numeral_eq_Suc algebra_simps)
  moreover have "(norm (cx z)) ^ 4 = 4 * x ^ 4"
  proof -
    have "(norm (cx z))\<^sup>2 = 2 * x\<^sup>2" using i by (auto simp: cx_def cmod_power2 x_def)
    then have "((norm (cx z))\<^sup>2)\<^sup>2 = (2 * x\<^sup>2)\<^sup>2" by simp
    then show ?thesis by (simp add: power_mult_distrib flip: power_mult)
  qed
  ultimately show ?thesis
    using x by (simp add: sgn_eq power_divide of_real_power [symmetric] del: of_real_power)
qed

lemma blind_step_product:
  "\<exists>c'. blind_step symbols (c, p) n = (c', fourth_power (symbols ! n)) \<and>
     pair_cx c' = pair_cx c + pair_cx (fourth_power (symbols ! n)) * cnj (pair_cx p)"
  by (cases c; cases p) (simp add: blind_step_def split_beta pair_cx_def complex_eq_iff algebra_simps)

lemma blind_loop:
  "\<exists>c. foldl (blind_step symbols) ((0, 0), fourth_power (symbols ! 0)) [1..<Suc n] = (c, fourth_power (symbols ! n)) \<and>
     pair_cx c = (\<Sum>k<n. pair_cx (fourth_power (symbols ! Suc k)) * cnj (pair_cx (fourth_power (symbols ! k))))"
proof (induction n)
  case 0
  then show ?case by (simp add: pair_cx_def complex_eq_iff)
next
  case (Suc n)
  then obtain c where st: "foldl (blind_step symbols) ((0, 0), fourth_power (symbols ! 0)) [1..<Suc n] =
      (c, fourth_power (symbols ! n))" and
    c: "pair_cx c = (\<Sum>k<n. pair_cx (fourth_power (symbols ! Suc k)) * cnj (pair_cx (fourth_power (symbols ! k))))"
    by blast
  have "[1..<Suc (Suc n)] = [1..<Suc n] @ [Suc n]" by simp
  then show ?case
    using blind_step_product [of symbols c "fourth_power (symbols ! n)" "Suc n"] c
    by (simp only: foldl_append foldl.simps st sum.lessThan_Suc)
qed

definition of_cx :: "complex \<Rightarrow> dvbs2x_complex" where
  "of_cx z = \<lparr>re_i = Re z, im_q = Im z\<rparr>"

lemma cx_of_cx [simp]: "cx (of_cx z) = z"
  by (simp add: cx_def of_cx_def)

text \<open>Symbols received with the complex gain \<open>c\<close> and a carrier offset of \<open>f\<close> cycles per symbol.\<close>

definition carrier_channel :: "complex \<Rightarrow> real \<Rightarrow> dvbs2x_complex list \<Rightarrow> dvbs2x_complex list" where
  "carrier_channel c f xs = map (\<lambda>n. of_cx (c * cis (2 * pi * f * real n) * cx (xs ! n))) [0..<length xs]"

lemma carrier_channel_nth:
  "n < length xs \<Longrightarrow> cx (carrier_channel c f xs ! n) = c * cis (2 * pi * f * real n) * cx (xs ! n)"
  "length (carrier_channel c f xs) = length xs"
  by (simp_all add: carrier_channel_def)

lemma Arg_scaled: "0 < r \<Longrightarrow> - pi < t \<Longrightarrow> t \<le> pi \<Longrightarrow> Arg (of_real r * cis t) = t"
  by (intro cis_Arg_unique) (simp_all add: sgn_mult sgn_of_real)

lemma blind_carrier:
  assumes f: "\<bar>f\<bar> < 1 / 8" and c: "c \<noteq> 0" and xs: "2 \<le> length xs"
    and grid: "\<And>x. x \<in> set xs \<Longrightarrow> diagonal x \<and> 1 / 10 ^ 12 < (norm c)\<^sup>2 * power_of x"
  shows "coarse_blind_carrier (carrier_channel c f xs) (length xs) = carrier_channel c 0 xs"
proof -
  let ?rx = "carrier_channel c f xs" and ?len = "length xs"
  have four: "pair_cx (fourth_power (?rx ! n)) = - ((sgn c * cis (2 * pi * f * real n)) ^ 4)" if n: "n < ?len" for n
  proof -
    have "xs ! n \<in> set xs" using n by simp
    note g = grid [OF this]
    have "power_of (?rx ! n) = (norm c)\<^sup>2 * power_of (xs ! n)"
      by (simp add: power_of_cx carrier_channel_nth(1) [OF n] norm_mult power_mult_distrib)
    then have "pair_cx (fourth_power (?rx ! n)) = sgn (c * cis (2 * pi * f * real n) * cx (xs ! n)) ^ 4"
      using fourth_power_sgn [of "?rx ! n"] g by (simp add: carrier_channel_nth(1) [OF n])
    then show ?thesis using diagonal_fourth g by (simp add: sgn_mult power_mult_distrib)
  qed
  obtain m where m: "?len = Suc (Suc m)" using xs by (cases ?len; cases "?len - 1") auto
  obtain ci cq p where st: "foldl (blind_step ?rx) ((0, 0), fourth_power (?rx ! 0)) [1..<?len] = ((ci, cq), p)"
    and sum: "Complex ci cq = (\<Sum>k<Suc m. pair_cx (fourth_power (?rx ! Suc k)) * cnj (pair_cx (fourth_power (?rx ! k))))"
    using blind_loop [of ?rx "Suc m"] unfolding m pair_cx_def by (metis prod.collapse)
  have "pair_cx (fourth_power (?rx ! Suc k)) * cnj (pair_cx (fourth_power (?rx ! k))) = cis (8 * pi * f)" if k: "k < Suc m" for k
  proof -
    have s: "sgn c ^ 4 * cnj (sgn c) ^ 4 = 1"
    proof -
      have "sgn c * cnj (sgn c) = 1"
        using c by (simp add: complex_norm_square [symmetric] norm_sgn)
      then show ?thesis by (simp flip: power_mult_distrib)
    qed
    have "pair_cx (fourth_power (?rx ! Suc k)) * cnj (pair_cx (fourth_power (?rx ! k))) =
        (sgn c ^ 4 * cnj (sgn c) ^ 4) * (cis (2 * pi * f * real (Suc k)) ^ 4 * cis (- (2 * pi * f * real k)) ^ 4)"
      using four [of "Suc k"] four [of k] k m by (simp add: power_mult_distrib cis_cnj ac_simps)
    also have "\<dots> = cis (8 * pi * f)"
      unfolding s DeMoivre cis_mult by (simp add: algebra_simps)
    finally show ?thesis .
  qed
  then have corr: "Complex ci cq = of_real (real (Suc m)) * cis (8 * pi * f)" unfolding sum by simp
  have "sqrt (ci * ci + cq * cq) = norm (Complex ci cq)" by (simp add: cmod_def power2_eq_square)
  also have "\<dots> = real (Suc m)"
    unfolding corr norm_mult by (simp only: norm_of_real norm_cis abs_of_nat mult_1_right)
  finally have coh: "sqrt (ci * ci + cq * cq) / real (?len - 1) = 1" by (simp add: m)
  have "8 * pi * \<bar>f\<bar> < 8 * pi * (1 / 8)" using f by (intro mult_strict_left_mono) simp_all
  then have "\<bar>8 * pi * f\<bar> < pi" by (simp add: abs_mult)
  then have "atan2 cq ci = 8 * pi * f"
    unfolding atan2_def corr by (intro Arg_scaled) (simp_all add: abs_less_iff)
  then have freq: "atan2 cq ci / (8 * M_PI) = f" by (simp add: M_PI_def)
  have "coarse_blind_carrier ?rx ?len = derotate ?rx 0 ?len f 0"
    unfolding coarse_blind_carrier_def st Let_def prod.case coh freq using xs by simp
  moreover have "derotate ?rx 0 ?len f 0 = carrier_channel c 0 xs"
  proof (rule nth_equalityI)
    show "length (derotate ?rx 0 ?len f 0) = length (carrier_channel c 0 xs)"
      by (simp add: derotate_values(1) carrier_channel_nth)
    fix n assume "n < length (derotate ?rx 0 ?len f 0)"
    then have n: "n < ?len" by (simp add: derotate_values(1) carrier_channel_nth)
    have "cx (derotate ?rx 0 ?len f 0 ! n) = c * (cis (2 * pi * f * real n) * cis (- (2 * pi * f * real n))) * cx (xs ! n)"
      using n by (simp add: derotate_values(2) carrier_channel_nth)
    then show "derotate ?rx 0 ?len f 0 ! n = carrier_channel c 0 xs ! n"
      using n by (simp add: cis_mult carrier_channel_nth flip: cx_eq_iff)
  qed
  ultimately show ?thesis by simp
qed

section \<open>The header without noise\<close>

lemma cx_ref_product: "cx (ref_product r w) = cx r * cnj (cx w)"
  by (simp add: cx_def ref_product_def complex_eq_iff algebra_simps)

text \<open>At \<open>wh_start\<close> the symbols are the reference with the complex gain \<open>w\<close>.\<close>

definition clean_header :: "dvbs2x_complex list \<Rightarrow> nat \<Rightarrow> dvbs2x_complex list \<Rightarrow> complex \<Rightarrow> bool" where
  "clean_header syms wh_start wh_ref w \<longleftrightarrow>
     (\<forall>n<896. cx (syms ! (wh_start + n)) = w * cx (wh_ref ! n) \<and> norm (cx (wh_ref ! n)) = full_conf)"

lemma clean_product:
  assumes "clean_header syms wh_start wh_ref w" "n < 896"
  shows "ref_product (syms ! (wh_start + n)) (wh_ref ! n) = of_cx (w * of_real (full_conf\<^sup>2))"
proof -
  have "cx (wh_ref ! n) * cnj (cx (wh_ref ! n)) = of_real (full_conf\<^sup>2)"
    using assms by (simp add: clean_header_def complex_norm_square [symmetric])
  then show ?thesis
    using assms by (simp add: clean_header_def cx_ref_product mult.assoc flip: cx_eq_iff)
qed

lemma lag_sum_const:
  assumes "\<And>k. k < n \<Longrightarrow> z ! k = of_cx u" "m \<le> n"
  shows "lag_sum z n m = (real (n - m) * (norm u)\<^sup>2, 0)"
proof -
  have u2: "(norm u)\<^sup>2 = Re u * Re u + Im u * Im u" unfolding cmod_power2 by (simp add: power2_eq_square)
  have "foldl (\<lambda>(ri, rq) k. (ri + (re_i (z ! k) * re_i (z ! (k - m)) + im_q (z ! k) * im_q (z ! (k - m))),
                          rq + (im_q (z ! k) * re_i (z ! (k - m)) - re_i (z ! k) * im_q (z ! (k - m)))))
       (a, 0) [m..<m + j] = (a + real j * (norm u)\<^sup>2, 0)" if "m + j \<le> n" for a j
    using that
  proof (induction j)
    case (Suc j)
    then show ?case
      using assms(1) [of "m + j"] assms(1) [of j]
      by (simp add: of_cx_def u2 algebra_simps)
  qed simp
  from this [of "n - m" 0] assms(2) show ?thesis by (simp add: lag_sum_def)
qed

lemma atan2_pos: "0 < x \<Longrightarrow> atan2 0 x = 0"
  using Arg_scaled [of x 0] by (simp add: atan2_def complex_of_real_def [symmetric] Complex_eq)

lemma lr_freq_const:
  assumes "\<And>k. k < n \<Longrightarrow> z ! k = of_cx u" "u \<noteq> 0" "2 \<le> n"
  shows "lr_freq z n = 0"
proof -
  have "foldl (\<lambda>(si, sq) m. let (ri, rq) = lag_sum z n m in (si + ri / real (n - m), sq + rq / real (n - m)))
      (0, 0) [1..<Suc j] = (real j * (norm u)\<^sup>2, 0)" if "j < n" for j
    using that
  proof (induction j)
    case (Suc j)
    have "real (n - Suc j) \<noteq> 0" using Suc.prems by simp
    moreover have "lag_sum z n (Suc j) = (real (n - Suc j) * (norm u)\<^sup>2, 0)"
      using Suc.prems by (intro lag_sum_const assms(1)) simp_all
    moreover have "[1..<Suc (Suc j)] = [1..<Suc j] @ [Suc j]" by simp
    ultimately show ?case using Suc
      by (simp only: foldl_append foldl.simps) (simp add: algebra_simps del: of_nat_diff)
  qed simp
  from this [of "min LR_LAGS (n - 1)"]
  have "foldl (\<lambda>(si, sq) m. let (ri, rq) = lag_sum z n m in (si + ri / real (n - m), sq + rq / real (n - m)))
      (0, 0) [1..<min (LR_LAGS + 1) n] = (real (min LR_LAGS (n - 1)) * (norm u)\<^sup>2, 0)"
    using assms(3) by (simp add: min_Suc_Suc [symmetric] del: min_Suc_Suc)
  moreover have "0 < real (min LR_LAGS (n - 1)) * (norm u)\<^sup>2"
    using assms by (simp add: LR_LAGS_def)
  ultimately show ?thesis by (simp add: lr_freq_def atan2_pos)
qed

lemma noise_var_clean:
  assumes "clean_header syms wh_start wh_ref w"
  shows "estimate_noise_var syms wh_start wh_ref = 0"
proof -
  let ?z = "\<lambda>n. ref_product (syms ! (wh_start + n)) (wh_ref ! n)"
  have "\<exists>cnt. foldl (\<lambda>(acc, cnt) n.
              if 2 \<le> n then
                let di = re_i (?z n) - 2 * re_i (?z (n - 1)) + re_i (?z (n - 2));
                    dq = im_q (?z n) - 2 * im_q (?z (n - 1)) + im_q (?z (n - 2))
                in (acc + (di * di + dq * dq), cnt + 1)
              else (acc, cnt)) (0, 0 :: nat) [0..<j] = (0, j - 2)" if "j \<le> 896" for j
    using that
  proof (induction j)
    case (Suc j)
    then show ?case
      using clean_product [OF assms, of j] clean_product [OF assms, of "j - 1"] clean_product [OF assms, of "j - 2"]
      by (auto simp: Let_def Suc_diff_le)
  qed simp
  from this [of 896] show ?thesis by (simp add: estimate_noise_var_def DVBS2X_VLSNR_WH_LEN_def Let_def)
qed

lemma coarse_freq_clean:
  assumes "clean_header syms wh_start wh_ref w" "w \<noteq> 0" "wh_start + slen \<le> length syms"
  shows "coarse_freq_recover ok syms wh_start slen wh_ref esn0_db = syms"
proof -
  let ?W = DVBS2X_VLSNR_WH_LEN
  have W: "?W = 896" by (simp add: DVBS2X_VLSNR_WH_LEN_def)
  let ?z = "map (\<lambda>n. ref_product (syms ! (wh_start + n)) (wh_ref ! n)) [0..<?W]"
  let ?u = "w * of_real (full_conf\<^sup>2)"
  have z: "?z ! k = of_cx ?u" if "k < ?W" for k using clean_product [OF assms(1), of k] that by (simp add: W)
  have u: "?u \<noteq> 0" using assms(2) full_conf(1) by simp
  obtain x where lag: "lag_sum ?z ?W 1 = (x, 0)" and x: "0 < x"
  proof (rule that)
    show "lag_sum ?z ?W 1 = (real (?W - 1) * (norm ?u)\<^sup>2, 0)" by (rule lag_sum_const) (use z W in simp_all)
    have "0 < (norm ?u)\<^sup>2" using u by simp
    then show "0 < real (?W - 1) * (norm ?u)\<^sup>2" by (intro mult_pos_pos) (simp_all add: W)
  qed
  let ?z' = "map (\<lambda>n. \<lparr>re_i = re_i (?z ! n) * cos (-2 * M_PI * (0 / (2 * M_PI)) * real n) - im_q (?z ! n) * sin (-2 * M_PI * (0 / (2 * M_PI)) * real n),
     im_q = re_i (?z ! n) * sin (-2 * M_PI * (0 / (2 * M_PI)) * real n) + im_q (?z ! n) * cos (-2 * M_PI * (0 / (2 * M_PI)) * real n)\<rparr>) [0..<?W]"
  have "?z' ! k = of_cx ?u" if "k < ?W" for k
    using z [OF that] that by (simp add: of_cx_def)
  then have "lr_freq ?z' ?W = 0" by (rule lr_freq_const [OF _ u]) (simp_all add: W)
  then show ?thesis
    unfolding coarse_freq_recover_def Let_def lag prod.case atan2_pos [OF x]
    using derotate_0 [OF assms(3)] by simp
qed

text \<open>Sums of the constant product.\<close>

lemma product_sum_clean:
  assumes "clean_header syms wh_start wh_ref w" "b \<le> 896" "a \<le> b"
  shows "foldl (\<lambda>(ci, cq) n.
            let p = ref_product (syms ! (wh_start + n)) (wh_ref ! n) in (ci + re_i p, cq + im_q p))
          (0, 0) [a..<b] = (real (b - a) * (full_conf\<^sup>2 * Re w), real (b - a) * (full_conf\<^sup>2 * Im w))"
proof -
  have "foldl (\<lambda>(ci, cq) n.
            let p = ref_product (syms ! (wh_start + n)) (wh_ref ! n) in (ci + re_i p, cq + im_q p))
          (0, 0) [a..<a + j] = (real j * (full_conf\<^sup>2 * Re w), real j * (full_conf\<^sup>2 * Im w))" if "a + j \<le> 896" for j
    using that
  proof (induction j)
    case (Suc j)
    then show ?case
      using clean_product [OF assms(1), of "a + j"] by (simp add: of_cx_def Let_def algebra_simps)
  qed simp
  from this [of "b - a"] assms show ?thesis by simp
qed

lemma Arg_scale: "0 < r \<Longrightarrow> Arg (of_real r * w) = Arg w"
proof (cases "w = 0")
  case False
  assume "0 < r"
  then show ?thesis
    using False cis_Arg [OF False] Arg_bounded [of w] by (intro cis_Arg_unique) (simp_all add: sgn_mult sgn_of_real)
qed simp

lemma header_phase_clean:
  assumes "clean_header syms wh_start wh_ref w"
  shows "header_phase syms wh_start wh_ref = Arg w"
proof -
  have "Complex (real (896 - 0) * (full_conf\<^sup>2 * Re w)) (real (896 - 0) * (full_conf\<^sup>2 * Im w)) =
      of_real (896 * full_conf\<^sup>2) * w"
    by (simp add: complex_eq_iff)
  then show ?thesis
    unfolding header_phase_def DVBS2X_VLSNR_WH_LEN_def product_sum_clean [OF assms le_refl le0]
    unfolding Let_def prod.case atan2_def
    using Arg_scale [of "896 * full_conf\<^sup>2" w] full_conf(1) by simp
qed

lemma normalize_clean:
  assumes "clean_header syms wh_start wh_ref w" "w \<noteq> 0"
  shows "normalize_input_level syms len wh_start wh_ref =
     (if 0.25 \<le> norm w * full_conf\<^sup>2 \<and> norm w * full_conf\<^sup>2 \<le> 4 then syms
      else map (\<lambda>s. \<lparr>re_i = re_i s * (1 / (norm w * full_conf\<^sup>2)), im_q = im_q s * (1 / (norm w * full_conf\<^sup>2))\<rparr>)
             (take len syms) @ drop len syms)"
proof -
  define seg where "seg start =
     (case foldl (\<lambda>(si, sq) n. (si + re_i (ref_product (syms ! (wh_start + n)) (wh_ref ! n)),
                                sq + im_q (ref_product (syms ! (wh_start + n)) (wh_ref ! n))))
        (0, 0) [start..<min (start + SYNC_SEG_LEN) 896] of (si, sq) \<Rightarrow> sqrt (si * si + sq * sq))" for start
  have seg: "seg start = 128 * (norm w * full_conf\<^sup>2)" if "start + 128 \<le> 896" for start
  proof -
    have "sqrt (real 128 * (full_conf\<^sup>2 * Re w) * (real 128 * (full_conf\<^sup>2 * Re w)) +
          real 128 * (full_conf\<^sup>2 * Im w) * (real 128 * (full_conf\<^sup>2 * Im w))) =
        norm (of_real (128 * full_conf\<^sup>2) * w)"
      by (simp add: cmod_def power2_eq_square)
    also have "\<dots> = 128 * (norm w * full_conf\<^sup>2)"
      using full_conf(1) by (simp add: norm_mult norm_power)
    finally show ?thesis
      using that product_sum_clean [OF assms(1), of "start + 128" start, unfolded Let_def]
      by (simp add: seg_def SYNC_SEG_LEN_def)
  qed
  have fold: "foldl (\<lambda>magnitude start.
              case foldl (\<lambda>(si, sq) n. (si + re_i (ref_product (syms ! (wh_start + n)) (wh_ref ! n)),
                                sq + im_q (ref_product (syms ! (wh_start + n)) (wh_ref ! n))))
                    (0, 0) [start..<min (start + SYNC_SEG_LEN) 896] of
                (si, sq) \<Rightarrow> magnitude + sqrt (si * si + sq * sq)) m starts = foldl (\<lambda>m start. m + seg start) m starts" for m starts
    by (simp add: seg_def split_beta)
  have "map (\<lambda>k. k * SYNC_SEG_LEN) [0..<(896 + SYNC_SEG_LEN - 1) div SYNC_SEG_LEN] = [0, 128, 256, 384, 512, 640, 768]"
    by (simp add: SYNC_SEG_LEN_def upt_rec)
  then have "foldl (\<lambda>m start. m + seg start) 0 (map (\<lambda>k. k * SYNC_SEG_LEN) [0..<(896 + SYNC_SEG_LEN - 1) div SYNC_SEG_LEN]) =
      896 * (norm w * full_conf\<^sup>2)"
    by (simp add: seg)
  moreover have "0 < norm w * full_conf\<^sup>2" using assms(2) full_conf(1) by simp
  ultimately show ?thesis
    unfolding normalize_input_level_def DVBS2X_VLSNR_WH_LEN_def Let_def fold by simp
qed

section \<open>The fitted phase without noise\<close>

definition fit_ok :: "real \<Rightarrow> fit_sums \<Rightarrow> bool" where
  "fit_ok theta fs \<longleftrightarrow> fit_swt fs = theta * fit_sw fs \<and> fit_swpt fs = theta * fit_swp fs \<and> 0 < fit_sw fs"

lemma fit_ok_add: "fit_ok theta fs \<Longrightarrow> 0 < wv \<Longrightarrow> fit_ok theta (fit_add pos theta wv fs)"
  by (simp add: fit_ok_def fit_add_def algebra_simps)

definition pilot_ref :: complex where "pilot_ref = Complex M_SQRT1_2_D M_SQRT1_2_D"

text \<open>The pilots of the field are the reference with the gain \<open>w\<close>.\<close>

definition clean_pilots :: "dvbs2x_complex list \<Rightarrow> nat \<Rightarrow> u8 list \<Rightarrow> nat \<Rightarrow> complex \<Rightarrow> bool" where
  "clean_pilots syms data_start is_pilot field_len w \<longleftrightarrow>
     field_len \<le> length is_pilot \<and>
     (\<forall>p < field_len. is_pilot ! p \<noteq> 0 \<longrightarrow> cx (syms ! (data_start + p)) = w * pilot_ref)"

lemma pilot_block_pilots:
  assumes "is_pilot ! i \<noteq> 0" "i < field_len" "field_len \<le> length is_pilot" "b < pilot_block is_pilot field_len i"
  shows "i + b < field_len" "is_pilot ! (i + b) \<noteq> 0"
proof -
  let ?d = "drop (Suc i) (take field_len is_pilot)"
  have "i + b < field_len \<and> is_pilot ! (i + b) \<noteq> 0"
  proof (cases b)
    case (Suc c)
    then have c: "c < length (takeWhile (\<lambda>p. p \<noteq> 0) ?d)" using assms(4) by (simp add: pilot_block_def)
    then have "c < length ?d" using length_takeWhile_le less_le_trans by blast
    moreover have "?d ! c \<noteq> 0" using nth_mem [OF c] by (auto simp: takeWhile_nth [OF c] dest: set_takeWhileD)
    ultimately show ?thesis using assms(3) Suc by simp
  qed (use assms in simp)
  then show "i + b < field_len" "is_pilot ! (i + b) \<noteq> 0" by simp_all
qed

lemma pilot_sum_clean:
  assumes "\<And>b. b < blk \<Longrightarrow> cx (syms ! (k + b)) = w * pilot_ref"
  shows "foldl (\<lambda>(ci, cq) b. let r = syms ! (k + b)
                in (ci + (re_i r + im_q r) * M_SQRT1_2_D, cq + (im_q r - re_i r) * M_SQRT1_2_D))
              (0, 0) [0..<blk] = (real blk * (2 * M_SQRT1_2_D\<^sup>2) * Re w, real blk * (2 * M_SQRT1_2_D\<^sup>2) * Im w)"
  using assms
proof (induction blk)
  case (Suc blk)
  from Suc.prems [of blk] have e: "re_i (syms ! (k + blk)) = (Re w - Im w) * M_SQRT1_2_D"
    "im_q (syms ! (k + blk)) = (Re w + Im w) * M_SQRT1_2_D"
    by (simp_all add: cx_def pilot_ref_def complex_eq_iff algebra_simps)
  have "foldl (\<lambda>(ci, cq) b. let r = syms ! (k + b)
                in (ci + (re_i r + im_q r) * M_SQRT1_2_D, cq + (im_q r - re_i r) * M_SQRT1_2_D))
              (0, 0) [0..<blk] = (real blk * (2 * M_SQRT1_2_D\<^sup>2) * Re w, real blk * (2 * M_SQRT1_2_D\<^sup>2) * Im w)"
    by (rule Suc.IH) (use Suc.prems in simp)
  then show ?case
    by (simp only: upt_Suc_append le0 foldl_append foldl.simps prod.case Let_def e) (simp add: power2_eq_square algebra_simps)
qed simp

lemma track_loop_clean:
  assumes "clean_pilots syms data_start is_pilot field_len w" "fit_ok (Arg w) fs"
  shows "\<exists>fs'. track_loop syms data_start is_pilot field_len i (fs, Arg w) = (fs', Arg w) \<and> fit_ok (Arg w) fs'"
  using assms(2)
proof (induction "field_len - i" arbitrary: i fs rule: less_induct)
  case less
  note IH = less.hyps and ok = less.prems
  show ?case
  proof (cases "field_len \<le> i")
    case True
    then show ?thesis using ok by (simp add: track_loop.simps [of syms])
  next
    case i: False
    show ?thesis
    proof (cases "is_pilot ! i = 0")
      case True
      then have "track_loop syms data_start is_pilot field_len i (fs, Arg w) =
          track_loop syms data_start is_pilot field_len (i + 1) (fs, Arg w)"
        using i by (subst track_loop.simps) simp
      then show ?thesis using IH [of "i + 1" fs] ok i by simp
    next
      case pilot: False
      define blk where "blk = pilot_block is_pilot field_len i"
      have blk: "0 < blk" by (simp add: blk_def pilot_block_def)
      have "cx (syms ! (data_start + i + b)) = w * pilot_ref" if "b < blk" for b
        using pilot_block_pilots [of is_pilot i field_len b] that pilot i assms(1)
        by (auto simp: blk_def clean_pilots_def add.assoc)
      note sum = pilot_sum_clean [of blk syms "data_start + i" w, OF this]
      have "Complex (real blk * (2 * M_SQRT1_2_D\<^sup>2) * Re w) (real blk * (2 * M_SQRT1_2_D\<^sup>2) * Im w) =
          of_real (real blk * (2 * M_SQRT1_2_D\<^sup>2)) * w" by (simp add: complex_eq_iff)
      moreover have "0 < real blk * (2 * M_SQRT1_2_D\<^sup>2)" using blk by (simp add: M_SQRT1_2_D_def)
      ultimately have at: "atan2 (real blk * (2 * M_SQRT1_2_D\<^sup>2) * Im w) (real blk * (2 * M_SQRT1_2_D\<^sup>2) * Re w) = Arg w"
        by (simp only: atan2_def Arg_scale)
      have un: "unwrap_up (Arg w) (unwrap_down (Arg w) (Arg w)) = Arg w"
        by (simp add: unwrap_down.simps [of "Arg w" "Arg w"] unwrap_up.simps [of "Arg w" "Arg w"] M_PI_def)
      let ?fs = "fit_add (real DVBS2X_VLSNR_WH_LEN + real i + real (blk - 1) / 2) (Arg w) (real blk) fs"
      have unf: "track_loop syms data_start is_pilot field_len i (fs, Arg w) =
          track_loop syms data_start is_pilot field_len (i + blk) (?fs, Arg w)"
        using i pilot
        by (subst track_loop.simps) (simp only: blk_def [symmetric] sum [unfolded Let_def] prod.case at un Let_def if_False)
      have "fit_ok (Arg w) ?fs" using fit_ok_add [OF ok] blk by simp
      then show ?thesis using IH [of "i + blk" ?fs] i blk unfolding unf by simp
    qed
  qed
qed

text \<open>The tracker removes the phase of the gain from the data field and leaves its magnitude.\<close>

lemma residual_track_clean:
  assumes hdr: "clean_header syms wh_start wh_ref w" and w: "w \<noteq> 0"
    and lay: "lay_is_pilot lay = Some m" "clean_pilots syms (wh_start + 898) m (lay_field_len lay) w"
    and len: "wh_start + 898 + lay_field_len lay \<le> length syms"
  shows "length (residual_carrier_track syms wh_start lay wh_ref) = length syms"
    "x < length syms \<Longrightarrow> cx (residual_carrier_track syms wh_start lay wh_ref ! x) =
      (if wh_start + 898 \<le> x \<and> x < wh_start + 898 + lay_field_len lay then cx (syms ! x) * cis (- Arg w) else cx (syms ! x))"
proof -
  let ?fs0 = "fit_add (real (896 - 1) / 2) (Arg w) (real 896)
                   \<lparr>fit_sw = 0, fit_swp = 0, fit_swt = 0, fit_swpp = 0, fit_swpt = 0\<rparr>"
  have "fit_ok (Arg w) ?fs0" by (simp add: fit_ok_def fit_add_def)
  then obtain fs where fs: "track_loop syms (wh_start + 898) m (lay_field_len lay) 0 (?fs0, Arg w) = (fs, Arg w)"
    and ok: "fit_ok (Arg w) fs" using track_loop_clean [OF lay(2)] by blast
  define denom where "denom = fit_sw fs * fit_swpp fs - fit_swp fs * fit_swp fs"
  have num: "fit_sw fs * fit_swpt fs - fit_swp fs * fit_swt fs = 0" and q: "fit_swt fs / fit_sw fs = Arg w"
    using ok by (simp_all add: fit_ok_def)
  have pos: "wh_start + DVBS2X_VLSNR_WH_LEN + 2 = wh_start + 898" by (simp add: DVBS2X_VLSNR_WH_LEN_def)
  have "residual_carrier_track syms wh_start lay wh_ref = derotate syms (wh_start + 898) (lay_field_len lay) 0 (Arg w)"
    unfolding residual_carrier_track_def Let_def header_phase_clean [OF hdr] pos lay(1) option.sel
    unfolding DVBS2X_VLSNR_WH_LEN_def fs prod.case num
    using q by (simp add: prod.case_eq_if)
  then show "length (residual_carrier_track syms wh_start lay wh_ref) = length syms"
    "x < length syms \<Longrightarrow> cx (residual_carrier_track syms wh_start lay wh_ref ! x) =
      (if wh_start + 898 \<le> x \<and> x < wh_start + 898 + lay_field_len lay then cx (syms ! x) * cis (- Arg w) else cx (syms ! x))"
    using derotate_values [OF len, of 0 "Arg w"] derotate_values(2) [OF len, where f = 0 and phi = "Arg w"] by simp_all
qed

section \<open>Properties\<close>

text \<open>C10: before the frame search the receiver removes any carrier offset below an eighth of the symbol
  rate exactly: symbols of the transmitter's grid that arrive without noise, with any gain, phase
  and offset, come out as the sent ones with that gain and phase and no offset.\<close>

theorem blind_carrier_removed:
  assumes "\<bar>f\<bar> < 1 / 8" and "c \<noteq> 0" and "2 \<le> length xs"
    and "\<And>x. x \<in> set xs \<Longrightarrow> diagonal x \<and> 1 / 10 ^ 12 < (norm c)\<^sup>2 * power_of x"
  shows "coarse_blind_carrier (carrier_channel c f xs) (length xs) = map (\<lambda>x. of_cx (c * cx x)) xs"
proof -
  have "coarse_blind_carrier (carrier_channel c f xs) (length xs) = carrier_channel c 0 xs"
    using assms by (intro blind_carrier) auto
  also have "\<dots> = map (\<lambda>x. of_cx (c * cx x)) xs"
    by (intro nth_equalityI) (simp_all add: carrier_channel_nth flip: cx_eq_iff)
  finally show ?thesis .
qed

theorem blind_carrier_removed_witness:
  "coarse_blind_carrier (carrier_channel (2 * \<i>) (1 / 10) [pilot_symbol, pilot_symbol]) 2 =
     [of_cx (2 * \<i> * cx pilot_symbol), of_cx (2 * \<i> * cx pilot_symbol)]"
proof -
  have "power_of pilot_symbol > 1 / 4" "diagonal pilot_symbol"
    by (simp_all add: pilot_symbol_def power_of_def diagonal_def)
  then show ?thesis
    using blind_carrier_removed [of "1 / 10" "2 * \<i>" "[pilot_symbol, pilot_symbol]"]
    by (simp add: norm_mult numeral_2_eq_2)
qed

text \<open>The state after the headers \<open>hs\<close>, and how many of the latest neighbouring estimates agree.\<close>

definition afc_after :: "real \<Rightarrow> (dvbs2x_complex list \<times> nat \<times> dvbs2x_complex list) list \<Rightarrow> dvbs2x_afc" where
  "afc_after alpha hs =
     foldl (\<lambda>afc (syms, wh_start, wh_ref). dvbs2x_afc_update afc syms wh_start wh_ref) (dvbs2x_afc_init alpha) hs"

definition afc_raws :: "(dvbs2x_complex list \<times> nat \<times> dvbs2x_complex list) list \<Rightarrow> real list" where
  "afc_raws hs = map (\<lambda>(syms, wh_start, wh_ref). afc_raw syms wh_start wh_ref) hs"

fun agreements :: "real list \<Rightarrow> nat" where
  "agreements (x # y # zs) = (if \<bar>x - y\<bar> < AFC_CONSISTENT_TOL then Suc (agreements (y # zs)) else 0)"
| "agreements _ = 0"

lemma afc_state:
  assumes "length hs < 2 ^ 32"
  shows "afc_frames (afc_after alpha hs) = length hs \<and>
    (hs \<noteq> [] \<longrightarrow> afc_raw_prev (afc_after alpha hs) = last (afc_raws hs)) \<and>
    afc_consistent (afc_after alpha hs) = min AFC_LOCK_FRAMES (agreements (rev (afc_raws hs))) \<and>
    afc_locked (afc_after alpha hs) = (AFC_LOCK_FRAMES \<le> agreements (rev (afc_raws hs)))"
  using assms
proof (induction hs rule: rev_induct)
  case Nil
  then show ?case by (simp add: afc_after_def dvbs2x_afc_init_def afc_raws_def AFC_LOCK_FRAMES_def)
next
  case (snoc h hs)
  let ?a = "afc_after alpha hs"
  obtain s w r where h: "h = (s, w, r)" by (rule prod_cases3)
  have a': "afc_after alpha (hs @ [h]) = dvbs2x_afc_update ?a s w r" by (simp add: afc_after_def h)
  have raws: "afc_raws (hs @ [h]) = afc_raws hs @ [afc_raw s w r]" by (simp add: afc_raws_def h)
  have small: "(Suc (length hs)) mod 2 ^ 32 = Suc (length hs)" using snoc.prems by simp
  show ?case
  proof (cases "hs = []")
    case True
    then show ?thesis unfolding a' raws
      by (simp add: afc_after_def dvbs2x_afc_init_def dvbs2x_afc_update_def Let_def afc_raws_def AFC_LOCK_FRAMES_def)
  next
    case False
    then obtain xs x where xs: "afc_raws hs = xs @ [x]" by (metis afc_raws_def map_is_Nil_conv rev_exhaust)
    have "0 < length hs" using False by simp
    then show ?thesis
      using snoc False small unfolding a' raws xs
      by (auto simp: dvbs2x_afc_update_def Let_def AFC_LOCK_FRAMES_def xs)
  qed
qed



end
