(* ===== verification/Timing.thy ===== *)
theory Timing
  imports Carrier
begin

text \<open>
  Symbol timing recovery (\<^verbatim>\<open>src/sync_timing.c\<close>): the timing instant and its drift from the square of
  the signal, then resampling with a four-point interpolator and a Gardner loop.  An access outside
  the input array, and a loop that does not end, is \<open>None\<close>; the output is the list of the symbols
  written, whatever the room of the caller's array.
  Theory \<open>TimingLimits\<close> shows how far the loop runs.
\<close>

definition TIMING_BLOCK_SYMBOLS :: nat where "TIMING_BLOCK_SYMBOLS = 4096"
definition TIMING_MAX_DRIFT :: real where "TIMING_MAX_DRIFT = 0.002"

record dvbs2x_timing_sync =
  ts_mu :: real
  ts_loop_bw :: real
  ts_kp :: real
  ts_ki :: real
  ts_integrator :: real
  ts_sps :: nat

definition dvbs2x_timing_sync_init :: "nat \<Rightarrow> real \<Rightarrow> dvbs2x_timing_sync" where
  "dvbs2x_timing_sync_init sps loop_bw =
     \<lparr>ts_mu = 0, ts_loop_bw = loop_bw, ts_kp = 0, ts_ki = 0, ts_integrator = 0, ts_sps = sps\<rparr>"

section \<open>Interpolation\<close>

definition sample_at :: "dvbs2x_complex list \<Rightarrow> int \<Rightarrow> dvbs2x_complex option" where
  "sample_at x i = (if 0 \<le> i \<and> i < int (length x) then Some (x ! nat i) else None)"

definition cubic_interp :: "dvbs2x_complex list \<Rightarrow> nat \<Rightarrow> real \<Rightarrow> dvbs2x_complex option" where
  "cubic_interp x len pos =
     (let i = \<lfloor>pos\<rfloor>;
          f = pos - real_of_int i;
          f2 = f * f;
          f3 = f2 * f;
          im1 = i - 1; ip1 = i + 1; ip2 = i + 2;
          im1 = (if im1 < 0 then 0 else im1);
          i = (if i < 0 then 0 else i);
          ip1 = (if int len \<le> ip1 then int len - 1 else ip1);
          ip2 = (if int len \<le> ip2 then int len - 1 else ip2);
          c0 = - 0.5 * f3 + f2 - 0.5 * f;
          c1 = 1.5 * f3 - 2.5 * f2 + 1;
          c2 = - 1.5 * f3 + 2 * f2 + 0.5 * f;
          c3 = 0.5 * f3 - 0.5 * f2
      in (case (sample_at x im1, sample_at x i, sample_at x ip1, sample_at x ip2) of
            (Some a, Some b, Some c, Some d) \<Rightarrow>
              Some \<lparr>re_i = c0 * re_i a + c1 * re_i b + c2 * re_i c + c3 * re_i d,
                    im_q = c0 * im_q a + c1 * im_q b + c2 * im_q c + c3 * im_q d\<rparr>
          | _ \<Rightarrow> None))"

section \<open>Loops over a real\<close>

text \<open>\<^verbatim>\<open>while (x < bound) x += step\<close>, and downwards with both comparisons.\<close>

function raise_while :: "real \<Rightarrow> real \<Rightarrow> real \<Rightarrow> real" where
  "raise_while step bound x = (if 0 < step \<and> x < bound then raise_while step bound (x + step) else x)"
  by pat_completeness auto
termination
proof (relation "measure (\<lambda>(step, bound, x). nat \<lceil>(bound - x) / step\<rceil>)")
  fix step bound x :: real
  assume a: "0 < step \<and> x < bound"
  then have "(bound - (x + step)) / step = (bound - x) / step - 1" "0 < (bound - x) / step"
    by (simp_all add: field_simps)
  then show "((step, bound, x + step), step, bound, x) \<in> measure (\<lambda>(step, bound, x). nat \<lceil>(bound - x) / step\<rceil>)"
    by simp
qed simp

function lower_while :: "bool \<Rightarrow> real \<Rightarrow> real \<Rightarrow> real \<Rightarrow> real" where
  "lower_while strict step bound x =
     (if 0 < step \<and> (if strict then bound < x else bound \<le> x) then lower_while strict step bound (x - step) else x)"
  by pat_completeness auto
termination
proof (relation "measure (\<lambda>(strict, step, bound, x). nat (\<lfloor>(x - bound) / step\<rfloor> + 1))")
  fix strict :: bool and step bound x :: real
  assume a: "0 < step \<and> (if strict then bound < x else bound \<le> x)"
  then have "(x - step - bound) / step = (x - bound) / step - 1" "0 \<le> (x - bound) / step"
    by (auto simp: field_simps split: if_splits)
  then show "((strict, step, bound, x - step), strict, step, bound, x) \<in>
      measure (\<lambda>(strict, step, bound, x). nat (\<lfloor>(x - bound) / step\<rfloor> + 1))"
    by simp
qed simp

declare raise_while.simps [simp del] lower_while.simps [simp del]

section \<open>The estimates\<close>

text \<open>The spectral line of the squared signal over \<^verbatim>\<open>n\<close> from \<open>start\<close> to before \<open>stop\<close>, with the energy;
  the tables hold at most 16 entries.\<close>

definition spectral_line :: "nat \<Rightarrow> dvbs2x_complex list \<Rightarrow> nat \<Rightarrow> nat \<Rightarrow> real \<times> real \<times> real" where
  "spectral_line sps x start stop =
     (let cos_tbl = map (\<lambda>n. cos (-2 * M_PI * real n / real sps)) [0..<min sps 16];
          sin_tbl = map (\<lambda>n. sin (-2 * M_PI * real n / real sps)) [0..<min sps 16]
      in foldl (\<lambda>(cr, ci, energy) n.
           let e = re_i (x ! n) * re_i (x ! n) + im_q (x ! n) * im_q (x ! n);
               phase = n mod sps
           in (cr + e * cos_tbl ! phase, ci + e * sin_tbl ! phase, energy + e))
         (0, 0, 0) [start..<stop])"

record drift_sums =
  dr_w :: real
  dr_wx :: real
  dr_wy :: real
  dr_wxx :: real
  dr_wxy :: real
  dr_previous :: real
  dr_blocks :: nat

definition drift_block :: "nat \<Rightarrow> dvbs2x_complex list \<Rightarrow> drift_sums \<Rightarrow> nat \<Rightarrow> drift_sums" where
  "drift_block sps x s start =
     (let block_len = TIMING_BLOCK_SYMBOLS * sps;
          (br, bi, energy) = spectral_line sps x start (start + block_len)
      in if energy \<le> 0 then s
         else
           let phase = - atan2 bi br * real sps / (2 * M_PI);
               phase = (if 0 < dr_blocks s
                        then raise_while (real sps) (dr_previous s - real sps / 2)
                               (lower_while True (real sps) (dr_previous s + real sps / 2) phase)
                        else phase);
               weight = sqrt (br * br + bi * bi) / energy;
               centre = real start + real (block_len - 1) / 2
           in \<lparr>dr_w = dr_w s + weight, dr_wx = dr_wx s + weight * centre, dr_wy = dr_wy s + weight * phase,
               dr_wxx = dr_wxx s + weight * centre * centre, dr_wxy = dr_wxy s + weight * centre * phase,
               dr_previous = phase, dr_blocks = dr_blocks s + 1\<rparr>)"

text \<open>The timing offset and the drift.\<close>

definition timing_estimate :: "nat \<Rightarrow> dvbs2x_complex list \<Rightarrow> nat \<Rightarrow> real \<times> real" where
  "timing_estimate sps x in_len =
     (let (cr, ci, _) = spectral_line sps x 0 in_len;
          off = raise_while (real sps) 1 (- atan2 ci cr * real sps / (2 * M_PI));
          block_len = TIMING_BLOCK_SYMBOLS * sps;
          s = foldl (drift_block sps x)
                \<lparr>dr_w = 0, dr_wx = 0, dr_wy = 0, dr_wxx = 0, dr_wxy = 0, dr_previous = 0, dr_blocks = 0\<rparr>
                (map (\<lambda>k. k * block_len) [0..<in_len div block_len]);
          denominator = dr_w s * dr_wxx s - dr_wx s * dr_wx s
      in if 3 \<le> dr_blocks s \<and> 1 / 10 ^ 12 < \<bar>denominator\<bar>
         then
           let candidate = (dr_w s * dr_wxy s - dr_wx s * dr_wy s) / denominator
           in if \<bar>candidate\<bar> \<le> TIMING_MAX_DRIFT
              then (lower_while False (real sps) (1 + real sps)
                      (raise_while (real sps) 1 ((dr_wy s - candidate * dr_wx s) / dr_w s)), candidate)
              else (off, 0)
         else (off, 0))"

section \<open>Resampling\<close>

text \<open>The endless loop, from its head; \<open>out\<close> are the symbols written so far.\<close>

partial_function (option) timing_loop ::
  "dvbs2x_complex list \<Rightarrow> nat \<Rightarrow> real \<Rightarrow> real \<Rightarrow> real \<Rightarrow> real \<Rightarrow> real \<Rightarrow> dvbs2x_complex \<Rightarrow>
   dvbs2x_complex list \<Rightarrow> dvbs2x_complex list option" where
  "timing_loop x in_len nominal max_int pos omega integrator previous out =
     (if real in_len \<le> pos + omega + 2 then Some out
      else
        (case (cubic_interp x in_len (pos + omega / 2), cubic_interp x in_len (pos + omega)) of
           (Some middle, Some current) \<Rightarrow>
             (let power = re_i previous * re_i previous + im_q previous * im_q previous +
                          re_i current * re_i current + im_q current * im_q current;
                  error = ((re_i previous - re_i current) * re_i middle +
                           (im_q previous - im_q current) * im_q middle) / (power + 1 / 10 ^ 12);
                  integrator = integrator + error / 10 ^ 7;
                  integrator = (if max_int < integrator then max_int
                                else if integrator < - max_int then - max_int else integrator);
                  new_pos = pos + omega + 0.005 * error
              in (case cubic_interp x in_len new_pos of
                    None \<Rightarrow> None
                  | Some current \<Rightarrow>
                      timing_loop x in_len nominal max_int new_pos (nominal + integrator) integrator current
                        (out @ [current])))
         | _ \<Rightarrow> None))"

definition timing_resample :: "nat \<Rightarrow> dvbs2x_complex list \<Rightarrow> nat \<Rightarrow> real \<Rightarrow> real \<Rightarrow> dvbs2x_complex list option" where
  "timing_resample sps x in_len off drift =
     (let pos = off / (1 - drift);
          omega = real sps / (1 - drift)
      in if pos + 2 < real in_len
         then
           (case cubic_interp x in_len pos of
              None \<Rightarrow> None
            | Some previous \<Rightarrow>
                timing_loop x in_len omega (TIMING_MAX_DRIFT * real sps) pos omega 0 previous [previous])
         else timing_loop x in_len omega (TIMING_MAX_DRIFT * real sps) pos omega 0 zero_sample [])"

text \<open>With no room for a first symbol the loop leaves at once, so \<^verbatim>\<open>previous\<close> is not read
  uninitialised.\<close>

definition dvbs2x_timing_sync_process ::
  "dvbs2x_timing_sync \<Rightarrow> dvbs2x_complex list \<Rightarrow> nat \<Rightarrow> dvbs2x_complex list option" where
  "dvbs2x_timing_sync_process ts x in_len =
     (let sps = ts_sps ts
      in if sps < 2 \<or> in_len < sps then Some (take in_len x)
         else let (off, drift) = timing_estimate sps x in_len
              in timing_resample sps x in_len off drift)"

end
