(* ===== verification/SyncEst.thy ===== *)
theory SyncEst
  imports Carrier
begin

text \<open>
  The stand-alone estimators the receiver's context holds: the frequency locked loop of
  \<^verbatim>\<open>src/sync_freq_coarse.c\<close>, the pilot-aided frequency estimate of \<^verbatim>\<open>src/sync_freq_fine.c\<close> and the
  pilot-aided phase correction of \<^verbatim>\<open>src/sync_phase.c\<close>.  The loops that bring a phase back into one
  turn are those of theory \<open>Carrier\<close>.  The lemmas show that the phase
  correction is exact on pilots with a constant gain, and which way the frequency detector points.
\<close>

section \<open>Coarse frequency\<close>

record dvbs2x_freq_coarse =
  fc_freq_est :: real
  fc_loop_bw :: real
  fc_phase_acc :: real
  fc_integrator :: real

definition dvbs2x_freq_coarse_init :: "real \<Rightarrow> dvbs2x_freq_coarse" where
  "dvbs2x_freq_coarse_init loop_bw =
     \<lparr>fc_freq_est = 0, fc_loop_bw = loop_bw, fc_phase_acc = 0, fc_integrator = 0\<rparr>"

definition freq_coarse_step ::
  "dvbs2x_freq_coarse \<times> dvbs2x_complex list \<times> dvbs2x_complex \<Rightarrow> nat \<Rightarrow>
   dvbs2x_freq_coarse \<times> dvbs2x_complex list \<times> dvbs2x_complex" where
  "freq_coarse_step st n =
     (let (fc, symbols, prev) = st;
          s = symbols ! n;
          cos_p = cos (fc_phase_acc fc);
          sin_p = sin (fc_phase_acc fc);
          cur = \<lparr>re_i = re_i s * cos_p + im_q s * sin_p, im_q = - re_i s * sin_p + im_q s * cos_p\<rparr>;
          fc = (if 0 < n
                then let err = re_i cur * im_q prev - im_q cur * re_i prev;
                         integrator = fc_integrator fc + fc_loop_bw fc * err
                     in fc\<lparr>fc_integrator := integrator, fc_freq_est := integrator\<rparr>
                else fc);
          acc = unwrap_up 0 (unwrap_down 0 (fc_phase_acc fc + fc_freq_est fc))
      in (fc\<lparr>fc_phase_acc := acc\<rparr>, symbols[n := cur], cur))"

definition dvbs2x_freq_coarse_process ::
  "dvbs2x_freq_coarse \<Rightarrow> dvbs2x_complex list \<Rightarrow> nat \<Rightarrow> dvbs2x_complex list \<times> dvbs2x_freq_coarse" where
  "dvbs2x_freq_coarse_process fc symbols len =
     (if len = 0 then (symbols, fc)
      else let (fc, symbols, _) = foldl freq_coarse_step (fc, symbols, symbols ! 0) [0..<len]
           in (symbols, fc))"

section \<open>Fine frequency\<close>

record dvbs2x_freq_fine =
  ff_freq_est :: real
  ff_num_lags :: nat
  ff_corr_i :: real
  ff_corr_q :: real
  ff_frame_count :: nat

definition dvbs2x_freq_fine_init :: "nat \<Rightarrow> dvbs2x_freq_fine" where
  "dvbs2x_freq_fine_init num_lags =
     \<lparr>ff_freq_est = 0, ff_num_lags = num_lags, ff_corr_i = 0, ff_corr_q = 0, ff_frame_count = 0\<rparr>"

definition dvbs2x_freq_fine_estimate ::
  "dvbs2x_freq_fine \<Rightarrow> dvbs2x_complex list \<Rightarrow> dvbs2x_complex list \<Rightarrow> nat \<Rightarrow> real \<times> dvbs2x_freq_fine" where
  "dvbs2x_freq_fine_estimate ff pilots ref_pilots num_pilots =
     (if num_pilots < ff_num_lags ff + 1 then (ff_freq_est ff, ff)
      else
        let z = map (\<lambda>n. ref_product (pilots ! n) (ref_pilots ! n)) [0..<num_pilots];
            (sum_i, sum_q) = foldl (\<lambda>(sum_i, sum_q) lag.
                let (lag_i, lag_q) = lag_sum z num_pilots lag in (sum_i + lag_i, sum_q + lag_q))
              (0, 0) [1..<ff_num_lags ff + 1];
            ff = ff\<lparr>ff_corr_i := 0.9 * ff_corr_i ff + 0.1 * sum_i,
                    ff_corr_q := 0.9 * ff_corr_q ff + 0.1 * sum_q,
                    ff_frame_count := (ff_frame_count ff + 1) mod 2 ^ 32\<rparr>;
            ff = ff\<lparr>ff_freq_est := atan2 (ff_corr_q ff) (ff_corr_i ff) / (M_PI * real (ff_num_lags ff + 1))\<rparr>
        in (ff_freq_est ff, ff))"

section \<open>Phase\<close>

record dvbs2x_phase_est =
  pe_phase :: real
  pe_alpha :: real
  pe_need_smooth :: bool

definition dvbs2x_phase_est_init :: "real \<Rightarrow> bool \<Rightarrow> dvbs2x_phase_est" where
  "dvbs2x_phase_est_init alpha smooth = \<lparr>pe_phase = 0, pe_alpha = alpha, pe_need_smooth = smooth\<rparr>"

definition dvbs2x_phase_est_process ::
  "dvbs2x_phase_est \<Rightarrow> dvbs2x_complex list \<Rightarrow> dvbs2x_complex list \<Rightarrow> dvbs2x_complex list \<Rightarrow> nat \<Rightarrow> nat \<Rightarrow>
   dvbs2x_complex list \<times> dvbs2x_phase_est" where
  "dvbs2x_phase_est_process pe symbols pilots ref_pilots num_pilots num_symbols =
     (if num_pilots = 0 then (symbols, pe)
      else
        let (corr_i, corr_q) = foldl (\<lambda>(ci, cq) n.
                let p = ref_product (pilots ! n) (ref_pilots ! n) in (ci + re_i p, cq + im_q p))
              (0, 0) [0..<num_pilots];
            raw_phase = unwrap_up (pe_phase pe) (unwrap_down (pe_phase pe) (atan2 corr_q corr_i));
            phase = pe_alpha pe * raw_phase + (1 - pe_alpha pe) * pe_phase pe;
            cos_p = cos (- phase);
            sin_p = sin (- phase)
        in (map (\<lambda>s. \<lparr>re_i = re_i s * cos_p - im_q s * sin_p, im_q = re_i s * sin_p + im_q s * cos_p\<rparr>)
              (take num_symbols symbols) @ drop num_symbols symbols,
            pe\<lparr>pe_phase := phase\<rparr>))"

section \<open>The loop of the phase estimates\<close>

lemma unwrap_same: "\<bar>phv - prev\<bar> \<le> pi \<Longrightarrow> unwrap_up prev (unwrap_down prev phv) = phv"
  by (simp add: unwrap_down.simps [of prev phv] unwrap_up.simps [of prev phv] M_PI_def abs_le_iff)

lemma product_sum:
  assumes "\<And>n. n < N \<Longrightarrow> cx (pilots ! n) = w * cx (ref_pilots ! n)"
  shows "foldl (\<lambda>(ci, cq) n. let p = ref_product (pilots ! n) (ref_pilots ! n) in (ci + re_i p, cq + im_q p))
      (0, 0) [0..<N] = (Re w * (\<Sum>n<N. (norm (cx (ref_pilots ! n)))\<^sup>2), Im w * (\<Sum>n<N. (norm (cx (ref_pilots ! n)))\<^sup>2))"
  using assms
proof (induction N)
  case (Suc N)
  have "cx (ref_product (pilots ! N) (ref_pilots ! N)) = w * of_real ((norm (cx (ref_pilots ! N)))\<^sup>2)"
    using Suc.prems by (simp add: cx_ref_product mult.assoc complex_norm_square [symmetric])
  then have "re_i (ref_product (pilots ! N) (ref_pilots ! N)) = Re w * (norm (cx (ref_pilots ! N)))\<^sup>2"
    "im_q (ref_product (pilots ! N) (ref_pilots ! N)) = Im w * (norm (cx (ref_pilots ! N)))\<^sup>2"
    by (simp_all add: cx_def complex_eq_iff)
  then show ?case using Suc by (simp add: algebra_simps)
qed simp

text \<open>With unit weight the phase of a constant gain is removed at once.\<close>

lemma phase_est_constant:
  assumes "\<And>n. n < N \<Longrightarrow> cx (pilots ! n) = w * cx (ref_pilots ! n)" and "w \<noteq> 0"
    and "\<exists>n<N. cx (ref_pilots ! n) \<noteq> 0" and "length symbols = len"
  shows "fst (dvbs2x_phase_est_process (dvbs2x_phase_est_init 1 smooth) symbols pilots ref_pilots N len) =
     map (\<lambda>s. of_cx (cx s * cis (- Arg w))) symbols"
proof -
  define E where "E = (\<Sum>n<N. (norm (cx (ref_pilots ! n)))\<^sup>2)"
  from assms(3) obtain n where n: "n < N" "cx (ref_pilots ! n) \<noteq> 0" by blast
  have E: "0 < E" unfolding E_def by (rule sum_pos2 [of _ n]) (use n in auto)
  have "atan2 (Im w * E) (Re w * E) = Arg (of_real E * w)"
    by (simp add: atan2_def) (metis complex_of_real_mult_Complex complex_surj mult.commute)
  also have "\<dots> = Arg w" using E by (rule Arg_scale)
  finally have at: "atan2 (Im w * E) (Re w * E) = Arg w" .
  have un: "unwrap_up 0 (unwrap_down 0 (Arg w)) = Arg w"
    using Arg_bounded [of w] by (intro unwrap_same) (simp add: abs_le_iff)
  note sums = product_sum [OF assms(1), unfolded Let_def]
  have "N \<noteq> 0" using assms(3) by auto
  then have "fst (dvbs2x_phase_est_process (dvbs2x_phase_est_init 1 smooth) symbols pilots ref_pilots N len) =
     map (\<lambda>s. \<lparr>re_i = re_i s * cos (- Arg w) - im_q s * sin (- Arg w),
               im_q = re_i s * sin (- Arg w) + im_q s * cos (- Arg w)\<rparr>) (take len symbols) @ drop len symbols"
    by (simp add: dvbs2x_phase_est_process_def dvbs2x_phase_est_init_def Let_def sums at [unfolded E_def] un)
  also have "\<dots> = map (\<lambda>s. of_cx (cx s * cis (- Arg w))) symbols"
    using assms(4) by (intro nth_equalityI) (simp_all add: of_cx_def cx_def)
  finally show ?thesis .
qed

section \<open>The frequency detector\<close>

text \<open>The detector of the frequency locked loop has its sign turned round: after two symbols of a tone that turns by
  \<open>w\<close> from one to the next, the estimate it corrects with is on the other side of 0.\<close>

lemma freq_coarse_sign:
  assumes "cx s1 = cx s0 * cis w"
  shows "fc_freq_est (snd (dvbs2x_freq_coarse_process (dvbs2x_freq_coarse_init bw) [s0, s1] 2)) =
    - bw * (norm (cx s0))\<^sup>2 * sin w"
proof -
  have u: "unwrap_up 0 (unwrap_down 0 0) = 0" by (rule unwrap_same) simp
  have s1: "re_i s1 = re_i s0 * cos w - im_q s0 * sin w" "im_q s1 = re_i s0 * sin w + im_q s0 * cos w"
    using assms by (simp_all add: cx_def complex_eq_iff)
  have n: "(norm (cx s0))\<^sup>2 = re_i s0 * re_i s0 + im_q s0 * im_q s0"
    unfolding cx_def cmod_power2 by (simp add: power2_eq_square)
  have l: "[0..<2] = [0, Suc 0]" by (simp add: upt_rec)
  show ?thesis
    unfolding n
    by (simp add: dvbs2x_freq_coarse_process_def dvbs2x_freq_coarse_init_def freq_coarse_step_def l Let_def u s1)
       (simp add: algebra_simps)
qed

end
