(* ===== verification/Demodulator.thy ===== *)
theory Demodulator
  imports PlFrame LdpcConverge Timing SyncEst
begin

text \<open>
  The receiver of \<^verbatim>\<open>src/demodulator_top.c\<close>: its context, the symbol-rate core from frame search to
  BB frame, the layers around it (user data, pulse-shaped samples, the stream buffer) and the lock
  state machine.  Every call of a component is a call of that component's definition.

  A null pointer is \<open>None\<close>, an output array is passed in with its contents and returned updated,
  and a status of \<open>None\<close> is \<^verbatim>\<open>DVBS2X_OK\<close>.  What the process around a call decides is in \<open>rx_env\<close>:
  which allocations succeed, and from which decoder iteration on another thread has asked to cancel.  A
  result of \<open>None\<close> is an access outside an array: the frame search starting behind the end of the
  input, the timing loop reading outside its input or writing more symbols than the caller allocated, or
  the use of a decoder output that was never written.
\<close>

section \<open>Context\<close>

definition ACQ_WINDOW :: nat where "ACQ_WINDOW = 4096"
definition TRACK_SEARCH_RADIUS :: nat where "TRACK_SEARCH_RADIUS = 256"
definition HIGH_SNR_LDPC_ITER :: nat where "HIGH_SNR_LDPC_ITER = 3"
definition LOCK_THRESH :: nat where "LOCK_THRESH = 3"
definition LOSS_THRESH :: nat where "LOSS_THRESH = 3"

record rx_env =
  env_alloc :: "nat \<Rightarrow> bool"
  env_cancel :: "nat \<Rightarrow> bool"
  env_cancelled :: bool

datatype dvbs2x_demod_state = DVBS2X_DEMOD_SEARCH | DVBS2X_DEMOD_ACQUIRE | DVBS2X_DEMOD_TRACK

record dvbs2x_demod_stats =
  st_modcod :: nat
  st_sync_confidence :: real
  st_esn0_db :: real
  st_ldpc_iterations :: nat
  st_result :: "dvbs2x_error option"

text \<open>\<open>dm_stream_buf\<close> is the part of the stream buffer in use; the sink and its argument are
  addresses, 0 for null.\<close>

record dvbs2x_demodulator =
  dm_modcod :: "dvbs2x_modcod option"
  dm_rx_filter :: dvbs2x_rrc_filter
  dm_timing :: dvbs2x_timing_sync
  dm_freq_coarse :: dvbs2x_freq_coarse
  dm_freq_fine :: dvbs2x_freq_fine
  dm_phase :: dvbs2x_phase_est
  dm_afc :: dvbs2x_afc
  dm_descrambler :: dvbs2x_scrambler
  dm_ldpc_dec :: dvbs2x_ldpc_decoder
  dm_bch_dec :: dvbs2x_bch_decoder
  dm_bb_ctx :: bb_frame_ctx
  dm_state :: dvbs2x_demod_state
  dm_successes :: nat
  dm_failures :: nat
  dm_max_ldpc :: nat
  dm_expected_frame_len :: nat
  dm_predicted_wh_start :: nat
  dm_have_wh_prediction :: bool
  dm_stream_buf :: "dvbs2x_complex list"
  dm_stream_cap :: nat
  dm_last_stats :: dvbs2x_demod_stats
  dm_cancel_requested :: bool
  dm_symbol_sink :: nat
  dm_symbol_sink_opaque :: nat

definition stats_zero :: dvbs2x_demod_stats where
  "stats_zero = \<lparr>st_modcod = 0, st_sync_confidence = 0, st_esn0_db = 0, st_ldpc_iterations = 0, st_result = None\<rparr>"

definition ldpc_decoder_zero :: dvbs2x_ldpc_decoder where
  "ldpc_decoder_zero =
     \<lparr>dec_code = \<lparr>code_n = 0, code_k = 0, code_q = 0, code_num_groups = 0, code_table = []\<rparr>,
      dec_max_iter = 0, dec_xp = 0, dec_p_period = 0, dec_xs = 0, dec_row_ptr = None,
      dec_col_idx = None, dec_num_edges = 0, dec_max_deg = 0, dec_work = False\<rparr>"

text \<open>The context after \<^verbatim>\<open>memset(demod, 0, sizeof(*demod))\<close>.\<close>

definition demodulator_zero :: dvbs2x_demodulator where
  "demodulator_zero =
     \<lparr>dm_modcod = None, dm_rx_filter = filter_zero, dm_timing = dvbs2x_timing_sync_init 0 0,
      dm_freq_coarse = dvbs2x_freq_coarse_init 0, dm_freq_fine = dvbs2x_freq_fine_init 0,
      dm_phase = dvbs2x_phase_est_init 0 False, dm_afc = dvbs2x_afc_init 0,
      dm_descrambler = \<lparr>x_reg = 0, y_reg = 0, gold_idx = 0\<rparr>, dm_ldpc_dec = ldpc_decoder_zero,
      dm_bch_dec = \<lparr>dec_t = 0, dec_n = 0, dec_k = 0, dec_parity_len = 0, dec_gf_m = 0\<rparr>,
      dm_bb_ctx = \<lparr>ctx_k_bch = 0, ctx_stream_type = 0, ctx_upl = 0, ctx_dfl = 0, ctx_ro = 0\<rparr>,
      dm_state = DVBS2X_DEMOD_SEARCH, dm_successes = 0, dm_failures = 0, dm_max_ldpc = 0,
      dm_expected_frame_len = 0, dm_predicted_wh_start = 0, dm_have_wh_prediction = False,
      dm_stream_buf = [], dm_stream_cap = 0, dm_last_stats = stats_zero, dm_cancel_requested = False,
      dm_symbol_sink = 0, dm_symbol_sink_opaque = 0\<rparr>"

definition dvbs2x_demodulator_init ::
  "dvbs2x_demodulator option \<Rightarrow> real \<Rightarrow> nat \<Rightarrow> nat \<Rightarrow> dvbs2x_error option \<times> dvbs2x_demodulator option" where
  "dvbs2x_demodulator_init demod rolloff sps pl_scrambling_idx =
     (case demod of
        None \<Rightarrow> (Some ERR_PARAM, None)
      | Some _ \<Rightarrow>
          let dm = demodulator_zero
          in if sps < 2 \<or> rolloff < 0.05 \<or> 0.35 < rolloff \<or> DVBS2X_GOLD_CODE_MAX < pl_scrambling_idx
             then (Some ERR_PARAM, Some dm)
             else
               let (ret, flt) = dvbs2x_rrc_filter_init (Some (dm_rx_filter dm)) rolloff sps 16;
                   dm = dm\<lparr>dm_rx_filter := the flt\<rparr>
               in if ret < 0 then (Some ERR_PARAM, Some dm)
                  else (None, Some (dm\<lparr>
                    dm_timing := dvbs2x_timing_sync_init sps (1 / 10 ^ 3),
                    dm_freq_coarse := dvbs2x_freq_coarse_init (1 / 10 ^ 4),
                    dm_freq_fine := dvbs2x_freq_fine_init 4,
                    dm_phase := dvbs2x_phase_est_init 0.3 True,
                    dm_afc := dvbs2x_afc_init 0.95,
                    dm_descrambler := dvbs2x_scrambler_init pl_scrambling_idx,
                    dm_successes := 0, dm_failures := 0, dm_max_ldpc := DVBS2X_LDPC_MAX_ITER\<rparr>)))"

definition dvbs2x_demodulator_destroy :: "dvbs2x_demodulator option \<Rightarrow> dvbs2x_demodulator option" where
  "dvbs2x_demodulator_destroy demod =
     map_option (\<lambda>dm. dm\<lparr>dm_ldpc_dec := dvbs2x_ldpc_decoder_free (dm_ldpc_dec dm), dm_stream_buf := [],
                         dm_stream_cap := 0\<rparr>) demod"

definition dvbs2x_demodulator_get_stats ::
  "dvbs2x_demodulator option \<Rightarrow> dvbs2x_demod_stats option \<Rightarrow> dvbs2x_error option \<times> dvbs2x_demod_stats option" where
  "dvbs2x_demodulator_get_stats demod stats =
     (case (demod, stats) of
        (Some dm, Some _) \<Rightarrow> (None, Some (dm_last_stats dm))
      | _ \<Rightarrow> (Some ERR_PARAM, stats))"

definition dvbs2x_demodulator_request_cancel :: "dvbs2x_demodulator option \<Rightarrow> dvbs2x_demodulator option" where
  "dvbs2x_demodulator_request_cancel demod = map_option (\<lambda>dm. dm\<lparr>dm_cancel_requested := True\<rparr>) demod"

definition dvbs2x_demodulator_set_max_ldpc_iterations ::
  "dvbs2x_demodulator option \<Rightarrow> nat \<Rightarrow> dvbs2x_error option \<times> dvbs2x_demodulator option" where
  "dvbs2x_demodulator_set_max_ldpc_iterations demod max_iterations =
     (case demod of
        None \<Rightarrow> (Some ERR_PARAM, None)
      | Some dm \<Rightarrow>
          if max_iterations = 0 \<or> DVBS2X_LDPC_MAX_ITER < max_iterations then (Some ERR_PARAM, Some dm)
          else (None, Some (dm\<lparr>dm_max_ldpc := max_iterations\<rparr>)))"

definition dvbs2x_demodulator_set_symbol_sink ::
  "dvbs2x_demodulator option \<Rightarrow> nat \<Rightarrow> nat \<Rightarrow> dvbs2x_demodulator option" where
  "dvbs2x_demodulator_set_symbol_sink demod sink opaque =
     map_option (\<lambda>dm. dm\<lparr>dm_symbol_sink := sink, dm_symbol_sink_opaque := opaque\<rparr>) demod"

section \<open>Frame synchronisation\<close>

text \<open>The search around the predicted position; \<open>-1\<close> is the confidence without one.\<close>

definition predicted_search ::
  "(nat \<Rightarrow> bool) \<Rightarrow> dvbs2x_demodulator \<Rightarrow> dvbs2x_complex list \<Rightarrow> nat \<Rightarrow> (real \<times> nat \<times> nat) option" where
  "predicted_search alloc dm work in_len =
     (if dm_state dm \<noteq> DVBS2X_DEMOD_SEARCH \<and> dm_have_wh_prediction dm
      then
        let search_base = (if TRACK_SEARCH_RADIUS < dm_predicted_wh_start dm
                           then dm_predicted_wh_start dm - TRACK_SEARCH_RADIUS else 0);
            search_len = min (2 * TRACK_SEARCH_RADIUS + DVBS2X_VLSNR_WH_LEN) (usub in_len search_base)
        in if in_len < search_base + search_len then None
           else
             let (conf, off, mc) = dvbs2x_vlsnr_header_sync_mode alloc (drop search_base work) search_len SYNC_SEG_LEN
                     (case dm_modcod dm of Some mc \<Rightarrow> mc_index mc | None \<Rightarrow> 0)
             in Some (conf, off + search_base, mc)
      else Some (-1, 0, 0))"

definition frame_search ::
  "(nat \<Rightarrow> bool) \<Rightarrow> dvbs2x_demodulator \<Rightarrow> dvbs2x_complex list \<Rightarrow> nat \<Rightarrow> (real \<times> nat \<times> nat) option" where
  "frame_search alloc dm work in_len =
     (case predicted_search alloc dm work in_len of
        None \<Rightarrow> None
      | Some (conf, wh_start, modcod_idx) \<Rightarrow>
          if conf < 0.45
          then Some (dvbs2x_vlsnr_header_sync alloc work (min in_len (ACQ_WINDOW + DVBS2X_VLSNR_WH_LEN)) SYNC_SEG_LEN)
          else Some (conf, wh_start, modcod_idx))"

text \<open>From the search to the layout: the MODCOD, the position of the header and the layout, or the
  error.\<close>

definition frame_sync ::
  "(nat \<Rightarrow> bool) \<Rightarrow> dvbs2x_demodulator \<Rightarrow> real \<times> nat \<times> nat \<Rightarrow> nat \<Rightarrow>
   (dvbs2x_error + dvbs2x_modcod \<times> nat \<times> dvbs2x_vlsnr_layout) \<times> dvbs2x_demodulator" where
  "frame_sync alloc dm found in_len =
     (let (conf, wh_start, modcod_idx) = found;
          dm = dm\<lparr>dm_last_stats := (dm_last_stats dm)\<lparr>st_sync_confidence := conf\<rparr>\<rparr>
      in if conf < 0.45 then (Inl ERR_NOSYNC, dm)
         else (case dvbs2x_vlsnr_get_modcod modcod_idx of
             None \<Rightarrow> (Inl ERR_NOSYNC, dm)
           | Some mc \<Rightarrow>
               let dm = dm\<lparr>dm_modcod := Some mc, dm_predicted_wh_start := wh_start,
                           dm_have_wh_prediction := True,
                           dm_last_stats := (dm_last_stats dm)\<lparr>st_modcod := modcod_idx\<rparr>\<rparr>
               in (case dvbs2x_vlsnr_build_layout alloc mc of
                     Inl _ \<Rightarrow> (Inl ERR_NOMEM, dm)
                   | Inr lay \<Rightarrow>
                       let data_start = wh_start + DVBS2X_VLSNR_WH_LEN + 2
                       in if in_len < data_start + lay_field_len lay then (Inl ERR_SHORT, dm)
                          else (Inr (mc, wh_start, lay), dm))))"

section \<open>Carrier recovery and descrambling\<close>

text \<open>The symbols with the corrected data field, the noise variance and the Es/N0 of the header.\<close>

definition recover_field ::
  "(nat \<Rightarrow> bool) \<Rightarrow> dvbs2x_demodulator \<Rightarrow> dvbs2x_complex list \<Rightarrow> nat \<Rightarrow> dvbs2x_modcod \<Rightarrow> nat \<Rightarrow>
   dvbs2x_vlsnr_layout \<Rightarrow> dvbs2x_complex list \<times> real \<times> real \<times> dvbs2x_demodulator" where
  "recover_field alloc dm work in_len mc wh_start lay =
     (let data_start = wh_start + DVBS2X_VLSNR_WH_LEN + 2;
          wh_ref = drop 2 (dvbs2x_vlsnr_header_generate mc (replicate DVBS2X_VLSNR_HDR_LEN zero_symbol));
          work = normalize_input_level work in_len wh_start wh_ref;
          nv_est = estimate_noise_var work wh_start wh_ref;
          esn0_db = 10 * log 10 (1 / (2 * nv_est + 1 / 10 ^ 12));
          dm = dm\<lparr>dm_last_stats := (dm_last_stats dm)\<lparr>st_esn0_db := esn0_db\<rparr>\<rparr>;
          dm = (if dm_state dm \<noteq> DVBS2X_DEMOD_SEARCH
                then dm\<lparr>dm_afc := dvbs2x_afc_update (dm_afc dm) work wh_start wh_ref\<rparr> else dm);
          work = coarse_freq_recover (alloc (DVBS2X_VLSNR_WH_LEN * 16)) work wh_start
                   (DVBS2X_VLSNR_WH_LEN + 2 + lay_field_len lay) wh_ref esn0_db;
          scr = dvbs2x_scrambler_seek (dvbs2x_scrambler_reset (dm_descrambler dm)) DVBS2X_VLSNR_HDR_LEN;
          (field, scr) = dvbs2x_descramble_field scr (drop data_start work) (lay_field_len lay)
                           (lay_is_pilot lay) (mc_modulation mc = DVBS2X_MOD_QPSK);
          work = residual_carrier_track (take data_start work @ field) wh_start lay wh_ref
      in (work, nv_est, esn0_db, dm\<lparr>dm_descrambler := scr\<rparr>))"

section \<open>Soft values\<close>

definition demap_noise_var ::
  "real \<Rightarrow> dvbs2x_vlsnr_layout \<Rightarrow> dvbs2x_complex list \<Rightarrow> real \<Rightarrow> real" where
  "demap_noise_var noise_var lay pilots nv_est =
     (if 0 < noise_var then noise_var
      else if lay_num_pilot lay \<noteq> 0
      then
        let acc = foldl (\<lambda>acc pi. let di = re_i (pilots ! pi) - M_SQRT1_2_D;
                                       dq = im_q (pilots ! pi) - M_SQRT1_2_D
                                   in acc + (di * di + dq * dq)) 0 [0..<lay_num_pilot lay];
            demap_nv = acc / (2 * real (lay_num_pilot lay))
        in if demap_nv < 1 / 10 ^ 4 then 1 / 10 ^ 4 else demap_nv
      else if 1 / 10 ^ 4 < nv_est then nv_est else 1 / 10 ^ 4)"

definition ldpc_iteration_limit :: "nat \<Rightarrow> real \<Rightarrow> nat" where
  "ldpc_iteration_limit limit esn0_db =
     (if HIGH_SNR_LDPC_ITER < limit \<and>
         (limit = DVBS2X_LDPC_MAX_ITER \<and> 10 < esn0_db \<or> limit \<noteq> DVBS2X_LDPC_MAX_ITER \<and> 14 < esn0_db)
      then HIGH_SNR_LDPC_ITER else limit)"

text \<open>The soft values of the coded bits: demapping, then adding up the two symbols of a spread bit
  or copying.\<close>

definition demap_coded_bits ::
  "dvbs2x_modcod \<Rightarrow> dvbs2x_complex list \<Rightarrow> nat \<Rightarrow> real \<Rightarrow> real list" where
  "demap_coded_bits mc data_sym ndata demap_nv =
     (let sym_llr = (if mc_modulation mc = DVBS2X_MOD_QPSK
                     then dvbs2x_demod_qpsk data_sym ndata demap_nv
                     else dvbs2x_demod_pi2bpsk data_sym ndata demap_nv)
      in if mc_has_spread mc then dvbs2x_demod_despread_llr sym_llr (ndata div 2)
         else if mc_modulation mc = DVBS2X_MOD_QPSK then take (2 * ndata) sym_llr
         else take ndata sym_llr)"

text \<open>The loop over the parity positions; \<^verbatim>\<open>p_idx\<close> counts the punctured ones, \<^verbatim>\<open>d_idx\<close> the values
  used.\<close>

fun depuncture_loop :: "dvbs2x_modcod \<Rightarrow> real list \<Rightarrow> nat list \<Rightarrow> nat \<Rightarrow> nat \<Rightarrow> real list" where
  "depuncture_loop mc deint [] p_idx d_idx = []"
| "depuncture_loop mc deint (i # is) p_idx d_idx =
     (if punctured_next mc p_idx i then 0 # depuncture_loop mc deint is (p_idx + 1) d_idx
      else deint ! d_idx # depuncture_loop mc deint is p_idx (d_idx + 1))"

definition depuncture :: "dvbs2x_modcod \<Rightarrow> real list \<Rightarrow> real list" where
  "depuncture mc deint =
     replicate (mc_xs mc) 40 @ map (\<lambda>i. deint ! (i - mc_xs mc)) [mc_xs mc..<mc_k_ldpc mc] @
     depuncture_loop mc deint [0..<mc_fec_len mc - mc_k_ldpc mc] 0 (mc_k_ldpc mc - mc_xs mc)"

section \<open>Decoding\<close>

text \<open>The cached decoder, built anew when it is missing or for another code.\<close>

definition cached_decoder :: "(nat \<Rightarrow> bool) \<Rightarrow> dvbs2x_ldpc_decoder \<Rightarrow> dvbs2x_modcod \<Rightarrow> dvbs2x_ldpc_decoder option" where
  "cached_decoder alloc dec mc =
     (if dec_row_ptr dec = None \<or> code_n (dec_code dec) \<noteq> mc_fec_len mc \<or> code_k (dec_code dec) \<noteq> mc_k_ldpc mc
      then dvbs2x_ldpc_decoder_init alloc mc DVBS2X_LDPC_MAX_ITER
      else Some dec)"

text \<open>From the soft values to the BB frame.  The LDPC decoder's failure does not stop the BCH
  decoder, whose verdict decides.\<close>

definition decode_field ::
  "rx_env \<Rightarrow> dvbs2x_demodulator \<Rightarrow> dvbs2x_modcod \<Rightarrow> nat \<Rightarrow> real list \<Rightarrow>
   ((dvbs2x_error + u8 list) \<times> dvbs2x_demodulator) option" where
  "decode_field env dm mc limit llr =
     (let alloc = env_alloc env
      in case cached_decoder alloc (dm_ldpc_dec dm) mc of
           None \<Rightarrow> Some (Inl ERR_NOMEM, dm\<lparr>dm_ldpc_dec := dvbs2x_ldpc_decoder_free (dm_ldpc_dec dm)\<rparr>)
         | Some dec \<Rightarrow>
             let dm = dm\<lparr>dm_ldpc_dec := dec\<rparr>
             in if \<not> alloc (mc_k_ldpc mc) then Some (Inl ERR_NOMEM, dm)
                else
                  let r = dvbs2x_ldpc_decode (dec\<lparr>dec_max_iter := limit\<rparr>) (env_cancel env) llr;
                      dm = dm\<lparr>dm_cancel_requested := env_cancelled env,
                              dm_last_stats := (dm_last_stats dm)\<lparr>st_ldpc_iterations :=
                                (case dr_iter_used r of Some n \<Rightarrow> n | None \<Rightarrow> 0)\<rparr>\<rparr>
                  in if dr_ret r < 0 \<and> env_cancelled env then Some (Inl ERR_CANCELLED, dm)
                     else
                       let dm = dm\<lparr>dm_bch_dec := dvbs2x_bch_decoder_init mc\<rparr>
                       in if \<not> alloc (mc_n_bch mc) then Some (Inl ERR_NOMEM, dm)
                          else (case dr_output r of
                              None \<Rightarrow> None
                            | Some ldpc_out \<Rightarrow>
                                let (bret, bch_cw) = dvbs2x_bch_decode (dm_bch_dec dm)
                                        (take (mc_n_bch mc) (drop (mc_xs mc) ldpc_out))
                                in if bret < 0 then Some (Inl ERR_CRC, dm)
                                   else Some (Inr bch_cw, dm)))"

section \<open>The symbol-rate core\<close>

record demod_result =
  dmr_status :: "dvbs2x_error option"
  dmr_output :: "u8 list"
  dmr_len :: "nat option"
  dmr_demod :: "dvbs2x_demodulator option"
  dmr_sink :: "dvbs2x_complex list option"

text \<open>The part after the header has been found: the frame or the error, and what the sink saw.\<close>

definition receive_field ::
  "rx_env \<Rightarrow> dvbs2x_demodulator \<Rightarrow> dvbs2x_complex list \<Rightarrow> nat \<Rightarrow> real \<Rightarrow> dvbs2x_modcod \<Rightarrow> nat \<Rightarrow>
   dvbs2x_vlsnr_layout \<Rightarrow>
   ((dvbs2x_error + u8 list) \<times> dvbs2x_demodulator \<times> dvbs2x_complex list option) option" where
  "receive_field env dm work in_len noise_var mc wh_start lay =
     (let alloc = env_alloc env
      in if \<not> alloc (DVBS2X_VLSNR_HDR_LEN * 16) then Some (Inl ERR_NOMEM, dm, None)
         else
           let (work, nv_est, esn0_db, dm) = recover_field alloc dm work in_len mc wh_start lay;
               seen = (if dm_symbol_sink dm \<noteq> 0
                       then Some (take (DVBS2X_VLSNR_WH_LEN + 2 + lay_field_len lay) (drop wh_start work))
                       else None)
           in if \<not> alloc (lay_num_data lay * 16) \<or> \<not> alloc ((lay_num_pilot lay + 1) * 16)
              then Some (Inl ERR_NOMEM, dm, seen)
              else
                let (data_sym, pilots, ndata) =
                      dvbs2x_pilot_extract (drop (wh_start + DVBS2X_VLSNR_WH_LEN + 2) work) lay True;
                    demap_nv = demap_noise_var noise_var lay (the pilots) nv_est;
                    limit = ldpc_iteration_limit (dm_max_ldpc dm) esn0_db
                in if \<not> alloc ((2 * ndata + 2) * 8) \<or> \<not> alloc (dvbs2x_tx_coded_bits mc * 8) \<or>
                      \<not> alloc (mc_fec_len mc * 8)
                   then Some (Inl ERR_NOMEM, dm, seen)
                   else
                     let llr = demap_coded_bits mc data_sym ndata demap_nv;
                         deint = dvbs2x_deinterleave mc llr (replicate (mc_fec_len mc) 0)
                     in map_option (\<lambda>(r, dm). (r, dm, seen))
                          (decode_field env dm mc limit (depuncture mc deint)))"

definition finish_frame ::
  "u8 list \<Rightarrow> nat \<Rightarrow> (dvbs2x_error + u8 list) \<times> dvbs2x_demodulator \<times> dvbs2x_complex list option \<Rightarrow> demod_result" where
  "finish_frame out frame_capacity res =
     (let (r, dm, seen) = res;
          finish = (\<lambda>st out n. \<lparr>dmr_status = st, dmr_output = out, dmr_len = Some n,
            dmr_demod = Some (dm\<lparr>dm_last_stats := (dm_last_stats dm)\<lparr>st_result := st\<rparr>\<rparr>), dmr_sink = seen\<rparr>)
      in case r of
           Inl e \<Rightarrow> finish (Some e) out 0
         | Inr bch_cw \<Rightarrow>
             let k_bch = mc_k_bch (the (dm_modcod dm))
             in if frame_capacity < k_bch then finish (Some ERR_SHORT) out k_bch
                else finish None (overwrite 0 (take k_bch bch_cw) out) k_bch)"

definition dvbs2x_demodulate_bbframe_symbols_ex ::
  "rx_env \<Rightarrow> dvbs2x_demodulator option \<Rightarrow> dvbs2x_complex list option \<Rightarrow> nat \<Rightarrow> real \<Rightarrow> u8 list option \<Rightarrow>
   nat \<Rightarrow> bool \<Rightarrow> demod_result option" where
  "dvbs2x_demodulate_bbframe_symbols_ex env demod input in_len noise_var bbframe frame_capacity len_ok =
     (let old = (case bbframe of Some b \<Rightarrow> b | None \<Rightarrow> []);
          leave = (\<lambda>e n dm. Some \<lparr>dmr_status = Some e, dmr_output = old, dmr_len = n, dmr_demod = dm,
                                  dmr_sink = None\<rparr>)
      in if \<not> len_ok then leave ERR_PARAM None demod
         else (case (demod, input, bbframe) of
             (Some dm, Some inp, Some out) \<Rightarrow>
               if noise_var < 0 then leave ERR_PARAM (Some 0) demod
               else
                 let dm = dm\<lparr>dm_last_stats := stats_zero\<lparr>st_result := Some ERR_NOSYNC\<rparr>\<rparr>
                 in if dm_cancel_requested dm
                    then leave ERR_CANCELLED (Some 0)
                           (Some (dm\<lparr>dm_last_stats := (dm_last_stats dm)\<lparr>st_result := Some ERR_CANCELLED\<rparr>\<rparr>))
                    else if in_len < DVBS2X_PLHEADER_LEN + DVBS2X_VLSNR_WH_LEN
                    then leave ERR_SHORT (Some 0) (Some dm)
                    else if \<not> env_alloc env (in_len * 16) then leave ERR_NOMEM (Some 0) (Some dm)
                    else
                      let work = take in_len inp;
                          work = (if dm_state dm \<noteq> DVBS2X_DEMOD_SEARCH \<and> afc_freq_est (dm_afc dm) \<noteq> 0
                                  then derotate work 0 in_len (afc_freq_est (dm_afc dm)) 0 else work);
                          work = coarse_blind_carrier work in_len
                      in (case frame_search (env_alloc env) dm work in_len of
                            None \<Rightarrow> None
                          | Some found \<Rightarrow>
                              (case frame_sync (env_alloc env) dm found in_len of
                                 (Inl e, dm) \<Rightarrow> Some (finish_frame out frame_capacity (Inl e, dm, None))
                               | (Inr (mc, wh_start, lay), dm) \<Rightarrow>
                                   map_option (finish_frame out frame_capacity)
                                     (receive_field env dm work in_len noise_var mc wh_start lay)))
           | _ \<Rightarrow> leave ERR_PARAM (Some 0) demod))"

text \<open>The BB frame is received into a temporary array, of which only what was received is read.\<close>

definition dvbs2x_demodulate_symbols_ex ::
  "rx_env \<Rightarrow> dvbs2x_demodulator option \<Rightarrow> dvbs2x_complex list option \<Rightarrow> nat \<Rightarrow> real \<Rightarrow> u8 list option \<Rightarrow>
   nat \<Rightarrow> bool \<Rightarrow> demod_result option" where
  "dvbs2x_demodulate_symbols_ex env demod input in_len noise_var user_data user_capacity len_ok =
     (let old = (case user_data of Some u \<Rightarrow> u | None \<Rightarrow> []);
          leave = (\<lambda>e n dm seen. Some \<lparr>dmr_status = Some e, dmr_output = old, dmr_len = n, dmr_demod = dm,
                                       dmr_sink = seen\<rparr>)
      in if \<not> len_ok then leave ERR_PARAM None demod None
         else if demod = None \<or> input = None \<or> user_data = None \<or> noise_var < 0
         then leave ERR_PARAM (Some 0) demod None
         else if \<not> env_alloc env DVBS2X_LDPC_NORMAL then leave ERR_NOMEM (Some 0) demod None
         else (case dvbs2x_demodulate_bbframe_symbols_ex env demod input in_len noise_var
                      (Some (replicate DVBS2X_LDPC_NORMAL 0)) DVBS2X_LDPC_NORMAL True of
             None \<Rightarrow> None
           | Some r \<Rightarrow>
               let dm = the (dmr_demod r)
               in case dmr_status r of
                    Some e \<Rightarrow> leave e (Some 0) (Some dm) (dmr_sink r)
                  | None \<Rightarrow>
                      (case dm_modcod dm of
                         None \<Rightarrow> leave ERR_PARAM (Some 0) (Some dm) (dmr_sink r)
                       | Some mc \<Rightarrow>
                           if the (dmr_len r) \<noteq> mc_k_bch mc
                           then leave ERR_PARAM (Some 0) (Some dm) (dmr_sink r)
                           else
                             let ctx = dvbs2x_bb_frame_init mc DVBS2X_STREAM_GS;
                                 dm = dm\<lparr>dm_bb_ctx := ctx\<rparr>;
                                 p = dvbs2x_bb_frame_parse_ex (Some ctx) (Some (dmr_output r)) user_data
                                       user_capacity True
                             in Some \<lparr>dmr_status = (case pr_status p of
                                                     None \<Rightarrow> None
                                                   | Some ERR_SHORT \<Rightarrow> Some ERR_SHORT
                                                   | Some _ \<Rightarrow> Some ERR_CRC),
                                      dmr_output = pr_user_data p, dmr_len = pr_user_len p,
                                      dmr_demod = Some dm, dmr_sink = dmr_sink r\<rparr>)))"

definition dvbs2x_demodulate_symbols ::
  "rx_env \<Rightarrow> dvbs2x_demodulator option \<Rightarrow> dvbs2x_complex list option \<Rightarrow> nat \<Rightarrow> real \<Rightarrow> u8 list option \<Rightarrow>
   bool \<Rightarrow> demod_result option" where
  "dvbs2x_demodulate_symbols env demod input in_len noise_var user_data len_ok =
     dvbs2x_demodulate_symbols_ex env demod input in_len noise_var user_data UINT_MAX len_ok"

section \<open>From samples\<close>

text \<open>The matched filter and the timing recovery: the symbols and the context, \<open>Inl\<close> with the context
  when an array could not be allocated, and \<open>None\<close> when the timing loop leaves an array.\<close>

definition front_end ::
  "(nat \<Rightarrow> bool) \<Rightarrow> dvbs2x_demodulator \<Rightarrow> dvbs2x_complex list \<Rightarrow> nat \<Rightarrow>
   (dvbs2x_demodulator + dvbs2x_complex list \<times> dvbs2x_demodulator) option" where
  "front_end alloc dm input in_len =
     (if \<not> alloc (in_len * 16) then Some (Inl dm)
      else
        let (filtered, flt) = dvbs2x_rrc_filter_apply (dvbs2x_rrc_filter_reset (dm_rx_filter dm)) (take in_len input);
            dm = dm\<lparr>dm_rx_filter := flt\<rparr>;
            room = in_len div ts_sps (dm_timing dm) + 2
        in if \<not> alloc (room * 16) then Some (Inl dm)
           else
             let ts = dvbs2x_timing_sync_init (ts_sps (dm_timing dm)) (1 / 10 ^ 3);
                 dm = dm\<lparr>dm_timing := ts\<rparr>
             in (case dvbs2x_timing_sync_process ts filtered in_len of
                   None \<Rightarrow> None
                 | Some symbols \<Rightarrow> if room < length symbols then None else Some (Inr (symbols, dm))))"

definition dvbs2x_demodulate_ex ::
  "rx_env \<Rightarrow> dvbs2x_demodulator option \<Rightarrow> dvbs2x_complex list option \<Rightarrow> nat \<Rightarrow> u8 list option \<Rightarrow> nat \<Rightarrow>
   bool \<Rightarrow> demod_result option" where
  "dvbs2x_demodulate_ex env demod input in_len user_data user_capacity len_ok =
     (let old = (case user_data of Some u \<Rightarrow> u | None \<Rightarrow> []);
          leave = (\<lambda>e n dm. Some \<lparr>dmr_status = Some e, dmr_output = old, dmr_len = n, dmr_demod = dm,
                                  dmr_sink = None\<rparr>)
      in if \<not> len_ok then leave ERR_PARAM None demod
         else (case (demod, input, user_data) of
             (Some dm, Some inp, Some _) \<Rightarrow>
               (case front_end (env_alloc env) dm inp in_len of
                  None \<Rightarrow> None
                | Some (Inl dm) \<Rightarrow> leave ERR_NOMEM (Some 0) (Some dm)
                | Some (Inr (symbols, dm)) \<Rightarrow>
                    dvbs2x_demodulate_symbols_ex env (Some dm) (Some symbols) (length symbols) 0 user_data
                      user_capacity True)
           | _ \<Rightarrow> leave ERR_PARAM (Some 0) demod))"

definition dvbs2x_demodulate_bbframe_ex ::
  "rx_env \<Rightarrow> dvbs2x_demodulator option \<Rightarrow> dvbs2x_complex list option \<Rightarrow> nat \<Rightarrow> u8 list option \<Rightarrow> nat \<Rightarrow>
   bool \<Rightarrow> demod_result option" where
  "dvbs2x_demodulate_bbframe_ex env demod input in_len bbframe frame_capacity len_ok =
     (let old = (case bbframe of Some b \<Rightarrow> b | None \<Rightarrow> []);
          leave = (\<lambda>e n dm. Some \<lparr>dmr_status = Some e, dmr_output = old, dmr_len = n, dmr_demod = dm,
                                  dmr_sink = None\<rparr>)
      in if \<not> len_ok then leave ERR_PARAM None demod
         else (case (demod, input, bbframe) of
             (Some dm, Some inp, Some _) \<Rightarrow>
               (case front_end (env_alloc env) dm inp in_len of
                  None \<Rightarrow> None
                | Some (Inl dm) \<Rightarrow> leave ERR_NOMEM (Some 0) (Some dm)
                | Some (Inr (symbols, dm)) \<Rightarrow>
                    dvbs2x_demodulate_bbframe_symbols_ex env (Some dm) (Some symbols) (length symbols) 0 bbframe
                      frame_capacity True)
           | _ \<Rightarrow> leave ERR_PARAM (Some 0) demod))"

definition dvbs2x_demodulate ::
  "rx_env \<Rightarrow> dvbs2x_demodulator option \<Rightarrow> dvbs2x_complex list option \<Rightarrow> nat \<Rightarrow> u8 list option \<Rightarrow> bool \<Rightarrow>
   demod_result option" where
  "dvbs2x_demodulate env demod input in_len user_data len_ok =
     dvbs2x_demodulate_ex env demod input in_len user_data UINT_MAX len_ok"

end
