(* ===== verification/Payload.thy ===== *)
theory Payload
  imports Demodulator
begin

text \<open>
  The receiver's way from the symbols of a data field to the BB frame: soft values, depuncturing,
  the cached LDPC decoder and the BCH decoder undo the transmitter's chain as long as no component of a
  data symbol is off by more than a third of the amplitude.  The LDPC decoder meets the punctured bits as
  erasures.
\<close>

section \<open>Soft values with a margin\<close>

definition agrees :: "real \<Rightarrow> u8 \<Rightarrow> real \<Rightarrow> bool" where
  "agrees B b l \<longleftrightarrow> B \<le> bit_sign (b \<noteq> 0) * l"

definition within_third :: "dvbs2x_complex list \<Rightarrow> dvbs2x_complex list \<Rightarrow> bool" where
  "within_third rx tx \<longleftrightarrow>
     list_all2 (\<lambda>r t. \<bar>re_i r - re_i t\<bar> \<le> M_SQRT1_2 / 3 \<and> \<bar>im_q r - im_q t\<bar> \<le> M_SQRT1_2 / 3) rx tx"

lemma within_third_nth:
  "within_third rx tx \<Longrightarrow> n < length tx \<Longrightarrow>
   3 * re_i (rx ! n) \<le> 3 * re_i (tx ! n) + M_SQRT1_2 \<and> 3 * re_i (tx ! n) \<le> 3 * re_i (rx ! n) + M_SQRT1_2 \<and>
   3 * im_q (rx ! n) \<le> 3 * im_q (tx ! n) + M_SQRT1_2 \<and> 3 * im_q (tx ! n) \<le> 3 * im_q (rx ! n) + M_SQRT1_2"
  unfolding within_third_def by (drule (1) list_all2_nthD2) linarith

lemma agrees_scaled:
  assumes "2 * M_SQRT1_2 / 3 \<le> bit_sign (b \<noteq> 0) * d" "15 * M_SQRT2_D \<le> s"
  shows "agrees 7 b (s * d)"
proof -
  have "7 \<le> (15 * M_SQRT2_D) * (2 * M_SQRT1_2 / 3)" by (simp add: M_SQRT2_D_def M_SQRT1_2_def)
  also have "\<dots> \<le> s * (bit_sign (b \<noteq> 0) * d)"
    using assms by (intro mult_mono) (simp_all add: M_SQRT2_D_def M_SQRT1_2_def)
  finally show ?thesis by (simp add: agrees_def mult.left_commute)
qed

lemma scale_bounds:
  assumes "0 < v" "v \<le> 1 / 15"
  shows "15 * M_SQRT2_D \<le> M_SQRT2_D / v" "15 * M_SQRT2_D \<le> 2.0 * M_SQRT1_2 / v"
proof -
  have "15 \<le> 1 / v" using assms by (simp add: field_simps)
  from mult_right_mono [OF this, of M_SQRT2_D] show "15 * M_SQRT2_D \<le> M_SQRT2_D / v"
    by (simp add: M_SQRT2_D_def)
  then show "15 * M_SQRT2_D \<le> 2.0 * M_SQRT1_2 / v" by (simp add: M_SQRT2_D_def M_SQRT1_2_def)
qed

lemma pi2bpsk_margin:
  assumes "within_third rx (dvbs2x_mod_pi2bpsk bits len)" "n < len" "bits ! n = 0 \<or> bits ! n = 1" "0 < v" "v \<le> 1 / 15"
  shows "agrees 7 (bits ! n) (dvbs2x_demod_pi2bpsk rx len v ! n)"
proof -
  define d where "d = (if even n then re_i (rx ! n) + im_q (rx ! n) else im_q (rx ! n) - re_i (rx ! n))"
  have l: "dvbs2x_demod_pi2bpsk rx len v ! n = M_SQRT2_D / v * d"
    using assms(2) by (simp add: dvbs2x_demod_pi2bpsk_def Let_def d_def)
  have t: "dvbs2x_mod_pi2bpsk bits len ! n = pi2bpsk_symbol n (bits ! n)"
    using assms(2) by (simp add: dvbs2x_mod_pi2bpsk_def)
  note r = within_third_nth [OF assms(1), of n, unfolded length_modulators t, OF assms(2)]
  have "2 * M_SQRT1_2 / 3 \<le> bit_sign (bits ! n \<noteq> 0) * d"
    using r assms(3) amplitude_pos(1)
    by (cases "even n") (auto simp: d_def pi2bpsk_symbol_def Let_def bit_sign_def)
  then show ?thesis unfolding l by (rule agrees_scaled) (rule scale_bounds [OF assms(4,5)])
qed

lemma qpsk_margin:
  assumes "within_third rx (dvbs2x_mod_qpsk bits m)" "j < 2 * m" "0 < v" "v \<le> 1 / 15"
  shows "agrees 7 (bits ! j) (dvbs2x_demod_qpsk rx m v ! j)"
proof -
  let ?s = "2.0 * M_SQRT1_2 / v" and ?n = "j div 2"
  have n: "?n < m" using assms(2) by auto
  have l: "dvbs2x_demod_qpsk rx m v ! (2 * ?n) = ?s * re_i (rx ! ?n)"
    "dvbs2x_demod_qpsk rx m v ! (2 * ?n + 1) = ?s * im_q (rx ! ?n)"
    using nth_concat_pairs [OF n, of "\<lambda>n. ?s * re_i (rx ! n)" "\<lambda>n. ?s * im_q (rx ! n)"]
    unfolding dvbs2x_demod_qpsk_def Let_def by simp_all
  have t: "dvbs2x_mod_qpsk bits m ! ?n =
      \<lparr>re_i = (if bits ! (2 * ?n) \<noteq> 0 then - M_SQRT1_2 else M_SQRT1_2),
       im_q = (if bits ! (2 * ?n + 1) \<noteq> 0 then - M_SQRT1_2 else M_SQRT1_2)\<rparr>"
    using n by (simp add: dvbs2x_mod_qpsk_def Let_def)
  note r = within_third_nth [OF assms(1), of ?n, unfolded length_modulators t, OF n]
  have "2 * M_SQRT1_2 / 3 \<le> bit_sign (bits ! (2 * ?n) \<noteq> 0) * re_i (rx ! ?n)"
    "2 * M_SQRT1_2 / 3 \<le> bit_sign (bits ! (2 * ?n + 1) \<noteq> 0) * im_q (rx ! ?n)"
    using r by (auto simp: bit_sign_def split: if_splits)
  note a = agrees_scaled [OF this(1) scale_bounds(2) [OF assms(3,4)]] agrees_scaled [OF this(2) scale_bounds(2) [OF assms(3,4)]]
  have "j = 2 * ?n \<or> j = 2 * ?n + 1" by linarith
  then show ?thesis using a unfolding l [symmetric] by metis
qed

lemma agrees_add: "agrees B b x \<Longrightarrow> agrees B b y \<Longrightarrow> 0 \<le> B \<Longrightarrow> agrees B b (x + y)"
  by (simp add: agrees_def distrib_left)

lemma bits_01_nth: "set bits \<subseteq> {0, 1} \<Longrightarrow> j < length bits \<Longrightarrow> bits ! j = 0 \<or> bits ! j = (1 :: u8)"
  using nth_mem by fastforce

text \<open>Every MODCOD's demapper.\<close>

lemma demap_margin:
  assumes mc: "mc \<in> set vlsnr_modcod_table" and bits: "length bits = dvbs2x_tx_coded_bits mc" "set bits \<subseteq> {0, 1}"
    and rx: "within_third rx (mapped_symbols mc bits)" and v: "0 < v" "v \<le> 1 / 15"
  shows "length (demap_coded_bits mc rx (data_symbols mc) v) = dvbs2x_tx_coded_bits mc"
    "j < dvbs2x_tx_coded_bits mc \<Longrightarrow> agrees 7 (bits ! j) (demap_coded_bits mc rx (data_symbols mc) v ! j)"
proof -
  let ?n = "dvbs2x_tx_coded_bits mc" and ?out = "demap_coded_bits mc rx (data_symbols mc) v"
  note t = table_chain(7,8) [OF mc]
  note defs = demap_coded_bits_def data_symbols_def mapped_symbols_def map_coded_bits_def Let_def
  consider (qpsk) "mc_modulation mc = DVBS2X_MOD_QPSK" "\<not> mc_has_spread mc"
    | (spread) "mc_modulation mc \<noteq> DVBS2X_MOD_QPSK" "mc_has_spread mc"
    | (plain) "mc_modulation mc \<noteq> DVBS2X_MOD_QPSK" "\<not> mc_has_spread mc"
    using t(2) by blast
  then have "length ?out = ?n \<and> (j < ?n \<longrightarrow> agrees 7 (bits ! j) (?out ! j))"
  proof cases
    case qpsk
    have d: "?out = dvbs2x_demod_qpsk rx (?n div 2) v" using qpsk by (simp add: defs)
    have "within_third rx (dvbs2x_mod_qpsk bits (?n div 2))" using rx qpsk by (simp add: defs)
    from qpsk_margin [OF this _ v, of j] show ?thesis unfolding d using t(1) by simp
  next
    case plain
    have d: "?out = dvbs2x_demod_pi2bpsk rx ?n v" using plain by (simp add: defs)
    have "within_third rx (dvbs2x_mod_pi2bpsk bits ?n)" using rx plain by (simp add: defs)
    from pi2bpsk_margin [OF this _ _ v, of j] show ?thesis unfolding d using bits_01_nth [OF bits(2), of j] bits(1) by simp
  next
    case spread
    let ?sp = "dvbs2x_mod_spread_bits bits ?n"
    have d: "?out = dvbs2x_demod_despread_llr (dvbs2x_demod_pi2bpsk rx (?n * 2) v) ?n" using spread by (simp add: defs)
    have m: "within_third rx (dvbs2x_mod_pi2bpsk ?sp (?n * 2))" using rx spread by (simp add: defs)
    have "agrees 7 (bits ! j) (?out ! j)" if j: "j < ?n"
    proof -
      have b: "bits ! j = 0 \<or> bits ! j = 1" using bits_01_nth [OF bits(2), of j] bits(1) j by simp
      have "agrees 7 (bits ! j) (dvbs2x_demod_pi2bpsk rx (?n * 2) v ! (2 * j))"
        "agrees 7 (bits ! j) (dvbs2x_demod_pi2bpsk rx (?n * 2) v ! (2 * j + 1))"
        using pi2bpsk_margin [OF m _ _ v, of "2 * j"] pi2bpsk_margin [OF m _ _ v, of "2 * j + 1"] j b
        by (simp_all add: spread_nth [OF j, of bits, unfolded Suc_eq_plus1 [symmetric]])
      from agrees_add [OF this] show ?thesis unfolding d dvbs2x_demod_despread_llr_def using j by simp
    qed
    then show ?thesis unfolding d dvbs2x_demod_despread_llr_def by simp
  qed
  then show "length ?out = ?n" "j < ?n \<Longrightarrow> agrees 7 (bits ! j) (?out ! j)" by blast+
qed

section \<open>Depuncturing\<close>

lemma depuncture_loop_agrees:
  assumes "punct_inv mc p i" "0 < mc_p_period mc"
    and "\<And>t. t < length (puncture_loop mc cw [i..<n] p) \<Longrightarrow> agrees B (puncture_loop mc cw [i..<n] p ! t) (deint ! (d + t))"
  shows "length (depuncture_loop mc deint [i..<n] p d) = n - i \<and>
    (\<forall>j < n - i. (punctured mc (i + j) \<longrightarrow> depuncture_loop mc deint [i..<n] p d ! j = 0) \<and>
       (\<not> punctured mc (i + j) \<longrightarrow> agrees B (cw ! (mc_k_ldpc mc + i + j)) (depuncture_loop mc deint [i..<n] p d ! j)))"
  using assms(1,3)
proof (induction "n - i" arbitrary: i p d)
  case (Suc m)
  have u: "[i..<n] = i # [i + 1..<n]" using Suc.hyps(2) by (simp add: upt_conv_Cons)
  have m: "m = n - (i + 1)" using Suc.hyps(2) by simp
  note step = punct_inv_step [OF Suc.prems(1) assms(2)]
  have all: "(\<forall>j < n - i. P j) \<longleftrightarrow> P 0 \<and> (\<forall>j < n - (i + 1). P (Suc j))" for P
    using Suc.hyps(2) by (metis Suc_diff_1 diff_diff_left All_less_Suc2 zero_less_Suc diff_Suc_1)
  show ?case
  proof (cases "punctured mc i")
    case True
    have "length (depuncture_loop mc deint [i + 1..<n] (p + 1) d) = n - (i + 1) \<and>
    (\<forall>j < n - (i + 1). (punctured mc (i + 1 + j) \<longrightarrow> depuncture_loop mc deint [i + 1..<n] (p + 1) d ! j = 0) \<and>
       (\<not> punctured mc (i + 1 + j) \<longrightarrow>
          agrees B (cw ! (mc_k_ldpc mc + (i + 1) + j)) (depuncture_loop mc deint [i + 1..<n] (p + 1) d ! j)))"
      by (rule Suc.hyps(1) [OF m step(2) [OF True]]) (use Suc.prems(2) in \<open>simp add: u step(1) True\<close>)
    then show ?thesis using Suc.hyps(2) m True unfolding all by (simp add: u step(1))
  next
    case False
    have "length (depuncture_loop mc deint [i + 1..<n] p (d + 1)) = n - (i + 1) \<and>
    (\<forall>j < n - (i + 1). (punctured mc (i + 1 + j) \<longrightarrow> depuncture_loop mc deint [i + 1..<n] p (d + 1) ! j = 0) \<and>
       (\<not> punctured mc (i + 1 + j) \<longrightarrow>
          agrees B (cw ! (mc_k_ldpc mc + (i + 1) + j)) (depuncture_loop mc deint [i + 1..<n] p (d + 1) ! j)))"
    proof (rule Suc.hyps(1) [OF m step(3) [OF False]])
      fix t assume "t < length (puncture_loop mc cw [i + 1..<n] p)"
      then show "agrees B (puncture_loop mc cw [i + 1..<n] p ! t) (deint ! (d + 1 + t))"
        using Suc.prems(2) [of "Suc t"] by (simp add: u step(1) False)
    qed
    moreover have "agrees B (cw ! (mc_k_ldpc mc + i)) (deint ! d)"
      using Suc.prems(2) [of 0] by (simp add: u step(1) False)
    ultimately show ?thesis using Suc.hyps(2) m False unfolding all by (simp add: u step(1))
  qed
qed simp

text \<open>The punctured positions of a code word.\<close>

definition erased :: "dvbs2x_modcod \<Rightarrow> nat set" where
  "erased mc = {mc_k_ldpc mc + i |i. punctured mc i}"

lemma depuncture_agrees:
  assumes mc: "mc \<in> set vlsnr_modcod_table"
    and deint: "\<And>j. j < dvbs2x_tx_coded_bits mc \<Longrightarrow> agrees 7 (shorten_puncture mc cw ! j) (deint ! j)"
    and zero: "\<And>v. v < mc_xs mc \<Longrightarrow> cw ! v = 0"
  shows "length (depuncture mc deint) = mc_fec_len mc"
    "v < mc_fec_len mc \<Longrightarrow> if v \<in> erased mc then depuncture mc deint ! v = 0
       else agrees 7 (cw ! v) (depuncture mc deint ! v)"
proof -
  note t = table_chain [OF mc]
  let ?m = "mc_fec_len mc - mc_k_ldpc mc" and ?s = "mc_k_ldpc mc - mc_xs mc"
  let ?pl = "puncture_loop mc cw [0..<?m] 0"
  have sp: "shorten_puncture mc cw = map (\<lambda>i. cw ! i) [mc_xs mc..<mc_k_ldpc mc] @ ?pl" by (simp add: shorten_puncture_def)
  have len: "?s + length ?pl = dvbs2x_tx_coded_bits mc"
    using length_shorten_puncture [OF mc, of cw] t(1) by (simp add: sp)
  have par: "agrees 7 (?pl ! i) (deint ! (?s + i))" if "i < length ?pl" for i
    using deint [of "?s + i"] that len by (simp add: sp nth_append)
  have per: "0 < mc_p_period mc" using t(3) by simp
  note loop = depuncture_loop_agrees [where d = ?s and n = ?m, OF punct_inv_start per par, simplified]
  then show l: "length (depuncture mc deint) = mc_fec_len mc"
    using t(1,2) by (simp add: depuncture_def)
  show "if v \<in> erased mc then depuncture mc deint ! v = 0 else agrees 7 (cw ! v) (depuncture mc deint ! v)"
    if v: "v < mc_fec_len mc"
  proof -
    consider (zero) "v < mc_xs mc" | (info) "mc_xs mc \<le> v" "v < mc_k_ldpc mc" | (par) "mc_k_ldpc mc \<le> v" by linarith
    then show ?thesis
    proof cases
      case zero
      then have "v \<notin> erased mc" using t(1) by (auto simp: erased_def)
      then show ?thesis using zero assms(3) [OF zero] by (simp add: depuncture_def nth_append agrees_def bit_sign_def)
    next
      case info
      then have "v \<notin> erased mc" by (auto simp: erased_def)
      moreover have "depuncture mc deint ! v = deint ! (v - mc_xs mc)"
        using info by (simp add: depuncture_def nth_append diff_less_mono)
      moreover have "shorten_puncture mc cw ! (v - mc_xs mc) = cw ! v"
        using info by (simp add: sp nth_append diff_less_mono)
      ultimately show ?thesis using deint [of "v - mc_xs mc"] info len by (simp add: diff_less_mono)
    next
      case par
      define j where "j = v - mc_k_ldpc mc"
      have j: "v = mc_k_ldpc mc + j" "j < ?m" using par v by (simp_all add: j_def)
      have "v \<in> erased mc \<longleftrightarrow> punctured mc j" using j by (auto simp: erased_def)
      moreover have "depuncture mc deint ! v = depuncture_loop mc deint [0..<?m] 0 ?s ! j"
        using j t(1) by (simp add: depuncture_def nth_append)
      ultimately show ?thesis using loop j by simp
    qed
  qed
qed

section \<open>The cached decoder\<close>

definition decoder_cached :: "dvbs2x_ldpc_decoder \<Rightarrow> bool" where
  "decoder_cached dec \<longleftrightarrow> dec_row_ptr dec = None \<or>
     (\<exists>alloc mc. mc \<in> set vlsnr_modcod_table \<and>
        dvbs2x_ldpc_decoder_init alloc mc DVBS2X_LDPC_MAX_ITER = Some dec)"

text \<open>The code length and the number of information bits determine the code.\<close>

lemma same_code:
  assumes "mc \<in> set vlsnr_modcod_table" "mc' \<in> set vlsnr_modcod_table"
    and "mc_fec_len mc' = mc_fec_len mc" "mc_k_ldpc mc' = mc_k_ldpc mc"
  shows "dvbs2x_ldpc_get_table mc' = dvbs2x_ldpc_get_table mc \<and> mc_q_ldpc mc' = mc_q_ldpc mc"
  using modcod_cases [OF assms(1)] modcod_cases [OF assms(2)] assms(3,4)
  by (elim disjE) (simp_all add: dvbs2x_ldpc_get_table_def modcod_defs const_defs)

lemma encode_same:
  assumes "mc \<in> set vlsnr_modcod_table" "mc' \<in> set vlsnr_modcod_table"
    and "mc_fec_len mc' = mc_fec_len mc" "mc_k_ldpc mc' = mc_k_ldpc mc"
    and "dvbs2x_ldpc_encoder_init mc = Some enc" "dvbs2x_ldpc_encoder_init mc' = Some enc'"
  shows "dvbs2x_ldpc_encode enc' = dvbs2x_ldpc_encode enc"
proof -
  note same_code [OF assms(1-4)]
  then have "enc_code enc' = enc_code enc"
    using assms(3-6) by (auto simp: dvbs2x_ldpc_encoder_init_def Let_def split: option.splits prod.splits)
  then show ?thesis by (simp add: dvbs2x_ldpc_encode_def fun_eq_iff)
qed

lemma decoder_init_mem:
  assumes "mc \<in> set vlsnr_modcod_table" "\<And>n. alloc n"
  obtains dec where "dvbs2x_ldpc_decoder_init alloc mc it = Some dec"
proof -
  obtain tab where "dvbs2x_ldpc_get_table mc = (Some tab, mc_k_ldpc mc div 360)"
    using get_table_ok [OF assms(1)] by blast
  then show ?thesis using that assms(2) by (simp add: dvbs2x_ldpc_decoder_init_def build_csr_def Let_def)
qed

lemma table_lookup:
  assumes "mc \<in> set vlsnr_modcod_table"
  obtains idx where "dvbs2x_vlsnr_get_modcod idx = Some mc" "idx = mc_index mc" "1 \<le> idx" "idx \<le> 9"
  using modcod_cases [OF assms]
  by (elim disjE) (rule that [of "mc_index mc"]; simp add: modcod_defs dvbs2x_vlsnr_get_modcod_def vlsnr_modcod_table_def const_defs)+

text \<open>Decoding with the cached decoder.\<close>

lemma cached_decodes:
  assumes mc: "mc \<in> set vlsnr_modcod_table" "dvbs2x_ldpc_encoder_init mc = Some enc"
    and dec: "decoder_cached dec" "\<And>n. alloc n"
    and lim: "0 < limit" "\<not> cancel 0"
    and info: "length info = mc_k_ldpc mc" "set info \<subseteq> {0, 1}"
    and llr: "length llr = mc_fec_len mc" "\<And>v. v < mc_fec_len mc \<Longrightarrow> if v \<in> erased mc then llr ! v = 0
       else agrees 7 (dvbs2x_ldpc_encode enc info ! v) (llr ! v)"
  shows "\<exists>dec'. cached_decoder alloc dec mc = Some dec' \<and> decoder_cached dec' \<and>
    (let r = dvbs2x_ldpc_decode (dec'\<lparr>dec_max_iter := limit\<rparr>) cancel llr
     in dr_ret r = 0 \<and> dr_iter_used r = Some 1 \<and> dr_output r = Some info)"
proof -
  obtain al mc' dec' where mc': "mc' \<in> set vlsnr_modcod_table" "mc_fec_len mc' = mc_fec_len mc" "mc_k_ldpc mc' = mc_k_ldpc mc"
    and d: "dvbs2x_ldpc_decoder_init al mc' DVBS2X_LDPC_MAX_ITER = Some dec'" "cached_decoder alloc dec mc = Some dec'"
  proof (cases "dec_row_ptr dec = None \<or> code_n (dec_code dec) \<noteq> mc_fec_len mc \<or> code_k (dec_code dec) \<noteq> mc_k_ldpc mc")
    case True
    obtain dec' where "dvbs2x_ldpc_decoder_init alloc mc DVBS2X_LDPC_MAX_ITER = Some dec'"
      by (rule decoder_init_mem [of mc alloc]) (use mc dec in auto)
    then show ?thesis using that [of mc alloc dec'] True mc by (simp add: cached_decoder_def)
  next
    case False
    then obtain al mc' where i: "mc' \<in> set vlsnr_modcod_table" "dvbs2x_ldpc_decoder_init al mc' DVBS2X_LDPC_MAX_ITER = Some dec"
      using dec(1) by (auto simp: decoder_cached_def)
    obtain enc' where "dvbs2x_ldpc_encoder_init mc' = Some enc'" "code_n (enc_code enc') = mc_fec_len mc'"
      "code_k (enc_code enc') = mc_k_ldpc mc'" by (rule encoder_init_ok [OF i(1)])
    then have "code_n (dec_code dec) = mc_fec_len mc'" "code_k (dec_code dec) = mc_k_ldpc mc'"
      using decoder_init_parts [OF i(1) _ i(2), of enc'] by metis+
    then have "mc_fec_len mc' = mc_fec_len mc" "mc_k_ldpc mc' = mc_k_ldpc mc" using False by simp_all
    moreover have "cached_decoder alloc dec mc = Some dec" using False by (auto simp: cached_decoder_def)
    ultimately show ?thesis by (intro that [of mc' al dec] i)
  qed
  obtain idx where idx: "dvbs2x_vlsnr_get_modcod idx = Some mc'" using table_lookup [OF mc'(1)] by metis
  obtain enc' where enc': "dvbs2x_ldpc_encoder_init mc' = Some enc'" using encoder_init_ok [OF mc'(1)] by metis
  have same: "dvbs2x_ldpc_encode enc' = dvbs2x_ldpc_encode enc"
    by (rule encode_same [OF mc(1) mc' mc(2) enc'])
  have er: "mc_k_ldpc mc' \<le> v \<and> Suc v \<notin> erased mc" if "v \<in> erased mc" for v
    using that punctured_isolated [of mc] table_chain(3) [OF mc(1)] mc'(3) by (auto simp: erased_def)
  have "dr_ret (dvbs2x_ldpc_decode (dec'\<lparr>dec_max_iter := limit\<rparr>) cancel llr) = 0 \<and>
    dr_iter_used (dvbs2x_ldpc_decode (dec'\<lparr>dec_max_iter := limit\<rparr>) cancel llr) = Some 1 \<and>
    dr_output (dvbs2x_ldpc_decode (dec'\<lparr>dec_max_iter := limit\<rparr>) cancel llr) = Some info"
    by (rule decode_erasures [where E = "erased mc" and B = 7 and dec = "dec'\<lparr>dec_max_iter := limit\<rparr>" and cancel = cancel,
          OF idx enc' d(1) refl lim])
       (use info llr(1) llr(2) [unfolded agrees_def] mc' er in \<open>simp_all add: same LLR_CLAMP_def\<close>)
  moreover have "decoder_cached dec'" using mc'(1) d(1) by (auto simp: decoder_cached_def)
  ultimately show ?thesis using d(2) by (auto simp: Let_def)
qed

section \<open>From soft values to the BB frame\<close>

lemma ldpc_information_ok:
  assumes "mc \<in> set vlsnr_modcod_table" "bch_codec_ok mc bch" "length bbframe = mc_k_bch mc" "set bbframe \<subseteq> {0, 1}"
  shows "length (ldpc_information mc bch bbframe) = mc_k_ldpc mc" "set (ldpc_information mc bch bbframe) \<subseteq> {0, 1}"
    "take (mc_n_bch mc) (drop (mc_xs mc) (ldpc_information mc bch bbframe)) = dvbs2x_bch_encode bch bbframe"
    "dvbs2x_bch_decode (dvbs2x_bch_decoder_init mc) (dvbs2x_bch_encode bch bbframe) = (0, dvbs2x_bch_encode bch bbframe)"
    "take (mc_k_bch mc) (dvbs2x_bch_encode bch bbframe) = bbframe"
proof -
  let ?c = "dvbs2x_bch_encode bch bbframe"
  note ok = assms(2) [unfolded bch_codec_ok_def, rule_format, OF conjI [OF assms(3,4)]]
  have b: "length ?c = mc_n_bch mc" "take (mc_k_bch mc) ?c = bbframe" "set ?c \<subseteq> {0, 1}"
    "dvbs2x_bch_decode (dvbs2x_bch_decoder_init mc) (flip_bits {} ?c) = (int (card ({} :: nat set)), ?c)"
    using ok by simp_all
  have "flip_bits {} ?c = ?c" by (intro nth_equalityI) (simp_all add: flip_bits_nth)
  then show "length (ldpc_information mc bch bbframe) = mc_k_ldpc mc" "set (ldpc_information mc bch bbframe) \<subseteq> {0, 1}"
    "take (mc_n_bch mc) (drop (mc_xs mc) (ldpc_information mc bch bbframe)) = ?c"
    "dvbs2x_bch_decode (dvbs2x_bch_decoder_init mc) ?c = (0, ?c)" "take (mc_k_bch mc) ?c = bbframe"
    using b table_chain(1) [OF assms(1)] by (auto simp: ldpc_information_def)
qed

lemma decode_field_ok:
  assumes mc: "mc \<in> set vlsnr_modcod_table" "dvbs2x_ldpc_encoder_init mc = Some enc" "bch_codec_ok mc bch"
    and dm: "decoder_cached (dm_ldpc_dec dm)"
    and env: "\<And>n. env_alloc env n" "\<not> env_cancel env 0" "0 < limit"
    and bb: "length bbframe = mc_k_bch mc" "set bbframe \<subseteq> {0, 1}"
    and deint: "\<And>j. j < dvbs2x_tx_coded_bits mc \<Longrightarrow> agrees 7 (coded_bits mc bch enc bbframe ! j) (deint ! j)"
  shows "\<exists>dec. decoder_cached dec \<and>
    decode_field env dm mc limit (depuncture mc deint) =
      Some (Inr (dvbs2x_bch_encode bch bbframe), dm\<lparr>dm_ldpc_dec := dec, dm_cancel_requested := env_cancelled env,
        dm_last_stats := (dm_last_stats dm)\<lparr>st_ldpc_iterations := 1\<rparr>, dm_bch_dec := dvbs2x_bch_decoder_init mc\<rparr>)"
proof -
  let ?info = "ldpc_information mc bch bbframe"
  note info = ldpc_information_ok [OF mc(1,3) bb]
  have "code_k (enc_code enc) = mc_k_ldpc mc" using encoder_init_ok [OF mc(1)] mc(2) by auto
  then have sys: "take (mc_k_ldpc mc) (dvbs2x_ldpc_encode enc ?info) = ?info"
    using info(1) by (simp add: dvbs2x_ldpc_encode_def Let_def)
  have zero: "dvbs2x_ldpc_encode enc ?info ! v = 0" if "v < mc_xs mc" for v
  proof -
    have "v < mc_k_ldpc mc" using that table_chain(1) [OF mc(1)] by simp
    then have "dvbs2x_ldpc_encode enc ?info ! v = ?info ! v" using sys by (metis nth_take)
    then show ?thesis using that by (simp add: ldpc_information_def nth_append)
  qed
  note dep = depuncture_agrees [OF mc(1) deint [unfolded coded_bits_def] zero]
  obtain dec where d: "cached_decoder (env_alloc env) (dm_ldpc_dec dm) mc = Some dec" "decoder_cached dec"
    "dr_ret (dvbs2x_ldpc_decode (dec\<lparr>dec_max_iter := limit\<rparr>) (env_cancel env) (depuncture mc deint)) = 0"
    "dr_iter_used (dvbs2x_ldpc_decode (dec\<lparr>dec_max_iter := limit\<rparr>) (env_cancel env) (depuncture mc deint)) = Some 1"
    "dr_output (dvbs2x_ldpc_decode (dec\<lparr>dec_max_iter := limit\<rparr>) (env_cancel env) (depuncture mc deint)) = Some ?info"
    using cached_decodes [of mc enc "dm_ldpc_dec dm" "env_alloc env" limit "env_cancel env" ?info "depuncture mc deint",
        OF mc(1,2) dm env(1) env(3,2) info(1,2) dep] unfolding Let_def by blast
  show ?thesis
    using d(2) env(1)
    by (intro exI [of _ dec]) (simp add: decode_field_def d Let_def info(3,4))
qed

end
