(* ===== verification/Receiver.thy ===== *)
theory Receiver
  imports FrameStart Payload
begin

text \<open>
  The receiver on a frame of the transmitter that arrives without noise, with any phase, a range of gains
  and a carrier offset below an eighth of the symbol rate: the stages of theory \<open>Demodulator\<close>
  put together.  The blind estimate removes the offset, the search settles at the header, the header gives
  the level, the descrambler and the phase line give back the data field up to a gain near 1, and theory
  \<open>Payload\<close> decodes it.
\<close>

section \<open>Symbols of a frame\<close>

text \<open>All symbols are on the diagonals, with the same amplitude.\<close>

definition corner :: "dvbs2x_complex \<Rightarrow> bool" where
  "corner z \<longleftrightarrow> \<bar>re_i z\<bar> = M_SQRT1_2 \<and> \<bar>im_q z\<bar> = M_SQRT1_2"

lemma M_pos: "0 < M_SQRT1_2" by (simp add: M_SQRT1_2_def)

lemma corner_grid:
  assumes "corner z" "1 / 10 ^ 5 \<le> norm c"
  shows "diagonal z \<and> 1 / 10 ^ 12 < (norm c)\<^sup>2 * power_of z"
proof -
  have "(1 / 10 ^ 5)\<^sup>2 \<le> (norm c)\<^sup>2" using assms(2) by (intro power_mono) simp_all
  moreover have "power_of z = 2 * M_SQRT1_2\<^sup>2"
    using assms(1) unfolding power_of_def corner_def by (metis abs_mult_self_eq mult_2 power2_eq_square)
  ultimately have "(1 / 10 ^ 5)\<^sup>2 * (2 * M_SQRT1_2\<^sup>2) \<le> (norm c)\<^sup>2 * power_of z"
    by (simp add: mult_right_mono)
  then show ?thesis using assms(1) M_pos by (auto simp: corner_def diagonal_def M_SQRT1_2_def power2_eq_square)
qed

lemma corner_header:
  assumes "dvbs2x_vlsnr_get_modcod i = Some mc" "length buf = DVBS2X_VLSNR_HDR_LEN"
  shows "z \<in> set (dvbs2x_vlsnr_header_generate mc buf) \<Longrightarrow> corner z"
  unfolding header_symbols [OF assms] by (auto simp: chips_to_symbols_def Let_def corner_def M_SQRT1_2_def)

lemma corner_plheader: "z \<in> set (dvbs2x_plheader_generate code) \<Longrightarrow> corner z"
proof -
  have all: "list_all (\<lambda>ph. list_all (\<lambda>b. corner \<lparr>re_i = fst (pl_const ! ph ! b), im_q = snd (pl_const ! ph ! b)\<rparr>) [0, 1])
      [0, 1, 2, 3]"
    by (simp add: pl_const_def corner_def M_SQRT1_2_F_def M_SQRT1_2_def Let_def numeral_2_eq_2 numeral_3_eq_3)
  have ph: "n mod 2 \<in> {0, 1, 2, 3}" "n mod 2 + 2 \<in> {0, 1, 2, 3}" for n :: nat by auto
  have c: "corner \<lparr>re_i = fst (pl_const ! ph ! b), im_q = snd (pl_const ! ph ! b)\<rparr>"
    if "ph \<in> {0, 1, 2, 3}" "b \<in> {0, 1}" for ph b
    using all that by (auto simp del: One_nat_def)
  show "z \<in> set (dvbs2x_plheader_generate code) \<Longrightarrow> corner z"
    unfolding dvbs2x_plheader_generate_def Let_def set_map
    by (elim imageE) (simp only: prod.case_eq_if, rule c, use ph in auto)
qed

lemma corner_mapped: "z \<in> set (mapped_symbols mc bits) \<Longrightarrow> corner z"
  by (auto simp: mapped_symbols_def map_coded_bits_def dvbs2x_mod_qpsk_def dvbs2x_mod_pi2bpsk_def
      pi2bpsk_symbol_def Let_def corner_def M_SQRT1_2_def split: if_splits)

lemma corner_insert_loop:
  "data_positions ms \<le> length data \<Longrightarrow> (\<And>z. z \<in> set data \<Longrightarrow> corner z) \<Longrightarrow>
   z \<in> set (pilot_insert_loop ms data) \<Longrightarrow> corner z"
proof (induction ms arbitrary: data)
  case (Cons m ms)
  have p: "corner pilot_symbol" by (simp add: corner_def pilot_symbol_def M_SQRT1_2_def)
  show ?case
  proof (cases "m = 0")
    case True
    then obtain d ds where "data = d # ds" using Cons.prems(1) by (cases data) (simp_all add: data_positions_def)
    then show ?thesis using Cons True by (auto simp: data_positions_def)
  next
    case False
    then show ?thesis using Cons p by (auto simp: data_positions_def)
  qed
qed simp

lemma pilot_insert_pilots:
  "p < length ms \<Longrightarrow> ms ! p \<noteq> 0 \<Longrightarrow> pilot_insert_loop ms data ! p = pilot_symbol"
proof (induction ms arbitrary: data p)
  case (Cons m ms)
  then show ?case by (cases p) auto
qed simp

lemma corner_data_field:
  assumes "mc \<in> set vlsnr_modcod_table"
  shows "z \<in> set (data_field mc bits) \<Longrightarrow> corner z"
proof -
  obtain m where m: "lay_is_pilot (frame_layout mc) = Some m" "length m = lay_field_len (frame_layout mc)"
    "data_positions m = data_symbols mc" by (rule frame_layout_fields [OF assms])
  then show "z \<in> set (data_field mc bits) \<Longrightarrow> corner z"
    using corner_insert_loop [of m "mapped_symbols mc bits" z] corner_mapped
    by (simp add: data_field_def dvbs2x_pilot_insert_def length_mapped_symbols [OF assms])
qed

lemma corner_field_fwd: "corner s \<Longrightarrow> corner (field_fwd p q rn n s)"
  by (simp add: field_fwd_def rot_fwd_def corner_def)

lemma corner_scrambled:
  assumes "mc \<in> set vlsnr_modcod_table"
  shows "z \<in> set (scrambled_field mc code bits) \<Longrightarrow> corner z"
proof -
  let ?s = "stream_mapi dvbs2x_scrambler_next_rn (field_fwd (lay_is_pilot (frame_layout mc)) (mc_modulation mc = DVBS2X_MOD_QPSK))
     0 (field_scrambler code) (data_field mc bits)"
  have e: "scrambled_field mc code bits = fst ?s"
    by (simp add: scrambled_field_def dvbs2x_scramble_field_def split_beta length_data_field [OF assms])
  show "z \<in> set (scrambled_field mc code bits) \<Longrightarrow> corner z"
    unfolding e in_set_conv_nth
    using corner_data_field [OF assms, of _ bits] by (auto simp: nth_stream_mapi intro!: corner_field_fwd)
qed

lemma corner_frame:
  assumes "mc \<in> set vlsnr_modcod_table" "z \<in> set (pl_frame mc code bits)"
  shows "corner z"
proof -
  obtain i where "dvbs2x_vlsnr_get_modcod i = Some mc" by (rule table_lookup [OF assms(1)])
  note h = corner_header [OF this, of "replicate DVBS2X_VLSNR_HDR_LEN zero_symbol" z]
  show ?thesis
    using assms(2) h corner_plheader [of z] corner_scrambled [OF assms(1), of z] unfolding pl_frame_def by auto
qed

section \<open>A gain on the symbols\<close>

definition amplify :: "complex \<Rightarrow> dvbs2x_complex \<Rightarrow> dvbs2x_complex" where
  "amplify g x = of_cx (g * cx x)"

lemma cx_amplify [simp]: "cx (amplify g x) = g * cx x"
  by (simp add: amplify_def)

lemma cx_rot_inv:
  "cx (rot_inv s rn) = (if rn = 1 then - \<i> else if rn = 2 then -1 else if rn = 3 then \<i> else 1) * cx s"
  by (simp add: rot_inv_def cx_def complex_eq_iff)

lemma amplify_field_inv: "field_inv p q rn n (amplify g s) = amplify g (field_inv p q rn n s)"
proof -
  have "cx (field_inv p q rn n s) = (if four_phase p q n
      then (if rn = 1 then - \<i> else if rn = 2 then -1 else if rn = 3 then \<i> else 1)
      else if rn AND 1 \<noteq> 0 then -1 else 1) * cx s" for s
    by (simp add: field_inv_def cx_rot_inv) (simp add: cx_def complex_eq_iff)
  then show ?thesis by (simp flip: cx_eq_iff)
qed

lemma amplify_descramble:
  "dvbs2x_descramble_field scr (map (amplify g) xs) len p q =
     (map (amplify g) (fst (dvbs2x_descramble_field scr xs len p q)), snd (dvbs2x_descramble_field scr xs len p q))"
proof -
  have "fst (stream_mapi nxt (field_inv p q) n s (map (amplify g) ys)) =
      map (amplify g) (fst (stream_mapi nxt (field_inv p q) n s ys))" for nxt n s ys
    by (induction ys arbitrary: n s) (simp_all add: split_beta amplify_field_inv)
  then show ?thesis
    by (simp add: dvbs2x_descramble_field_def split_beta take_map drop_map snd_stream_mapi)
qed

lemma extract_loop_map:
  "length ms \<le> length field \<Longrightarrow>
   pilot_extract_loop ms (map h field) = (map h (fst (pilot_extract_loop ms field)), map h (snd (pilot_extract_loop ms field)))"
proof (induction ms arbitrary: field)
  case (Cons m ms)
  then obtain x xs where "field = x # xs" by (cases field) auto
  then show ?case using Cons by (simp add: split_beta)
qed simp

section \<open>Recovering the field of a clean frame\<close>

abbreviation header_ref :: "dvbs2x_modcod \<Rightarrow> dvbs2x_complex list" where
  "header_ref mc \<equiv> drop 2 (dvbs2x_vlsnr_header_generate mc (replicate DVBS2X_VLSNR_HDR_LEN zero_symbol))"

lemma header_ref_sync:
  assumes "dvbs2x_vlsnr_get_modcod idx = Some mc" "n < 896"
  shows "header_ref mc ! n = do_sync_init ! (idx - 1) ! n"
proof -
  let ?p = "vlsnr_generate_pattern (modcod_to_annex_i ! (idx - 1))"
  have "([1, 1] @ ?p @ [1, 1]) ! (2 + n) = ?p ! n" using assms(2) by (simp add: nth_append)
  then have "chips_to_symbols ([1, 1] @ ?p @ [1, 1]) 0 ! (2 + n) = chips_to_symbols ?p 0 ! n"
    using assms(2) by (simp add: chips_to_symbols_def Let_def)
  moreover have "header_ref mc ! n = chips_to_symbols ([1, 1] @ ?p @ [1, 1]) 0 ! (2 + n)"
    using header_symbols [OF assms(1), of "replicate DVBS2X_VLSNR_HDR_LEN zero_symbol"] assms(2) by simp
  moreover have "do_sync_init ! (idx - 1) = chips_to_symbols ?p 0"
    using get_modcod_index [OF assms(1)] by (intro nth_sync_ref) linarith
  ultimately show ?thesis by simp
qed

lemma frame_parts:
  assumes "mc \<in> set vlsnr_modcod_table"
  shows "n < 896 \<Longrightarrow> pl_frame mc code bits ! (92 + n) = header_ref mc ! n"
    "drop 990 (pl_frame mc code bits) = scrambled_field mc code bits"
proof -
  let ?p = "dvbs2x_plheader_generate (mc_pls_code mc)"
  let ?h = "dvbs2x_vlsnr_header_generate mc (replicate DVBS2X_VLSNR_HDR_LEN zero_symbol)"
  have l: "length ?p = 90" "length ?h = 900" by (simp_all add: const_defs)
  show "pl_frame mc code bits ! (92 + n) = header_ref mc ! n" if "n < 896"
    using that l by (simp add: pl_frame_def nth_append del: length_plheader length_header_generate)
  show "drop 990 (pl_frame mc code bits) = scrambled_field mc code bits"
    using l by (simp add: pl_frame_def)
qed

text \<open>The gain left after the level has been normalised.\<close>

definition leveled :: "complex \<Rightarrow> complex" where
  "leveled c = (if 0.25 \<le> norm c * full_conf\<^sup>2 \<and> norm c * full_conf\<^sup>2 \<le> 4 then c
     else c * of_real (1 / (norm c * full_conf\<^sup>2)))"

lemma normalize_amplified:
  assumes "clean_header (map (amplify c) xs) wh_start wh_ref c" "c \<noteq> 0"
  shows "normalize_input_level (map (amplify c) xs) (length xs) wh_start wh_ref = map (amplify (leveled c)) xs"
proof -
  have "\<lparr>re_i = re_i (amplify c x) * r, im_q = im_q (amplify c x) * r\<rparr> = amplify (c * of_real r) x" for r x
    by (simp add: amplify_def of_cx_def algebra_simps)
  then have "map (\<lambda>s. \<lparr>re_i = re_i s * r, im_q = im_q s * r\<rparr>) (take (length xs) (map (amplify c) xs)) @
      drop (length xs) (map (amplify c) xs) = map (amplify (c * of_real r)) xs" for r
    by (simp del: of_real_mult)
  then show ?thesis
    unfolding normalize_clean [OF assms] leveled_def by (simp only: split: if_split) blast
qed

lemma recover_clean:
  assumes mc: "mc \<in> set vlsnr_modcod_table" and c: "c \<noteq> 0"
    and dm: "gold_idx (dm_descrambler dm) = code" "dm_state dm = DVBS2X_DEMOD_SEARCH"
    and work: "work = map (amplify c) (pl_frame mc code bits)"
  shows "\<exists>work' scr. gold_idx scr = code \<and>
    recover_field alloc dm work (length work) mc 92 (frame_layout mc) =
      (work', 0, 120, dm\<lparr>dm_last_stats := (dm_last_stats dm)\<lparr>st_esn0_db := 120\<rparr>, dm_descrambler := scr\<rparr>) \<and>
    drop 990 work' = map (amplify (of_real (norm (leveled c)))) (data_field mc bits)"
proof -
  let ?L = "frame_layout mc" and ?F = "pl_frame mc code bits" and ?g = "leveled c"
  let ?fl = "lay_field_len ?L" and ?q = "mc_modulation mc = DVBS2X_MOD_QPSK"
  obtain m where m: "lay_is_pilot ?L = Some m" "length m = ?fl" "data_positions m = data_symbols mc"
    by (rule frame_layout_fields [OF mc])
  obtain idx where idx: "dvbs2x_vlsnr_get_modcod idx = Some mc" "1 \<le> idx" "idx \<le> 9" by (rule table_lookup [OF mc])
  have len: "length ?F = 990 + ?fl" by (rule length_pl_frame [OF mc])
  have nrm: "norm (cx (header_ref mc ! n)) = full_conf" if "n < 896" for n
    using norm_sync_ref [of "idx - 1" n] header_ref_sync [OF idx(1) that] that idx by simp
  have clean: "clean_header (map (amplify g) ?F) 92 (header_ref mc) g" for g
    using frame_parts(1) [OF mc] nrm len by (simp add: clean_header_def)
  have clean': "clean_header (take 990 (map (amplify g) ?F) @ ys) 92 (header_ref mc) g" for g ys
    using frame_parts(1) [OF mc] nrm len by (simp add: clean_header_def nth_append)
  have g: "?g \<noteq> 0" using c full_conf(1) by (simp add: leveled_def)
  have lev: "normalize_input_level work (length work) 92 (header_ref mc) = map (amplify ?g) ?F"
    using normalize_amplified [OF clean c] by (simp add: work)
  have db: "10 * log 10 (1 / (2 * 0 + 1 / 10 ^ 12)) = (120 :: real)"
    using log_nat_power [of 10 10 12] by simp
  have freq: "coarse_freq_recover ok (map (amplify ?g) ?F) 92 (898 + ?fl) (header_ref mc) e = map (amplify ?g) ?F" for ok e
    by (rule coarse_freq_clean [OF clean g]) (simp add: len)
  define scr where "scr = snd (dvbs2x_scramble_field (field_scrambler code) (data_field mc bits) ?fl (lay_is_pilot ?L) ?q)"
  have scr: "gold_idx scr = code"
    by (simp add: scr_def gold_idx_scramble_field field_scrambler_def gold_idx_seek dvbs2x_scrambler_init_def)
  have seek: "dvbs2x_scrambler_seek (dvbs2x_scrambler_reset (dm_descrambler dm)) DVBS2X_VLSNR_HDR_LEN = field_scrambler code"
    by (simp add: field_scrambler_def dvbs2x_scrambler_reset_def dm(1))
  have desc: "dvbs2x_descramble_field (field_scrambler code) (drop 990 (map (amplify ?g) ?F)) ?fl (lay_is_pilot ?L) ?q =
      (map (amplify ?g) (data_field mc bits), scr)"
    unfolding drop_map frame_parts(2) [OF mc] amplify_descramble scrambled_field_def descramble_field_scramble_field scr_def by simp
  define syms where "syms = take 990 (map (amplify ?g) ?F) @ map (amplify ?g) (data_field mc bits)"
  note ld = length_data_field [OF mc, of bits]
  have ls: "length syms = 990 + ?fl" by (simp add: syms_def len ld)
  have pil: "clean_pilots syms (92 + 898) m ?fl ?g"
    unfolding clean_pilots_def
  proof (intro conjI allI impI)
    fix p assume p: "p < ?fl" "m ! p \<noteq> 0"
    have "data_field mc bits ! p = pilot_symbol"
      using p m by (simp add: data_field_def dvbs2x_pilot_insert_def pilot_insert_pilots)
    then show "cx (syms ! (92 + 898 + p)) = ?g * pilot_ref"
      using p len ld by (simp add: syms_def nth_append) (simp add: pilot_symbol_def cx_def pilot_ref_def M_SQRT1_2_D_def)
  qed (simp add: m)
  note tr = residual_track_clean [OF clean' [of ?g "map (amplify ?g) (data_field mc bits)", folded syms_def] g m(1) pil]
  let ?w = "residual_carrier_track syms 92 ?L (header_ref mc)"
  have "drop 990 ?w = map (amplify (of_real (norm ?g))) (data_field mc bits)"
  proof (rule nth_equalityI)
    show "length (drop 990 ?w) = length (map (amplify (of_real (norm ?g))) (data_field mc bits))"
      using tr(1) by (simp add: ls ld)
    fix x assume "x < length (drop 990 ?w)"
    then have x: "x < ?fl" using tr(1) by (simp add: ls)
    have "cx (?w ! (990 + x)) = ?g * cx (data_field mc bits ! x) * cis (- Arg ?g)"
      using tr(2) [of "990 + x"] x by (simp add: ls) (simp add: syms_def nth_append len ld)
    also have "\<dots> = (of_real (norm ?g) * (cis (Arg ?g) * cis (- Arg ?g))) * cx (data_field mc bits ! x)"
      by (subst (1) rcis_cmod_Arg [of ?g, symmetric, unfolded rcis_def]) (simp only: mult_ac)
    also have "\<dots> = of_real (norm ?g) * cx (data_field mc bits ! x)" by (simp add: cis_mult)
    finally show "drop 990 ?w ! x = map (amplify (of_real (norm ?g))) (data_field mc bits) ! x"
      using x tr(1) by (simp add: ls ld flip: cx_eq_iff)
  qed
  moreover have "recover_field alloc dm work (length work) mc 92 ?L =
      (?w, 0, 120, dm\<lparr>dm_last_stats := (dm_last_stats dm)\<lparr>st_esn0_db := 120\<rparr>, dm_descrambler := scr\<rparr>)"
  proof -
    have k: "92 + DVBS2X_VLSNR_WH_LEN + 2 = 990" "DVBS2X_VLSNR_WH_LEN + 2 + ?fl = 898 + ?fl"
      by (simp_all add: const_defs)
    show ?thesis
      unfolding recover_field_def Let_def lev noise_var_clean [OF clean] db k freq
      using seek desc dm(2) by (simp add: syms_def)
  qed
  ultimately show ?thesis using scr by blast
qed

section \<open>Decoding a clean frame\<close>

lemma extract_amplified:
  assumes mc: "mc \<in> set vlsnr_modcod_table"
  shows "dvbs2x_pilot_extract (map h (data_field mc bits)) (frame_layout mc) True =
    (map h (mapped_symbols mc bits), Some (replicate (lay_num_pilot (frame_layout mc)) (h pilot_symbol)), data_symbols mc)"
proof -
  obtain idx where idx: "dvbs2x_vlsnr_get_modcod idx = Some mc" by (rule table_lookup [OF mc])
  let ?L = "frame_layout mc"
  obtain m where m: "lay_is_pilot ?L = Some m" "length m = lay_field_len ?L" "lay_num_data ?L = data_symbols mc"
    by (rule frame_layout_fields [OF mc])
  have "dvbs2x_vlsnr_build_layout (\<lambda>_. True) mc = Inr ?L" by (simp add: build_layout_alloc)
  note e = extract_insert_field [OF idx this length_mapped_symbols [OF mc], of bits, folded data_field_def]
  have "length (take (lay_field_len ?L) m) \<le> length (data_field mc bits)"
    by (simp add: length_data_field [OF mc] m)
  from extract_loop_map [OF this, of h] e m show ?thesis
    by (auto simp: dvbs2x_pilot_extract_def split_beta)
qed

lemma amplified_third:
  assumes "3 / 4 \<le> r" "r \<le> 5 / 4" "\<And>z. z \<in> set xs \<Longrightarrow> corner z"
  shows "within_third (map (amplify (of_real r)) xs) xs"
proof -
  have b: "\<bar>r * x - x\<bar> \<le> M_SQRT1_2 / 3" if "\<bar>x\<bar> = M_SQRT1_2" for x
  proof -
    have r1: "\<bar>r - 1\<bar> \<le> 1 / 3" using assms(1,2) by (simp add: abs_if)
    have "\<bar>r * x - x\<bar> = \<bar>r - 1\<bar> * \<bar>x\<bar>" by (metis abs_mult left_diff_distrib mult_1)
    also have "\<dots> \<le> (1 / 3) * M_SQRT1_2" using r1 that M_pos by (intro mult_mono) simp_all
    finally show ?thesis by simp
  qed
  have "amplify (of_real r) z = \<lparr>re_i = r * re_i z, im_q = r * im_q z\<rparr>" for z
    by (simp add: amplify_def of_cx_def cx_def)
  then show ?thesis
    unfolding within_third_def list_all2_map1
    using b assms(3) by (intro list.rel_refl_strong) (simp add: corner_def)
qed

lemma noise_var_range:
  assumes r: "3 / 4 \<le> r" "r \<le> 5 / 4" and nv: "0 \<le> noise_var" "noise_var \<le> 1 / 15"
    and p: "pilots = replicate (lay_num_pilot lay) (amplify (of_real r) pilot_symbol)"
  shows "0 < demap_noise_var noise_var lay pilots 0 \<and> demap_noise_var noise_var lay pilots 0 \<le> 1 / 15"
proof -
  let ?n = "lay_num_pilot lay"
  define e where "e = (r * M_SQRT1_2_D - M_SQRT1_2_D) * (r * M_SQRT1_2_D - M_SQRT1_2_D)"
  have ps: "re_i (amplify (of_real r) pilot_symbol) = r * M_SQRT1_2_D" "im_q (amplify (of_real r) pilot_symbol) = r * M_SQRT1_2_D"
    by (simp_all add: amplify_def of_cx_def cx_def pilot_symbol_def M_SQRT1_2_D_def)
  have "foldl (\<lambda>acc pi. let di = re_i (pilots ! pi) - M_SQRT1_2_D; dq = im_q (pilots ! pi) - M_SQRT1_2_D
              in acc + (di * di + dq * dq)) 0 [0..<k] = real k * (2 * e)" if "k \<le> ?n" for k
    using that by (induction k) (simp_all add: p Let_def ps e_def algebra_simps)
  from this [OF le_refl] have s: "demap_noise_var noise_var lay pilots 0 =
      (if 0 < noise_var then noise_var else if ?n \<noteq> 0 then max e (1 / 10 ^ 4) else 1 / 10 ^ 4)"
    by (simp add: demap_noise_var_def Let_def max_def)
  have "\<bar>r - 1\<bar> * \<bar>r - 1\<bar> \<le> 1 / 4 * (1 / 4)"
    using r by (intro mult_mono) (simp_all add: abs_if)
  then have "(r - 1) * (r - 1) \<le> 1 / 4 * (1 / 4)" by (simp only: abs_mult_self_eq)
  moreover have "e = (r - 1) * (r - 1) * (M_SQRT1_2_D * M_SQRT1_2_D)" by (simp add: e_def algebra_simps)
  ultimately have "e \<le> 1 / 4 * (1 / 4) * (M_SQRT1_2_D * M_SQRT1_2_D)"
    by (simp add: mult_right_mono M_SQRT1_2_D_def)
  then have "e \<le> 1 / 15" by (simp add: M_SQRT1_2_D_def)
  then show ?thesis using s nv by auto
qed

lemma coded_bits_01:
  assumes mc: "mc \<in> set vlsnr_modcod_table" "dvbs2x_ldpc_encoder_init mc = Some enc" "bch_codec_ok mc bch"
    and bb: "length bbframe = mc_k_bch mc" "set bbframe \<subseteq> {0, 1}"
  shows "set (coded_bits mc bch enc bbframe) \<subseteq> {0, 1}"
proof -
  let ?info = "ldpc_information mc bch bbframe"
  note info = ldpc_information_ok [OF mc(1,3) bb]
  have code: "code_ok (enc_code enc)" "code_n (enc_code enc) = mc_fec_len mc" "code_k (enc_code enc) = mc_k_ldpc mc"
    using encoder_init_ok [OF mc(1)] mc(2) by auto
  have cw: "set (dvbs2x_ldpc_encode enc ?info) \<subseteq> {0, 1}" "length (dvbs2x_ldpc_encode enc ?info) = mc_fec_len mc"
    using encode_parity [OF code(1), of ?info] code info(1,2) table_chain(2) [OF mc(1)] by auto
  have per: "0 < mc_p_period mc" using table_chain(3) [OF mc(1)] by simp
  show ?thesis
    unfolding coded_bits_def shorten_puncture_def puncture_loop_filter [OF punct_inv_start per]
    using cw table_chain(2) [OF mc(1)] by (auto intro!: subsetD [OF cw(1)] nth_mem)
qed

lemma receive_field_clean:
  assumes mc: "mc \<in> set vlsnr_modcod_table" "dvbs2x_ldpc_encoder_init mc = Some enc" "bch_codec_ok mc bch"
    and dm: "decoder_cached (dm_ldpc_dec dm)" "gold_idx (dm_descrambler dm) = code"
      "dm_state dm = DVBS2X_DEMOD_SEARCH" "0 < dm_max_ldpc dm"
    and env: "\<And>n. env_alloc env n" "\<not> env_cancel env 0"
    and bb: "length bbframe = mc_k_bch mc" "set bbframe \<subseteq> {0, 1}"
    and c: "c \<noteq> 0" "3 / 4 \<le> norm (leveled c)" "norm (leveled c) \<le> 5 / 4"
    and nv: "0 \<le> noise_var" "noise_var \<le> 1 / 15"
    and work: "work = map (amplify c) (pl_frame mc code (coded_bits mc bch enc bbframe))"
  shows "\<exists>dm' seen. receive_field env dm work (length work) noise_var mc 92 (frame_layout mc) =
      Some (Inr (dvbs2x_bch_encode bch bbframe), dm', seen) \<and>
    dm_modcod dm' = dm_modcod dm \<and> dm_predicted_wh_start dm' = dm_predicted_wh_start dm \<and>
    st_modcod (dm_last_stats dm') = st_modcod (dm_last_stats dm)"
proof -
  let ?bits = "coded_bits mc bch enc bbframe" and ?h = "amplify (of_real (norm (leveled c)))"
  let ?L = "frame_layout mc"
  obtain work' scr where rec: "recover_field (env_alloc env) dm work (length work) mc 92 ?L =
      (work', 0, 120, dm\<lparr>dm_last_stats := (dm_last_stats dm)\<lparr>st_esn0_db := 120\<rparr>, dm_descrambler := scr\<rparr>)"
    and fld: "drop 990 work' = map ?h (data_field mc ?bits)"
    using recover_clean [OF mc(1) c(1) dm(2,3) work] by blast
  let ?dm = "dm\<lparr>dm_last_stats := (dm_last_stats dm)\<lparr>st_esn0_db := 120\<rparr>, dm_descrambler := scr\<rparr>"
  define pilots where "pilots = replicate (lay_num_pilot ?L) (?h pilot_symbol)"
  have ex: "dvbs2x_pilot_extract (drop (92 + DVBS2X_VLSNR_WH_LEN + 2) work') ?L True =
      (map ?h (mapped_symbols mc ?bits), Some pilots, data_symbols mc)"
    using extract_amplified [OF mc(1)] by (simp add: DVBS2X_VLSNR_WH_LEN_def fld pilots_def)
  define v where "v = demap_noise_var noise_var ?L pilots 0"
  have v: "0 < v" "v \<le> 1 / 15" using noise_var_range [OF c(2,3) nv pilots_def] by (simp_all add: v_def)
  have bits: "length ?bits = dvbs2x_tx_coded_bits mc" "set ?bits \<subseteq> {0, 1}"
    by (simp add: coded_bits_def length_shorten_puncture [OF mc(1)]) (rule coded_bits_01 [OF mc bb])
  note third = amplified_third [OF c(2,3) corner_mapped]
  define llr where "llr = demap_coded_bits mc (map ?h (mapped_symbols mc ?bits)) (data_symbols mc) v"
  note margin = demap_margin [OF mc(1) bits third v, folded llr_def]
  define deint where "deint = dvbs2x_deinterleave mc llr (replicate (mc_fec_len mc) 0)"
  have "deint ! j = llr ! j" if "j < dvbs2x_tx_coded_bits mc" for j
    using that margin(1) by (simp add: deint_def dvbs2x_deinterleave_def overwrite_def nth_append)
  then have d: "agrees 7 (?bits ! j) (deint ! j)" if "j < dvbs2x_tx_coded_bits mc" for j
    using margin(2) that by simp
  define limit where "limit = ldpc_iteration_limit (dm_max_ldpc dm) 120"
  have lim: "0 < limit" using dm(4) by (simp add: limit_def ldpc_iteration_limit_def HIGH_SNR_LDPC_ITER_def)
  obtain dec where dec: "decode_field env ?dm mc limit (depuncture mc deint) =
      Some (Inr (dvbs2x_bch_encode bch bbframe), ?dm\<lparr>dm_ldpc_dec := dec, dm_cancel_requested := env_cancelled env,
        dm_last_stats := (dm_last_stats ?dm)\<lparr>st_ldpc_iterations := 1\<rparr>, dm_bch_dec := dvbs2x_bch_decoder_init mc\<rparr>)"
    using decode_field_ok [of mc enc bch ?dm env limit bbframe deint, OF mc _ env lim bb d] dm(1) by auto
  show ?thesis
    unfolding receive_field_def Let_def rec prod.case ex option.sel v_def [symmetric] llr_def [symmetric] deint_def [symmetric]
    using env(1) dec by (simp add: limit_def)
qed

section \<open>The search\<close>

lemma full_conf_bounds: "9999 / 10000 \<le> full_conf\<^sup>2" "full_conf\<^sup>2 \<le> 1" "0.45 \<le> full_conf"
proof -
  show b: "9999 / 10000 \<le> full_conf\<^sup>2" "full_conf\<^sup>2 \<le> 1"
    unfolding full_conf(2) wh_amp_def by (simp_all add: power2_eq_square)
  have "(0.45 :: real)\<^sup>2 \<le> full_conf\<^sup>2" using b by (simp add: power2_eq_square)
  then show "0.45 \<le> full_conf" by (rule power2_le_imp_le) (use full_conf(1) in simp)
qed

lemma leveled_bounds:
  assumes "3 / 4 \<le> norm c \<and> norm c \<le> 5 / 4 \<or> norm c \<le> 1 / 5 \<or> 5 \<le> norm c" "c \<noteq> 0"
  shows "3 / 4 \<le> norm (leveled c)" "norm (leveled c) \<le> 5 / 4"
proof -
  let ?m = "norm c * full_conf\<^sup>2"
  have hi: "?m \<le> norm c" using full_conf_bounds(2) by (simp add: mult_left_le)
  have lo: "9999 / 10000 * norm c \<le> ?m"
    using full_conf_bounds(1) by (metis mult.commute mult_left_mono norm_ge_zero)
  have "3 / 4 \<le> norm (leveled c) \<and> norm (leveled c) \<le> 5 / 4"
  proof (cases "3 / 4 \<le> norm c \<and> norm c \<le> 5 / 4")
    case True
    then show ?thesis using hi lo by (simp add: leveled_def)
  next
    case False
    then have "\<not> (0.25 \<le> ?m \<and> ?m \<le> 4)" using assms(1) hi lo by auto
    then have "leveled c = c * of_real (1 / ?m)" unfolding leveled_def by (rule if_not_P)
    then have "norm (leveled c) = 1 / full_conf\<^sup>2"
      using assms(2) full_conf(1) by (simp add: norm_mult norm_divide norm_power)
    moreover have "1 \<le> 1 / full_conf\<^sup>2" "1 / full_conf\<^sup>2 \<le> 5 / 4"
      using full_conf_bounds full_conf(1) by (simp_all add: field_simps)
    ultimately show ?thesis by simp
  qed
  then show "3 / 4 \<le> norm (leveled c)" "norm (leveled c) \<le> 5 / 4" by simp_all
qed

lemma segment_header_amplify:
  assumes "segment_header (map (amplify c) xs) pos mc seg" "c \<noteq> 0" "pos + 896 \<le> length xs"
  shows "segment_header xs pos mc seg"
proof -
  obtain amp e where a: "0 < amp" "\<forall>k. norm (e k) = (1 :: real)"
    "\<forall>n<896. cx (map (amplify c) xs ! (pos + n)) = of_real amp * e (n div seg) * cx (do_sync_init ! mc ! n)"
    using assms(1) by (auto simp: segment_header_def)
  have "cx (xs ! (pos + n)) = of_real (amp / norm c) * (e (n div seg) / sgn c) * cx (do_sync_init ! mc ! n)" if "n < 896" for n
  proof -
    have "c * cx (xs ! (pos + n)) = of_real amp * e (n div seg) * cx (do_sync_init ! mc ! n)"
      using a(3) that assms(3) by auto
    moreover have "c = of_real (norm c) * sgn c" by (simp add: sgn_eq)
    ultimately show ?thesis using assms(2) by (simp add: field_simps sgn_zero_iff)
  qed
  then show ?thesis
    using a(1,2) assms(2) unfolding segment_header_def
    by (intro exI [of _ "amp / norm c"] exI [of _ "\<lambda>k. e k / sgn c"]) (simp add: norm_divide norm_sgn)
qed

text \<open>The search in a clean frame: the frame's own header, or that of a MODCOD of lower number.\<close>

lemma search_frame:
  assumes mc: "dvbs2x_vlsnr_get_modcod idx = Some mc" and c: "c \<noteq> 0" and mem: "\<And>n. env_alloc env n"
    and dm: "dm_state dm = DVBS2X_DEMOD_SEARCH"
    and work: "work = map (amplify c) (pl_frame mc code bits)"
  obtains "frame_search (env_alloc env) dm work (length work) = Some (full_conf, 92, idx)"
  | off m where "1 \<le> m" "m < idx" "segment_header (pl_frame mc code bits) off (m - 1) SYNC_SEG_LEN"
proof -
  let ?F = "pl_frame mc code bits" and ?n = "min (length work) (ACQ_WINDOW + DVBS2X_VLSNR_WH_LEN)"
  have tab: "mc \<in> set vlsnr_modcod_table" by (rule get_modcod_set [OF mc])
  have idx: "1 \<le> idx" "idx \<le> 9" using get_modcod_index [OF mc] by simp_all
  have fl: "lay_field_len (frame_layout mc) = (if mc_set mc = DVBS2X_VLSNR_SET1 then 32292 else 15696)"
    by (rule frame_layout_fields [OF tab])
  have len: "length work = 990 + lay_field_len (frame_layout mc)" by (simp add: work length_pl_frame [OF tab])
  have n: "?n = 4992" using len fl by (simp add: ACQ_WINDOW_def DVBS2X_VLSNR_WH_LEN_def)
  obtain conf off m where r: "dvbs2x_vlsnr_header_sync_mode (env_alloc env) work 4992 SYNC_SEG_LEN 0 = (conf, off, m)"
    by (rule prod_cases3)
  have at: "header_at work 92 idx c"
    using frame_parts(1) [OF tab] header_ref_sync [OF mc] len
    by (simp add: header_at_def work length_pl_frame [OF tab])
  have "c' = 0" if "pos' < 92" "header_at work pos' idx c'" for pos' c'
    using header_not_shifted [OF at c idx that(1) _ that(2)] by simp
  note lock = search_locks [OF _ _ mem _ _ _ r at c idx _ this]
  have seg: "0 < SYNC_SEG_LEN" "SYNC_SEG_LEN \<le> 896" by (simp_all add: SYNC_SEG_LEN_def)
  have l: "(4992 :: nat) \<le> length work" using len fl by simp
  have conf: "conf = full_conf" and res: "m = idx \<and> off = 92 \<or> 1 \<le> m \<and> m < idx \<and> off + 896 \<le> 4992 \<and>
      segment_header work off (m - 1) SYNC_SEG_LEN"
    using lock seg l by simp_all
  from res show ?thesis
  proof (elim disjE conjE)
    assume "m = idx" "off = 92"
    then have "frame_search (env_alloc env) dm work (length work) = Some (full_conf, 92, idx)"
      using r conf by (simp add: frame_search_def predicted_search_def dm n dvbs2x_vlsnr_header_sync_def)
    then show ?thesis by (rule that(1))
  next
    assume m: "1 \<le> m" "m < idx" and off: "off + 896 \<le> 4992" and h: "segment_header work off (m - 1) SYNC_SEG_LEN"
    have "off + 896 \<le> length ?F" using off l by (simp add: work)
    from that(2) [OF m segment_header_amplify [OF h [unfolded work] c this]] show ?thesis .
  qed
qed

section \<open>Receiving a BB frame and user data\<close>

text \<open>What the receiver relies on from one call to the next.\<close>

definition receiver_ready :: "nat \<Rightarrow> dvbs2x_demodulator \<Rightarrow> bool" where
  "receiver_ready code dm \<longleftrightarrow>
     gold_idx (dm_descrambler dm) = code \<and> decoder_cached (dm_ldpc_dec dm) \<and>
     0 < dm_max_ldpc dm \<and> dm_max_ldpc dm \<le> DVBS2X_LDPC_MAX_ITER"

lemma bbframe_clean:
  assumes mc: "dvbs2x_vlsnr_get_modcod idx = Some mc" "dvbs2x_ldpc_encoder_init mc = Some enc" "bch_codec_ok mc bch"
    and dm: "receiver_ready code dm" "dm_state dm = DVBS2X_DEMOD_SEARCH" "\<not> dm_cancel_requested dm"
    and env: "\<And>n. env_alloc env n" "\<not> env_cancel env 0"
    and bb: "length bbframe = mc_k_bch mc" "set bbframe \<subseteq> {0, 1}"
    and frame: "frame = pl_frame mc code (coded_bits mc bch enc bbframe)"
    and c: "1 / 10 ^ 5 \<le> norm c" "3 / 4 \<le> norm c \<and> norm c \<le> 5 / 4 \<or> norm c \<le> 1 / 5 \<or> 5 \<le> norm c"
    and f: "\<bar>f\<bar> < 1 / 8" and nv: "0 \<le> noise_var" "noise_var \<le> 1 / 15"
    and cap: "mc_k_bch mc \<le> cap"
  obtains dm' seen where
    "dvbs2x_demodulate_bbframe_symbols_ex env (Some dm) (Some (carrier_channel c f frame)) (length frame) noise_var
       (Some out) cap True =
     Some \<lparr>dmr_status = None, dmr_output = overwrite 0 bbframe out, dmr_len = Some (mc_k_bch mc),
           dmr_demod = Some dm', dmr_sink = seen\<rparr>" "dm_modcod dm' = Some mc"
  | off m where "1 \<le> m" "m < idx" "segment_header frame off (m - 1) SYNC_SEG_LEN"
proof -
  have tab: "mc \<in> set vlsnr_modcod_table" by (rule get_modcod_set [OF mc(1)])
  let ?L = "frame_layout mc"
  have fl: "lay_field_len ?L = (if mc_set mc = DVBS2X_VLSNR_SET1 then 32292 else 15696)"
    by (rule frame_layout_fields [OF tab])
  have len: "length frame = 990 + lay_field_len ?L" by (simp add: frame length_pl_frame [OF tab])
  have c0: "c \<noteq> 0" using c(1) by auto
  define dm1 where "dm1 = dm\<lparr>dm_last_stats := stats_zero\<lparr>st_result := Some ERR_NOSYNC\<rparr>\<rparr>"
  define work where "work = map (amplify c) frame"
  have lw: "length frame = length work" by (simp add: work_def)
  have "carrier_channel c 0 frame = work"
    by (intro nth_equalityI) (simp_all add: carrier_channel_nth work_def flip: cx_eq_iff)
  moreover have "coarse_blind_carrier (carrier_channel c f frame) (length frame) = carrier_channel c 0 frame"
    using corner_grid [OF corner_frame [OF tab] c(1)] len by (intro blind_carrier [OF f c0]) (auto simp: frame)
  ultimately have blind: "coarse_blind_carrier (carrier_channel c f frame) (length frame) = work" by simp
  have start: "dvbs2x_demodulate_bbframe_symbols_ex env (Some dm) (Some (carrier_channel c f frame)) (length frame)
      noise_var (Some out) cap True =
    (case frame_search (env_alloc env) dm1 work (length work) of
       None \<Rightarrow> None
     | Some found \<Rightarrow>
         (case frame_sync (env_alloc env) dm1 found (length work) of
            (Inl e, dm) \<Rightarrow> Some (finish_frame out cap (Inl e, dm, None))
          | (Inr (mc, wh_start, lay), dm) \<Rightarrow>
              map_option (finish_frame out cap) (receive_field env dm work (length work) noise_var mc wh_start lay)))"
  proof -
    have s: "take (length frame) (carrier_channel c f frame) = carrier_channel c f frame" by (simp add: carrier_channel_nth(2))
    have l: "\<not> length frame < DVBS2X_PLHEADER_LEN + DVBS2X_VLSNR_WH_LEN" using len by (simp add: const_defs)
    have st: "(dm_state dm1 \<noteq> DVBS2X_DEMOD_SEARCH \<and> P) = False" for P by (simp add: dm1_def dm(2))
    show ?thesis
      using dm(3) env(1) nv(1) l
      unfolding dvbs2x_demodulate_bbframe_symbols_ex_def Let_def prod.case option.case s dm1_def [symmetric] st if_False blind
      unfolding lw
      by (simp add: dm1_def)
  qed
  have st1: "dm_state dm1 = DVBS2X_DEMOD_SEARCH" by (simp add: dm1_def dm(2))
  from mc(1) c0 env(1) st1 work_def [unfolded frame]
  show ?thesis
  proof (cases rule: search_frame)
    case 1
    define dm2 where "dm2 = dm1\<lparr>dm_modcod := Some mc, dm_predicted_wh_start := 92, dm_have_wh_prediction := True,
        dm_last_stats := (dm_last_stats dm1)\<lparr>st_sync_confidence := full_conf, st_modcod := idx\<rparr>\<rparr>"
    have sync: "frame_sync (env_alloc env) dm1 (full_conf, 92, idx) (length work) = (Inr (mc, 92, ?L), dm2)"
      using full_conf_bounds(3) mc(1) env(1) len
      by (simp add: frame_sync_def Let_def build_layout_alloc dm2_def work_def DVBS2X_VLSNR_WH_LEN_def)
    have d2: "decoder_cached (dm_ldpc_dec dm2)" "gold_idx (dm_descrambler dm2) = code"
      "dm_state dm2 = DVBS2X_DEMOD_SEARCH" "0 < dm_max_ldpc dm2"
      using dm(1,2) by (simp_all add: dm2_def dm1_def receiver_ready_def)
    obtain dm' seen where rf: "receive_field env dm2 work (length work) noise_var mc 92 ?L =
        Some (Inr (dvbs2x_bch_encode bch bbframe), dm', seen)" "dm_modcod dm' = dm_modcod dm2"
      using receive_field_clean [OF tab mc(2,3) d2 env bb c0 leveled_bounds [OF c(2) c0] nv work_def [unfolded frame]] by blast
    have m: "dm_modcod dm' = Some mc" using rf(2) by (simp add: dm2_def)
    have bbf: "take (mc_k_bch mc) (dvbs2x_bch_encode bch bbframe) = bbframe"
      by (rule ldpc_information_ok(5) [OF tab mc(3) bb])
    show ?thesis
      by (rule that(1) [where dm' = "dm'\<lparr>dm_last_stats := (dm_last_stats dm')\<lparr>st_result := None\<rparr>\<rparr>" and seen = seen])
         (use cap in \<open>simp_all add: start 1 sync rf(1) finish_frame_def Let_def m bbf\<close>)
  next
    case (2 off m)
    then show ?thesis by (intro that(2)) (simp_all add: frame)
  qed
qed

end
