(* ===== verification/DemodKeeps.thy ===== *)
theory DemodKeeps
  imports Payload
begin

text \<open>
  What no call of the symbol-rate receiver of theory \<open>Demodulator\<close> changes, whatever its outcome: the lock state,
  the stream buffer, the code number and the sampling rate, with the two facts the next call relies on, that
  the LDPC decoder it may reuse was built by its initialisation and that the MODCOD named in the
  statistics is the one stored.  With it, what each outcome does to the caller's array.
\<close>

section \<open>The relation\<close>

definition modcod_known :: "dvbs2x_demodulator \<Rightarrow> bool" where
  "modcod_known dm \<longleftrightarrow> st_modcod (dm_last_stats dm) \<noteq> 0 \<longrightarrow>
     (\<exists>mc. dm_modcod dm = Some mc \<and> dvbs2x_vlsnr_get_modcod (st_modcod (dm_last_stats dm)) = Some mc)"

definition rx_kept :: "dvbs2x_demodulator \<Rightarrow> dvbs2x_demodulator \<Rightarrow> bool" where
  "rx_kept dm dm' \<longleftrightarrow>
     dm_state dm' = dm_state dm \<and> dm_successes dm' = dm_successes dm \<and> dm_failures dm' = dm_failures dm \<and>
     dm_max_ldpc dm' = dm_max_ldpc dm \<and> dm_expected_frame_len dm' = dm_expected_frame_len dm \<and>
     dm_stream_buf dm' = dm_stream_buf dm \<and> dm_stream_cap dm' = dm_stream_cap dm \<and>
     ts_sps (dm_timing dm') = ts_sps (dm_timing dm) \<and> gold_idx (dm_descrambler dm') = gold_idx (dm_descrambler dm) \<and>
     (decoder_cached (dm_ldpc_dec dm) \<longrightarrow> decoder_cached (dm_ldpc_dec dm')) \<and>
     (modcod_known dm \<longrightarrow> modcod_known dm')"

lemma rx_kept_refl [simp]: "rx_kept dm dm"
  by (simp add: rx_kept_def)

lemma rx_kept_trans [trans]: "rx_kept a b \<Longrightarrow> rx_kept b c \<Longrightarrow> rx_kept a c"
  by (simp add: rx_kept_def)

lemma gold_idx_descramble_field: "gold_idx (snd (dvbs2x_descramble_field scr xs n p q)) = gold_idx scr"
proof -
  have "gold_idx (((\<lambda>s. snd (dvbs2x_scrambler_next_rn s)) ^^ k) s) = gold_idx s" for k s
    by (induction k) (simp_all add: dvbs2x_scrambler_next_rn_def Let_def)
  then show ?thesis by (simp add: dvbs2x_descramble_field_def split_beta snd_stream_mapi)
qed

lemma gold_idx_reset: "gold_idx (dvbs2x_scrambler_reset scr) = gold_idx scr"
  by (simp add: dvbs2x_scrambler_reset_def dvbs2x_scrambler_init_def)

section \<open>The stages\<close>

lemma frame_sync_kept:
  assumes "frame_sync alloc dm found in_len = (r, dm')"
  shows "rx_kept dm dm'"
    and "r = Inr (mc, wh, lay) \<Longrightarrow> mc \<in> set vlsnr_modcod_table \<and> dm_modcod dm' = Some mc \<and>
           dvbs2x_vlsnr_get_modcod (st_modcod (dm_last_stats dm')) = Some mc"
  using assms
  by (auto simp: frame_sync_def Let_def split_beta rx_kept_def modcod_known_def get_modcod_set
      split: if_splits option.splits sum.splits)

lemma recover_field_kept:
  assumes "recover_field alloc dm work in_len mc wh lay = (work', nv, es, dm')"
  shows "rx_kept dm dm'" "dm_modcod dm' = dm_modcod dm"
    "st_modcod (dm_last_stats dm') = st_modcod (dm_last_stats dm)"
  using assms
  by (auto simp: recover_field_def Let_def split_beta rx_kept_def modcod_known_def gold_idx_descramble_field
      gold_idx_seek gold_idx_reset)

lemma cached_decoder_cached:
  assumes "mc \<in> set vlsnr_modcod_table" "cached_decoder alloc dec mc = Some dec'"
    and "decoder_cached dec"
  shows "decoder_cached dec'"
proof (cases "dvbs2x_ldpc_decoder_init alloc mc DVBS2X_LDPC_MAX_ITER = Some dec'")
  case True
  then show ?thesis using assms(1) by (auto simp: decoder_cached_def)
next
  case False
  then have "dec' = dec" using assms(2) by (simp add: cached_decoder_def split: if_splits)
  then show ?thesis using assms(3) by simp
qed

lemma decode_field_kept:
  assumes "decode_field env dm mc limit llr = Some (r, dm')" "mc \<in> set vlsnr_modcod_table"
  shows "rx_kept dm dm'" "dm_modcod dm' = dm_modcod dm"
    "st_modcod (dm_last_stats dm') = st_modcod (dm_last_stats dm)"
proof -
  have "decoder_cached (dvbs2x_ldpc_decoder_free dec)" for dec
    by (simp add: decoder_cached_def dvbs2x_ldpc_decoder_free_def)
  then show "rx_kept dm dm'" "dm_modcod dm' = dm_modcod dm"
    "st_modcod (dm_last_stats dm') = st_modcod (dm_last_stats dm)"
    using assms cached_decoder_cached [OF assms(2)]
    by (auto simp: decode_field_def Let_def split_beta rx_kept_def modcod_known_def
        split: option.splits if_splits)
qed

lemma receive_field_kept:
  assumes "receive_field env dm work in_len nv mc wh lay = Some (r, dm', seen)" "mc \<in> set vlsnr_modcod_table"
  shows "rx_kept dm dm' \<and> dm_modcod dm' = dm_modcod dm \<and>
    st_modcod (dm_last_stats dm') = st_modcod (dm_last_stats dm)"
proof -
  obtain work1 nv1 es dm1 where rec: "recover_field (env_alloc env) dm work in_len mc wh lay = (work1, nv1, es, dm1)"
    by (cases "recover_field (env_alloc env) dm work in_len mc wh lay")
  have "dm' = dm \<or> dm' = dm1 \<or> (\<exists>limit llr. decode_field env dm1 mc limit llr = Some (r, dm'))"
    using assms(1) by (auto simp: receive_field_def Let_def rec split_beta split: if_splits)
  then show ?thesis
    using recover_field_kept [OF rec] decode_field_kept [OF _ assms(2)] rx_kept_trans by auto
qed

section \<open>The entry points\<close>

text \<open>What a call leaves behind: nothing of what \<open>rx_kept\<close> names is changed; an error leaves the caller's array
  as it was; a success writes at most the number of entries it reports, which is within the
  capacity, and the MODCOD of the frame is stored.\<close>

definition old_data :: "u8 list option \<Rightarrow> u8 list" where
  "old_data out = (case out of Some b \<Rightarrow> b | None \<Rightarrow> [])"

definition rx_outcome :: "u8 list option \<Rightarrow> nat \<Rightarrow> dvbs2x_demodulator \<Rightarrow> demod_result \<Rightarrow> bool" where
  "rx_outcome out cap dm r \<longleftrightarrow>
     (\<exists>dm'. dmr_demod r = Some dm' \<and> rx_kept dm dm' \<and>
        (if dmr_status r = None
         then \<exists>n mc bits. dmr_len r = Some n \<and> n \<le> cap \<and> length bits \<le> n \<and>
                dmr_output r = overwrite 0 bits (old_data out) \<and> dm_modcod dm' = Some mc \<and>
                dvbs2x_vlsnr_get_modcod (st_modcod (dm_last_stats dm')) = Some mc
         else dmr_output r = old_data out))"

lemma rx_outcome_error [simp]:
  "rx_outcome out cap dm \<lparr>dmr_status = Some e, dmr_output = ys, dmr_len = n, dmr_demod = Some dm', dmr_sink = s\<rparr> \<longleftrightarrow>
     ys = old_data out \<and> rx_kept dm dm'"
  by (auto simp: rx_outcome_def)

lemma rx_kept_stats_zero [simp]: "rx_kept dm (dm\<lparr>dm_last_stats := stats_zero\<lparr>st_result := s\<rparr>\<rparr>)"
  by (simp add: rx_kept_def modcod_known_def stats_zero_def)

lemma rx_kept_stats:
  "rx_kept dm dm' \<Longrightarrow> rx_kept dm (dm'\<lparr>dm_last_stats := (dm_last_stats dm')\<lparr>st_result := s\<rparr>\<rparr>)"
  by (simp add: rx_kept_def modcod_known_def)

lemma finish_error:
  "rx_kept dm dm' \<Longrightarrow> rx_outcome (Some out) cap dm (finish_frame out c (Inl e, dm', seen))"
  by (simp add: finish_frame_def Let_def rx_outcome_def old_data_def rx_kept_stats)

lemma finish_ok:
  "rx_kept dm dm' \<Longrightarrow> dm_modcod dm' = Some mc \<Longrightarrow>
   dvbs2x_vlsnr_get_modcod (st_modcod (dm_last_stats dm')) = Some mc \<Longrightarrow>
   rx_outcome (Some out) cap dm (finish_frame out cap (Inr cw, dm', seen))"
  by (auto simp: finish_frame_def Let_def rx_outcome_def old_data_def rx_kept_stats
      intro!: exI [of _ "take (mc_k_bch mc) cw"])

lemma bbframe_symbols_outcome:
  assumes "dvbs2x_demodulate_bbframe_symbols_ex env (Some dm) inp in_len nv out cap ok = Some r"
  shows "rx_outcome out cap dm r"
proof -
  define dm1 where "dm1 = dm\<lparr>dm_last_stats := stats_zero\<lparr>st_result := Some ERR_NOSYNC\<rparr>\<rparr>"
  have k1: "rx_kept dm dm1" by (simp add: dm1_def rx_kept_def modcod_known_def stats_zero_def)
  have fin: "rx_outcome (Some o') cap dm r"
    if r: "(case frame_sync al dm1 found n of
        (Inl e, dm) \<Rightarrow> Some (finish_frame o' cap (Inl e, dm, None))
      | (Inr (mc, wh, lay), dm) \<Rightarrow>
          map_option (finish_frame o' cap) (receive_field env dm w n nv mc wh lay)) = Some r" for o' al found n w
  proof (cases "frame_sync al dm1 found n")
    case (Pair s dm2)
    have k2: "rx_kept dm dm2" using k1 frame_sync_kept(1) [OF Pair] by (rule rx_kept_trans)
    show ?thesis
    proof (cases s)
      case (Inl e)
      then show ?thesis using r Pair k2 by (auto intro: finish_error)
    next
      case (Inr t)
      obtain mc wh lay where t: "t = (mc, wh, lay)" by (cases t)
      note mc = frame_sync_kept(2) [OF Pair [unfolded Inr t] refl]
      from r obtain q dm3 seen where q: "receive_field env dm2 w n nv mc wh lay = Some (q, dm3, seen)"
        "r = finish_frame o' cap (q, dm3, seen)" using Pair Inr t by auto
      note k3 = receive_field_kept [OF q(1)]
      have "rx_kept dm dm3" using k2 k3 mc rx_kept_trans by blast
      then show ?thesis using q(2) k3 mc by (cases q) (auto intro: finish_error finish_ok)
    qed
  qed
  show ?thesis
    using assms fin
    unfolding dvbs2x_demodulate_bbframe_symbols_ex_def Let_def dm1_def
    by (auto simp: old_data_def split: if_splits option.splits)
qed

lemma take_writes: "\<exists>bits. length bits \<le> n \<and> overwrite 0 (take n xs) ys = overwrite 0 bits ys"
  by (rule exI [of _ "take n xs"]) simp

lemma parse_writes:
  assumes "p = dvbs2x_bb_frame_parse_ex ctx bb out cap ok"
  shows "if pr_status p = None
     then \<exists>n bits. pr_user_len p = Some n \<and> n \<le> cap \<and> length bits \<le> n \<and> pr_user_data p = overwrite 0 bits (old_data out)
     else pr_user_data p = old_data out"
  unfolding assms dvbs2x_bb_frame_parse_ex_def Let_def old_data_def
  by (auto split: option.split intro!: take_writes)

lemma rx_kept_bb_ctx [simp]: "rx_kept dm (dm'\<lparr>dm_bb_ctx := ctx\<rparr>) \<longleftrightarrow> rx_kept dm dm'"
  by (simp add: rx_kept_def modcod_known_def)

lemma symbols_outcome:
  assumes "dvbs2x_demodulate_symbols_ex env (Some dm) inp in_len nv out cap ok = Some r"
  shows "rx_outcome out cap dm r"
proof -
  have fin: "rx_outcome out cap dm r"
    if q: "dvbs2x_demodulate_bbframe_symbols_ex env (Some dm) inp in_len nv (Some tmp) c True = Some q"
      and r: "(case dmr_status q of
          Some e \<Rightarrow> Some \<lparr>dmr_status = Some e, dmr_output = old_data out, dmr_len = Some 0,
            dmr_demod = Some (the (dmr_demod q)), dmr_sink = dmr_sink q\<rparr>
        | None \<Rightarrow> (case dm_modcod (the (dmr_demod q)) of
             None \<Rightarrow> Some \<lparr>dmr_status = Some ERR_PARAM, dmr_output = old_data out, dmr_len = Some 0,
               dmr_demod = Some (the (dmr_demod q)), dmr_sink = dmr_sink q\<rparr>
           | Some mc \<Rightarrow>
               if the (dmr_len q) \<noteq> mc_k_bch mc
               then Some \<lparr>dmr_status = Some ERR_PARAM, dmr_output = old_data out, dmr_len = Some 0,
                 dmr_demod = Some (the (dmr_demod q)), dmr_sink = dmr_sink q\<rparr>
               else Some \<lparr>dmr_status = (case pr_status (p mc) of None \<Rightarrow> None | Some ERR_SHORT \<Rightarrow> Some ERR_SHORT
                                                            | Some _ \<Rightarrow> Some ERR_CRC),
                 dmr_output = pr_user_data (p mc), dmr_len = pr_user_len (p mc),
                 dmr_demod = Some (the (dmr_demod q)\<lparr>dm_bb_ctx := ctx mc\<rparr>), dmr_sink = dmr_sink q\<rparr>)) = Some r"
      and p: "\<And>mc. p mc = dvbs2x_bb_frame_parse_ex (Some (ctx mc)) (Some (dmr_output q)) out cap True" for q tmp c p ctx
  proof -
    obtain dm' where dm': "dmr_demod q = Some dm'" "rx_kept dm dm'"
      "dmr_status q = None \<longrightarrow> (\<exists>mc. dm_modcod dm' = Some mc \<and>
         dvbs2x_vlsnr_get_modcod (st_modcod (dm_last_stats dm')) = Some mc)"
      using bbframe_symbols_outcome [OF q] by (auto simp: rx_outcome_def split: if_splits)
    have w: "pr_status (p mc) = None \<Longrightarrow> \<exists>n bits. pr_user_len (p mc) = Some n \<and> n \<le> cap \<and> length bits \<le> n \<and>
          pr_user_data (p mc) = overwrite 0 bits (old_data out)"
      "pr_status (p mc) = Some e \<Longrightarrow> pr_user_data (p mc) = old_data out" for mc e
      using parse_writes [OF p, of mc] by (simp_all only: if_True if_False simp_thms option.distinct)
    show ?thesis
      using r dm' w
      by (auto simp: rx_outcome_def split: option.splits if_splits dvbs2x_error.splits)
  qed
  show ?thesis
    using assms fin
    unfolding dvbs2x_demodulate_symbols_ex_def Let_def old_data_def [symmetric]
    by (auto split: if_splits option.splits)
qed

lemma front_end_kept:
  assumes "front_end alloc dm inp in_len = Some s"
  shows "case s of Inl dm' \<Rightarrow> rx_kept dm dm' | Inr (_, dm') \<Rightarrow> rx_kept dm dm'"
  using assms
  by (auto simp: front_end_def Let_def split_beta rx_kept_def modcod_known_def dvbs2x_timing_sync_init_def
      split: if_splits option.splits)

lemma rx_outcome_trans: "rx_kept dm dm1 \<Longrightarrow> rx_outcome out cap dm1 r \<Longrightarrow> rx_outcome out cap dm r"
  by (auto simp: rx_outcome_def intro: rx_kept_trans)

lemma demodulate_outcome:
  assumes "dvbs2x_demodulate_ex env (Some dm) inp in_len out cap ok = Some r"
  shows "rx_outcome out cap dm r"
proof -
  have ok: "rx_outcome out cap dm r"
    if "front_end al dm x n = Some (Inr (sy, dm1))"
      "dvbs2x_demodulate_symbols_ex env (Some dm1) (Some sy) l 0 out cap True = Some r" for al x n sy dm1 l
    using front_end_kept [OF that(1)] symbols_outcome [OF that(2)] by (auto intro: rx_outcome_trans)
  have err: "rx_kept dm dm1" if "front_end al dm x n = Some (Inl dm1)" for al x n dm1
    using front_end_kept [OF that] by simp
  show ?thesis
    using assms ok err
    unfolding dvbs2x_demodulate_ex_def Let_def old_data_def [symmetric]
    by (auto split: if_splits option.splits sum.splits)
qed

lemma bbframe_outcome:
  assumes "dvbs2x_demodulate_bbframe_ex env (Some dm) inp in_len out cap ok = Some r"
  shows "rx_outcome out cap dm r"
proof -
  have ok: "rx_outcome out cap dm r"
    if "front_end al dm x n = Some (Inr (sy, dm1))"
      "dvbs2x_demodulate_bbframe_symbols_ex env (Some dm1) (Some sy) l 0 out cap True = Some r" for al x n sy dm1 l
    using front_end_kept [OF that(1)] bbframe_symbols_outcome [OF that(2)] by (auto intro: rx_outcome_trans)
  have err: "rx_kept dm dm1" if "front_end al dm x n = Some (Inl dm1)" for al x n dm1
    using front_end_kept [OF that] by simp
  show ?thesis
    using assms ok err
    unfolding dvbs2x_demodulate_bbframe_ex_def Let_def old_data_def [symmetric]
    by (auto split: if_splits option.splits sum.splits)
qed

end
