(* ===== verification/DemodStream.thy ===== *)
theory DemodStream
  imports Demodulator
begin

text \<open>
  The continuous mode of \<^verbatim>\<open>src/demodulator_top.c\<close>: the lock state machine and the stream buffer, whose
  used part is the list \<open>dm_stream_buf\<close>, so that \<^verbatim>\<open>stream_len\<close> is its length.  A result of \<open>None\<close> is
  an access outside an array, as in theory \<open>Demodulator\<close>, here also the removal of more samples than
  the buffer holds.  The lemmas are in the theories \<open>LockMachine\<close> and \<open>StreamSafe\<close>.
\<close>

section \<open>Lock management\<close>

definition dvbs2x_demod_lock_update :: "dvbs2x_demodulator \<Rightarrow> bool \<Rightarrow> dvbs2x_demodulator" where
  "dvbs2x_demod_lock_update dm success =
     (if success then
        let dm = dm\<lparr>dm_successes := (dm_successes dm + 1) mod 2 ^ 32, dm_failures := 0\<rparr>;
            dm = (if dm_state dm = DVBS2X_DEMOD_SEARCH then dm\<lparr>dm_state := DVBS2X_DEMOD_ACQUIRE\<rparr> else dm)
        in if dm_state dm = DVBS2X_DEMOD_ACQUIRE \<and> LOCK_THRESH \<le> dm_successes dm
           then dm\<lparr>dm_state := DVBS2X_DEMOD_TRACK\<rparr> else dm
      else
        let dm = dm\<lparr>dm_successes := 0, dm_failures := (dm_failures dm + 1) mod 2 ^ 32\<rparr>
        in if dm_state dm \<noteq> DVBS2X_DEMOD_TRACK \<or> dm_failures dm < LOSS_THRESH then dm
           else dm\<lparr>dm_state := DVBS2X_DEMOD_SEARCH, dm_failures := 0, dm_expected_frame_len := 0,
                   dm_have_wh_prediction := False, dm_afc := dvbs2x_afc_init 0.95\<rparr>)"

section \<open>The stream buffer\<close>

text \<open>The doubling loop; it is entered with a capacity above 0 only.\<close>

function grow_capacity :: "nat \<Rightarrow> nat \<Rightarrow> nat" where
  "grow_capacity need new_cap =
     (if 0 < new_cap \<and> new_cap < need
      then if UINT_MAX div 2 < new_cap then need else grow_capacity need (new_cap * 2)
      else new_cap)"
  by pat_completeness auto
termination by (relation "measure (\<lambda>(need, new_cap). need - new_cap)") auto

declare grow_capacity.simps [simp del]

text \<open>Appending the input: the error, or the context with the samples buffered.\<close>

definition stream_append ::
  "(nat \<Rightarrow> bool) \<Rightarrow> dvbs2x_demodulator \<Rightarrow> dvbs2x_complex list \<Rightarrow> nat \<Rightarrow> dvbs2x_error + dvbs2x_demodulator" where
  "stream_append alloc dm inp in_len =
     (let stream_len = length (dm_stream_buf dm)
      in if in_len = 0 then Inr dm
         else if UINT_MAX - stream_len < in_len then Inl ERR_PARAM
         else
           let new_cap = (if dm_stream_cap dm < stream_len + in_len
                          then grow_capacity (stream_len + in_len)
                                 (if dm_stream_cap dm \<noteq> 0 then dm_stream_cap dm else 4096)
                          else dm_stream_cap dm)
           in if dm_stream_cap dm < stream_len + in_len \<and> \<not> alloc (new_cap * 16) then Inl ERR_NOMEM
              else Inr (dm\<lparr>dm_stream_cap := new_cap, dm_stream_buf := dm_stream_buf dm @ take in_len inp\<rparr>))"

definition frame_geometry :: "(nat \<Rightarrow> bool) \<Rightarrow> dvbs2x_modcod \<Rightarrow> (nat \<times> nat) option" where
  "frame_geometry alloc mc =
     (case dvbs2x_vlsnr_build_layout alloc mc of
        Inl _ \<Rightarrow> None
      | Inr lay \<Rightarrow> Some (lay_num_data lay, lay_field_len lay))"

text \<open>After a decode: the length of the frame the receiver believes in, in samples, or 0.\<close>

definition note_frame_len :: "(nat \<Rightarrow> bool) \<Rightarrow> dvbs2x_demodulator \<Rightarrow> nat \<times> dvbs2x_demodulator" where
  "note_frame_len alloc dm =
     (if st_modcod (dm_last_stats dm) \<noteq> 0
      then (case frame_geometry alloc (the (dm_modcod dm)) of
              None \<Rightarrow> (0, dm)
            | Some (_, field_len) \<Rightarrow>
                let len = DVBS2X_PLHEADER_LEN + DVBS2X_VLSNR_HDR_LEN + field_len
                in (len * ts_sps (dm_timing dm), dm\<lparr>dm_expected_frame_len := len\<rparr>))
      else (0, dm))"

text \<open>How many samples the call gives up.\<close>

definition stream_advance :: "nat \<Rightarrow> nat \<Rightarrow> nat \<Rightarrow> nat" where
  "stream_advance frame_samples stream_len sps =
     (if frame_samples = 0 \<or> stream_len < frame_samples
      then let searched = min ((ACQ_WINDOW - DVBS2X_VLSNR_WH_LEN) * sps) stream_len
           in if searched \<noteq> 0 then searched else 1
      else frame_samples)"

record stream_result =
  sr_status :: "dvbs2x_error option"
  sr_output :: "u8 list"
  sr_len :: "nat option"
  sr_consumed :: "nat option"
  sr_demod :: "dvbs2x_demodulator option"
  sr_sink :: "dvbs2x_complex list option"

definition demodulate_stream_ex ::
  "rx_env \<Rightarrow> dvbs2x_demodulator option \<Rightarrow> dvbs2x_complex list option \<Rightarrow> nat \<Rightarrow> u8 list option \<Rightarrow> nat \<Rightarrow>
   bool \<Rightarrow> bool \<Rightarrow> bool \<Rightarrow> stream_result option" where
  "demodulate_stream_ex env demod input in_len output_p output_capacity len_ok consumed_ok return_bbframe =
     (let alloc = env_alloc env;
          leave = (\<lambda>e n c dm. Some \<lparr>sr_status = Some e, sr_output = (case output_p of Some b \<Rightarrow> b | None \<Rightarrow> []),
                                  sr_len = n, sr_consumed = c, sr_demod = dm, sr_sink = None\<rparr>)
      in case (demod, output_p) of
           (Some dm, Some out) \<Rightarrow>
             if \<not> len_ok \<or> \<not> consumed_ok \<or> in_len \<noteq> 0 \<and> input = None then leave ERR_PARAM None None demod
             else (case stream_append alloc dm (case input of Some i \<Rightarrow> i | None \<Rightarrow> []) in_len of
                 Inl e \<Rightarrow> leave e (Some 0) (Some 0) demod
               | Inr dm \<Rightarrow>
                   let stream_len = length (dm_stream_buf dm);
                       sps = ts_sps (dm_timing dm)
                   in if stream_len < DVBS2X_VLSNR_FRAME_SHORT * sps
                      then leave ERR_SHORT (Some 0) (Some in_len) (Some dm)
                      else if dm_expected_frame_len dm \<noteq> 0 \<and> stream_len < dm_expected_frame_len dm * sps
                      then leave ERR_SHORT (Some 0) (Some in_len) (Some dm)
                      else if UINT_MAX - flt_num_taps (dm_rx_filter dm) < stream_len
                      then leave ERR_PARAM (Some 0) (Some in_len) (Some dm)
                      else
                        let decode_len = stream_len + flt_num_taps (dm_rx_filter dm);
                            decode_buf = dm_stream_buf dm @ replicate (flt_num_taps (dm_rx_filter dm)) zero_sample
                        in if \<not> alloc (decode_len * 16) then leave ERR_NOMEM (Some 0) (Some in_len) (Some dm)
                           else (case (if return_bbframe
                                 then dvbs2x_demodulate_bbframe_ex env (Some dm) (Some decode_buf) decode_len
                                        (Some out) output_capacity True
                                 else dvbs2x_demodulate_ex env (Some dm) (Some decode_buf) decode_len
                                        (Some out) output_capacity True) of
                               None \<Rightarrow> None
                             | Some r \<Rightarrow>
                                 let finish = (\<lambda>dm. Some \<lparr>sr_status = dmr_status r, sr_output = dmr_output r,
                                       sr_len = dmr_len r, sr_consumed = Some in_len, sr_demod = Some dm,
                                       sr_sink = dmr_sink r\<rparr>);
                                     (frame_samples, dm) = note_frame_len alloc (the (dmr_demod r))
                                 in if dmr_status r = Some ERR_SHORT then finish dm
                                    else
                                      let dm = dvbs2x_demod_lock_update dm (dmr_status r = None);
                                          n = stream_advance frame_samples stream_len sps
                                      in if stream_len < n then None
                                         else finish (dm\<lparr>dm_stream_buf := drop n (dm_stream_buf dm)\<rparr>)))
         | _ \<Rightarrow> leave ERR_PARAM None None demod)"

definition dvbs2x_demodulate_stream_ex ::
  "rx_env \<Rightarrow> dvbs2x_demodulator option \<Rightarrow> dvbs2x_complex list option \<Rightarrow> nat \<Rightarrow> u8 list option \<Rightarrow> nat \<Rightarrow>
   bool \<Rightarrow> bool \<Rightarrow> stream_result option" where
  "dvbs2x_demodulate_stream_ex env demod input in_len user_data user_capacity len_ok consumed_ok =
     demodulate_stream_ex env demod input in_len user_data user_capacity len_ok consumed_ok False"

definition dvbs2x_demodulate_bbframe_stream_ex ::
  "rx_env \<Rightarrow> dvbs2x_demodulator option \<Rightarrow> dvbs2x_complex list option \<Rightarrow> nat \<Rightarrow> u8 list option \<Rightarrow> nat \<Rightarrow>
   bool \<Rightarrow> bool \<Rightarrow> stream_result option" where
  "dvbs2x_demodulate_bbframe_stream_ex env demod input in_len bbframe frame_capacity len_ok consumed_ok =
     demodulate_stream_ex env demod input in_len bbframe frame_capacity len_ok consumed_ok True"

definition dvbs2x_demodulate_stream ::
  "rx_env \<Rightarrow> dvbs2x_demodulator option \<Rightarrow> dvbs2x_complex list option \<Rightarrow> nat \<Rightarrow> u8 list option \<Rightarrow> bool \<Rightarrow>
   bool \<Rightarrow> stream_result option" where
  "dvbs2x_demodulate_stream env demod input in_len user_data len_ok consumed_ok =
     dvbs2x_demodulate_stream_ex env demod input in_len user_data UINT_MAX len_ok consumed_ok"

end
