(* ===== verification/StreamSafe.thy ===== *)
theory StreamSafe
  imports DemodKeeps DemodStream
begin

text \<open>
  The receiver between calls: the invariant that its initialisation establishes and that every
  call of \<^verbatim>\<open>src/demodulator_top.c\<close> keeps, and what a call of the continuous mode does to the stream
  buffer.
\<close>

section \<open>The buffer\<close>

lemma grow_capacity_bounds:
  assumes "0 < c" "need \<le> UINT_MAX" "c \<le> UINT_MAX"
  shows "need \<le> grow_capacity need c \<and> grow_capacity need c \<le> UINT_MAX"
  using assms
proof (induction need c rule: grow_capacity.induct)
  case (1 need c)
  show ?case
    using 1 by (subst (1 2) grow_capacity.simps) (auto simp: UINT_MAX_def)
qed

definition stream_ok :: "dvbs2x_demodulator \<Rightarrow> bool" where
  "stream_ok dm \<longleftrightarrow> length (dm_stream_buf dm) \<le> dm_stream_cap dm \<and> dm_stream_cap dm \<le> UINT_MAX \<and>
     2 \<le> ts_sps (dm_timing dm)"

lemma stream_append_buffer:
  assumes "stream_append alloc dm inp n = Inr dm'" "stream_ok dm"
  obtains c where "dm' = dm\<lparr>dm_stream_cap := c, dm_stream_buf := dm_stream_buf dm @ take n inp\<rparr>" "stream_ok dm'"
proof (cases "n = 0")
  case True
  then show ?thesis using assms that [of "dm_stream_cap dm"] by (simp add: stream_append_def)
next
  case False
  define c where "c = (if dm_stream_cap dm < length (dm_stream_buf dm) + n
      then grow_capacity (length (dm_stream_buf dm) + n) (if dm_stream_cap dm \<noteq> 0 then dm_stream_cap dm else 4096)
      else dm_stream_cap dm)"
  have u: "length (dm_stream_buf dm) + n \<le> UINT_MAX"
    and d: "dm' = dm\<lparr>dm_stream_cap := c, dm_stream_buf := dm_stream_buf dm @ take n inp\<rparr>"
    using assms False by (auto simp: stream_append_def Let_def c_def stream_ok_def split: if_splits)
  have "length (dm_stream_buf dm) + n \<le> c \<and> c \<le> UINT_MAX"
    using assms(2) u grow_capacity_bounds [OF _ u] by (auto simp: c_def stream_ok_def UINT_MAX_def)
  then show ?thesis using that [OF d] d assms(2) by (auto simp: stream_ok_def)
qed

lemma stream_advance_bounds:
  assumes "DVBS2X_VLSNR_FRAME_SHORT * sps \<le> len" "2 \<le> sps"
  shows "1 \<le> stream_advance fl len sps" "stream_advance fl len sps \<le> len"
    "stream_advance fl len sps = (if fl = 0 \<or> len < fl then (ACQ_WINDOW - DVBS2X_VLSNR_WH_LEN) * sps else fl)"
proof -
  have "(ACQ_WINDOW - DVBS2X_VLSNR_WH_LEN) * sps \<le> DVBS2X_VLSNR_FRAME_SHORT * sps"
    by (rule mult_le_mono1) (simp add: ACQ_WINDOW_def const_defs)
  then have s: "(ACQ_WINDOW - DVBS2X_VLSNR_WH_LEN) * sps \<le> len" using assms(1) by (rule order_trans)
  have p: "0 < (ACQ_WINDOW - DVBS2X_VLSNR_WH_LEN) * sps" using assms(2) by (simp add: ACQ_WINDOW_def const_defs)
  show "stream_advance fl len sps = (if fl = 0 \<or> len < fl then (ACQ_WINDOW - DVBS2X_VLSNR_WH_LEN) * sps else fl)"
    using s p by (simp add: stream_advance_def Let_def)
  then show "1 \<le> stream_advance fl len sps" "stream_advance fl len sps \<le> len" using s p by auto
qed

section \<open>The invariant\<close>

definition frame_len_ok :: "nat \<Rightarrow> bool" where
  "frame_len_ok n \<longleftrightarrow> n \<in> {0, DVBS2X_VLSNR_FRAME_SHORT, DVBS2X_VLSNR_FRAME_LONG}"

definition receiver_inv :: "nat \<Rightarrow> dvbs2x_demodulator \<Rightarrow> bool" where
  "receiver_inv code dm \<longleftrightarrow>
     gold_idx (dm_descrambler dm) = code \<and> decoder_cached (dm_ldpc_dec dm) \<and>
     0 < dm_max_ldpc dm \<and> dm_max_ldpc dm \<le> DVBS2X_LDPC_MAX_ITER \<and> modcod_known dm \<and> stream_ok dm \<and>
     frame_len_ok (dm_expected_frame_len dm) \<and>
     (if dm_state dm = DVBS2X_DEMOD_TRACK then dm_failures dm < LOSS_THRESH else dm_successes dm < LOCK_THRESH)"

lemma receiver_inv_kept: "rx_kept dm dm' \<Longrightarrow> receiver_inv code dm \<Longrightarrow> receiver_inv code dm'"
  by (auto simp: rx_kept_def receiver_inv_def stream_ok_def)

lemma receiver_inv_outcome:
  "rx_outcome out cap dm r \<Longrightarrow> receiver_inv code dm \<Longrightarrow> \<exists>dm'. dmr_demod r = Some dm' \<and> receiver_inv code dm'"
  by (auto simp: rx_outcome_def intro: receiver_inv_kept)

lemma lock_update_inv: "receiver_inv code dm \<Longrightarrow> receiver_inv code (dvbs2x_demod_lock_update dm ok)"
  by (cases "dm_state dm")
     (auto simp: receiver_inv_def dvbs2x_demod_lock_update_def Let_def LOCK_THRESH_def LOSS_THRESH_def
       modcod_known_def stream_ok_def frame_len_ok_def)

definition modcod_frame_len :: "dvbs2x_modcod \<Rightarrow> nat" where
  "modcod_frame_len mc =
     (if mc_set mc = DVBS2X_VLSNR_SET1 then DVBS2X_VLSNR_FRAME_LONG else DVBS2X_VLSNR_FRAME_SHORT)"

lemma geometry_of_modcod:
  assumes "mc \<in> set vlsnr_modcod_table" "frame_geometry alloc mc = Some (tx, fl)"
  shows "DVBS2X_PLHEADER_LEN + DVBS2X_VLSNR_HDR_LEN + fl = modcod_frame_len mc"
  by (rule frame_layout_fields [OF assms(1)])
     (use assms(2) in \<open>auto simp: frame_geometry_def build_layout_alloc modcod_frame_len_def const_defs split: if_splits\<close>)

lemma get_modcod_zero: "dvbs2x_vlsnr_get_modcod 0 = None"
  by (simp add: dvbs2x_vlsnr_get_modcod_def)

lemma note_frame_len_spec:
  assumes "modcod_known dm"
  shows "note_frame_len alloc dm = (0, dm) \<or>
    (\<exists>mc. dm_modcod dm = Some mc \<and> note_frame_len alloc dm =
       (modcod_frame_len mc * ts_sps (dm_timing dm), dm\<lparr>dm_expected_frame_len := modcod_frame_len mc\<rparr>))"
    "(\<And>n. alloc n) \<Longrightarrow> dvbs2x_vlsnr_get_modcod (st_modcod (dm_last_stats dm)) = Some mc \<Longrightarrow>
     note_frame_len alloc dm = (modcod_frame_len mc * ts_sps (dm_timing dm), dm\<lparr>dm_expected_frame_len := modcod_frame_len mc\<rparr>)"
proof -
  let ?m = "st_modcod (dm_last_stats dm)"
  have known: "note_frame_len alloc dm =
      (if frame_geometry alloc mc = None then (0, dm)
       else (modcod_frame_len mc * ts_sps (dm_timing dm), dm\<lparr>dm_expected_frame_len := modcod_frame_len mc\<rparr>))"
    if "?m \<noteq> 0" "dvbs2x_vlsnr_get_modcod ?m = Some mc" "dm_modcod dm = Some mc" for mc
    using that(1,3) geometry_of_modcod [OF get_modcod_set [OF that(2)], of alloc]
    by (cases "frame_geometry alloc mc") (auto simp: note_frame_len_def Let_def)
  show "note_frame_len alloc dm = (0, dm) \<or>
    (\<exists>mc. dm_modcod dm = Some mc \<and> note_frame_len alloc dm =
       (modcod_frame_len mc * ts_sps (dm_timing dm), dm\<lparr>dm_expected_frame_len := modcod_frame_len mc\<rparr>))"
  proof (cases "?m = 0")
    case True
    then show ?thesis by (simp add: note_frame_len_def)
  next
    case False
    then obtain mc where "dvbs2x_vlsnr_get_modcod ?m = Some mc" "dm_modcod dm = Some mc"
      using assms by (auto simp: modcod_known_def)
    then show ?thesis using known [OF False] by simp
  qed
  assume al: "\<And>n. alloc n" and mc: "dvbs2x_vlsnr_get_modcod ?m = Some mc"
  have "?m \<noteq> 0" using mc by (metis get_modcod_zero option.distinct(1))
  moreover have "dm_modcod dm = Some mc" using assms mc \<open>?m \<noteq> 0\<close> by (simp add: modcod_known_def)
  moreover have "frame_geometry alloc mc \<noteq> None" using al by (simp add: frame_geometry_def build_layout_alloc)
  ultimately show "note_frame_len alloc dm =
      (modcod_frame_len mc * ts_sps (dm_timing dm), dm\<lparr>dm_expected_frame_len := modcod_frame_len mc\<rparr>)"
    using known [OF _ mc] by auto
qed

lemma note_frame_len_inv:
  assumes "receiver_inv code dm" "note_frame_len alloc dm = (fs, dm')"
  shows "receiver_inv code dm'" "dm_stream_buf dm' = dm_stream_buf dm" "dm_timing dm' = dm_timing dm"
    "dm_modcod dm' = dm_modcod dm" "dm_stream_cap dm' = dm_stream_cap dm"
  using note_frame_len_spec(1) [of dm alloc] assms
  by (auto simp: receiver_inv_def frame_len_ok_def modcod_frame_len_def modcod_known_def stream_ok_def)

lemma lock_update_fields [simp]:
  "dm_stream_buf (dvbs2x_demod_lock_update dm ok) = dm_stream_buf dm"
  "dm_stream_cap (dvbs2x_demod_lock_update dm ok) = dm_stream_cap dm"
  "dm_modcod (dvbs2x_demod_lock_update dm ok) = dm_modcod dm"
  by (simp_all add: dvbs2x_demod_lock_update_def Let_def)

section \<open>A call of the continuous mode\<close>

lemma stream_cases:
  assumes "demodulate_stream_ex env (Some dm) input n outp cap lok cok bb = Some r"
  obtains (kept) e where "sr_demod r = Some dm" "sr_status r = Some e" "sr_output r = old_data outp"
      "e = ERR_PARAM \<or> e = ERR_NOMEM" "sr_consumed r = None \<or> sr_consumed r = Some 0"
  | (buffered) dm1 e where "stream_append (env_alloc env) dm (case input of Some i \<Rightarrow> i | None \<Rightarrow> []) n = Inr dm1"
      "sr_demod r = Some dm1" "sr_status r = Some e" "sr_output r = old_data outp"
      "e = ERR_SHORT \<or> e = ERR_PARAM \<or> e = ERR_NOMEM" "sr_consumed r = Some n"
  | (decoded) dm1 q fs dm2 where "stream_append (env_alloc env) dm (case input of Some i \<Rightarrow> i | None \<Rightarrow> []) n = Inr dm1"
      "DVBS2X_VLSNR_FRAME_SHORT * ts_sps (dm_timing dm1) \<le> length (dm_stream_buf dm1)"
      "rx_outcome outp cap dm1 q" "note_frame_len (env_alloc env) (the (dmr_demod q)) = (fs, dm2)"
      "sr_status r = dmr_status q" "sr_output r = dmr_output q" "sr_len r = dmr_len q" "sr_consumed r = Some n"
      "sr_demod r = Some (if dmr_status q = Some ERR_SHORT then dm2
         else (dvbs2x_demod_lock_update dm2 (dmr_status q = None))\<lparr>dm_stream_buf :=
           drop (stream_advance fs (length (dm_stream_buf dm1)) (ts_sps (dm_timing dm1))) (dm_stream_buf dm2)\<rparr>)"
proof (cases outp)
  case None
  then show ?thesis using assms kept by (auto simp: demodulate_stream_ex_def Let_def old_data_def)
next
  case out: (Some out)
  let ?inp = "case input of Some i \<Rightarrow> i | None \<Rightarrow> []"
  show ?thesis
  proof (cases "\<not> lok \<or> \<not> cok \<or> n \<noteq> 0 \<and> input = None")
    case True
    then show ?thesis using assms kept out by (auto simp: demodulate_stream_ex_def Let_def old_data_def)
  next
    case False
    note start = assms [unfolded demodulate_stream_ex_def Let_def out option.case prod.case if_not_P [OF False]]
    show ?thesis
    proof (cases "stream_append (env_alloc env) dm ?inp n")
      case (Inl e)
      moreover from Inl have "e = ERR_PARAM \<or> e = ERR_NOMEM"
        by (auto simp: stream_append_def Let_def split: if_splits)
      ultimately show ?thesis using start out by (intro kept [of e]) (auto simp: old_data_def)
    next
      case (Inr dm1)
      note start = start [unfolded Inr sum.case]
      show ?thesis
      proof (cases "length (dm_stream_buf dm1) < DVBS2X_VLSNR_FRAME_SHORT * ts_sps (dm_timing dm1)")
        case True
        then show ?thesis using start Inr out by (intro buffered [of dm1 ERR_SHORT]) (auto simp: old_data_def)
      next
        case long: False
        note start = start [unfolded if_not_P [OF long]]
        let ?len = "length (dm_stream_buf dm1)" and ?taps = "flt_num_taps (dm_rx_filter dm1)"
        let ?x = "dm_stream_buf dm1 @ replicate ?taps zero_sample"
        let ?call = "if bb then dvbs2x_demodulate_bbframe_ex env (Some dm1) (Some ?x) (?len + ?taps) (Some out) cap True
                     else dvbs2x_demodulate_ex env (Some dm1) (Some ?x) (?len + ?taps) (Some out) cap True"
        let ?early = "dm_expected_frame_len dm1 \<noteq> 0 \<and> ?len < dm_expected_frame_len dm1 * ts_sps (dm_timing dm1) \<or>
            UINT_MAX - ?taps < ?len \<or> \<not> env_alloc env ((?len + ?taps) * 16)"
        show ?thesis
        proof (cases ?early)
          case True
          then have "\<exists>e. (e = ERR_SHORT \<or> e = ERR_PARAM \<or> e = ERR_NOMEM) \<and>
              r = \<lparr>sr_status = Some e, sr_output = out, sr_len = Some 0, sr_consumed = Some n, sr_demod = Some dm1, sr_sink = None\<rparr>"
            using start by (auto split: if_splits)
          then show ?thesis using Inr out by (auto simp: old_data_def intro: buffered)
        next
          case False
          then obtain q where q: "?call = Some q" using start by (cases ?call) auto
          then have oc: "rx_outcome outp cap dm1 q"
            using bbframe_outcome demodulate_outcome by (cases bb) (auto simp: out)
          obtain fs dm2 where nf: "note_frame_len (env_alloc env) (the (dmr_demod q)) = (fs, dm2)"
            by (cases "note_frame_len (env_alloc env) (the (dmr_demod q))")
          show ?thesis
            using start False long
            by (intro decoded [OF Inr _ oc nf]) (auto simp: q nf split: if_splits)
        qed
      qed
    qed
  qed
qed

lemma receiver_inv_buffer:
  "receiver_inv code dm \<Longrightarrow> receiver_inv code (dm\<lparr>dm_stream_buf := drop k (dm_stream_buf dm)\<rparr>)"
  by (auto simp: receiver_inv_def stream_ok_def modcod_known_def)

lemma stream_append_inv:
  assumes "stream_append alloc dm inp n = Inr dm1" "receiver_inv code dm"
  shows "receiver_inv code dm1 \<and> dm_stream_buf dm1 = dm_stream_buf dm @ take n inp \<and> dm_timing dm1 = dm_timing dm"
proof -
  have "stream_ok dm" using assms(2) by (simp add: receiver_inv_def)
  with assms(1) obtain c where c: "dm1 = dm\<lparr>dm_stream_cap := c, dm_stream_buf := dm_stream_buf dm @ take n inp\<rparr>" "stream_ok dm1"
    by (rule stream_append_buffer)
  then show ?thesis using assms(2) by (auto simp: receiver_inv_def modcod_known_def)
qed

text \<open>One call: the invariant stays, and the buffer is a queue.\<close>

lemma stream_call:
  assumes "receiver_inv code dm" "demodulate_stream_ex env (Some dm) input n outp cap lok cok bb = Some r"
  shows "\<exists>dm' k. sr_demod r = Some dm' \<and> receiver_inv code dm' \<and>
    (let queue = dm_stream_buf dm @ (if sr_consumed r = Some n then take n (case input of Some i \<Rightarrow> i | None \<Rightarrow> []) else [])
     in dm_stream_buf dm' = drop k queue \<and> k \<le> length queue \<and>
        (sr_status r = Some ERR_SHORT \<longrightarrow> k = 0) \<and>
        (sr_status r \<in> {None, Some ERR_NOSYNC, Some ERR_CRC, Some ERR_CANCELLED} \<longrightarrow> 1 \<le> k) \<and>
        (sr_status r = None \<and> (\<forall>m. env_alloc env m) \<longrightarrow>
           (\<exists>mc. dm_modcod dm' = Some mc \<and> mc \<in> set vlsnr_modcod_table \<and>
              (let samples = modcod_frame_len mc * ts_sps (dm_timing dm)
               in k = (if samples \<le> length queue then samples
                       else (ACQ_WINDOW - DVBS2X_VLSNR_WH_LEN) * ts_sps (dm_timing dm)))))) \<and>
    (if sr_status r = None
     then \<exists>len bits. sr_len r = Some len \<and> len \<le> cap \<and> length bits \<le> len \<and> sr_output r = overwrite 0 bits (old_data outp)
     else sr_output r = old_data outp)"
  using assms(2)
proof (cases rule: stream_cases)
  case (kept e)
  show ?thesis
    by (rule exI [of _ dm], rule exI [of _ 0])
       (use assms(1) kept in \<open>cases "n = 0"; auto simp: Let_def\<close>)
next
  case (buffered dm1 e)
  show ?thesis
    by (rule exI [of _ dm1], rule exI [of _ 0])
       (use stream_append_inv [OF buffered(1) assms(1)] buffered in \<open>auto simp: Let_def\<close>)
next
  case (decoded dm1 q fs dm2)
  let ?inp = "case input of Some i \<Rightarrow> i | None \<Rightarrow> []"
  note app = stream_append_inv [OF decoded(1) assms(1)]
  obtain dq where dq: "dmr_demod q = Some dq" "rx_kept dm1 dq"
    using decoded(3) by (auto simp: rx_outcome_def)
  have inv: "receiver_inv code dq" using receiver_inv_kept [OF dq(2)] app by simp
  have known: "modcod_known dq" using inv by (simp add: receiver_inv_def)
  have nf: "note_frame_len (env_alloc env) dq = (fs, dm2)" using decoded(4) dq(1) by simp
  note n2 = note_frame_len_inv [OF inv nf]
  have b: "dm_stream_buf dq = dm_stream_buf dm1" "dm_stream_buf dm1 = dm_stream_buf dm @ take n ?inp"
    "ts_sps (dm_timing dq) = ts_sps (dm_timing dm)" "dm_timing dm1 = dm_timing dm"
    using dq(2) app by (simp_all add: rx_kept_def)
  have sps: "2 \<le> ts_sps (dm_timing dm)" using assms(1) by (simp add: receiver_inv_def stream_ok_def)
  have adv: "1 \<le> stream_advance fs (length (dm_stream_buf dm1)) (ts_sps (dm_timing dm))"
    "stream_advance fs (length (dm_stream_buf dm1)) (ts_sps (dm_timing dm)) \<le> length (dm_stream_buf dm1)"
    "stream_advance fs (length (dm_stream_buf dm1)) (ts_sps (dm_timing dm)) =
      (if fs = 0 \<or> length (dm_stream_buf dm1) < fs
       then (ACQ_WINDOW - DVBS2X_VLSNR_WH_LEN) * ts_sps (dm_timing dm) else fs)"
    using stream_advance_bounds [OF decoded(2)] sps by (simp_all add: b(4))
  have frame: "\<exists>mc. dm_modcod dm2 = Some mc \<and> mc \<in> set vlsnr_modcod_table \<and>
      fs = modcod_frame_len mc * ts_sps (dm_timing dm) \<and> fs \<noteq> 0"
    if st: "dmr_status q = None" and al: "\<And>m. env_alloc env m"
  proof -
    obtain mc where mc: "dm_modcod dq = Some mc" "dvbs2x_vlsnr_get_modcod (st_modcod (dm_last_stats dq)) = Some mc"
      using decoded(3) dq(1) st by (auto simp: rx_outcome_def)
    have "note_frame_len (env_alloc env) dq = (modcod_frame_len mc * ts_sps (dm_timing dq),
        dq\<lparr>dm_expected_frame_len := modcod_frame_len mc\<rparr>)"
      by (rule note_frame_len_spec(2) [OF known al mc(2)])
    then show ?thesis
      using nf mc n2(4) get_modcod_set [OF mc(2)] sps by (auto simp: b(3) modcod_frame_len_def const_defs)
  qed
  have out: "if sr_status r = None
     then \<exists>len bits. sr_len r = Some len \<and> len \<le> cap \<and> length bits \<le> len \<and> sr_output r = overwrite 0 bits (old_data outp)
     else sr_output r = old_data outp"
    using decoded(3) unfolding decoded(5-7) rx_outcome_def by (cases "dmr_status q = None") (simp_all, blast, auto)
  show ?thesis
  proof (cases "dmr_status q = Some ERR_SHORT")
    case True
    show ?thesis
      by (rule exI [of _ dm2], rule exI [of _ 0]) (use True decoded out n2 b in \<open>auto simp: Let_def\<close>)
  next
    case False
    define queue k where "queue = dm_stream_buf dm1" and "k = stream_advance fs (length queue) (ts_sps (dm_timing dm))"
    let ?d = "dvbs2x_demod_lock_update dm2 (dmr_status q = None)"
    have k: "1 \<le> k" "k \<le> length queue" using adv(1,2) by (simp_all add: queue_def k_def)
    have success: "\<exists>mc. dm_modcod dm2 = Some mc \<and> mc \<in> set vlsnr_modcod_table \<and>
        (let samples = modcod_frame_len mc * ts_sps (dm_timing dm)
         in k = (if samples \<le> length queue then samples else (ACQ_WINDOW - DVBS2X_VLSNR_WH_LEN) * ts_sps (dm_timing dm)))"
      if "sr_status r = None \<and> (\<forall>m. env_alloc env m)"
      using frame that decoded(5) adv(3) by (fastforce simp: queue_def k_def Let_def)
    have queue: "queue = dm_stream_buf dm @ (if sr_consumed r = Some n
        then take n (case input of Some i \<Rightarrow> i | None \<Rightarrow> []) else [])"
      using b(2) decoded(8) by (simp add: queue_def)
    have r: "sr_demod r = Some (?d\<lparr>dm_stream_buf := drop k queue\<rparr>)"
      using False decoded(9) n2(2) b by (simp add: queue_def k_def)
    have "receiver_inv code (?d\<lparr>dm_stream_buf := drop k (dm_stream_buf ?d)\<rparr>)"
      by (intro receiver_inv_buffer lock_update_inv n2(1))
    moreover have "dm_stream_buf ?d = queue" using n2(2) b by (simp add: queue_def)
    ultimately have inv: "receiver_inv code (?d\<lparr>dm_stream_buf := drop k queue\<rparr>)" by simp
    show ?thesis
      unfolding Let_def queue [symmetric]
      using r inv k success [unfolded Let_def] False decoded(5) out
      by (intro exI [of _ "?d\<lparr>dm_stream_buf := drop k queue\<rparr>"] exI [of _ k] conjI) simp_all
  qed
qed

section \<open>All calls\<close>

lemma demodulator_init_cases:
  "\<exists>st dm. dvbs2x_demodulator_init (Some d0) rolloff sps code = (st, Some dm) \<and>
     st = (if 2 \<le> sps \<and> sps \<le> 7 \<and> 0.05 \<le> rolloff \<and> rolloff \<le> 0.35 \<and> code \<le> DVBS2X_GOLD_CODE_MAX
           then None else Some ERR_PARAM) \<and>
     (st = None \<longrightarrow> receiver_inv code dm \<and> dm_state dm = DVBS2X_DEMOD_SEARCH \<and> dm_successes dm = 0 \<and>
        dm_stream_buf dm = [] \<and> \<not> dm_cancel_requested dm \<and> ts_sps (dm_timing dm) = sps)"
proof (cases "sps < 2 \<or> rolloff < 0.05 \<or> 0.35 < rolloff \<or> DVBS2X_GOLD_CODE_MAX < code")
  case True
  then show ?thesis by (auto simp: dvbs2x_demodulator_init_def)
next
  case False
  have "length (flt_coeffs (dm_rx_filter demodulator_zero)) = DVBS2X_FILTER_MAX_TAPS"
    by (simp add: demodulator_zero_def filter_zero_def)
  then obtain flt where flt: "dvbs2x_rrc_filter_init (Some (dm_rx_filter demodulator_zero)) rolloff sps 16 =
      (if sps \<le> 7 then 0 else -1, Some flt)"
    using rrc_init_status False by (metis not_less)
  define d1 where "d1 = demodulator_zero\<lparr>dm_rx_filter := flt\<rparr>"
  define d2 where "d2 = d1\<lparr>
      dm_timing := dvbs2x_timing_sync_init sps (1 / 10 ^ 3), dm_freq_coarse := dvbs2x_freq_coarse_init (1 / 10 ^ 4),
      dm_freq_fine := dvbs2x_freq_fine_init 4, dm_phase := dvbs2x_phase_est_init 0.3 True,
      dm_afc := dvbs2x_afc_init 0.95, dm_descrambler := dvbs2x_scrambler_init code,
      dm_successes := 0, dm_failures := 0, dm_max_ldpc := DVBS2X_LDPC_MAX_ITER\<rparr>"
  have init: "dvbs2x_demodulator_init (Some d0) rolloff sps code =
      (if sps \<le> 7 then (None, Some d2) else (Some ERR_PARAM, Some d1))"
    unfolding dvbs2x_demodulator_init_def Let_def option.case if_not_P [OF False] flt d2_def d1_def
    by simp
  have "receiver_inv code d2"
    using False
    by (simp add: d2_def d1_def receiver_inv_def demodulator_zero_def stream_ok_def modcod_known_def stats_zero_def
        frame_len_ok_def decoder_cached_def ldpc_decoder_zero_def dvbs2x_timing_sync_init_def
        dvbs2x_scrambler_init_def DVBS2X_LDPC_MAX_ITER_def LOCK_THRESH_def)
  moreover have "dm_state d2 = DVBS2X_DEMOD_SEARCH" "dm_successes d2 = 0" "dm_stream_buf d2 = []"
    "\<not> dm_cancel_requested d2" "ts_sps (dm_timing d2) = sps"
    by (simp_all add: d2_def d1_def demodulator_zero_def dvbs2x_timing_sync_init_def)
  ultimately show ?thesis using init False by (auto simp: not_less)
qed

inductive receiver_reaches :: "dvbs2x_demodulator \<Rightarrow> dvbs2x_demodulator \<Rightarrow> bool" for dm0 where
  start: "receiver_reaches dm0 dm0"
| bbframe_symbols: "receiver_reaches dm0 dm \<Longrightarrow>
     dvbs2x_demodulate_bbframe_symbols_ex env (Some dm) inp n nv out cap ok = Some r \<Longrightarrow> dmr_demod r = Some dm' \<Longrightarrow>
     receiver_reaches dm0 dm'"
| symbols: "receiver_reaches dm0 dm \<Longrightarrow>
     dvbs2x_demodulate_symbols_ex env (Some dm) inp n nv out cap ok = Some r \<Longrightarrow> dmr_demod r = Some dm' \<Longrightarrow>
     receiver_reaches dm0 dm'"
| bbframe: "receiver_reaches dm0 dm \<Longrightarrow>
     dvbs2x_demodulate_bbframe_ex env (Some dm) inp n out cap ok = Some r \<Longrightarrow> dmr_demod r = Some dm' \<Longrightarrow>
     receiver_reaches dm0 dm'"
| samples: "receiver_reaches dm0 dm \<Longrightarrow>
     dvbs2x_demodulate_ex env (Some dm) inp n out cap ok = Some r \<Longrightarrow> dmr_demod r = Some dm' \<Longrightarrow>
     receiver_reaches dm0 dm'"
| stream: "receiver_reaches dm0 dm \<Longrightarrow>
     dvbs2x_demodulate_stream_ex env (Some dm) inp n out cap ok cok = Some s \<Longrightarrow> sr_demod s = Some dm' \<Longrightarrow>
     receiver_reaches dm0 dm'"
| bbframe_stream: "receiver_reaches dm0 dm \<Longrightarrow>
     dvbs2x_demodulate_bbframe_stream_ex env (Some dm) inp n out cap ok cok = Some s \<Longrightarrow> sr_demod s = Some dm' \<Longrightarrow>
     receiver_reaches dm0 dm'"
| lock: "receiver_reaches dm0 dm \<Longrightarrow> receiver_reaches dm0 (dvbs2x_demod_lock_update dm success)"
| iterations: "receiver_reaches dm0 dm \<Longrightarrow>
     snd (dvbs2x_demodulator_set_max_ldpc_iterations (Some dm) k) = Some dm' \<Longrightarrow> receiver_reaches dm0 dm'"
| sink: "receiver_reaches dm0 dm \<Longrightarrow> dvbs2x_demodulator_set_symbol_sink (Some dm) f a = Some dm' \<Longrightarrow>
     receiver_reaches dm0 dm'"
| cancel: "receiver_reaches dm0 dm \<Longrightarrow> dvbs2x_demodulator_request_cancel (Some dm) = Some dm' \<Longrightarrow>
     receiver_reaches dm0 dm'"
| destroy: "receiver_reaches dm0 dm \<Longrightarrow> dvbs2x_demodulator_destroy (Some dm) = Some dm' \<Longrightarrow>
     receiver_reaches dm0 dm'"

lemma settings_inv:
  assumes "receiver_inv code dm"
  shows "snd (dvbs2x_demodulator_set_max_ldpc_iterations (Some dm) k) = Some dm' \<Longrightarrow> receiver_inv code dm'"
    "dvbs2x_demodulator_set_symbol_sink (Some dm) f a = Some dm' \<Longrightarrow> receiver_inv code dm'"
    "dvbs2x_demodulator_request_cancel (Some dm) = Some dm' \<Longrightarrow> receiver_inv code dm'"
    "dvbs2x_demodulator_destroy (Some dm) = Some dm' \<Longrightarrow> receiver_inv code dm'"
  using assms
  by (auto simp: dvbs2x_demodulator_set_max_ldpc_iterations_def dvbs2x_demodulator_set_symbol_sink_def
      dvbs2x_demodulator_request_cancel_def dvbs2x_demodulator_destroy_def dvbs2x_ldpc_decoder_free_def
      receiver_inv_def stream_ok_def modcod_known_def decoder_cached_def split: if_splits)

lemma receiver_inv_reaches: "receiver_reaches dm0 dm \<Longrightarrow> receiver_inv code dm0 \<Longrightarrow> receiver_inv code dm"
proof (induction rule: receiver_reaches.induct)
  case (bbframe_symbols dm env inp n nv out cap ok r dm')
  then show ?case using receiver_inv_outcome [OF bbframe_symbols_outcome] by fastforce
next
  case (symbols dm env inp n nv out cap ok r dm')
  then show ?case using receiver_inv_outcome [OF symbols_outcome] by fastforce
next
  case (bbframe dm env inp n out cap ok r dm')
  then show ?case using receiver_inv_outcome [OF bbframe_outcome] by fastforce
next
  case (samples dm env inp n out cap ok r dm')
  then show ?case using receiver_inv_outcome [OF demodulate_outcome] by fastforce
next
  case (stream dm env inp n out cap ok cok s dm')
  then show ?case using stream_call by (fastforce simp: dvbs2x_demodulate_stream_ex_def)
next
  case (bbframe_stream dm env inp n out cap ok cok s dm')
  then show ?case using stream_call by (fastforce simp: dvbs2x_demodulate_bbframe_stream_ex_def)
next
  case (iterations dm k dm')
  then show ?case using settings_inv(1) by blast
next
  case (sink dm f a dm')
  then show ?case using settings_inv(2) by blast
next
  case (cancel dm dm')
  then show ?case using settings_inv(3) by blast
next
  case (destroy dm dm')
  then show ?case using settings_inv(4) by blast
qed (simp_all add: lock_update_inv)

section \<open>Properties\<close>

text \<open>C5: whatever sequence of receiver calls follows a successful initialisation, with whatever arguments
  and outcomes, the stream buffer stays within its capacity, the LDPC decoder kept for reuse is one its own
  initialisation built, the iteration limit stays between 1 and the maximum, the descrambler
  keeps its Gold code, a MODCOD named in the statistics is the one stored, the frame length
  expected is one of the two of the standard, and the counter that decides the next change of the lock state
  is below its threshold.\<close>

theorem receiver_invariant:
  assumes "dvbs2x_demodulator_init (Some d0) rolloff sps code = (None, Some dm0)"
    and "receiver_reaches dm0 dm"
  shows "length (dm_stream_buf dm) \<le> dm_stream_cap dm \<and> dm_stream_cap dm \<le> UINT_MAX \<and>
    (dec_row_ptr (dm_ldpc_dec dm) = None \<or>
       (\<exists>alloc mc. mc \<in> set vlsnr_modcod_table \<and>
          dvbs2x_ldpc_decoder_init alloc mc DVBS2X_LDPC_MAX_ITER = Some (dm_ldpc_dec dm))) \<and>
    dm_max_ldpc dm \<in> {1..DVBS2X_LDPC_MAX_ITER} \<and>
    gold_idx (dm_descrambler dm) = code \<and>
    (st_modcod (dm_last_stats dm) \<noteq> 0 \<longrightarrow>
       dm_modcod dm \<noteq> None \<and> dm_modcod dm = dvbs2x_vlsnr_get_modcod (st_modcod (dm_last_stats dm))) \<and>
    dm_expected_frame_len dm \<in> {0, DVBS2X_VLSNR_FRAME_SHORT, DVBS2X_VLSNR_FRAME_LONG} \<and>
    (if dm_state dm = DVBS2X_DEMOD_TRACK then dm_failures dm < LOSS_THRESH else dm_successes dm < LOCK_THRESH)"
proof -
  have "receiver_inv code dm0"
    using demodulator_init_cases [of d0 rolloff sps code] assms(1) by (auto split: if_splits)
  then have "receiver_inv code dm" by (rule receiver_inv_reaches [OF assms(2)])
  then show ?thesis
    by (auto simp: receiver_inv_def stream_ok_def decoder_cached_def modcod_known_def frame_len_ok_def)
qed

lemma init_example:
  obtains dm where "dvbs2x_demodulator_init (Some demodulator_zero) 0.2 4 5 = (None, Some dm)"
    "receiver_inv 5 dm" "dm_state dm = DVBS2X_DEMOD_SEARCH" "dm_successes dm = 0" "dm_stream_buf dm = []"
    "\<not> dm_cancel_requested dm" "ts_sps (dm_timing dm) = 4"
  using demodulator_init_cases [of demodulator_zero "0.2" 4 5] by (auto simp: DVBS2X_GOLD_CODE_MAX_def)

theorem receiver_invariant_witness:
  "\<exists>dm0 dm. dvbs2x_demodulator_init (Some demodulator_zero) 0.2 4 5 = (None, Some dm0) \<and>
     dvbs2x_demodulator_request_cancel (Some dm0) = Some dm \<and> gold_idx (dm_descrambler dm) = 5"
proof -
  obtain dm0 where dm0: "dvbs2x_demodulator_init (Some demodulator_zero) 0.2 4 5 = (None, Some dm0)"
    by (rule init_example)
  obtain dm where dm: "dvbs2x_demodulator_request_cancel (Some dm0) = Some dm"
    by (simp add: dvbs2x_demodulator_request_cancel_def)
  from receiver_invariant [OF dm0 receiver_reaches.cancel [OF receiver_reaches.start dm]] show ?thesis
    using dm0 dm by auto
qed

text \<open>C4: one call of the continuous mode on a receiver in its invariant, whatever the samples, treats the
  buffer as a queue: what it keeps are the buffered samples followed by the new ones (if they were
  consumed), less some at the front.  None are given up while a frame is incomplete, at least
  one is after every decoding attempt that ended, so a search over noise always advances, and after a decoded
  frame, with enough memory, exactly the samples of that frame, or, when the buffer is shorter than
  that, those of the search window.  An error leaves the caller's array alone, and a success
  writes no more than the length reported, which is within the capacity.\<close>

theorem stream_buffer_queue:
  assumes "receiver_inv code dm" and "in_len \<le> length inp"
    and "dvbs2x_demodulate_stream_ex env (Some dm) (Some inp) in_len (Some out) cap True True = Some r"
  shows "\<exists>dm' k. sr_demod r = Some dm' \<and> receiver_inv code dm' \<and>
    (let queue = dm_stream_buf dm @ (if sr_consumed r = Some in_len then take in_len inp else [])
     in dm_stream_buf dm' = drop k queue \<and> k \<le> length queue \<and>
        (sr_status r = Some ERR_SHORT \<longrightarrow> k = 0) \<and>
        (sr_status r \<in> {None, Some ERR_NOSYNC, Some ERR_CRC, Some ERR_CANCELLED} \<longrightarrow> 1 \<le> k) \<and>
        (sr_status r = None \<and> (\<forall>m. env_alloc env m) \<longrightarrow>
           (\<exists>mc. dm_modcod dm' = Some mc \<and> mc \<in> set vlsnr_modcod_table \<and>
              (let samples = modcod_frame_len mc * ts_sps (dm_timing dm)
               in k = (if samples \<le> length queue then samples
                       else (ACQ_WINDOW - DVBS2X_VLSNR_WH_LEN) * ts_sps (dm_timing dm)))))) \<and>
    (if sr_status r = None
     then \<exists>len bits. sr_len r = Some len \<and> len \<le> cap \<and> length bits \<le> len \<and> sr_output r = overwrite 0 bits out
     else sr_output r = out)"
  using stream_call [OF assms(1) assms(3) [unfolded dvbs2x_demodulate_stream_ex_def]]
  unfolding old_data_def option.case .

theorem stream_buffer_queue_witness:
  "\<exists>dm r dm'. dvbs2x_demodulator_init (Some demodulator_zero) 0.2 4 5 = (None, Some dm) \<and>
     dvbs2x_demodulate_stream_ex \<lparr>env_alloc = \<lambda>_. True, env_cancel = \<lambda>_. False, env_cancelled = False\<rparr>
       (Some dm) (Some [zero_sample]) 1 (Some [7]) 8 True True = Some r \<and>
     sr_status r = Some ERR_SHORT \<and> sr_demod r = Some dm' \<and> dm_stream_buf dm' = [zero_sample] \<and> sr_output r = [7]"
proof -
  obtain dm where dm: "dvbs2x_demodulator_init (Some demodulator_zero) 0.2 4 5 = (None, Some dm)"
    "receiver_inv 5 dm" "dm_stream_buf dm = []" "ts_sps (dm_timing dm) = 4" by (rule init_example)
  let ?env = "\<lparr>env_alloc = \<lambda>_. True, env_cancel = \<lambda>_. False, env_cancelled = False\<rparr>"
  obtain r where r: "dvbs2x_demodulate_stream_ex ?env (Some dm) (Some [zero_sample]) 1 (Some [7]) 8 True True = Some r"
    "sr_status r = Some ERR_SHORT" "sr_consumed r = Some 1"
    using dm(3,4)
    by (simp add: dvbs2x_demodulate_stream_ex_def demodulate_stream_ex_def stream_append_def Let_def UINT_MAX_def
        DVBS2X_VLSNR_FRAME_SHORT_def)
  from stream_buffer_queue [OF dm(2) _ r(1)] show ?thesis
    using dm(1,3) r by (auto simp: Let_def)
qed

end
