(* ===== verification/EndToEnd.thy ===== *)
theory EndToEnd
  imports Receiver StreamSafe
begin

text \<open>
  The transmitter and the receiver together: a frame of \<^verbatim>\<open>dvbs2x_modulate_symbols_ex\<close> received by
  \<^verbatim>\<open>dvbs2x_demodulate_symbols_ex\<close>.
\<close>

lemma receiver_inv_ready: "receiver_inv code dm \<Longrightarrow> receiver_ready code dm"
  by (simp add: receiver_inv_def receiver_ready_def)

lemma frame_of_symbols:
  assumes "modulator_ready mc code md" "n \<le> mc_k_bch mc - 80" "n \<le> length data" "set data \<subseteq> {0, 1}"
    and "mcap \<le> length sy" "tx = dvbs2x_modulate_symbols_ex alloc (Some md) (Some data) n (Some sy) mcap True"
    and "mr_status tx = None"
  shows "take (the (mr_len tx)) (mr_output tx) = pl_frame mc code (user_bits mc md data n)"
    "the (mr_len tx) = length (pl_frame mc code (user_bits mc md data n))"
proof -
  have mc: "mc \<in> set vlsnr_modcod_table" using assms(1) by (simp add: modulator_ready_def)
  let ?f = "pl_frame mc code (user_bits mc md data n)"
  have len: "length ?f = 990 + lay_field_len (frame_layout mc)" by (rule length_pl_frame [OF mc])
  from assms(1,5,2-4) refl assms(6)
  have "990 + lay_field_len (frame_layout mc) \<le> mcap \<and>
      mr_output tx = overwrite 0 ?f sy \<and> mr_len tx = Some (990 + lay_field_len (frame_layout mc))"
    by (rule symbols_result) (use assms(7) in auto)
  then show "take (the (mr_len tx)) (mr_output tx) = ?f" "the (mr_len tx) = length ?f"
    by (simp_all add: overwrite_def len)
qed



end
