(* ===== verification/LockMachine.thy ===== *)
theory LockMachine
  imports DemodStream "HOL-Library.Sublist"
begin

text \<open>
  The lock state machine of theory \<open>DemodStream\<close> over a history of frame outcomes: \<open>locked_by\<close> says of a history
  whether a receiver should be tracking at its end, without a state; \<open>lock_inv\<close> relates
  the counters of the code to it.
\<close>

definition locked_by :: "bool list \<Rightarrow> bool" where
  "locked_by oks \<longleftrightarrow> (\<exists>pre mid. oks = pre @ [True, True, True] @ mid \<and> \<not> sublist [False, False, False] mid)"

definition run_of :: "bool \<Rightarrow> bool list \<Rightarrow> nat" where
  "run_of b oks = length (takeWhile (\<lambda>x. x = b) (rev oks))"

lemma run_of_simps [simp]:
  "run_of b [] = 0"
  "run_of b (oks @ [x]) = (if x = b then Suc (run_of b oks) else 0)"
  by (simp_all add: run_of_def)

lemma run_of_suffix: "n \<le> run_of b oks \<longleftrightarrow> suffix (replicate n b) oks"
proof (induction oks arbitrary: n rule: rev_induct)
  case Nil
  then show ?case by auto
next
  case (snoc x oks)
  have "replicate (Suc m) b = replicate m b @ [b]" for m by (simp flip: replicate_append_same)
  then show ?case using snoc.IH by (cases n) auto
qed

lemma suffix_three: "3 \<le> run_of b oks \<longleftrightarrow> suffix [b, b, b] oks" "2 \<le> run_of b oks \<longleftrightarrow> suffix [b, b] oks"
  by (simp_all add: run_of_suffix numeral_eq_Suc)

lemma not_locked_Nil: "\<not> locked_by []"
  by (simp add: locked_by_def)

lemma locked_by_success: "locked_by (oks @ [True]) \<longleftrightarrow> locked_by oks \<or> 2 \<le> run_of True oks"
proof
  assume "locked_by (oks @ [True])"
  then obtain pre mid where *: "oks @ [True] = pre @ [True, True, True] @ mid" "\<not> sublist [False, False, False] mid"
    by (auto simp: locked_by_def)
  show "locked_by oks \<or> 2 \<le> run_of True oks"
  proof (cases mid rule: rev_cases)
    case Nil
    then show ?thesis using * by (auto simp: suffix_three suffix_def)
  next
    case (snoc m x)
    then have "oks = pre @ [True, True, True] @ m" "\<not> sublist [False, False, False] m"
      using * by (auto simp: sublist_snoc)
    then show ?thesis by (auto simp: locked_by_def)
  qed
next
  assume "locked_by oks \<or> 2 \<le> run_of True oks"
  then show "locked_by (oks @ [True])"
  proof
    assume "locked_by oks"
    then obtain pre mid where "oks = pre @ [True, True, True] @ mid" "\<not> sublist [False, False, False] mid"
      by (auto simp: locked_by_def)
    then show ?thesis
      unfolding locked_by_def
      by (intro exI [of _ pre] exI [of _ "mid @ [True]"]) (auto simp: sublist_snoc suffix_def)
  next
    assume "2 \<le> run_of True oks"
    then obtain pre where "oks = pre @ [True, True]" by (auto simp: suffix_three suffix_def)
    then show ?thesis unfolding locked_by_def by (intro exI [of _ pre] exI [of _ "[]"]) simp
  qed
qed

lemma locked_by_failure: "locked_by (oks @ [False]) \<longleftrightarrow> locked_by oks \<and> run_of False oks < 2"
proof
  assume "locked_by (oks @ [False])"
  then obtain pre mid where *: "oks @ [False] = pre @ [True, True, True] @ mid" "\<not> sublist [False, False, False] mid"
    by (auto simp: locked_by_def)
  then obtain m where m: "mid = m @ [False]" "oks = pre @ [True, True, True] @ m"
    by (cases mid rule: rev_cases) auto
  have r: "run_of False oks = run_of False m"
    by (simp add: m run_of_def takeWhile_tail)
  have "\<not> 2 \<le> run_of False m"
    using *(2) by (auto simp: m suffix_three suffix_def)
  moreover have "\<not> sublist [False, False, False] m"
    using *(2) m by (auto simp: sublist_snoc)
  ultimately show "locked_by oks \<and> run_of False oks < 2"
    using m(2) r by (auto simp: locked_by_def)
next
  assume "locked_by oks \<and> run_of False oks < 2"
  then obtain pre mid where *: "oks = pre @ [True, True, True] @ mid" "\<not> sublist [False, False, False] mid"
      "run_of False oks < 2"
    by (auto simp: locked_by_def)
  have "run_of False oks = run_of False mid"
    by (simp add: * run_of_def takeWhile_tail)
  then have "\<not> suffix [False, False] mid" using *(3) suffix_three(2) [of False mid] by simp
  then have "\<not> sublist [False, False, False] (mid @ [False])"
    using *(2) by (auto simp: sublist_snoc suffix_def)
  then show "locked_by (oks @ [False])"
    unfolding locked_by_def using * by (intro exI [of _ pre] exI [of _ "mid @ [False]"]) simp
qed

text \<open>What the counters hold after a history of outcomes.\<close>

definition lock_inv :: "bool list \<Rightarrow> dvbs2x_demodulator \<Rightarrow> bool" where
  "lock_inv oks dm \<longleftrightarrow>
     (dm_state dm = DVBS2X_DEMOD_TRACK \<longleftrightarrow> locked_by oks) \<and>
     (dm_state dm = DVBS2X_DEMOD_TRACK \<longrightarrow> dm_failures dm = run_of False oks \<and> dm_failures dm < LOSS_THRESH) \<and>
     (dm_state dm \<noteq> DVBS2X_DEMOD_TRACK \<longrightarrow> dm_successes dm = run_of True oks \<and> dm_successes dm < LOCK_THRESH)"

lemma lock_inv_step:
  assumes "lock_inv oks dm"
  shows "lock_inv (oks @ [ok]) (dvbs2x_demod_lock_update dm ok)"
  using assms
  by (cases ok; cases "dm_state dm")
     (auto simp: lock_inv_def dvbs2x_demod_lock_update_def Let_def LOCK_THRESH_def LOSS_THRESH_def locked_by_success
       locked_by_failure)

lemma lock_inv_run:
  assumes "dm_state dm = DVBS2X_DEMOD_SEARCH" "dm_successes dm = 0"
  shows "lock_inv oks (foldl dvbs2x_demod_lock_update dm oks)"
proof (induction oks rule: rev_induct)
  case Nil
  show ?case using assms by (simp add: lock_inv_def not_locked_Nil LOCK_THRESH_def)
next
  case (snoc ok oks)
  then show ?case using lock_inv_step by simp
qed

text \<open>C6: the lock state machine follows its specification over every history of frame outcomes: the receiver
  tracks exactly when three successes in a row occurred with no three failures in a row since.  The
  counters are 32-bit, but whichever of them decides the next step is below its threshold, so it never wraps.  When
  the receiver gives up tracking it forgets what it had learnt: the frame length, the predicted
  header position and the frequency estimate.\<close>

theorem lock_state_machine:
  assumes "dm_state dm0 = DVBS2X_DEMOD_SEARCH" and "dm_successes dm0 = 0"
    and "dm = foldl dvbs2x_demod_lock_update dm0 oks"
  shows "(dm_state dm = DVBS2X_DEMOD_TRACK \<longleftrightarrow>
      (\<exists>pre mid. oks = pre @ [True, True, True] @ mid \<and> \<not> sublist [False, False, False] mid)) \<and>
    (if dm_state dm = DVBS2X_DEMOD_TRACK then dm_failures dm = run_of False oks \<and> dm_failures dm < LOSS_THRESH
     else dm_successes dm = run_of True oks \<and> dm_successes dm < LOCK_THRESH) \<and>
    (let dm' = dvbs2x_demod_lock_update dm ok
     in dm_state dm = DVBS2X_DEMOD_TRACK \<and> dm_state dm' \<noteq> DVBS2X_DEMOD_TRACK \<longrightarrow>
        \<not> ok \<and> dm_state dm' = DVBS2X_DEMOD_SEARCH \<and> dm_expected_frame_len dm' = 0 \<and>
        \<not> dm_have_wh_prediction dm' \<and> dm_afc dm' = dvbs2x_afc_init 0.95)"
proof -
  have "lock_inv oks dm" using lock_inv_run [OF assms(1,2)] by (simp add: assms(3))
  moreover have "let dm' = dvbs2x_demod_lock_update dm ok
     in dm_state dm = DVBS2X_DEMOD_TRACK \<and> dm_state dm' \<noteq> DVBS2X_DEMOD_TRACK \<longrightarrow>
        \<not> ok \<and> dm_state dm' = DVBS2X_DEMOD_SEARCH \<and> dm_expected_frame_len dm' = 0 \<and>
        \<not> dm_have_wh_prediction dm' \<and> dm_afc dm' = dvbs2x_afc_init 0.95"
    by (auto simp: dvbs2x_demod_lock_update_def Let_def)
  ultimately show ?thesis unfolding lock_inv_def locked_by_def by (cases "dm_state dm = DVBS2X_DEMOD_TRACK") simp_all
qed

theorem lock_state_machine_witness:
  "dm_state (foldl dvbs2x_demod_lock_update demodulator_zero [True, False, True, True, True, False, False]) =
     DVBS2X_DEMOD_TRACK"
proof -
  let ?oks = "[True, False, True, True, True, False, False]"
  have oks: "?oks = [True, False] @ [True, True, True] @ [False, False]" "\<not> sublist [False, False, False] [False, False]"
    by (simp_all add: sublist_code)
  have zero: "dm_state demodulator_zero = DVBS2X_DEMOD_SEARCH" "dm_successes demodulator_zero = 0"
    by (simp_all add: demodulator_zero_def)
  from lock_state_machine [OF zero refl, THEN conjunct1, THEN iffD2, of ?oks] oks show ?thesis by blast
qed

end
