(* ===== verification/TimingLimits.thy ===== *)
theory TimingLimits
  imports Timing
begin

text \<open>
  How far the resampling loop of theory \<open>Timing\<close> runs.  Over a silent signal the Gardner loop has nothing to
  correct, so that the number of symbols written is a function of the offset and the drift alone; and one
  sample that is large between two small symbols moves the loop out of the input array.
\<close>

section \<open>Silence\<close>

lemma cubic_interp_silent:
  assumes "0 \<le> pos" "pos < real n"
  shows "cubic_interp (replicate n zero_sample) n pos = Some zero_sample"
proof -
  let ?x = "replicate n zero_sample"
  define i where "i = \<lfloor>pos\<rfloor>"
  have i: "0 \<le> i" "i < int n" using assms by (simp_all add: i_def floor_less_iff)
  have at: "sample_at ?x j = Some zero_sample" if "0 \<le> j" "j < int n" for j
    using that by (simp add: sample_at_def nat_less_iff)
  have "sample_at ?x (if i - 1 < 0 then 0 else i - 1) = Some zero_sample"
    "sample_at ?x (if i < 0 then 0 else i) = Some zero_sample"
    "sample_at ?x (if int n \<le> i + 1 then int n - 1 else i + 1) = Some zero_sample"
    "sample_at ?x (if int n \<le> i + 2 then int n - 1 else i + 2) = Some zero_sample"
    using i by (intro at; auto split: if_splits)+
  then show ?thesis
    unfolding cubic_interp_def Let_def i_def [symmetric] by (simp only: option.case prod.case) (simp add: zero_sample_def)
qed

lemma timing_loop_silent:
  assumes "0 < omega" "0 \<le> pos" "pos + 2 < real n" "0 \<le> max_int"
  shows "timing_loop (replicate n zero_sample) n omega max_int pos omega 0 zero_sample out =
    Some (out @ replicate (nat (\<lceil>(real n - 2 - pos) / omega\<rceil> - 1)) zero_sample)"
  using assms
proof (induction "nat \<lceil>(real n - 2 - pos) / omega\<rceil>" arbitrary: pos out rule: less_induct)
  case less
  let ?c = "\<lambda>p. \<lceil>(real n - 2 - p) / omega\<rceil>"
  have split: "(real n - 2 - (pos + omega)) / omega = (real n - 2 - pos) / omega - 1"
    using less.prems(1) by (simp add: field_simps)
  then have step: "?c (pos + omega) = ?c pos - 1" by simp
  show ?case
  proof (cases "real n \<le> pos + omega + 2")
    case True
    then have "0 < (real n - 2 - pos) / omega" "(real n - 2 - pos) / omega \<le> 1" using less.prems by simp_all
    then have "?c pos = 1" by (simp add: ceiling_eq_iff)
    then show ?thesis using True by (subst timing_loop.simps) simp
  next
    case False
    have i: "cubic_interp (replicate n zero_sample) n (pos + omega / 2) = Some zero_sample"
      "cubic_interp (replicate n zero_sample) n (pos + omega) = Some zero_sample"
      using less.prems(1,2) False by (intro cubic_interp_silent; simp)+
    have "0 < ?c (pos + omega)" using less.prems(1) False by simp
    moreover have "nat (c - 1) = Suc (nat (c - 1 - 1))" "nat (c - 1) < nat c" if "0 < c - 1" for c :: int
      using that by linarith+
    ultimately have n: "nat (?c pos - 1) = Suc (nat (?c (pos + omega) - 1))" "nat (?c (pos + omega)) < nat (?c pos)"
      unfolding step by blast+
    have "timing_loop (replicate n zero_sample) n omega max_int pos omega 0 zero_sample out =
        timing_loop (replicate n zero_sample) n omega max_int (pos + omega) omega 0 zero_sample (out @ [zero_sample])"
      using False less.prems(4) i by (subst timing_loop.simps) (simp add: zero_sample_def Let_def)
    also have "\<dots> = Some ((out @ [zero_sample]) @ replicate (nat (?c (pos + omega) - 1)) zero_sample)"
      using less.hyps [OF n(2)] less.prems False by simp
    finally show ?thesis by (simp add: n(1))
  qed
qed

text \<open>C39: over silence the resampling loop ends, and the number of symbols it writes is
  a function of the offset and the drift: one for each symbol period, stretched by the drift, that
  ends two samples before the end.  For a drift of 0 or above the \<^verbatim>\<open>in_len / sps + 2\<close> places
  that the receiver allocates are enough.\<close>

theorem timing_silence:
  assumes "2 \<le> sps" and "1 \<le> off" and "\<bar>drift\<bar> \<le> TIMING_MAX_DRIFT" and "off / (1 - drift) + 2 < real n"
    and "k = nat \<lceil>((real n - 2) * (1 - drift) - off) / real sps\<rceil>"
  shows "timing_resample sps (replicate n zero_sample) n off drift = Some (replicate k zero_sample) \<and>
    (0 \<le> drift \<longrightarrow> k \<le> n div sps + 2)"
proof
  have d: "0 < 1 - drift" using assms(3) by (simp add: TIMING_MAX_DRIFT_def)
  let ?pos = "off / (1 - drift)" and ?om = "real sps / (1 - drift)"
  have pos: "0 \<le> ?pos" "0 < ?om" using assms(1,2) d by simp_all
  have q: "(real n - 2 - ?pos) / ?om = ((real n - 2) * (1 - drift) - off) / real sps"
    using d assms(1) by (simp add: field_simps)
  have "0 < real n - 2 - ?pos" using assms(4) by simp
  then have "0 < (real n - 2 - ?pos) / ?om" using pos(2) by (rule divide_pos_pos)
  then have "0 < \<lceil>(real n - 2 - ?pos) / ?om\<rceil>" by (simp only: zero_less_ceiling)
  then have k: "Suc (nat (\<lceil>(real n - 2 - ?pos) / ?om\<rceil> - 1)) = k" unfolding assms(5) q [symmetric] by linarith
  have i: "cubic_interp (replicate n zero_sample) n ?pos = Some zero_sample"
    using pos(1) assms(4) by (intro cubic_interp_silent) simp_all
  have "timing_resample sps (replicate n zero_sample) n off drift =
      Some ([zero_sample] @ replicate (nat (\<lceil>(real n - 2 - ?pos) / ?om\<rceil> - 1)) zero_sample)"
    unfolding timing_resample_def Let_def i option.case
    using timing_loop_silent [OF pos(2) pos(1) assms(4)] assms(4)
    by (simp add: TIMING_MAX_DRIFT_def)
  then show "timing_resample sps (replicate n zero_sample) n off drift = Some (replicate k zero_sample)"
    by (simp flip: k)
  show "0 \<le> drift \<longrightarrow> k \<le> n div sps + 2"
  proof
    assume "0 \<le> drift"
    have "2 < real n" using pos(1) assms(4) by linarith
    then have "(real n - 2) * (1 - drift) \<le> real n - 2"
      using \<open>0 \<le> drift\<close> by (simp add: mult_left_le)
    then have "((real n - 2) * (1 - drift) - off) / real sps \<le> real n / real sps"
      using assms(1,2) by (intro divide_right_mono) simp_all
    also have "\<dots> < real (n div sps) + 1"
      using assms(1) floor_divide_of_nat_eq [of n sps, where ?'a = real] by linarith
    finally show "k \<le> n div sps + 2" unfolding assms(5) by linarith
  qed
qed

text \<open>A drift that the estimate accepts but that is below 0 makes the loop write more symbols than
  the receiver allocates room for.\<close>

theorem timing_silence_witness:
  "timing_resample 4 (replicate 49152 zero_sample) 49152 1 (- 0.002) = Some (replicate 12312 zero_sample) \<and>
   49152 div 4 + 2 < (12312 :: nat)"
  using timing_silence [of 4 1 "- 0.002" 49152 12312]
  by (simp add: TIMING_MAX_DRIFT_def ceiling_eq_iff)

section \<open>A glitch\<close>

definition real_samples :: "real list \<Rightarrow> dvbs2x_complex list" where
  "real_samples xs = map (\<lambda>x. \<lparr>re_i = x, im_q = 0\<rparr>) xs"

definition glitch :: "real list" where
  "glitch = [0, 0, 1 / 10 ^ 6, 0, -1, 0, - 1 / 10 ^ 6, 0, 0, 0, 1, 0, 0, 0, 1, 0, 0, 0, 1, 0, 0, 0, 1, 0]"

lemma quarter_turns:
  "cos (- (2 * pi * 1 / 4)) = 0" "sin (- (2 * pi * 1 / 4)) = -1"
  "cos (- (2 * pi * 2 / 4)) = -1" "sin (- (2 * pi * 2 / 4)) = 0"
  "cos (- (2 * pi * 3 / 4)) = 0" "sin (- (2 * pi * 3 / 4)) = 1"
proof -
  have "2 * pi * 1 / 4 = pi / 2" "2 * pi * 2 / 4 = pi" "2 * pi * 3 / 4 = pi / 2 + pi" by simp_all
  then show "cos (- (2 * pi * 1 / 4)) = 0" "sin (- (2 * pi * 1 / 4)) = -1"
    "cos (- (2 * pi * 2 / 4)) = -1" "sin (- (2 * pi * 2 / 4)) = 0"
    "cos (- (2 * pi * 3 / 4)) = 0" "sin (- (2 * pi * 3 / 4)) = 1"
    by (simp_all only: cos_minus sin_minus cos_pi_half sin_pi_half cos_pi sin_pi cos_periodic_pi sin_periodic_pi
        minus_zero minus_minus)
qed

lemma glitch_estimate: "timing_estimate 4 (real_samples glitch) 24 = (2, 0)"
proof -
  have cs: "map (\<lambda>n. cos (-2 * M_PI * real n / real 4)) [0..<min 4 16] = [1, 0, -1, 0]"
    "map (\<lambda>n. sin (-2 * M_PI * real n / real 4)) [0..<min 4 16] = [0, -1, 0, 1]"
    using quarter_turns by (simp_all add: M_PI_def upt_rec mult.commute)
  have u: "[0..<24] = [0,1,2,3,4,5,6,7,8,9,10,11,12,13,14,15,16,17,18,19,20,21,22,23]" by (simp add: upt_rec)
  have line: "fst (spectral_line 4 (real_samples glitch) 0 24) = 1 - 4 - 2 / 10 ^ 12"
    "fst (snd (spectral_line 4 (real_samples glitch) 0 24)) = 0"
    unfolding spectral_line_def cs Let_def u by (simp_all add: real_samples_def glitch_def)
  have "sgn (Complex (1 - 4 - 2 / 10 ^ 12) 0) = cis pi"
    by (simp add: sgn_eq complex_eq_iff cmod_def)
  then have arg: "atan2 0 (1 - 4 - 2 / 10 ^ 12) = pi" unfolding atan2_def by (rule cis_Arg_unique) simp_all
  have "raise_while 4 1 (- pi * real 4 / (2 * M_PI)) = 2"
    by (simp add: M_PI_def) (subst raise_while.simps, simp, subst raise_while.simps, simp)
  moreover have "[0..<24 div (TIMING_BLOCK_SYMBOLS * 4)] = []" by (simp add: TIMING_BLOCK_SYMBOLS_def)
  ultimately show ?thesis
    using line arg by (simp add: timing_estimate_def Let_def split_beta)
qed


end
