(* ===== verification/RxQueue.thy ===== *)
theory RxQueue
  imports Dvb_Types
begin

text \<open>
  The sample queue of the receiver tool (\<^verbatim>\<open>tools/pluto_rx_queue.c\<close>): a thread reads blocks from the radio into
  a ring of buffers while the decoder takes them out.  Each thread is cut at its accesses to the shared
  positions and flags, and the steps of the two interleave in any order; memory is sequentially consistent.
  What the radio delivers, when the deadline passes and whether the capture file takes a block are inputs of
  the producer's steps: a read leaves some samples in the block whatever its outcome.  Every index is below the
  number of blocks, so that the \<^verbatim>\<open>unsigned int\<close> arithmetic does not wrap around.
  \<open>rx_sent\<close> and \<open>rx_got\<close> record the blocks published and acquired.
\<close>

section \<open>States and steps\<close>

record pluto_rx_queue =
  q_blocks :: "dvbs2x_complex list list"
  q_num_blocks :: nat
  q_read_pos :: nat
  q_write_pos :: nat
  q_stop :: bool
  q_done :: bool
  q_error :: bool
  q_received_samples :: nat
  q_high_water :: nat
  q_backpressure :: nat

datatype rx_read = Read_Ok "dvbs2x_complex list" | Read_Retry "dvbs2x_complex list" | Read_Failed "dvbs2x_complex list"

text \<open>Where the receiving thread is, with the value of \<^verbatim>\<open>queue_full\<close>, the block being filled or the one just
  published.\<close>

datatype rx_producer = P_Loop bool | P_Space bool | P_Read | P_Publish | P_Count nat | P_Depth | P_Exit | P_End

text \<open>Where the decoding thread is: outside, between its two looks at the queue in \<^verbatim>\<open>acquire\<close>, holding a block, or
  told that there is no more.\<close>

datatype rx_consumer = C_Idle | C_Empty | C_Held | C_End int

record rx_system =
  rx_queue :: pluto_rx_queue
  rx_prod :: rx_producer
  rx_cons :: rx_consumer
  rx_sent :: "dvbs2x_complex list list"
  rx_got :: "dvbs2x_complex list list"

definition queue_next :: "pluto_rx_queue \<Rightarrow> nat \<Rightarrow> nat" where
  "queue_next q pos = (pos + 1) mod q_num_blocks q"

definition queue_depth :: "pluto_rx_queue \<Rightarrow> nat" where
  "queue_depth q = (q_write_pos q + q_num_blocks q - q_read_pos q) mod q_num_blocks q"

definition receive_step :: "bool \<Rightarrow> rx_read \<Rightarrow> bool \<Rightarrow> rx_system \<Rightarrow> rx_system" where
  "receive_step deadline rd captured s =
     (let q = rx_queue s; pos = q_write_pos q
      in case rx_prod s of
           P_Loop full \<Rightarrow> s\<lparr>rx_prod := (if q_stop q \<or> deadline then P_Exit else P_Space full)\<rparr>
         | P_Space full \<Rightarrow>
             if queue_next q pos = q_read_pos q
             then s\<lparr>rx_queue := (if full then q else q\<lparr>q_backpressure := (q_backpressure q + 1) mod 2 ^ 32\<rparr>),
                    rx_prod := P_Loop True\<rparr>
             else s\<lparr>rx_prod := P_Read\<rparr>
         | P_Read \<Rightarrow>
             (case rd of
                Read_Failed xs \<Rightarrow>
                  s\<lparr>rx_queue := q\<lparr>q_blocks := (q_blocks q)[pos := xs], q_error := q_error q \<or> \<not> q_stop q\<rparr>,
                    rx_prod := P_Exit\<rparr>
              | Read_Retry xs \<Rightarrow> s\<lparr>rx_queue := q\<lparr>q_blocks := (q_blocks q)[pos := xs]\<rparr>, rx_prod := P_Loop False\<rparr>
              | Read_Ok xs \<Rightarrow>
                  if captured then s\<lparr>rx_queue := q\<lparr>q_blocks := (q_blocks q)[pos := xs]\<rparr>, rx_prod := P_Publish\<rparr>
                  else s\<lparr>rx_queue := q\<lparr>q_blocks := (q_blocks q)[pos := xs], q_error := True\<rparr>, rx_prod := P_Exit\<rparr>)
         | P_Publish \<Rightarrow>
             s\<lparr>rx_queue := q\<lparr>q_write_pos := queue_next q pos\<rparr>, rx_prod := P_Count pos,
               rx_sent := rx_sent s @ [q_blocks q ! pos]\<rparr>
         | P_Count b \<Rightarrow>
             s\<lparr>rx_queue := q\<lparr>q_received_samples := (q_received_samples q + length (q_blocks q ! b)) mod 2 ^ 64\<rparr>,
               rx_prod := P_Depth\<rparr>
         | P_Depth \<Rightarrow>
             s\<lparr>rx_queue := q\<lparr>q_high_water := max (q_high_water q) (queue_depth q)\<rparr>, rx_prod := P_Loop False\<rparr>
         | P_Exit \<Rightarrow> s\<lparr>rx_queue := q\<lparr>q_done := True\<rparr>, rx_prod := P_End\<rparr>
         | P_End \<Rightarrow> s)"

definition acquire_step :: "rx_system \<Rightarrow> rx_system" where
  "acquire_step s =
     (let q = rx_queue s
      in case rx_cons s of
           C_Idle \<Rightarrow>
             if q_read_pos q \<noteq> q_write_pos q
             then s\<lparr>rx_cons := C_Held, rx_got := rx_got s @ [q_blocks q ! q_read_pos q]\<rparr>
             else s\<lparr>rx_cons := C_Empty\<rparr>
         | C_Empty \<Rightarrow> s\<lparr>rx_cons := (if q_done q then C_End (if q_error q then -1 else 1) else C_Idle)\<rparr>
         | _ \<Rightarrow> s)"

definition release_step :: "rx_system \<Rightarrow> rx_system" where
  "release_step s =
     (let q = rx_queue s
      in case rx_cons s of
           C_Held \<Rightarrow> s\<lparr>rx_queue := q\<lparr>q_read_pos := queue_next q (q_read_pos q)\<rparr>, rx_cons := C_Idle\<rparr>
         | _ \<Rightarrow> s)"

text \<open>\<open>resources\<close> says whether the arrays and the thread could be created.\<close>

definition pluto_rx_queue_start :: "bool \<Rightarrow> nat \<Rightarrow> nat \<Rightarrow> pluto_rx_queue option" where
  "pluto_rx_queue_start resources block_samples num_blocks =
     (if block_samples = 0 \<or> num_blocks < 2 \<or> (2 ^ 64 - 1) div block_samples div 16 < num_blocks then None
      else if \<not> resources then None
      else Some \<lparr>q_blocks = replicate num_blocks [], q_num_blocks = num_blocks, q_read_pos = 0, q_write_pos = 0,
                 q_stop = False, q_done = False, q_error = False, q_received_samples = 0, q_high_water = 0,
                 q_backpressure = 0\<rparr>)"

definition pluto_rx_queue_get_stats :: "pluto_rx_queue \<Rightarrow> nat \<times> nat \<times> nat \<times> nat" where
  "pluto_rx_queue_get_stats q = (q_received_samples q, queue_depth q, q_high_water q, q_backpressure q)"

definition rx_start :: "pluto_rx_queue \<Rightarrow> rx_system" where
  "rx_start q = \<lparr>rx_queue = q, rx_prod = P_Loop False, rx_cons = C_Idle, rx_sent = [], rx_got = []\<rparr>"

inductive rx_reach :: "pluto_rx_queue \<Rightarrow> rx_system \<Rightarrow> bool" for q0 where
  start: "rx_reach q0 (rx_start q0)"
| receive: "rx_reach q0 s \<Longrightarrow> rx_reach q0 (receive_step deadline rd captured s)"
| acquire: "rx_reach q0 s \<Longrightarrow> rx_reach q0 (acquire_step s)"
| release: "rx_reach q0 s \<Longrightarrow> rx_reach q0 (release_step s)"
| stop: "rx_reach q0 s \<Longrightarrow> rx_reach q0 (s\<lparr>rx_queue := (rx_queue s)\<lparr>q_stop := True\<rparr>\<rparr>)"

section \<open>Invariant\<close>

text \<open>The published blocks not yet released, in order.\<close>

definition queue_contents :: "pluto_rx_queue \<Rightarrow> dvbs2x_complex list list" where
  "queue_contents q = map (\<lambda>j. q_blocks q ! ((q_read_pos q + j) mod q_num_blocks q)) [0..<queue_depth q]"

definition released :: "rx_system \<Rightarrow> dvbs2x_complex list list" where
  "released s = (if rx_cons s = C_Held then butlast (rx_got s) else rx_got s)"

definition rx_inv :: "rx_system \<Rightarrow> bool" where
  "rx_inv s \<longleftrightarrow>
     (let q = rx_queue s
      in 2 \<le> q_num_blocks q \<and> length (q_blocks q) = q_num_blocks q \<and> q_read_pos q < q_num_blocks q \<and>
         q_write_pos q < q_num_blocks q \<and> rx_sent s = released s @ queue_contents q \<and>
         (rx_prod s \<in> {P_Read, P_Publish} \<longrightarrow> queue_next q (q_write_pos q) \<noteq> q_read_pos q) \<and>
         (rx_cons s = C_Held \<longrightarrow> q_read_pos q \<noteq> q_write_pos q \<and> rx_got s \<noteq> [] \<and>
            last (rx_got s) = q_blocks q ! q_read_pos q) \<and>
         q_high_water q < q_num_blocks q)"

lemma depth_cases:
  fixes r w n :: nat
  assumes "r < n" "w < n"
  shows "(w + n - r) mod n = (if r \<le> w then w - r else w + n - r)"
proof (cases "r \<le> w")
  case True
  then have "w + n - r = (w - r) + n" by simp
  then show ?thesis using assms True by (simp only: mod_add_self2) simp
qed (use assms in simp)

lemma ring_next: "w < n \<Longrightarrow> Suc w mod n = (if Suc w = n then 0 else Suc w)"
  by auto

lemma ring_add:
  fixes r j n :: nat
  assumes "r < n" "j < n"
  shows "(r + j) mod n = (if r + j < n then r + j else r + j - n)"
proof (cases "r + j < n")
  case False
  then have "(r + j) mod n = (r + j - n) mod n" by (simp add: le_mod_geq)
  then show ?thesis using False assms by simp
qed simp

text \<open>Publishing and releasing change the depth by one.\<close>

lemma ring_grow:
  fixes r w n :: nat
  assumes "r < n" "w < n" "(w + 1) mod n \<noteq> r"
  shows "((w + 1) mod n + n - r) mod n = (w + n - r) mod n + 1"
  using assms depth_cases [of r n w] depth_cases [of r n "Suc w"] depth_cases [of r n 0]
  by (cases "Suc w = n") (auto simp: ring_next split: if_splits)

lemma ring_shrink:
  fixes r w n :: nat
  assumes "r < n" "w < n" "r \<noteq> w"
  shows "(w + n - r) mod n = Suc ((w + n - (r + 1) mod n) mod n)"
  using assms depth_cases [of r n w] depth_cases [of "Suc r" n w] depth_cases [of 0 n w]
  by (cases "Suc r = n") (auto simp: ring_next split: if_splits)

text \<open>The ring between the read and the write position.\<close>

lemma ring_slots:
  fixes r w n :: nat
  assumes "r < n" "w < n" "j < (w + n - r) mod n"
  shows "w \<noteq> (r + j) mod n"
proof -
  have "j < n" using assms mod_less_divisor [of n "w + n - r"] by linarith
  then show ?thesis using assms by (auto simp: depth_cases ring_add split: if_splits)
qed

lemma contents_write:
  assumes "q_read_pos q < q_num_blocks q" "q_write_pos q < q_num_blocks q"
  shows "queue_contents (q\<lparr>q_blocks := (q_blocks q)[q_write_pos q := xs]\<rparr>) = queue_contents q"
  unfolding queue_contents_def queue_depth_def
  using ring_slots [OF assms] by auto

lemma contents_publish:
  assumes r: "q_read_pos q < q_num_blocks q" and w: "q_write_pos q < q_num_blocks q"
    and room: "queue_next q (q_write_pos q) \<noteq> q_read_pos q"
  shows "queue_contents (q\<lparr>q_write_pos := queue_next q (q_write_pos q)\<rparr>) = queue_contents q @ [q_blocks q ! q_write_pos q]"
proof -
  let ?n = "q_num_blocks q" and ?r = "q_read_pos q" and ?w = "q_write_pos q"
  have "((?w + 1) mod ?n + ?n - ?r) mod ?n = (?w + ?n - ?r) mod ?n + 1"
    using ring_grow r w room by (simp add: queue_next_def)
  moreover have "(?r + (?w + ?n - ?r) mod ?n) mod ?n = ?w"
    using r w by (simp add: mod_add_right_eq)
  ultimately show ?thesis by (simp add: queue_contents_def queue_depth_def queue_next_def)
qed

lemma contents_release:
  assumes r: "q_read_pos q < q_num_blocks q" and w: "q_write_pos q < q_num_blocks q"
    and ne: "q_read_pos q \<noteq> q_write_pos q"
  shows "queue_contents q = q_blocks q ! q_read_pos q #
    queue_contents (q\<lparr>q_read_pos := queue_next q (q_read_pos q)\<rparr>)"
proof -
  let ?n = "q_num_blocks q" and ?r = "q_read_pos q" and ?w = "q_write_pos q"
  have "(?w + ?n - ?r) mod ?n = Suc ((?w + ?n - (?r + 1) mod ?n) mod ?n)"
    using ring_shrink r w ne by simp
  moreover have "(?r + Suc j) mod ?n = ((?r + 1) mod ?n + j) mod ?n" for j
    by (simp add: mod_add_left_eq)
  ultimately show ?thesis
    using r by (simp add: queue_contents_def queue_depth_def queue_next_def upt_conv_Cons map_Suc_upt [symmetric]
        del: upt_Suc)
qed

lemma contents_other [simp]:
  "queue_contents (q\<lparr>q_stop := b\<rparr>) = queue_contents q" "queue_contents (q\<lparr>q_done := b\<rparr>) = queue_contents q"
  "queue_contents (q\<lparr>q_error := b\<rparr>) = queue_contents q" "queue_contents (q\<lparr>q_received_samples := k\<rparr>) = queue_contents q"
  "queue_contents (q\<lparr>q_high_water := k\<rparr>) = queue_contents q" "queue_contents (q\<lparr>q_backpressure := k\<rparr>) = queue_contents q"
  by (simp_all add: queue_contents_def queue_depth_def)

lemma depth_less: "2 \<le> q_num_blocks q \<Longrightarrow> queue_depth q < q_num_blocks q"
  by (simp add: queue_depth_def)

lemma receive_inv:
  assumes "rx_inv s"
  shows "rx_inv (receive_step deadline rd captured s)"
proof -
  let ?q = "rx_queue s"
  note inv = assms [unfolded rx_inv_def Let_def]
  have wr: "queue_contents (?q\<lparr>q_blocks := (q_blocks ?q)[q_write_pos ?q := xs]\<rparr>) = queue_contents ?q" for xs
    using inv by (intro contents_write) simp_all
  have wr2: "queue_contents (?q\<lparr>q_blocks := (q_blocks ?q)[q_write_pos ?q := xs], q_error := e\<rparr>) = queue_contents ?q" for xs e
    using wr by simp
  have depth: "queue_depth ?q < q_num_blocks ?q" using inv by (intro depth_less) simp
  show ?thesis
  proof (cases "rx_prod s")
    case P_Publish
    then have "queue_contents (?q\<lparr>q_write_pos := queue_next ?q (q_write_pos ?q)\<rparr>) =
        queue_contents ?q @ [q_blocks ?q ! q_write_pos ?q]"
      using inv by (intro contents_publish) simp_all
    moreover have "q_read_pos ?q \<noteq> queue_next ?q (q_write_pos ?q)" using inv P_Publish by auto
    moreover have "queue_next ?q (q_write_pos ?q) < q_num_blocks ?q" using inv by (simp add: queue_next_def)
    ultimately show ?thesis
      using inv P_Publish
      by (simp add: receive_step_def Let_def rx_inv_def released_def)
  next
    case P_Read
    then show ?thesis
      using inv wr wr2
      by (cases rd) (auto simp: receive_step_def Let_def rx_inv_def released_def queue_next_def)
  qed (use inv depth in \<open>auto simp: receive_step_def Let_def rx_inv_def released_def queue_next_def\<close>)
qed

lemma acquire_inv:
  assumes "rx_inv s"
  shows "rx_inv (acquire_step s)"
  using assms by (cases "rx_cons s") (auto simp: acquire_step_def Let_def rx_inv_def released_def)

lemma release_inv:
  assumes "rx_inv s"
  shows "rx_inv (release_step s)"
proof (cases "rx_cons s = C_Held")
  case True
  let ?q = "rx_queue s"
  note inv = assms [unfolded rx_inv_def Let_def]
  have c: "queue_contents ?q = q_blocks ?q ! q_read_pos ?q # queue_contents (?q\<lparr>q_read_pos := queue_next ?q (q_read_pos ?q)\<rparr>)"
    using inv True by (intro contents_release) simp_all
  have g: "rx_got s = butlast (rx_got s) @ [q_blocks ?q ! q_read_pos ?q]"
    using inv True by (metis append_butlast_last_id)
  have "rx_sent s = rx_got s @ queue_contents (?q\<lparr>q_read_pos := queue_next ?q (q_read_pos ?q)\<rparr>)"
    using inv True c by (subst g) (simp add: released_def)
  moreover have "queue_next ?q (q_read_pos ?q) < q_num_blocks ?q" using inv by (simp add: queue_next_def)
  moreover have "queue_next ?q (q_write_pos ?q) \<noteq> queue_next ?q (q_read_pos ?q)"
    using inv True by (auto simp: queue_next_def ring_next split: if_splits)
  ultimately show ?thesis
    using inv True by (simp add: release_step_def Let_def rx_inv_def released_def queue_next_def)
next
  case False
  then have "release_step s = s" by (cases "rx_cons s") (simp_all add: release_step_def Let_def)
  then show ?thesis using assms by simp
qed

lemma rx_reach_inv:
  assumes "rx_reach q0 s" "pluto_rx_queue_start resources block_samples num_blocks = Some q0"
  shows "rx_inv s \<and> q_num_blocks (rx_queue s) = num_blocks"
  using assms
proof induction
  case start
  then show ?case
    by (auto simp: pluto_rx_queue_start_def rx_inv_def rx_start_def released_def queue_contents_def queue_depth_def Let_def
        split: if_splits)
next
  case (receive s deadline rd captured)
  have "q_num_blocks (rx_queue (receive_step deadline rd captured s)) = q_num_blocks (rx_queue s)"
    by (simp add: receive_step_def Let_def split: rx_producer.split rx_read.split)
  then show ?case using receive receive_inv by simp
next
  case (acquire s)
  have "q_num_blocks (rx_queue (acquire_step s)) = q_num_blocks (rx_queue s)"
    by (simp add: acquire_step_def Let_def split: rx_consumer.split)
  then show ?case using acquire acquire_inv by simp
next
  case (release s)
  have "q_num_blocks (rx_queue (release_step s)) = q_num_blocks (rx_queue s)"
    by (simp add: release_step_def Let_def split: rx_consumer.split)
  then show ?case using release release_inv by simp
next
  case (stop s)
  then show ?case by (auto simp: rx_inv_def Let_def released_def queue_next_def)
qed

section \<open>Properties\<close>

text \<open>C23: however the steps of the receiving and the decoding thread interleave, and whatever the radio, the deadline and
  the capture file do, the blocks acquired are the blocks published, in order and each once; the block that the
  decoder holds is not written while it holds it; and the statistics count the blocks not yet released, which with
  their high water mark stay below the number of blocks.\<close>

theorem rx_queue_fifo:
  assumes "pluto_rx_queue_start resources block_samples num_blocks = Some q0" and "rx_reach q0 s"
  shows "rx_got s = take (length (rx_got s)) (rx_sent s) \<and>
    (rx_cons s = C_Held \<longrightarrow> q_blocks (rx_queue s) ! q_read_pos (rx_queue s) = last (rx_got s) \<and>
       (rx_prod s \<in> {P_Read, P_Publish} \<longrightarrow> q_write_pos (rx_queue s) \<noteq> q_read_pos (rx_queue s))) \<and>
    (case pluto_rx_queue_get_stats (rx_queue s) of (_, queued, high_water, _) \<Rightarrow>
       queued = length (rx_sent s) - length (released s) \<and> queued < num_blocks \<and> high_water < num_blocks)"
proof -
  let ?q = "rx_queue s"
  have s: "rx_inv s" "q_num_blocks ?q = num_blocks" using rx_reach_inv [OF assms(2,1)] by simp_all
  note inv = s(1) [unfolded rx_inv_def Let_def]
  have len: "queue_depth ?q = length (rx_sent s) - length (released s)" "queue_depth ?q < num_blocks"
    using depth_less [of ?q] inv s(2) by (simp_all add: queue_contents_def)
  have "rx_got s = take (length (rx_got s)) (rx_sent s)"
  proof (cases "rx_cons s = C_Held")
    case True
    have "queue_contents ?q = q_blocks ?q ! q_read_pos ?q # queue_contents (?q\<lparr>q_read_pos := queue_next ?q (q_read_pos ?q)\<rparr>)"
      using inv True by (intro contents_release) simp_all
    moreover have "rx_got s = butlast (rx_got s) @ [q_blocks ?q ! q_read_pos ?q]"
      using inv True by (metis append_butlast_last_id)
    ultimately have "rx_sent s = rx_got s @ queue_contents (?q\<lparr>q_read_pos := queue_next ?q (q_read_pos ?q)\<rparr>)"
      using inv True by (simp add: released_def)
    then show ?thesis by simp
  next
    case False
    then show ?thesis using inv by (simp add: released_def)
  qed
  then show ?thesis using inv len s(2) by (auto simp: pluto_rx_queue_get_stats_def)
qed

theorem rx_queue_fifo_witness:
  "\<exists>q0 s. pluto_rx_queue_start True 4 2 = Some q0 \<and> rx_reach q0 s \<and> rx_prod s = P_Space False \<and>
     (case pluto_rx_queue_get_stats (rx_queue s) of (_, queued, high_water, _) \<Rightarrow> queued < 2 \<and> high_water < 2)"
proof -
  obtain q0 where q0: "pluto_rx_queue_start True 4 2 = Some q0" by (simp add: pluto_rx_queue_start_def)
  define s where "s = receive_step False (Read_Retry []) True (rx_start q0)"
  have s: "rx_reach q0 s" unfolding s_def by (intro rx_reach.receive rx_reach.start)
  have "rx_prod s = P_Space False"
    using q0 by (auto simp: s_def receive_step_def rx_start_def pluto_rx_queue_start_def Let_def)
  then show ?thesis using rx_queue_fifo [OF q0 s] q0 s by (intro exI [of _ q0] exI [of _ s]) auto
qed

text \<open>The end of the stream can overtake blocks: the decoding thread looks at the positions first and at the end flag
  second, and between the two the other thread can publish a block and finish.\<close>

lemma rx_queue_loses_last:
  assumes "pluto_rx_queue_start resources block_samples num_blocks = Some q0"
  shows "\<exists>s. rx_reach q0 s \<and> rx_cons s = C_End 1 \<and> rx_got s = [] \<and> rx_sent s = [xs]"
proof -
  define here where "here p c d w sent s \<longleftrightarrow>
      rx_prod s = p \<and> rx_cons s = c \<and> rx_sent s = sent \<and> rx_got s = [] \<and> \<not> q_stop (rx_queue s) \<and> q_done (rx_queue s) = d \<and>
      \<not> q_error (rx_queue s) \<and> q_read_pos (rx_queue s) = 0 \<and> q_write_pos (rx_queue s) = w \<and>
      2 \<le> q_num_blocks (rx_queue s) \<and> q_blocks (rx_queue s) \<noteq> [] \<and> (p = P_Publish \<longrightarrow> q_blocks (rx_queue s) ! 0 = xs)"
    for p c d w sent and s :: rx_system
  let ?go = "receive_step False (Read_Ok xs) True" and ?fin = "receive_step True (Read_Ok xs) True"
  note step = here_def receive_step_def acquire_step_def queue_next_def Let_def
  have init: "here (P_Loop False) C_Idle False 0 [] (rx_start q0)"
    using assms by (auto simp: here_def rx_start_def pluto_rx_queue_start_def split: if_splits)
  have a1: "here (P_Loop False) C_Empty False 0 [] (acquire_step s)" if "here (P_Loop False) C_Idle False 0 [] s" for s
    using that by (simp add: step)
  have p1: "here (P_Space False) C_Empty False 0 [] (?go s)" if "here (P_Loop False) C_Empty False 0 [] s" for s
    using that by (simp add: step)
  have p2: "here P_Read C_Empty False 0 [] (?go s)" if "here (P_Space False) C_Empty False 0 [] s" for s
    using that by (simp add: step)
  have p3: "here P_Publish C_Empty False 0 [] (?go s)" if "here P_Read C_Empty False 0 [] s" for s
    using that by (simp add: step)
  have p4: "here (P_Count 0) C_Empty False 1 [xs] (?go s)" if "here P_Publish C_Empty False 0 [] s" for s
    using that by (simp add: step)
  have p5: "here P_Depth C_Empty False 1 [xs] (?go s)" if "here (P_Count 0) C_Empty False 1 [xs] s" for s
    using that by (simp add: step)
  have p6: "here (P_Loop False) C_Empty False 1 [xs] (?go s)" if "here P_Depth C_Empty False 1 [xs] s" for s
    using that by (simp add: step)
  have p7: "here P_Exit C_Empty False 1 [xs] (?fin s)" if "here (P_Loop False) C_Empty False 1 [xs] s" for s
    using that by (simp add: step)
  have p8: "here P_End C_Empty True 1 [xs] (?fin s)" if "here P_Exit C_Empty False 1 [xs] s" for s
    using that by (simp add: step)
  have a2: "here P_End (C_End 1) True 1 [xs] (acquire_step s)" if "here P_End C_Empty True 1 [xs] s" for s
    using that by (simp add: step)
  let ?s = "acquire_step (?fin (?fin (?go (?go (?go (?go (?go (?go (acquire_step (rx_start q0))))))))))"
  have "here P_End (C_End 1) True 1 [xs] ?s"
    by (intro a2 p8 p7 p6 p5 p4 p3 p2 p1 a1 init)
  moreover have "rx_reach q0 ?s"
    by (intro rx_reach.acquire rx_reach.receive rx_reach.start)
  ultimately show ?thesis by (auto simp: here_def)
qed

end
