(* ===== verification/Spec2Isabelle.thy ===== *)
theory Spec2Isabelle
  imports TsAdapt Scrambler Layout Mapper Spsc Protocol Ldpc LdpcConverge PlHeader Bch WhHeader PlFrame
    EndToEnd LockMachine TimingLimits RxQueue
begin

text \<open>
  \<^bold>\<open>A verification development for the DVB-S2X VL-SNR modem library\<close>

  The library turns user bits or MPEG transport stream packets into the frames of the very-low-SNR modes of
  DVB-S2X, and finds, demodulates and decodes such frames in a stream of complex samples.  Beside the codec there is a
  framing protocol for sending frames over sockets, a lock-free ring buffer, and a tool that feeds the decoder from a
  radio.

  \<^bold>\<open>The transmit chain\<close> (\<^verbatim>\<open>modulator_top.c\<close>) builds a baseband frame (\<^verbatim>\<open>bb_frame.c\<close>), adds BCH parity
  (\<^verbatim>\<open>bch_encode.c\<close>), pads it with shortening zeros, adds LDPC parity (\<^verbatim>\<open>ldpc_encode.c\<close>), drops the shortened and the
  punctured bits, maps bits to symbols (\<^verbatim>\<open>modulate.c\<close>), inserts pilots (\<^verbatim>\<open>vlsnr_layout.c\<close>, \<^verbatim>\<open>pilot_insert.c\<close>),
  scrambles the data field (\<^verbatim>\<open>scrambler.c\<close>), puts the PL header (\<^verbatim>\<open>plheader_gen.c\<close>) and the VL-SNR header
  (\<^verbatim>\<open>vlsnr_header_gen.c\<close>) in front, and filters the symbols (\<^verbatim>\<open>filter.c\<close>).  \<^bold>\<open>The receive chain\<close>
  (\<^verbatim>\<open>demodulator_top.c\<close>) undoes it: matched filter, symbol timing (\<^verbatim>\<open>sync_timing.c\<close>), blind carrier
  estimate, frame search, level and noise estimates, multi-frame frequency control (\<^verbatim>\<open>sync_afc.c\<close>), descrambling,
  residual carrier tracking, soft demapping (\<^verbatim>\<open>demodulate.c\<close>), depuncturing, LDPC and BCH decoding
  (\<^verbatim>\<open>ldpc_decode.c\<close>, \<^verbatim>\<open>bch_decode.c\<close>) and baseband parsing; in the continuous mode a buffer and a lock
  state machine carry state from call to call.

  \<^bold>\<open>Theories\<close>, in the order they build on each other.  A definition has the name of the C function it
  translates; a part of a function has a name of its own, and the manifest gives the lines.

    \<^item> \<open>Prelude\<close>: C integers as words, status codes, bytes and bits, writes into arrays (\<open>overwrite\<close>), and the locales:
      \<open>linear_register\<close> (cyclic codes; interpreted for CRC-8 in \<open>BbFrame\<close> and CRC-32 in \<open>Crc32\<close>), \<open>keystream\<close> (a
      state-driven transformation with an inverse; the BB scrambler and the PL scrambler), \<open>elem_fifo\<close> and
      \<open>batch_fifo\<close> (a bounded queue; the ring buffer).
    \<^item> \<open>Dvb_Types\<close>, \<open>Modcod\<close>: the constants and types of \<^verbatim>\<open>dvbs2x_types.h\<close> and the table of the nine MODCODs.
    \<^item> \<open>BbFrame\<close>, \<open>TsAdapt\<close>: baseband frames and the transport stream adaptation, both of \<^verbatim>\<open>bb_frame.c\<close>.
    \<^item> \<open>Scrambler\<close>, \<open>Layout\<close>, \<open>Mapper\<close>, \<open>PlHeader\<close>, \<open>WhHeader\<close>, \<open>RrcFilter\<close>: the components of the physical layer.
    \<^item> \<open>LdpcTables\<close>, \<open>Ldpc\<close>, \<open>LdpcDecode\<close>, \<open>LdpcConverge\<close>: the address tables, the encoder and the parity-check
      matrix, the decoder, and what its check node update and one sweep achieve.
    \<^item> \<open>Gf2m\<close>, \<open>KeyEquation\<close>, \<open>BchEncode\<close>, \<open>BchDecode\<close>, \<open>Bch\<close>: the fields of \<open>2^14\<close>, \<open>2^15\<close> and \<open>2^16\<close> elements as
      instances of the class \<open>field\<close>, with the locales \<open>shift_register\<close>, \<open>primitive_poly\<close> and \<open>gf_code\<close>; the
      Berlekamp-Massey iteration over any field; encoder, decoder, and the two together.
    \<^item> \<open>Modulator\<close>, \<open>PlFrame\<close>: the transmit chain, and the frame it produces as a function of the bits (\<open>pl_frame\<close>).
    \<^item> \<open>Fft\<close>, \<open>HeaderSync\<close>, \<open>FrameStart\<close>: the transform of the frame search, the search, and where it settles in a frame.
    \<^item> \<open>Carrier\<close>, \<open>Timing\<close>, \<open>TimingLimits\<close>, \<open>SyncEst\<close>: carrier recovery, symbol timing and how far its loop runs,
      and the stand-alone estimators of the context.
    \<^item> \<open>Demodulator\<close>, \<open>DemodStream\<close>: the receive chain and the continuous mode.
    \<^item> \<open>Payload\<close>, \<open>Receiver\<close>, \<open>EndToEnd\<close>: the receiver on frames of the transmitter, up to the round trip of the two.
    \<^item> \<open>DemodKeeps\<close>, \<open>StreamSafe\<close>, \<open>LockMachine\<close>: what the receiver's calls keep (\<open>rx_kept\<close>, \<open>receiver_inv\<close>), the stream
      buffer as a queue, and the lock state machine against its specification.
    \<^item> \<open>Ringbuf\<close>, \<open>Spsc\<close>: the ring buffer of \<^verbatim>\<open>streaming/include/dvbs2x_ringbuf.h\<close>, called in sequence and by two threads.
    \<^item> \<open>Crc32\<close>, \<open>Protocol\<close>: the framing of \<^verbatim>\<open>streaming/src/protocol.c\<close>.
    \<^item> \<open>RxQueue\<close>: the sample queue of \<^verbatim>\<open>tools/pluto_rx_queue.c\<close>, with the steps of its two threads.

  \<^bold>\<open>What the properties show.\<close>  For the whole (theory \<open>EndToEnd\<close>): a frame that arrives without noise but with an
  unknown phase, level and carrier offset is received as the bits sent.  For each component its contract: the BCH decoder
  corrects every pattern of up to 12 errors; the LDPC encoder and the decoder's matrix describe the same code,
  the decoder reports success exactly on codewords, and one sweep recovers the erased bits of a confident codeword; the
  frame search finds a header wherever it is; the frequency offset is removed exactly; the transform is the discrete
  Fourier transform; the PL header survives noise up to a stated bound; scrambling, pilots, mapping, baseband
  frames, transport packets and protocol frames survive their round trips; corrupted headers are rejected; the modulator, the
  receiver, the ring buffer and the sample queue keep their invariants through every sequence, or interleaving, of calls.
  Error paths are values: an operation returns the status, the outputs it wrote and the context it left, on every
  branch, and a null pointer is \<open>None\<close>.

  \<^bold>\<open>Conventions.\<close>  \<^verbatim>\<open>unsigned int\<close> is \<open>nat\<close> with the wrap-around written out where it can happen (\<open>usub\<close>, \<open>mod\<close>), and a word
  where the code computes with bits or relies on wrapping (bytes, ring buffer indices, sequence numbers, CRCs).  \<^verbatim>\<open>double\<close>
  is \<open>real\<close>, \<^verbatim>\<open>M_PI\<close> is \<open>pi\<close> and \<^verbatim>\<open>atan2\<close> the argument of a complex number, so rounding is not part of the model; the
  theorems about the receiver leave margins (a third of the amplitude per component).  Which allocations succeed is a
  parameter of every function that allocates, and what other threads do to the cancellation flag one of the
  receiver.  An access outside an array is \<open>None\<close> where the code can make one.

  \<^bold>\<open>Loops.\<close>  Every loop of the code is a recursion with a termination proof, or a fold over its index range, except two that
  may not end: the timing loop, a partial function whose result over silence, and an input on which it leaves its
  array, are in theory \<open>TimingLimits\<close>, and the loop over conjugates of the BCH encoder, which theory \<open>Bch\<close> shows
  to end.

  \<^bold>\<open>Not modelled\<close>: the platform layer, TCP and UDP (\<^verbatim>\<open>streaming/src\<close>, wrappers of operating system calls), the radio
  programs of \<^verbatim>\<open>tools/\<close> apart from the queue (they call libiio, which is not part of the repository), the version
  functions and the tests.
\<close>

end
